(* ===== verification/Prelude.thy ===== *)
theory Prelude
  imports Complex_Main "HOL-Library.Word"
begin

text \<open>
  Shared vocabulary of the development: how Python values, strings, bytes, errors and
  wall-clock times are represented, the generic list lemmas the components use, and two
  interfaces that several components implement (a sequence that keeps its newest entries,
  and a step relation with an inductive invariant).

  \<^item> A Python \<open>str\<close> is the list of its code points (\<open>pystr\<close>), so that lone surrogates and
    characters outside ASCII are values of the model; \<open>py ''abc''\<close> is the ASCII literal.
  \<^item> A Python \<open>bytes\<close> is a list of 8-bit words.
  \<^item> A \<open>float\<close> that holds a time is a rational: comparisons are exact, and the one
    subtraction the code makes (an age) is taken without its final rounding.
  \<^item> An exception is the left value of a sum.
\<close>

type_synonym pystr = "nat list"

type_synonym bytes = "8 word list"

type_synonym time = rat

definition py :: "string \<Rightarrow> pystr" where
  "py s = map of_char s"

definition bs :: "string \<Rightarrow> bytes" where
  "bs s = map of_char s"

definition lastn :: "nat \<Rightarrow> 'a list \<Rightarrow> 'a list" where
  "lastn n xs = drop (length xs - n) xs"

named_theorems state_defs \<open>definitions of the operations of stateful components\<close>

named_theorems frame_simps \<open>fields an operation leaves alone\<close>

subsection \<open>Sequences\<close>

lemma py_Nil [simp]: "py [] = []"
  by (simp add: py_def)

lemma lastn_all [simp]: "length xs \<le> n \<Longrightarrow> lastn n xs = xs"
  by (simp add: lastn_def)

lemma lastn_Nil [simp]: "lastn n [] = []"
  by (simp add: lastn_def)

lemma length_lastn [simp]: "length (lastn n xs) = min n (length xs)"
  by (simp add: lastn_def)

lemma set_lastn: "set (lastn n xs) \<subseteq> set xs"
  by (simp add: lastn_def set_drop_subset)

lemma lastn_Cons [simp]:
  "lastn n (x # xs) = (if n \<le> length xs then lastn n xs else x # xs)"
  by (simp add: lastn_def Suc_diff_le)

lemma lastn_append:
  "lastn n (xs @ ys) = lastn (n - length ys) xs @ lastn n ys"
  by (cases "length ys \<le> n") (auto simp: lastn_def)

lemma lastn_lastn_append [simp]:
  "lastn n (lastn n xs @ ys) = lastn n (xs @ ys)"
  by (cases "n \<le> length xs") (auto simp: lastn_def add.commute)

lemma lastn_snoc_full:
  "0 < n \<Longrightarrow> length xs = n \<Longrightarrow> lastn n (xs @ [x]) = tl xs @ [x]"
  by (cases xs) (auto simp: lastn_def)

lemma distinct_snoc: "distinct xs \<Longrightarrow> x \<notin> set xs \<Longrightarrow> distinct (xs @ [x])"
  by simp

lemma map_lastn: "map f (lastn n xs) = lastn n (map f xs)"
  by (simp add: lastn_def drop_map)

lemma lastn_append_long: "n \<le> length ys \<Longrightarrow> lastn n (xs @ ys) = lastn n ys"
  by (simp add: lastn_append) (simp add: lastn_def)

lemma lastn_filter_snoc:
  assumes "n \<le> Suc (length (filter P (lastn n xs))) \<or> length xs \<le> n"
  shows "lastn n (filter P (lastn n xs) @ [x]) = lastn n (filter P xs @ [x])"
proof (cases "length xs \<le> n")
  case False
  then have "n \<le> length (filter P (lastn n xs) @ [x])"
    using assms by simp
  moreover have "filter P xs = filter P (take (length xs - n) xs) @ filter P (lastn n xs)"
    by (simp add: lastn_def flip: filter_append)
  ultimately show ?thesis
    by (simp add: lastn_append_long)
qed simp

lemma length_filter_neq: "distinct xs \<Longrightarrow> length xs \<le> Suc (length (filter (\<lambda>y. y \<noteq> x) xs))"
proof (induction xs)
  case (Cons z xs)
  then have "filter (\<lambda>y. y \<noteq> x) xs = xs" if "z = x"
    using that by (auto simp: filter_id_conv)
  with Cons show ?case by auto
qed simp

lemma remdups_snoc: "remdups (xs @ [x]) = filter (\<lambda>y. y \<noteq> x) (remdups xs) @ [x]"
  by (induction xs) auto

lemma filter_above_take:
  fixes f :: "'a \<Rightarrow> 'b::linorder"
  assumes "sorted_wrt (<) (map f xs)" and "take k xs \<noteq> []"
  shows "filter (\<lambda>x. f (last (take k xs)) < f x) xs = drop k xs"
proof -
  define ys zs where yz: "ys = take k xs" "zs = drop k xs"
  have sorted: "sorted_wrt (<) (map f (ys @ zs))" and ne: "ys \<noteq> []"
    using assms by (simp_all add: yz)
  obtain us y where ys: "ys = us @ [y]"
    using ne by (cases ys rule: rev_exhaust) auto
  have "filter (\<lambda>x. f y < f x) ys = []"
    using sorted unfolding ys by (fastforce simp: filter_empty_conv sorted_wrt_append)
  moreover have "filter (\<lambda>x. f y < f x) zs = zs"
    using sorted unfolding ys by (fastforce simp: filter_id_conv sorted_wrt_append)
  ultimately have "filter (\<lambda>x. f y < f x) (ys @ zs) = zs" by simp
  moreover have "last (take k xs) = y"
    using ys yz by simp
  moreover have "ys @ zs = xs"
    by (simp only: yz append_take_drop_id)
  ultimately show ?thesis
    by (simp add: yz)
qed

subsection \<open>A sequence that keeps its newest entries\<close>

text \<open>
  Several components bound a sequence by forgetting its oldest entries: a subscriber's
  queue, a tailer's diagnostics, the bytes that anchor a followed file. One law for one
  insertion gives the law for any number of them.
\<close>

locale keeps_newest =
  fixes add :: "'s \<Rightarrow> 'a \<Rightarrow> 's"
    and content :: "'s \<Rightarrow> 'b list"
    and item :: "'a \<Rightarrow> 'b list"
    and cap :: "'s \<Rightarrow> nat"
    and valid :: "'s \<Rightarrow> bool"
  assumes add_content: "valid s \<Longrightarrow> content (add s x) = lastn (cap s) (content s @ item x)"
    and add_cap: "valid s \<Longrightarrow> cap (add s x) = cap s"
    and add_valid: "valid s \<Longrightarrow> valid (add s x)"
begin

lemma fold_valid: "valid s \<Longrightarrow> valid (foldl add s xs) \<and> cap (foldl add s xs) = cap s"
  by (induction xs arbitrary: s) (auto simp: add_valid add_cap)

lemma fold_content:
  "valid s \<Longrightarrow> length (content s) \<le> cap s \<Longrightarrow>
    content (foldl add s xs) = lastn (cap s) (content s @ concat (map item xs))"
proof (induction xs arbitrary: s)
  case Nil
  then show ?case by simp
next
  case (Cons x xs)
  then have "length (content (add s x)) \<le> cap (add s x)"
    by (simp add: add_content add_cap)
  with Cons show ?case
    by (simp add: add_content add_cap add_valid)
qed

lemma fold_bound:
  "valid s \<Longrightarrow> length (content s) \<le> cap s \<Longrightarrow> length (content (foldl add s xs)) \<le> cap s"
  by (simp add: fold_content)

end

subsection \<open>Inductive invariants\<close>

text \<open>
  A component whose operations interleave is a step relation; an invariant that holds
  initially and is kept by each step holds in every reachable state.
\<close>

locale invariant_of =
  fixes init :: "'s \<Rightarrow> bool"
    and step :: "'s \<Rightarrow> 's \<Rightarrow> bool"
    and inv :: "'s \<Rightarrow> bool"
  assumes init_inv: "init s \<Longrightarrow> inv s"
    and step_inv: "inv s \<Longrightarrow> step s t \<Longrightarrow> inv t"
begin

lemma steps_inv: "step\<^sup>*\<^sup>* s t \<Longrightarrow> inv s \<Longrightarrow> inv t"
  by (induction rule: rtranclp_induct) (auto intro: step_inv)

lemma reachable_inv: "init s \<Longrightarrow> step\<^sup>*\<^sup>* s t \<Longrightarrow> inv t"
  using init_inv steps_inv by blast

end

end
