(* ===== verification/PyValue.thy ===== *)
theory PyValue
  imports Prelude
begin

text \<open>
  Python values as the sidecar's code inspects them with \<open>isinstance\<close>: the JSON data model
  plus the standard-library values that can sit in a session's \<open>extra\<close> dictionary.

  \<^item> A dictionary is the list of its items in insertion order (\<open>dict_set\<close> keeps the position
    of a key that is already there, as Python does).
  \<^item> \<open>POther\<close> is any object outside these classes; its text is what \<open>str\<close> prints.
  \<^item> \<open>py_str\<close> is the built-in \<open>str\<close>. Its argument \<open>rp\<close> prints floats and containers, whose
    textual form no definition of the development depends on.
\<close>

datatype pyfloat = Fin rat | PosInf | NegInf | NaN

datatype pyval =
    PNone
  | PBool bool
  | PInt int
  | PFloat pyfloat
  | PStr pystr
  | PBytes bytes
  | PList "pyval list"
  | PTuple "pyval list"
  | PSet "pyval list"
  | PDict "(pyval \<times> pyval) list"
  | PEnum pyval
  | PDate pystr
  | PPath pystr
  | POther pystr

type_synonym pydict = "(pyval \<times> pyval) list"

fun dict_set :: "pydict \<Rightarrow> pyval \<Rightarrow> pyval \<Rightarrow> pydict" where
  "dict_set [] k v = [(k, v)]"
| "dict_set ((k', v') # d) k v = (if k' = k then (k, v) # d else (k', v') # dict_set d k v)"

definition dict_of :: "(pyval \<times> pyval) list \<Rightarrow> pydict" where
  "dict_of ps = foldl (\<lambda>d (k, v). dict_set d k v) [] ps"

definition dict_get :: "pydict \<Rightarrow> pystr \<Rightarrow> pyval" where
  "dict_get d k = (case map_of d (PStr k) of None \<Rightarrow> PNone | Some v \<Rightarrow> v)"

abbreviation pstr :: "string \<Rightarrow> pyval" where
  "pstr s \<equiv> PStr (py s)"

text \<open>\<open>d.get("key")\<close> on an ASCII key.\<close>

abbreviation dget :: "pydict \<Rightarrow> string \<Rightarrow> pyval" where
  "dget d k \<equiv> dict_get d (py k)"

definition dict_wf :: "pydict \<Rightarrow> bool" where
  "dict_wf d \<longleftrightarrow> distinct (map fst d)"

fun digits10 :: "nat \<Rightarrow> pystr" where
  "digits10 n = (if n < 10 then [48 + n] else digits10 (n div 10) @ [48 + n mod 10])"

declare digits10.simps [simp del]

definition int_str :: "int \<Rightarrow> pystr" where
  "int_str i = (if i < 0 then 45 # digits10 (nat (- i)) else digits10 (nat i))"

fun py_str :: "(pyval \<Rightarrow> pystr) \<Rightarrow> pyval \<Rightarrow> pystr" where
  "py_str rp PNone = py ''None''"
| "py_str rp (PBool b) = (if b then py ''True'' else py ''False'')"
| "py_str rp (PInt i) = int_str i"
| "py_str rp (PStr s) = s"
| "py_str rp (PDate s) = s"
| "py_str rp (PPath s) = s"
| "py_str rp (POther s) = s"
| "py_str rp v = rp v"

fun truthy :: "pyval \<Rightarrow> bool" where
  "truthy PNone = False"
| "truthy (PBool b) = b"
| "truthy (PInt i) = (i \<noteq> 0)"
| "truthy (PFloat (Fin r)) = (r \<noteq> 0)"
| "truthy (PStr s) = (s \<noteq> [])"
| "truthy (PBytes s) = (s \<noteq> [])"
| "truthy (PList xs) = (xs \<noteq> [])"
| "truthy (PTuple xs) = (xs \<noteq> [])"
| "truthy (PSet xs) = (xs \<noteq> [])"
| "truthy (PDict d) = (d \<noteq> [])"
| "truthy (PEnum v) = truthy v"
| "truthy _ = True"

fun is_mapping :: "pyval \<Rightarrow> bool" where
  "is_mapping (PDict _) = True"
| "is_mapping _ = False"

text \<open>\<open>hash\<close> raises \<open>TypeError\<close> on mutable containers, and on a tuple that holds one.\<close>

fun hashable :: "pyval \<Rightarrow> bool" where
  "hashable (PList _) = False"
| "hashable (PSet _) = False"
| "hashable (PDict _) = False"
| "hashable (PTuple xs) = list_all hashable xs"
| "hashable (PEnum v) = hashable v"
| "hashable _ = True"

text \<open>\<open>v == i\<close> against an \<open>int\<close>: Booleans and floats compare by value.\<close>

fun eq_int :: "pyval \<Rightarrow> int \<Rightarrow> bool" where
  "eq_int (PInt j) i = (j = i)"
| "eq_int (PBool b) i = ((if b then 1 else 0) = i)"
| "eq_int (PFloat (Fin r)) i = (r = of_int i)"
| "eq_int _ i = False"

text \<open>\<open>isinstance(v, int) and not isinstance(v, bool)\<close>.\<close>

fun strict_int :: "pyval \<Rightarrow> int option" where
  "strict_int (PInt i) = Some i"
| "strict_int _ = None"

fun is_bool :: "pyval \<Rightarrow> bool" where
  "is_bool (PBool _) = True"
| "is_bool _ = False"

fun mapping_items :: "pyval \<Rightarrow> pydict option" where
  "mapping_items (PDict d) = Some d"
| "mapping_items _ = None"

text \<open>\<open>isinstance(v, str)\<close> and the text.\<close>

fun text_of :: "pyval \<Rightarrow> pystr option" where
  "text_of (PStr s) = Some s"
| "text_of (PEnum (PStr s)) = Some s"
| "text_of v = None"

text \<open>\<open>isinstance(v, (list, tuple))\<close> and its items.\<close>

fun seq_items :: "pyval \<Rightarrow> pyval list option" where
  "seq_items (PList xs) = Some xs"
| "seq_items (PTuple xs) = Some xs"
| "seq_items _ = None"

text \<open>\<open>[f(x) for x in xs]\<close> with an early return at the first \<open>x\<close> that is refused.\<close>

fun those_map :: "('a \<Rightarrow> 'b option) \<Rightarrow> 'a list \<Rightarrow> 'b list option" where
  "those_map f [] = Some []"
| "those_map f (x # xs) =
     (case f x of None \<Rightarrow> None | Some y \<Rightarrow> map_option (Cons y) (those_map f xs))"

lemma those_map_map:
  "(\<And>x. x \<in> set xs \<Longrightarrow> f (g x) = Some x) \<Longrightarrow> those_map f (map g xs) = Some xs"
  by (induction xs) auto

subsection \<open>Dictionaries\<close>

lemma py_eq_iff [simp]: "py a = py b \<longleftrightarrow> a = b"
proof -
  have "inj (of_char :: char \<Rightarrow> nat)"
    by (rule inj_of_char)
  then show ?thesis
    by (simp add: py_def inj_map_eq_map)
qed

lemma dict_get_Nil [simp]: "dict_get [] k = PNone"
  by (simp add: dict_get_def)

lemma dict_get_Cons [simp]:
  "dict_get ((PStr k, v) # d) k' = (if k' = k then v else dict_get d k')"
  by (simp add: dict_get_def)

lemma dict_set_fst:
  "map fst (dict_set d k v) = (if k \<in> fst ` set d then map fst d else map fst d @ [k])"
  by (induction d k v rule: dict_set.induct) auto

lemma dict_set_keys: "fst ` set (dict_set d k v) = insert k (fst ` set d)"
  by (induction d k v rule: dict_set.induct) auto

lemma dict_set_wf: "dict_wf d \<Longrightarrow> dict_wf (dict_set d k v)"
  by (simp add: dict_wf_def dict_set_fst)

lemma map_of_dict_set: "map_of (dict_set d k v) = (map_of d)(k \<mapsto> v)"
  by (induction d k v rule: dict_set.induct) auto

lemma dict_of_wf: "dict_wf (dict_of ps)"
proof -
  have "dict_wf d \<Longrightarrow> dict_wf (foldl (\<lambda>d (k, v). dict_set d k v) d ps)" for d
    by (induction ps arbitrary: d) (auto intro: dict_set_wf)
  then show ?thesis
    by (simp add: dict_of_def dict_wf_def)
qed

lemma dict_get_set:
  "dict_get (dict_set d (PStr k) v) k' = (if k' = k then v else dict_get d k')"
  by (simp add: dict_get_def map_of_dict_set)

lemma dict_of_snoc: "dict_of (ps @ [(k, v)]) = dict_set (dict_of ps) k v"
  by (simp add: dict_of_def)

lemma dict_set_fresh: "k \<notin> fst ` set d \<Longrightarrow> dict_set d k v = d @ [(k, v)]"
  by (induction d k v rule: dict_set.induct) auto

lemma dict_of_distinct: "distinct (map fst ps) \<Longrightarrow> dict_of ps = ps"
proof (induction ps rule: rev_induct)
  case (snoc kv ps)
  then show ?case
    by (cases kv) (auto simp: dict_of_snoc dict_set_fresh)
qed (simp add: dict_of_def)

end
