(* ===== verification/Model.thy ===== *)
theory Model
  imports PyValue "HOL-Library.List_Lexorder" "HOL-Library.Product_Lexorder"
begin

text \<open>
  The shared data model (\<open>sidecar/model.py\<close>) and the age formatter of
  \<open>sidecar/presentation.py\<close>: the lifecycle states, sessions and events, the conversion of
  their \<open>extra\<close> values to JSON structures, and the newest-first order of sessions that the
  index and the scanner both sort by.
\<close>

datatype Status = WORKING | WAITING | IDLE | DEAD

fun status_value :: "Status \<Rightarrow> pystr" where
  "status_value WORKING = py ''working''"
| "status_value WAITING = py ''waiting''"
| "status_value IDLE = py ''idle''"
| "status_value DEAD = py ''dead''"

text \<open>\<open>Status(value)\<close>: the member with that value, or \<open>ValueError\<close>.\<close>

definition status_of :: "pystr \<Rightarrow> Status option" where
  "status_of v =
     (if v = py ''working'' then Some WORKING
      else if v = py ''waiting'' then Some WAITING
      else if v = py ''idle'' then Some IDLE
      else if v = py ''dead'' then Some DEAD
      else None)"

fun json_value :: "(pyval \<Rightarrow> pystr) \<Rightarrow> pyval \<Rightarrow> pyval" where
  "json_value rp (PEnum v) = v"
| "json_value rp (PDate s) = PStr s"
| "json_value rp (PPath s) = PStr s"
| "json_value rp (PDict d) =
     PDict (dict_of (map (\<lambda>(k, v). (PStr (py_str rp k), json_value rp v)) d))"
| "json_value rp (PList xs) = PList (map (json_value rp) xs)"
| "json_value rp (PTuple xs) = PList (map (json_value rp) xs)"
| "json_value rp (PSet xs) = PList (map (json_value rp) xs)"
| "json_value rp (PBytes b) = PStr (py_str rp (PBytes b))"
| "json_value rp (POther s) = PStr s"
| "json_value rp v = v"

text \<open>\<open>str(value or "")\<close>, the idiom with which the code reads an optional text field.\<close>

definition str_or_empty :: "(pyval \<Rightarrow> pystr) \<Rightarrow> pyval \<Rightarrow> pystr" where
  "str_or_empty rp v = (if truthy v then py_str rp v else [])"

record Session =
  s_agent :: pystr
  s_id :: pystr
  s_project :: pystr
  s_transcript :: pystr
  s_updated_at :: time
  s_title :: pystr
  s_status :: Status
  s_extra :: pydict
  s_parent_id :: "pystr option"

definition age_seconds :: "Session \<Rightarrow> time \<Rightarrow> time" where
  "age_seconds s now = max 0 (now - s_updated_at s)"

definition format_age_seconds :: "time \<Rightarrow> pystr" where
  "format_age_seconds seconds =
     (let whole = \<lfloor>max 0 seconds\<rfloor> in
      if whole < 60 then int_str whole @ py ''s''
      else if whole < 3600 then int_str (whole div 60) @ py ''m''
      else if whole < 86400 then int_str (whole div 3600) @ py ''h''
      else int_str (whole div 86400) @ py ''d'')"

definition age_str :: "Session \<Rightarrow> time \<Rightarrow> pystr" where
  "age_str s now = format_age_seconds (age_seconds s now)"

definition session_to_dict :: "(pyval \<Rightarrow> pystr) \<Rightarrow> Session \<Rightarrow> pydict" where
  "session_to_dict rp s =
     [(PStr (py ''agent''), PStr (s_agent s)),
      (PStr (py ''session_id''), PStr (s_id s)),
      (PStr (py ''project''), PStr (s_project s)),
      (PStr (py ''transcript''), PStr (s_transcript s)),
      (PStr (py ''updated_at''), PFloat (Fin (s_updated_at s))),
      (PStr (py ''title''), PStr (s_title s)),
      (PStr (py ''status''), PStr (status_value (s_status s))),
      (PStr (py ''extra''), json_value rp (PDict (s_extra s))),
      (PStr (py ''parent_id''), case s_parent_id s of None \<Rightarrow> PNone | Some p \<Rightarrow> PStr p)]"

record Event =
  ev_ts :: pystr
  ev_agent :: pystr
  ev_session_id :: pystr
  ev_kind :: pystr
  ev_text :: pystr
  ev_extra :: pydict

definition event_to_dict :: "(pyval \<Rightarrow> pystr) \<Rightarrow> Event \<Rightarrow> pydict" where
  "event_to_dict rp e =
     [(PStr (py ''ts''), PStr (ev_ts e)),
      (PStr (py ''agent''), PStr (ev_agent e)),
      (PStr (py ''session_id''), PStr (ev_session_id e)),
      (PStr (py ''kind''), PStr (ev_kind e)),
      (PStr (py ''text''), PStr (ev_text e)),
      (PStr (py ''extra''), json_value rp (PDict (ev_extra e)))]"

type_synonym SessionKey = "pystr \<times> pystr"

definition session_key :: "Session \<Rightarrow> SessionKey" where
  "session_key s = (s_agent s, s_id s)"

text \<open>The sort key \<open>(-updated_at, agent, session_id)\<close>: newest first, ties by identity.\<close>

definition order_key :: "Session \<Rightarrow> time \<times> pystr \<times> pystr" where
  "order_key s = (- s_updated_at s, s_agent s, s_id s)"

text \<open>Values \<open>json.dumps\<close> accepts without a \<open>default\<close>, with every key a text.\<close>

fun jsonable :: "pyval \<Rightarrow> bool" where
  "jsonable PNone = True"
| "jsonable (PBool _) = True"
| "jsonable (PInt _) = True"
| "jsonable (PFloat _) = True"
| "jsonable (PStr _) = True"
| "jsonable (PList xs) = list_all jsonable xs"
| "jsonable (PDict d) =
     (dict_wf d \<and> list_all (\<lambda>(k, v). (\<exists>s. k = PStr s) \<and> jsonable v) d)"
| "jsonable _ = False"

text \<open>Every enum member in the value holds a JSON value, as \<open>Status\<close> members do.\<close>

fun enums_jsonable :: "pyval \<Rightarrow> bool" where
  "enums_jsonable (PEnum v) = jsonable v"
| "enums_jsonable (PList xs) = list_all enums_jsonable xs"
| "enums_jsonable (PTuple xs) = list_all enums_jsonable xs"
| "enums_jsonable (PSet xs) = list_all enums_jsonable xs"
| "enums_jsonable (PDict d) = list_all (\<lambda>(k, v). enums_jsonable v) d"
| "enums_jsonable _ = True"

subsection \<open>Status values and JSON conversion\<close>

lemma status_of_value [simp]: "status_of (status_value st) = Some st"
  by (cases st) (simp_all add: status_of_def py_def)

lemma status_of_Some: "status_of v = Some st \<longleftrightarrow> v = status_value st"
  by (cases st) (auto simp: status_of_def py_def)

lemma list_all_dict_set:
  "list_all P d \<Longrightarrow> P (k, v) \<Longrightarrow> list_all P (dict_set d k v)"
  by (induction d k v rule: dict_set.induct) auto

lemma list_all_dict_of: "list_all P ps \<Longrightarrow> list_all P (dict_of ps)"
proof -
  have "list_all P d \<Longrightarrow> list_all P ps \<Longrightarrow>
      list_all P (foldl (\<lambda>d (k, v). dict_set d k v) d ps)" for d
    by (induction ps arbitrary: d) (auto intro: list_all_dict_set)
  then show "list_all P ps \<Longrightarrow> list_all P (dict_of ps)"
    by (simp add: dict_of_def)
qed

lemma dict_of_id: "dict_wf d \<Longrightarrow> dict_of d = d"
  by (simp add: dict_wf_def dict_of_distinct)

lemma jsonable_json_value: "enums_jsonable v \<Longrightarrow> jsonable (json_value rp v)"
proof (induction rp v rule: json_value.induct)
  case (4 rp d)
  have "list_all (\<lambda>(k, v). (\<exists>s. k = PStr s) \<and> jsonable v)
      (map (\<lambda>(k, v). (PStr (py_str rp k), json_value rp v)) d)"
    using 4 by (fastforce simp: list_all_iff)
  then show ?case
    by (simp add: dict_of_wf list_all_dict_of)
qed (auto simp: list_all_iff)

lemma json_value_id: "jsonable v \<Longrightarrow> json_value rp v = v"
proof (induction v)
  case (PDict d)
  then have "map (\<lambda>(k, v). (PStr (py_str rp k), json_value rp v)) d = d"
    by (fastforce simp: list_all_iff intro: map_idI)
  with PDict.prems show ?case
    by (simp add: dict_of_id)
qed (auto simp: list_all_iff intro: map_idI)



end
