(* ===== verification/Bus.thy ===== *)
theory Bus
  imports Model "HOL-Library.Multiset"
begin

text \<open>
  The bounded event fan-out (\<open>sidecar/bus.py\<close>). A \<open>Subscription\<close> is a bounded queue of
  payload copies; the private object \<open>_CLOSED\<close> is the sentinel \<open>CLOSED\<close>. The bus keeps the
  subscription objects in a store, because a publisher holds references to them after it has
  released the bus lock.

  The operations come first as the code runs them alone. The relation \<open>bus_step\<close> then cuts
  them where the code releases a lock: a publisher takes its snapshot in one step and offers
  the payload to one subscription per step, \<open>close\<close> and \<open>unsubscribe\<close> first forget a
  subscription and finish it in a later step, and consumers take from their queues in between.
\<close>

datatype slot = Payload pydict | CLOSED

datatype bus_error = BusValueError | BusTypeError | SubscriptionClosed | QueueEmpty

record Subscription =
  sub_agents :: "pystr list option"
  sub_maxsize :: nat
  sub_queue :: "slot list"
  sub_closed :: bool
  sub_dropped :: nat

fun text_of :: "pyval \<Rightarrow> pystr" where
  "text_of (PStr s) = s"
| "text_of _ = []"

definition normalized_agents :: "pyval list option \<Rightarrow> bus_error + pystr list option" where
  "normalized_agents agents =
     (case agents of
        None \<Rightarrow> Inr None
      | Some names \<Rightarrow>
          if \<not> list_all hashable names then Inl BusTypeError
          else if names = [] \<or> list_ex (\<lambda>n. text_of n = []) names then Inl BusValueError
          else Inr (Some (remdups (map text_of names))))"

definition new_subscription :: "nat \<Rightarrow> pyval list option \<Rightarrow> bus_error + Subscription" where
  "new_subscription maxsize agents =
     (case normalized_agents agents of
        Inl e \<Rightarrow> Inl e
      | Inr names \<Rightarrow>
          Inr \<lparr>sub_agents = names, sub_maxsize = maxsize, sub_queue = [],
               sub_closed = False, sub_dropped = 0\<rparr>)"

text \<open>\<open>queue.Queue.put_nowait\<close>: \<open>None\<close> is \<open>queue.Full\<close>; a size of zero means no bound.\<close>

definition put_nowait :: "nat \<Rightarrow> 'a list \<Rightarrow> 'a \<Rightarrow> 'a list option" where
  "put_nowait maxsize q x = (if 0 < maxsize \<and> maxsize \<le> length q then None else Some (q @ [x]))"

definition selects :: "Subscription \<Rightarrow> pydict \<Rightarrow> bus_error + bool" where
  "selects s event =
     (case sub_agents s of
        None \<Rightarrow> Inr True
      | Some names \<Rightarrow>
          (let a = dict_get event (py ''agent'') in
           if hashable a then Inr (a \<in> PStr ` set names) else Inl BusTypeError))"

definition enqueue :: "Subscription \<Rightarrow> pydict \<Rightarrow> Subscription" where
  "enqueue s event =
     (case put_nowait (sub_maxsize s) (sub_queue s) (Payload event) of
        Some q \<Rightarrow> s\<lparr>sub_queue := q\<rparr>
      | None \<Rightarrow>
          (let q' = tl (sub_queue s) in
           case put_nowait (sub_maxsize s) q' (Payload event) of
             Some q'' \<Rightarrow> s\<lparr>sub_queue := q'', sub_dropped := sub_dropped s + 1\<rparr>
           | None \<Rightarrow> s\<lparr>sub_queue := q', sub_dropped := sub_dropped s + 2\<rparr>))"

definition offer :: "Subscription \<Rightarrow> pydict \<Rightarrow> bus_error + Subscription" where
  "offer s event =
     (case selects s event of
        Inl e \<Rightarrow> Inl e
      | Inr False \<Rightarrow> Inr s
      | Inr True \<Rightarrow> Inr (if sub_closed s then s else enqueue s event))"

definition finish :: "Subscription \<Rightarrow> Subscription" where
  "finish s =
     (if sub_closed s then s
      else
        (let s' = s\<lparr>sub_closed := True\<rparr> in
         case put_nowait (sub_maxsize s) (sub_queue s) CLOSED of
           Some q \<Rightarrow> s'\<lparr>sub_queue := q\<rparr>
         | None \<Rightarrow>
             (let q' = tl (sub_queue s) in
              case put_nowait (sub_maxsize s) q' CLOSED of
                Some q'' \<Rightarrow> s'\<lparr>sub_queue := q''\<rparr>
              | None \<Rightarrow> s'\<lparr>sub_queue := q'\<rparr>)))"

text \<open>\<open>Subscription.get\<close>: \<open>QueueEmpty\<close> is the timeout of an empty queue.\<close>

definition sub_get :: "Subscription \<Rightarrow> (bus_error + pydict) \<times> Subscription" where
  "sub_get s =
     (case sub_queue s of
        [] \<Rightarrow> (Inl QueueEmpty, s)
      | Payload p # q \<Rightarrow> (Inr p, s\<lparr>sub_queue := q\<rparr>)
      | CLOSED # q \<Rightarrow> (Inl SubscriptionClosed, s\<lparr>sub_queue := q\<rparr>))"

record EventBus =
  bus_queue_size :: nat
  bus_subs :: "nat list"
  bus_closed :: bool
  bus_objs :: "nat \<rightharpoonup> Subscription"
  bus_next :: nat

definition new_bus :: "int \<Rightarrow> bus_error + EventBus" where
  "new_bus queue_size =
     (if queue_size \<le> 0 then Inl BusValueError
      else Inr \<lparr>bus_queue_size = nat queue_size, bus_subs = [], bus_closed = False,
                bus_objs = Map.empty, bus_next = 0\<rparr>)"

definition subscriber_count :: "EventBus \<Rightarrow> nat" where
  "subscriber_count b = length (bus_subs b)"

definition subscribe :: "EventBus \<Rightarrow> pyval list option \<Rightarrow> bus_error + nat \<times> EventBus" where
  "subscribe b agents =
     (case new_subscription (bus_queue_size b) agents of
        Inl e \<Rightarrow> Inl e
      | Inr s \<Rightarrow>
          (let i = bus_next b in
           Inr (i,
             if bus_closed b
             then b\<lparr>bus_objs := (bus_objs b)(i \<mapsto> finish s), bus_next := Suc i\<rparr>
             else b\<lparr>bus_objs := (bus_objs b)(i \<mapsto> s), bus_next := Suc i,
                     bus_subs := bus_subs b @ [i]\<rparr>)))"

definition finish_obj :: "EventBus \<Rightarrow> nat \<Rightarrow> EventBus" where
  "finish_obj b i =
     (case bus_objs b i of
        None \<Rightarrow> b
      | Some s \<Rightarrow> b\<lparr>bus_objs := (bus_objs b)(i \<mapsto> finish s)\<rparr>)"

definition offer_obj :: "pydict \<Rightarrow> EventBus \<Rightarrow> nat \<Rightarrow> bus_error + EventBus" where
  "offer_obj p b i =
     (case bus_objs b i of
        None \<Rightarrow> Inr b
      | Some s \<Rightarrow>
          (case offer s p of
             Inl e \<Rightarrow> Inl e
           | Inr s' \<Rightarrow> Inr (b\<lparr>bus_objs := (bus_objs b)(i \<mapsto> s')\<rparr>)))"

definition discard_sub :: "EventBus \<Rightarrow> nat \<Rightarrow> EventBus" where
  "discard_sub b i = b\<lparr>bus_subs := remove1 i (bus_subs b)\<rparr>"

definition unsubscribe :: "EventBus \<Rightarrow> nat \<Rightarrow> EventBus" where
  "unsubscribe b i = finish_obj (discard_sub b i) i"

text \<open>The argument of \<open>publish\<close>: an event, a mapping, or anything else.\<close>

datatype published = PubEvent Event | PubMapping pydict | PubOther

definition publish_payload :: "(pyval \<Rightarrow> pystr) \<Rightarrow> published \<Rightarrow> bus_error + pydict" where
  "publish_payload rp ev =
     (case ev of
        PubEvent e \<Rightarrow> Inr (event_to_dict rp e)
      | PubMapping d \<Rightarrow> Inr d
      | PubOther \<Rightarrow> Inl BusTypeError)"

text \<open>
  The loop over the snapshot, which is \<open>tuple\<close> of a set and so comes in any order. An
  unhashable \<open>agent\<close> value raises out of the loop, after the earlier subscriptions have
  been served.
\<close>

fun offer_all :: "pydict \<Rightarrow> EventBus \<Rightarrow> nat list \<Rightarrow> bus_error option \<times> EventBus" where
  "offer_all p b [] = (None, b)"
| "offer_all p b (i # is) =
     (case offer_obj p b i of
        Inl e \<Rightarrow> (Some e, b)
      | Inr b' \<Rightarrow> offer_all p b' is)"

definition publish ::
  "(pyval \<Rightarrow> pystr) \<Rightarrow> EventBus \<Rightarrow> published \<Rightarrow> bus_error option \<times> EventBus" where
  "publish rp b ev =
     (case publish_payload rp ev of
        Inl e \<Rightarrow> (Some e, b)
      | Inr p \<Rightarrow> offer_all p b (bus_subs b))"

definition close_begin :: "EventBus \<Rightarrow> EventBus" where
  "close_begin b = b\<lparr>bus_closed := True, bus_subs := []\<rparr>"

definition close_bus :: "EventBus \<Rightarrow> EventBus" where
  "close_bus b =
     (if bus_closed b then b else foldl finish_obj (close_begin b) (bus_subs b))"

subsection \<open>Interleaving\<close>

record BusSys =
  sys_bus :: EventBus
  sys_offers :: "(pydict \<times> nat list) list"
  sys_finishing :: "nat list"

inductive bus_step :: "BusSys \<Rightarrow> BusSys \<Rightarrow> bool" where
  step_subscribe:
    "bus_step b (b\<lparr>sys_bus := b'\<rparr>)"
  if "subscribe (sys_bus b) agents = Inr (i, b')"
| step_publish:
    "bus_step b (b\<lparr>sys_offers := sys_offers b @ [(p, order)]\<rparr>)"
  if "mset order = mset (bus_subs (sys_bus b))"
| step_offer:
    "bus_step b (b\<lparr>sys_bus := b', sys_offers := before @ (p, is) # after\<rparr>)"
  if "sys_offers b = before @ (p, i # is) # after" and "offer_obj p (sys_bus b) i = Inr b'"
| step_offer_raise:
    "bus_step b (b\<lparr>sys_offers := before @ after\<rparr>)"
  if "sys_offers b = before @ (p, i # is) # after" and "offer_obj p (sys_bus b) i = Inl e"
| step_unsubscribe:
    "bus_step b (b\<lparr>sys_bus := discard_sub (sys_bus b) i, sys_finishing := i # sys_finishing b\<rparr>)"
| step_close:
    "bus_step b (b\<lparr>sys_bus := close_begin (sys_bus b),
       sys_finishing := bus_subs (sys_bus b) @ sys_finishing b\<rparr>)"
  if "\<not> bus_closed (sys_bus b)"
| step_finish:
    "bus_step b (b\<lparr>sys_bus := finish_obj (sys_bus b) i,
       sys_finishing := remove1 i (sys_finishing b)\<rparr>)"
  if "i \<in> set (sys_finishing b)"
| step_get:
    "bus_step b (b\<lparr>sys_bus := (sys_bus b)
       \<lparr>bus_objs := (bus_objs (sys_bus b))(i \<mapsto> snd (sub_get s))\<rparr>\<rparr>)"
  if "bus_objs (sys_bus b) i = Some s"

definition bus_start :: "nat \<Rightarrow> BusSys \<Rightarrow> bool" where
  "bus_start n b \<longleftrightarrow>
     new_bus (int n) = Inr (sys_bus b) \<and> sys_offers b = [] \<and> sys_finishing b = []"

definition sub_wf :: "nat \<Rightarrow> Subscription \<Rightarrow> bool" where
  "sub_wf n s \<longleftrightarrow>
     0 < n \<and> sub_maxsize s = n \<and> length (sub_queue s) \<le> n \<and>
     CLOSED \<notin> set (butlast (sub_queue s)) \<and>
     (CLOSED \<in> set (sub_queue s) \<longrightarrow> sub_closed s) \<and>
     (\<forall>p. Payload p \<in> set (sub_queue s) \<longrightarrow> selects s p = Inr True)"

definition bus_inv :: "EventBus \<Rightarrow> bool" where
  "bus_inv b \<longleftrightarrow>
     0 < bus_queue_size b \<and>
     (\<forall>i s. bus_objs b i = Some s \<longrightarrow> sub_wf (bus_queue_size b) s) \<and>
     distinct (bus_subs b) \<and>
     (\<forall>i \<in> set (bus_subs b). \<exists>s. bus_objs b i = Some s) \<and>
     (\<forall>i. bus_objs b i \<noteq> None \<longrightarrow> i < bus_next b) \<and>
     (bus_closed b \<longrightarrow> bus_subs b = [])"

text \<open>Reference definitions: a run of offers, and a consumer that keeps taking.\<close>

fun offers :: "Subscription \<Rightarrow> pydict list \<Rightarrow> bus_error + Subscription" where
  "offers s [] = Inr s"
| "offers s (p # ps) = (case offer s p of Inl e \<Rightarrow> Inl e | Inr s' \<Rightarrow> offers s' ps)"

fun drain :: "nat \<Rightarrow> Subscription \<Rightarrow> (bus_error + pydict) list" where
  "drain 0 s = []"
| "drain (Suc k) s = fst (sub_get s) # drain k (snd (sub_get s))"

text \<open>A small concrete run: one subscriber to one agent on a bus of queue size one.\<close>

definition ex_payload :: "string \<Rightarrow> pydict" where
  "ex_payload a = [(PStr (py ''agent''), PStr (py a))]"

definition ex_sub :: "slot list \<Rightarrow> Subscription" where
  "ex_sub q = \<lparr>sub_agents = Some [py ''codex''], sub_maxsize = 1, sub_queue = q,
    sub_closed = False, sub_dropped = 0\<rparr>"

definition ex_sys :: "nat list \<Rightarrow> (nat \<rightharpoonup> Subscription) \<Rightarrow> (pydict \<times> nat list) list \<Rightarrow> BusSys" where
  "ex_sys is objs offs = \<lparr>sys_bus = \<lparr>bus_queue_size = 1, bus_subs = is, bus_closed = False,
    bus_objs = objs, bus_next = length is\<rparr>, sys_offers = offs, sys_finishing = []\<rparr>"

subsection \<open>One subscription\<close>

declare put_nowait_def [simp]

interpretation subq: keeps_newest enqueue sub_queue "\<lambda>p. [Payload p]" sub_maxsize
  "\<lambda>s. 0 < sub_maxsize s \<and> length (sub_queue s) \<le> sub_maxsize s"
proof (unfold_locales, goal_cases)
  case (1 s x)
  then show ?case
    by (cases "sub_queue s") (auto simp: enqueue_def lastn_snoc_full le_less_Suc_eq)
qed (auto simp: enqueue_def Let_def split: option.splits)

lemma enqueue_frame [frame_simps]:
  "sub_agents (enqueue s p) = sub_agents s" "sub_maxsize (enqueue s p) = sub_maxsize s"
  "sub_closed (enqueue s p) = sub_closed s"
  by (auto simp: enqueue_def Let_def)

lemma finish_frame [frame_simps]:
  "sub_agents (finish s) = sub_agents s" "sub_maxsize (finish s) = sub_maxsize s"
  "sub_closed (finish s)" "sub_dropped (finish s) = sub_dropped s"
  by (auto simp: finish_def Let_def)

lemma sub_get_frame [frame_simps]:
  "sub_agents (snd (sub_get s)) = sub_agents s" "sub_maxsize (snd (sub_get s)) = sub_maxsize s"
  "sub_closed (snd (sub_get s)) = sub_closed s" "sub_dropped (snd (sub_get s)) = sub_dropped s"
  "sub_queue (snd (sub_get s)) = tl (sub_queue s)"
  by (auto simp: sub_get_def split: list.splits slot.splits)

lemma selects_cong: "sub_agents s = sub_agents t \<Longrightarrow> selects s = selects t"
  by (auto simp: selects_def fun_eq_iff)

lemma enqueue_queue:
  "0 < sub_maxsize s \<Longrightarrow> length (sub_queue s) \<le> sub_maxsize s \<Longrightarrow>
    sub_queue (enqueue s p) = lastn (sub_maxsize s) (sub_queue s @ [Payload p])"
  using subq.add_content by simp

lemma enqueue_dropped:
  "0 < sub_maxsize s \<Longrightarrow> length (sub_queue s) \<le> sub_maxsize s \<Longrightarrow>
    sub_dropped (enqueue s p) =
      sub_dropped s + (Suc (length (sub_queue s)) - sub_maxsize s)"
  by (cases "sub_queue s") (auto simp: enqueue_def)

lemma finish_queue:
  "0 < sub_maxsize s \<Longrightarrow> length (sub_queue s) \<le> sub_maxsize s \<Longrightarrow>
    sub_queue (finish s) =
      (if sub_closed s then sub_queue s else lastn (sub_maxsize s) (sub_queue s @ [CLOSED]))"
  by (cases "sub_queue s") (auto simp: finish_def lastn_snoc_full le_less_Suc_eq)

lemma sub_wf_new: "0 < n \<Longrightarrow> new_subscription n agents = Inr s \<Longrightarrow> sub_wf n s"
  by (auto simp: new_subscription_def sub_wf_def split: sum.splits)

lemma butlast_lastn: "butlast (lastn n xs) = lastn (n - 1) (butlast xs)"
  by (cases n) (auto simp: lastn_def butlast_drop)

lemma sub_wf_push:
  assumes "sub_wf n s" "\<not> sub_closed s" "sub_agents t = sub_agents s" "sub_maxsize t = sub_maxsize s"
    and "sub_queue t = lastn n (sub_queue s @ [x])"
    and "x = CLOSED \<Longrightarrow> sub_closed t"
    and "\<And>p. x = Payload p \<Longrightarrow> selects s p = Inr True"
  shows "sub_wf n t"
proof -
  have "CLOSED \<notin> set (sub_queue s)" and n: "0 < n"
    using assms(1,2) by (auto simp: sub_wf_def)
  moreover have "set (sub_queue t) \<subseteq> insert x (set (sub_queue s))"
    using set_lastn [of n "sub_queue s @ [x]"] assms(5) by auto
  moreover have "set (butlast (sub_queue t)) \<subseteq> set (sub_queue s)"
    using set_lastn [of "n - 1" "sub_queue s"] assms(5) by (auto simp: butlast_lastn)
  moreover have "selects t = selects s"
    using assms(3) by (rule selects_cong)
  ultimately show ?thesis
    using assms by (auto simp: sub_wf_def subset_iff)
qed

lemma sub_wf_queue: "sub_wf n s \<Longrightarrow> 0 < sub_maxsize s \<and> length (sub_queue s) \<le> sub_maxsize s"
  by (simp add: sub_wf_def)

lemma sub_wf_finish:
  assumes "sub_wf n s"
  shows "sub_wf n (finish s)"
proof (cases "sub_closed s")
  case True
  with assms show ?thesis by (simp add: finish_def)
next
  case False
  with assms have q: "sub_queue (finish s) = lastn n (sub_queue s @ [CLOSED])"
    using sub_wf_queue [OF assms] by (simp add: finish_queue sub_wf_def)
  show ?thesis
    by (rule sub_wf_push [OF assms False _ _ q]) (simp_all add: frame_simps)
qed

lemma sub_wf_enqueue:
  "sub_wf n s \<Longrightarrow> \<not> sub_closed s \<Longrightarrow> selects s p = Inr True \<Longrightarrow> sub_wf n (enqueue s p)"
  using sub_wf_push [of n s "enqueue s p" "Payload p"] sub_wf_queue [of n s]
  by (simp add: frame_simps enqueue_queue) (simp add: sub_wf_def)

lemma sub_wf_offer: "sub_wf n s \<Longrightarrow> offer s p = Inr t \<Longrightarrow> sub_wf n t"
  by (auto simp: offer_def intro: sub_wf_enqueue split: sum.splits bool.splits if_splits)

lemma sub_wf_get: "sub_wf n s \<Longrightarrow> sub_wf n (snd (sub_get s))"
  using selects_cong [of "snd (sub_get s)" s]
  by (cases "sub_queue s") (auto simp: sub_wf_def frame_simps split: if_splits)

subsection \<open>The invariant of the bus\<close>

lemma bus_inv_update:
  "bus_inv b \<Longrightarrow> bus_objs b i = Some s \<Longrightarrow> sub_wf (bus_queue_size b) t \<Longrightarrow>
    bus_inv (b\<lparr>bus_objs := (bus_objs b)(i \<mapsto> t)\<rparr>)"
  by (auto simp: bus_inv_def)

lemma bus_inv_wf: "bus_inv b \<Longrightarrow> bus_objs b i = Some s \<Longrightarrow> sub_wf (bus_queue_size b) s"
  by (simp add: bus_inv_def)

lemma bus_inv_new: "new_bus n = Inr b \<Longrightarrow> bus_inv b"
  by (auto simp: new_bus_def bus_inv_def split: if_splits)

lemma bus_inv_subscribe: "bus_inv b \<Longrightarrow> subscribe b agents = Inr (i, b') \<Longrightarrow> bus_inv b'"
proof -
  assume inv: "bus_inv b" and "subscribe b agents = Inr (i, b')"
  then obtain s where s: "new_subscription (bus_queue_size b) agents = Inr s" and
    b': "b' = (if bus_closed b
      then b\<lparr>bus_objs := (bus_objs b)(bus_next b \<mapsto> finish s), bus_next := Suc (bus_next b)\<rparr>
      else b\<lparr>bus_objs := (bus_objs b)(bus_next b \<mapsto> s), bus_next := Suc (bus_next b),
              bus_subs := bus_subs b @ [bus_next b]\<rparr>)"
    by (auto simp: subscribe_def Let_def split: sum.splits)
  have "bus_objs b (bus_next b) = None"
    using inv by (auto simp: bus_inv_def)
  then have "bus_next b \<notin> set (bus_subs b)"
    using inv by (auto simp: bus_inv_def)
  moreover have "sub_wf (bus_queue_size b) s" "sub_wf (bus_queue_size b) (finish s)"
    using inv s sub_wf_new sub_wf_finish by (auto simp: bus_inv_def)
  ultimately show "bus_inv b'"
    using inv by (auto simp: b' bus_inv_def less_Suc_eq)
qed

lemma bus_inv_finish_obj: "bus_inv b \<Longrightarrow> bus_inv (finish_obj b i)"
  by (auto simp: finish_obj_def intro!: bus_inv_update sub_wf_finish bus_inv_wf
      split: option.splits)

lemma bus_inv_offer_obj: "bus_inv b \<Longrightarrow> offer_obj p b i = Inr b' \<Longrightarrow> bus_inv b'"
  by (auto simp: offer_obj_def intro!: bus_inv_update dest: bus_inv_wf sub_wf_offer
      split: option.splits sum.splits)

lemma bus_inv_get:
  "bus_inv b \<Longrightarrow> bus_objs b i = Some s \<Longrightarrow>
    bus_inv (b\<lparr>bus_objs := (bus_objs b)(i \<mapsto> snd (sub_get s))\<rparr>)"
  by (auto intro!: bus_inv_update sub_wf_get bus_inv_wf)

lemma bus_inv_discard: "bus_inv b \<Longrightarrow> bus_inv (discard_sub b i)"
  by (auto simp: bus_inv_def discard_sub_def dest: notin_set_remove1)

lemma bus_inv_close: "bus_inv b \<Longrightarrow> bus_inv (close_begin b)"
  by (auto simp: bus_inv_def close_begin_def)

lemmas bus_inv_ops = bus_inv_subscribe bus_inv_finish_obj bus_inv_offer_obj bus_inv_get
  bus_inv_discard bus_inv_close

lemma bus_size_ops [frame_simps]:
  "subscribe b agents = Inr (i, b') \<Longrightarrow> bus_queue_size b' = bus_queue_size b"
  "bus_queue_size (finish_obj b i) = bus_queue_size b"
  "offer_obj p b i = Inr b' \<Longrightarrow> bus_queue_size b' = bus_queue_size b"
  "bus_queue_size (discard_sub b i) = bus_queue_size b"
  "bus_queue_size (close_begin b) = bus_queue_size b"
  by (auto simp: subscribe_def finish_obj_def offer_obj_def discard_sub_def close_begin_def
      Let_def split: sum.splits option.splits)

interpretation bus: invariant_of "bus_start n" bus_step
  "\<lambda>b. bus_inv (sys_bus b) \<and> bus_queue_size (sys_bus b) = n" for n
proof
  show "bus_start n s \<Longrightarrow> bus_inv (sys_bus s) \<and> bus_queue_size (sys_bus s) = n" for s
    using bus_inv_new [of "int n" "sys_bus s"]
    by (auto simp: bus_start_def new_bus_def split: if_splits dest: arg_cong [where f = bus_queue_size])
  show "bus_inv (sys_bus t) \<and> bus_queue_size (sys_bus t) = n"
    if "bus_inv (sys_bus s) \<and> bus_queue_size (sys_bus s) = n" "bus_step s t" for s t
    using that(2,1) by cases (auto simp: frame_simps intro: bus_inv_ops)
qed

subsection \<open>Runs of offers, draining, fan-out\<close>

lemma selects_offer: "offer s p = Inr t \<Longrightarrow> selects t = selects s"
  by (rule selects_cong)
    (auto simp: offer_def frame_simps split: sum.splits bool.splits if_splits)

lemma offer_open:
  "\<not> sub_closed s \<Longrightarrow> selects s p = Inr b \<Longrightarrow>
    offer s p = Inr (if b then enqueue s p else s)"
  by (cases b) (auto simp: offer_def)

abbreviation picked :: "Subscription \<Rightarrow> pydict list \<Rightarrow> pydict list" where
  "picked s ps \<equiv> filter (\<lambda>p. selects s p = Inr True) ps"

lemma offers_spec:
  "sub_wf n s \<Longrightarrow> \<not> sub_closed s \<Longrightarrow> list_all (\<lambda>p. \<exists>b. selects s p = Inr b) ps \<Longrightarrow>
    \<exists>t. offers s ps = Inr t \<and> \<not> sub_closed t \<and>
      sub_queue t = lastn n (sub_queue s @ map Payload (picked s ps)) \<and>
      sub_dropped t = sub_dropped s + (length (sub_queue s) + length (picked s ps) - n)"
proof (induction ps arbitrary: s)
  case Nil
  then show ?case by (simp add: sub_wf_def)
next
  case (Cons p ps)
  then obtain b where b: "selects s p = Inr b" by auto
  let ?t = "if b then enqueue s p else s"
  have o: "offer s p = Inr ?t"
    using Cons.prems b by (simp add: offer_open)
  have wf: "sub_wf n ?t" "\<not> sub_closed ?t" "selects ?t = selects s"
    using Cons.prems o sub_wf_offer [OF _ o] selects_offer [OF o] by (auto simp: frame_simps)
  have q: "sub_queue ?t = (if b then lastn n (sub_queue s @ [Payload p]) else sub_queue s)"
    and d: "sub_dropped ?t = sub_dropped s + (if b then Suc (length (sub_queue s)) - n else 0)"
    using Cons.prems sub_wf_queue [of n s]
    by (auto simp: enqueue_queue enqueue_dropped sub_wf_def)
  have len: "length (sub_queue s) \<le> n"
    using Cons.prems by (simp add: sub_wf_def)
  from Cons.IH [OF wf(1,2)] Cons.prems(3) wf(3) obtain t where t:
    "offers ?t ps = Inr t" "\<not> sub_closed t"
    "sub_queue t = lastn n (sub_queue ?t @ map Payload (picked s ps))"
    "sub_dropped t = sub_dropped ?t + (length (sub_queue ?t) + length (picked s ps) - n)"
    by auto
  show ?case
    using t o b q d len by (cases b) (auto simp: min_def)
qed

lemma drain_spec:
  "sub_queue s = map Payload ps @ [CLOSED] \<Longrightarrow>
    drain (Suc (length ps)) s = map Inr ps @ [Inl SubscriptionClosed]"
  by (induction ps arbitrary: s) (simp_all add: sub_get_def)

lemma map_Payload:
  "CLOSED \<notin> set q \<Longrightarrow> \<exists>ps. q = map Payload ps"
proof (induction q)
  case (Cons x q)
  then show ?case
    by (cases x) (auto intro: exI [of _ "_ # _"])
qed simp

lemma offer_obj_other: "offer_obj p b i = Inr b' \<Longrightarrow> j \<noteq> i \<Longrightarrow> bus_objs b' j = bus_objs b j"
  by (auto simp: offer_obj_def split: option.splits sum.splits)

lemma offer_obj_self:
  "offer_obj p b i = Inr b' \<Longrightarrow> bus_objs b i = Some s \<Longrightarrow>
    \<exists>t. offer s p = Inr t \<and> bus_objs b' i = Some t"
  by (auto simp: offer_obj_def split: sum.splits)

lemma offer_all_other:
  "offer_all p b is = (r, b') \<Longrightarrow> j \<notin> set is \<Longrightarrow> bus_objs b' j = bus_objs b j"
  by (induction p b "is" rule: offer_all.induct)
    (auto simp: offer_obj_other split: sum.splits)

lemma offer_all_each:
  "offer_all p b is = (None, b') \<Longrightarrow> distinct is \<Longrightarrow> i \<in> set is \<Longrightarrow> bus_objs b i = Some s \<Longrightarrow>
    \<exists>t. offer s p = Inr t \<and> bus_objs b' i = Some t"
proof (induction p b "is" rule: offer_all.induct)
  case (2 p b j js)
  then obtain b1 where b1: "offer_obj p b j = Inr b1" "offer_all p b1 js = (None, b')"
    by (auto split: sum.splits)
  show ?case
  proof (cases "i = j")
    case True
    with 2 b1 offer_obj_self [OF b1(1)] offer_all_other [OF b1(2)] show ?thesis
      by auto
  next
    case False
    with 2 b1 offer_obj_other [OF b1(1)] show ?thesis
      by auto
  qed
qed simp

subsection \<open>Properties of the bus\<close>


lemma ex_run:
  "bus_step\<^sup>*\<^sup>* (ex_sys [] Map.empty [])
    (ex_sys [0] [0 \<mapsto> ex_sub [Payload (ex_payload ''codex'')]] [(ex_payload ''codex'', [])])"
proof -
  let ?p = "ex_payload ''codex''"
  have "subscribe (sys_bus (ex_sys [] Map.empty [])) (Some [PStr (py ''codex'')]) =
      Inr (0, sys_bus (ex_sys [0] [0 \<mapsto> ex_sub []] []))"
    by (simp add: ex_sys_def ex_sub_def subscribe_def new_subscription_def normalized_agents_def py_def)
  from step_subscribe [OF this]
  have 1: "bus_step (ex_sys [] Map.empty []) (ex_sys [0] [0 \<mapsto> ex_sub []] [])"
    by (simp add: ex_sys_def)
  have 2: "bus_step (ex_sys [0] [0 \<mapsto> ex_sub []] []) (ex_sys [0] [0 \<mapsto> ex_sub []] [(?p, [0])])"
    using step_publish [of "[0]" "ex_sys [0] [0 \<mapsto> ex_sub []] []" ?p] by (simp add: ex_sys_def)
  have "offer_obj ?p (sys_bus (ex_sys [0] [0 \<mapsto> ex_sub []] [(?p, [0])])) 0 =
      Inr (sys_bus (ex_sys [0] [0 \<mapsto> ex_sub [Payload ?p]] []))"
    by (simp add: offer_obj_def ex_sys_def ex_sub_def offer_def selects_def ex_payload_def
        dict_get_def enqueue_def)
  from step_offer [of _ "[]" ?p 0 "[]" "[]", OF _ this]
  have 3: "bus_step (ex_sys [0] [0 \<mapsto> ex_sub []] [(?p, [0])])
      (ex_sys [0] [0 \<mapsto> ex_sub [Payload ?p]] [(?p, [])])"
    by (simp add: ex_sys_def)
  from 1 2 3 show ?thesis
    by (meson converse_rtranclp_into_rtranclp rtranclp.rtrancl_refl)
qed


text \<open>
  Offering any sequence of events to an open subscription leaves its queue with the
  newest \<open>n\<close> of the entries it had followed by the events its filter selects, and counts as
  dropped exactly the entries that were pushed out; events the filter rejects use no slot and
  are not counted.
\<close>

theorem offers_keep_newest:
  assumes "sub_wf n s" and "\<not> sub_closed s" and "list_all (\<lambda>p. \<exists>b. selects s p = Inr b) ps"
  shows "\<exists>t. offers s ps = Inr t \<and>
    sub_queue t = lastn n (sub_queue s @ map Payload (picked s ps)) \<and>
    sub_dropped t = sub_dropped s + (length (sub_queue s) + length (picked s ps) - n)"
  using offers_spec [OF assms] by blast

theorem offers_keep_newest_witness:
  "\<exists>t. offers (ex_sub []) [ex_payload ''codex'', ex_payload ''kimi'', ex_payload ''codex''] = Inr t \<and>
    sub_queue t = [Payload (ex_payload ''codex'')] \<and> sub_dropped t = 1"
proof -
  have "sub_wf 1 (ex_sub [])" "\<not> sub_closed (ex_sub [])"
    by (simp_all add: sub_wf_def ex_sub_def)
  from offers_keep_newest [OF this, of "[ex_payload ''codex'', ex_payload ''kimi'', ex_payload ''codex'']"]
  show ?thesis
    by (auto simp: selects_def ex_sub_def ex_payload_def dict_get_def py_def)
qed

text \<open>
  once a subscription is closed no step of any thread puts anything into its queue: its
  queue stays as it is or loses its head to the consumer, and it stays closed.
\<close>

theorem closed_subscription_gets_nothing:
  assumes "bus_step b c" and "bus_inv (sys_bus b)"
    and "bus_objs (sys_bus b) i = Some s" and "sub_closed s"
  shows "\<exists>t. bus_objs (sys_bus c) i = Some t \<and> sub_closed t \<and>
    (sub_queue t = sub_queue s \<or> sub_queue t = tl (sub_queue s))"
  using assms
proof cases
  case (step_subscribe agents j b')
  moreover have "bus_next (sys_bus b) \<noteq> i"
    using assms(2,3) by (auto simp: bus_inv_def)
  ultimately show ?thesis
    using assms(3,4) by (auto simp: subscribe_def Let_def split: sum.splits)
next
  case (step_offer bef p j js aft b')
  then show ?thesis
    using assms(3,4) offer_obj_other [of p "sys_bus b" j b' i] offer_obj_self [of p "sys_bus b" j b' s]
    by (cases "i = j") (auto simp: offer_def split: sum.splits bool.splits)
next
  case (step_finish j)
  then show ?thesis
    using assms(3,4) by (cases "i = j") (auto simp: finish_obj_def finish_def split: option.splits)
qed (use assms in \<open>auto simp: frame_simps discard_sub_def close_begin_def\<close>)

theorem closed_subscription_gets_nothing_witness:
  "\<exists>t. bus_objs (sys_bus (ex_sys [] [0 \<mapsto> finish (ex_sub [])] [])
       \<lparr>bus_next := 1, bus_subs := []\<rparr>) 0 = Some t \<and> sub_closed t"
proof -
  let ?b = "(ex_sys [] [0 \<mapsto> finish (ex_sub [])] [])
    \<lparr>sys_bus := (sys_bus (ex_sys [] [0 \<mapsto> finish (ex_sub [])] []))\<lparr>bus_next := 1\<rparr>\<rparr>"
  have "sub_wf 1 (finish (ex_sub []))"
    by (rule sub_wf_finish) (simp add: sub_wf_def ex_sub_def)
  then have "bus_inv (sys_bus ?b)"
    by (simp add: bus_inv_def ex_sys_def)
  from closed_subscription_gets_nothing [OF step_unsubscribe this, of 0 "finish (ex_sub [])" 0]
  show ?thesis
    by (simp add: ex_sys_def frame_simps discard_sub_def)
qed

text \<open>
  Finishing an open subscription always leaves the sentinel readable: a consumer that
  keeps taking gets the queued events in order (all of them, or all but the oldest when the
  queue was full) and then \<open>SubscriptionClosed\<close>.
\<close>

theorem finish_then_drain:
  assumes "sub_wf n s" and "\<not> sub_closed s"
  shows "\<exists>ps. map Payload ps = lastn (n - 1) (sub_queue s) \<and>
    drain (Suc (length ps)) (finish s) = map Inr ps @ [Inl SubscriptionClosed]"
proof -
  have q: "CLOSED \<notin> set (sub_queue s)" "0 < n" "sub_maxsize s = n" "length (sub_queue s) \<le> n"
    using assms by (auto simp: sub_wf_def)
  obtain ps where ps: "lastn (n - 1) (sub_queue s) = map Payload ps"
    using map_Payload [of "lastn (n - 1) (sub_queue s)"] set_lastn [of "n - 1" "sub_queue s"] q(1)
    by auto
  have "sub_queue (finish s) = map Payload ps @ [CLOSED]"
    using q assms(2) ps by (simp add: finish_queue lastn_append)
  then show ?thesis
    using ps drain_spec by metis
qed

theorem finish_then_drain_witness:
  "drain 1 (finish (ex_sub [Payload (ex_payload ''codex'')])) = [Inl SubscriptionClosed]"
proof -
  have "sub_wf 1 (ex_sub [Payload (ex_payload ''codex'')])"
    "\<not> sub_closed (ex_sub [Payload (ex_payload ''codex'')])"
    by (simp_all add: sub_wf_def ex_sub_def selects_def ex_payload_def dict_get_def)
  from finish_then_drain [OF this] show ?thesis
    by (auto simp: ex_sub_def)
qed

text \<open>
  a publish that raises nothing offers the payload exactly once to each subscription of
  its snapshot and touches no other subscription, so the result does not depend on the order
  in which the set of subscriptions is visited.
\<close>

theorem publish_offers_each_once:
  assumes "bus_inv b" and "publish rp b ev = (None, b')" and "publish_payload rp ev = Inr p"
    and "bus_objs b i = Some s"
  shows "if i \<in> set (bus_subs b) then \<exists>t. offer s p = Inr t \<and> bus_objs b' i = Some t
    else bus_objs b' i = Some s"
  using assms offer_all_each [of p b "bus_subs b" b' i s] offer_all_other [of p b "bus_subs b" None b' i]
  by (auto simp: publish_def bus_inv_def)

theorem publish_offers_each_once_witness:
  "\<exists>t. offer (ex_sub []) (ex_payload ''codex'') = Inr t \<and>
    bus_objs (snd (publish (\<lambda>_. []) (sys_bus (ex_sys [0] [0 \<mapsto> ex_sub []] []))
      (PubMapping (ex_payload ''codex'')))) 0 = Some t"
proof -
  let ?b = "sys_bus (ex_sys [0] [0 \<mapsto> ex_sub []] [])"
  let ?ev = "PubMapping (ex_payload ''codex'')"
  have inv: "bus_inv ?b"
    by (simp add: bus_inv_def ex_sys_def ex_sub_def sub_wf_def)
  have pub: "publish (\<lambda>_. []) ?b ?ev = (None, snd (publish (\<lambda>_. []) ?b ?ev))"
    by (simp add: publish_def publish_payload_def offer_obj_def ex_sys_def ex_sub_def offer_def
        selects_def ex_payload_def dict_get_def)
  from publish_offers_each_once [OF inv pub, of "ex_payload ''codex''" 0 "ex_sub []"]
  show ?thesis
    by (simp add: publish_payload_def ex_sys_def)
qed

end
