(* ===== verification/Utf8.thy ===== *)
theory Utf8
  imports PyValue
begin

text \<open>
  The UTF-8 codec of the standard library as the sidecar uses it: \<open>str.encode("utf-8")\<close> in
  strict mode, \<open>bytes.decode("utf-8", "strict")\<close> and \<open>bytes.decode("utf-8", "replace")\<close>. The
  decoder replaces each maximal ill-formed subsequence by one U+FFFD, as CPython does.
\<close>

definition is_surrogate :: "nat \<Rightarrow> bool" where
  "is_surrogate c \<longleftrightarrow> 0xD800 \<le> c \<and> c \<le> 0xDFFF"

definition is_scalar :: "nat \<Rightarrow> bool" where
  "is_scalar c \<longleftrightarrow> c < 0x110000 \<and> \<not> is_surrogate c"

definition in_range :: "nat \<Rightarrow> nat \<Rightarrow> 8 word \<Rightarrow> bool" where
  "in_range lo hi b \<longleftrightarrow> lo \<le> unat b \<and> unat b \<le> hi"

text \<open>The bytes allowed after a lead byte: a narrower range after E0, ED, F0 and F4.\<close>

definition second_ok :: "nat \<Rightarrow> 8 word \<Rightarrow> bool" where
  "second_ok lead b =
     (if lead = 0xE0 then in_range 0xA0 0xBF b
      else if lead = 0xED then in_range 0x80 0x9F b
      else if lead = 0xF0 then in_range 0x90 0xBF b
      else if lead = 0xF4 then in_range 0x80 0x8F b
      else in_range 0x80 0xBF b)"

definition cont :: "8 word \<Rightarrow> nat" where
  "cont b = unat b mod 64"

text \<open>
  One step of the decoder at lead byte \<open>b\<close> followed by \<open>rest\<close>: the code point, or \<open>None\<close>
  for an ill-formed sequence, and the number of bytes of \<open>rest\<close> that belong to it.
\<close>

definition utf8_step :: "8 word \<Rightarrow> bytes \<Rightarrow> nat option \<times> nat" where
  "utf8_step b rest =
     (let l = unat b in
      if l < 0x80 then (Some l, 0)
      else if l < 0xC2 \<or> 0xF4 < l then (None, 0)
      else case rest of
        [] \<Rightarrow> (None, 0)
      | b1 # r1 \<Rightarrow>
          if \<not> second_ok l b1 then (None, 0)
          else if l < 0xE0 then (Some ((l - 0xC0) * 64 + cont b1), 1)
          else case r1 of
            [] \<Rightarrow> (None, 1)
          | b2 # r2 \<Rightarrow>
              if \<not> in_range 0x80 0xBF b2 then (None, 1)
              else if l < 0xF0 then (Some ((l - 0xE0) * 4096 + cont b1 * 64 + cont b2), 2)
              else case r2 of
                [] \<Rightarrow> (None, 2)
              | b3 # r3 \<Rightarrow>
                  if \<not> in_range 0x80 0xBF b3 then (None, 2)
                  else (Some ((l - 0xF0) * 262144 + cont b1 * 4096 + cont b2 * 64 + cont b3), 3))"

fun decode_replace :: "bytes \<Rightarrow> pystr" where
  "decode_replace [] = []"
| "decode_replace (b # rest) =
     (case utf8_step b rest of
        (Some c, k) \<Rightarrow> c # decode_replace (drop k rest)
      | (None, k) \<Rightarrow> 0xFFFD # decode_replace (drop k rest))"

fun decode_strict :: "bytes \<Rightarrow> pystr option" where
  "decode_strict [] = Some []"
| "decode_strict (b # rest) =
     (case utf8_step b rest of
        (Some c, k) \<Rightarrow> map_option ((#) c) (decode_strict (drop k rest))
      | (None, k) \<Rightarrow> None)"

definition encode_char :: "nat \<Rightarrow> bytes" where
  "encode_char c =
     (if c < 0x80 then [of_nat c]
      else if c < 0x800 then [of_nat (0xC0 + c div 64), of_nat (0x80 + c mod 64)]
      else if c < 0x10000 then
        [of_nat (0xE0 + c div 4096), of_nat (0x80 + c div 64 mod 64), of_nat (0x80 + c mod 64)]
      else
        [of_nat (0xF0 + c div 262144), of_nat (0x80 + c div 4096 mod 64),
         of_nat (0x80 + c div 64 mod 64), of_nat (0x80 + c mod 64)])"

text \<open>\<open>encode("utf-8", "strict")\<close>: \<open>None\<close> is the \<open>UnicodeEncodeError\<close> of a surrogate.\<close>

definition encode_strict :: "pystr \<Rightarrow> bytes option" where
  "encode_strict s = (if list_all is_scalar s then Some (concat (map encode_char s)) else None)"

subsection \<open>Round trip\<close>

lemma unat_byte [simp]: "n < 256 \<Longrightarrow> unat (of_nat n :: 8 word) = n"
  by (simp add: unat_of_nat)

lemma div_bounds:
  "c < 0x800 \<Longrightarrow> c div 64 < 32" "c < 0x10000 \<Longrightarrow> c div 4096 < 16"
  "c < 0x110000 \<Longrightarrow> c div 262144 < 5" for c :: nat
  by auto

lemma unat_cont_byte: "n < 64 \<Longrightarrow> unat (128 + of_nat n :: 8 word) = 128 + n"
  using unat_byte [of "128 + n"] by simp

lemma cont_byte [simp]: "n < 64 \<Longrightarrow> cont (128 + of_nat n) = n"
  by (simp add: cont_def unat_cont_byte mod_add_eq [symmetric])

lemma in_range_byte:
  "n < 64 \<Longrightarrow> in_range lo hi (128 + of_nat n) \<longleftrightarrow> lo \<le> 128 + n \<and> 128 + n \<le> hi"
  by (simp add: in_range_def unat_cont_byte)

lemma in_range_cont [simp]: "n < 64 \<Longrightarrow> in_range 128 191 (128 + of_nat n)"
  by (simp add: in_range_byte)

lemma split_64:
  fixes c :: nat
  shows "c = c div 64 * 64 + c mod 64"
    and "c div 64 = c div 4096 * 64 + c div 64 mod 64"
    and "c div 4096 = c div 262144 * 64 + c div 4096 mod 64"
  using div_mult_mod_eq [of c 64] div_mult_mod_eq [of "c div 64" 64]
    div_mult_mod_eq [of "c div 4096" 64] by (simp_all add: div_mult2_eq [symmetric])

lemma step_2:
  assumes "0x80 \<le> c" "c < 0x800"
  shows "utf8_step (of_nat (0xC0 + c div 64)) (of_nat (0x80 + c mod 64) # rest) = (Some c, 1)"
proof -
  have b: "c div 64 < 32" "2 \<le> c div 64"
    using assms by auto
  have l: "unat (of_nat (0xC0 + c div 64) :: 8 word) = 0xC0 + c div 64"
    using b by (intro unat_byte) simp
  have ok: "second_ok (0xC0 + c div 64) (of_nat (0x80 + c mod 64))"
    using b by (simp add: second_ok_def)
  show ?thesis
    unfolding utf8_step_def Let_def l using b ok by simp
qed

lemma step_3:
  assumes "0x800 \<le> c" "c < 0x10000" "\<not> is_surrogate c"
  shows "utf8_step (of_nat (0xE0 + c div 4096))
    (of_nat (0x80 + c div 64 mod 64) # of_nat (0x80 + c mod 64) # rest) = (Some c, 2)"
proof -
  have b: "c div 4096 < 16"
    using assms by auto
  have l: "unat (of_nat (0xE0 + c div 4096) :: 8 word) = 0xE0 + c div 4096"
    using b by (intro unat_byte) simp
  have split: "c = c div 4096 * 4096 + c div 64 mod 64 * 64 + c mod 64"
    using split_64 [of c] by linarith
  have "c div 4096 = 0 \<Longrightarrow> 32 \<le> c div 64 mod 64" "c div 4096 = 13 \<Longrightarrow> c div 64 mod 64 < 32"
    using assms split by (auto simp: is_surrogate_def)
  moreover define m where "m = c div 64 mod 64"
  moreover have "m < 64"
    by (simp add: m_def)
  ultimately have "second_ok (0xE0 + c div 4096) (of_nat (0x80 + m))"
    using b by (auto simp: second_ok_def in_range_byte)
  then have ok: "second_ok (0xE0 + c div 4096) (of_nat (0x80 + c div 64 mod 64))"
    by (simp add: m_def)
  show ?thesis
    unfolding utf8_step_def Let_def l using b ok split by simp
qed

lemma step_4:
  assumes "0x10000 \<le> c" "c < 0x110000"
  shows "utf8_step (of_nat (0xF0 + c div 262144))
    (of_nat (0x80 + c div 4096 mod 64) # of_nat (0x80 + c div 64 mod 64) #
     of_nat (0x80 + c mod 64) # rest) = (Some c, 3)"
proof -
  have b: "c div 262144 < 5"
    using assms by auto
  have l: "unat (of_nat (0xF0 + c div 262144) :: 8 word) = 0xF0 + c div 262144"
    using b by (intro unat_byte) simp
  have split: "c = c div 262144 * 262144 + c div 4096 mod 64 * 4096 + c div 64 mod 64 * 64 + c mod 64"
    using split_64 [of c] by linarith
  have "c div 262144 = 0 \<Longrightarrow> 16 \<le> c div 4096 mod 64" "c div 262144 = 4 \<Longrightarrow> c div 4096 mod 64 < 16"
    using assms split by auto
  moreover define m where "m = c div 4096 mod 64"
  moreover have "m < 64"
    by (simp add: m_def)
  ultimately have "second_ok (0xF0 + c div 262144) (of_nat (0x80 + m))"
    using b by (auto simp: second_ok_def in_range_byte)
  then have ok: "second_ok (0xF0 + c div 262144) (of_nat (0x80 + c div 4096 mod 64))"
    by (simp add: m_def)
  show ?thesis
    unfolding utf8_step_def Let_def l using b ok split by simp
qed

lemma encode_char_step:
  assumes "is_scalar c"
  obtains b r where "encode_char c = b # r" "\<And>rest. utf8_step b (r @ rest) = (Some c, length r)"
proof -
  consider "c < 0x80" | "0x80 \<le> c" "c < 0x800" | "0x800 \<le> c" "c < 0x10000" | "0x10000 \<le> c"
    by linarith
  then show thesis
  proof cases
    case 1
    then show thesis by (intro that) (auto simp: encode_char_def utf8_step_def)
  next
    case 2
    with step_2 [OF 2] show thesis by (intro that) (auto simp: encode_char_def simp del: of_nat_add)
  next
    case 3
    with step_3 [OF 3] assms show thesis
      by (intro that) (auto simp: encode_char_def is_scalar_def simp del: of_nat_add)
  next
    case 4
    with step_4 [OF 4] assms show thesis
      by (intro that) (auto simp: encode_char_def is_scalar_def simp del: of_nat_add)
  qed
qed

lemma decode_encode_char:
  assumes "is_scalar c"
  shows "decode_strict (encode_char c @ rest) = map_option ((#) c) (decode_strict rest)"
    and "decode_replace (encode_char c @ rest) = c # decode_replace rest"
proof -
  obtain b r where "encode_char c = b # r" "\<And>rest. utf8_step b (r @ rest) = (Some c, length r)"
    using encode_char_step [OF assms] by metis
  then show "decode_strict (encode_char c @ rest) = map_option ((#) c) (decode_strict rest)"
    and "decode_replace (encode_char c @ rest) = c # decode_replace rest"
    by simp_all
qed

lemma decode_encode:
  "list_all is_scalar s \<Longrightarrow>
    decode_strict (concat (map encode_char s)) = Some s \<and>
    decode_replace (concat (map encode_char s)) = s"
  by (induction s) (simp_all add: decode_encode_char)

lemma encode_strict_ascii: "list_all (\<lambda>c. c < 0x80) s \<Longrightarrow> encode_strict s = Some (map of_nat s)"
  by (induction s)
    (auto simp: encode_strict_def is_scalar_def is_surrogate_def encode_char_def split: if_splits)

lemma decode_replace_ascii:
  "list_all (\<lambda>b. unat b < 128) s \<Longrightarrow> decode_replace s = map unat s"
  by (induction s) (simp_all add: utf8_step_def)

declare decode_replace.simps [simp del] decode_strict.simps [simp del]

end
