(* ===== verification/Json.thy ===== *)
theory Json
  imports Utf8
begin

text \<open>
  \<open>json.loads\<close> of the standard library as the sidecar calls it: the strict scanner of
  CPython over code points, with its hooks (\<open>object_pairs_hook\<close>, \<open>parse_int\<close>,
  \<open>parse_constant\<close>) as a record of functions that may raise.

  \<^item> The constants \<open>NaN\<close>, \<open>Infinity\<close> and \<open>-Infinity\<close> are accepted, as Python does.
  \<^item> Entering an array or object consumes one unit of the interpreter's recursion budget; an
    exhausted budget is \<open>JRecursion\<close> (\<open>RecursionError\<close>).
  \<^item> A decimal float literal is its exact value, or an infinity from the IEEE overflow
    threshold on.
  \<^item> The scanner is given fuel. \<open>json_enough_fuel\<close> shows that \<open>json_loads\<close> supplies enough,
    so \<open>JFuel\<close> never occurs.
\<close>

datatype 'e json_fail = JDecode | JRecursion | JFuel | JHook 'e

record 'e json_hooks =
  hook_object :: "(pystr \<times> pyval) list \<Rightarrow> 'e + pyval"
  hook_int :: "pystr \<Rightarrow> 'e + pyval"
  hook_constant :: "pystr \<Rightarrow> 'e + pyval"

definition is_ws :: "nat \<Rightarrow> bool" where
  "is_ws c \<longleftrightarrow> c = 32 \<or> c = 9 \<or> c = 10 \<or> c = 13"

definition skip_ws :: "pystr \<Rightarrow> pystr" where
  "skip_ws s = dropWhile is_ws s"

definition is_digit :: "nat \<Rightarrow> bool" where
  "is_digit c \<longleftrightarrow> 48 \<le> c \<and> c \<le> 57"

definition hex_digit :: "nat \<Rightarrow> nat option" where
  "hex_digit c =
     (if is_digit c then Some (c - 48)
      else if 97 \<le> c \<and> c \<le> 102 then Some (c - 87)
      else if 65 \<le> c \<and> c \<le> 70 then Some (c - 55)
      else None)"

definition hex4 :: "nat \<Rightarrow> nat \<Rightarrow> nat \<Rightarrow> nat \<Rightarrow> nat option" where
  "hex4 a b c d =
     (case (hex_digit a, hex_digit b, hex_digit c, hex_digit d) of
        (Some i, Some j, Some k, Some l) \<Rightarrow> Some (i * 4096 + j * 256 + k * 16 + l)
      | _ \<Rightarrow> None)"

definition is_high :: "nat \<Rightarrow> bool" where
  "is_high c \<longleftrightarrow> 0xD800 \<le> c \<and> c \<le> 0xDBFF"

definition is_low :: "nat \<Rightarrow> bool" where
  "is_low c \<longleftrightarrow> 0xDC00 \<le> c \<and> c \<le> 0xDFFF"

definition join_surrogates :: "nat \<Rightarrow> nat \<Rightarrow> nat" where
  "join_surrogates hi lo = 0x10000 + (hi - 0xD800) * 1024 + (lo - 0xDC00)"

definition simple_escape :: "nat \<Rightarrow> nat option" where
  "simple_escape c =
     (if c = 34 \<or> c = 92 \<or> c = 47 then Some c
      else if c = 98 then Some 8
      else if c = 102 then Some 12
      else if c = 110 then Some 10
      else if c = 114 then Some 13
      else if c = 116 then Some 9
      else None)"

text \<open>
  An escape after its backslash: the code point and the rest. A high surrogate escape that is
  followed by a low one is read together with it; otherwise it stands alone.
\<close>

definition scan_unicode :: "pystr \<Rightarrow> (nat \<times> pystr) option" where
  "scan_unicode r =
     (case r of
        h1 # h2 # h3 # h4 # r1 \<Rightarrow>
          (case hex4 h1 h2 h3 h4 of
             None \<Rightarrow> None
           | Some u \<Rightarrow>
               (case r1 of
                  b # v # g1 # g2 # g3 # g4 # r2 \<Rightarrow>
                    if is_high u \<and> b = 92 \<and> v = 117 then
                      (case hex4 g1 g2 g3 g4 of
                         None \<Rightarrow> None
                       | Some w \<Rightarrow>
                           if is_low w then Some (join_surrogates u w, r2) else Some (u, r1))
                    else Some (u, r1)
                | _ \<Rightarrow> Some (u, r1)))
      | _ \<Rightarrow> None)"

definition scan_escape :: "pystr \<Rightarrow> (nat \<times> pystr) option" where
  "scan_escape r =
     (case r of
        [] \<Rightarrow> None
      | e # r1 \<Rightarrow>
          if e = 117 then scan_unicode r1
          else map_option (\<lambda>x. (x, r1)) (simple_escape e))"

lemma scan_unicode_shorter: "scan_unicode r = Some (x, r') \<Longrightarrow> length r' < length r"
  by (auto simp: scan_unicode_def split: list.splits option.splits if_splits)

lemma scan_escape_shorter: "scan_escape r = Some (x, r') \<Longrightarrow> length r' < length r"
  by (auto simp: scan_escape_def dest!: scan_unicode_shorter split: list.splits if_splits)

text \<open>The body of a string literal after its opening quote, with the text read so far.\<close>

function scan_string :: "pystr \<Rightarrow> pystr \<Rightarrow> (pystr \<times> pystr) option" where
  "scan_string acc [] = None"
| "scan_string acc (c # r) =
     (if c = 34 then Some (rev acc, r)
      else if c = 92 then
        (case scan_escape r of
           None \<Rightarrow> None
         | Some (x, r1) \<Rightarrow> scan_string (x # acc) r1)
      else if c \<le> 31 then None
      else scan_string (c # acc) r)"
  by pat_completeness auto
termination
  by (relation "measure (\<lambda>(acc, s). length s)") (auto dest: scan_escape_shorter)

definition digits_val :: "pystr \<Rightarrow> nat" where
  "digits_val ds = foldl (\<lambda>a d. 10 * a + (d - 48)) 0 ds"

definition overflow_threshold :: rat where
  "overflow_threshold = 2 ^ 1024 - 2 ^ 970"

definition float_of :: "rat \<Rightarrow> pyfloat" where
  "float_of r =
     (if overflow_threshold \<le> r then PosInf
      else if r \<le> - overflow_threshold then NegInf
      else Fin r)"

definition scale10 :: "rat \<Rightarrow> int \<Rightarrow> rat" where
  "scale10 r e = (if 0 \<le> e then r * 10 ^ nat e else r / 10 ^ nat (- e))"

text \<open>
  A number literal: the text of its integer part (with sign), the digits of its fraction, its
  exponent, and the rest of the input. A fraction point or exponent without digits is not part
  of the number.
\<close>

definition scan_int_part :: "pystr \<Rightarrow> (pystr \<times> pystr) option" where
  "scan_int_part s =
     (let (sign, r) = (case s of c # r' \<Rightarrow> if c = 45 then ([45], r') else ([], s) | [] \<Rightarrow> ([], s)) in
      case r of
        [] \<Rightarrow> None
      | c # r' \<Rightarrow>
          if c = 48 then Some (sign @ [48], r')
          else if is_digit c then Some (sign @ takeWhile is_digit r, dropWhile is_digit r)
          else None)"

definition scan_frac :: "pystr \<Rightarrow> pystr \<times> pystr" where
  "scan_frac r =
     (case r of
        p # d # r' \<Rightarrow>
          if p = 46 \<and> is_digit d then (takeWhile is_digit (d # r'), dropWhile is_digit (d # r'))
          else ([], r)
      | _ \<Rightarrow> ([], r))"

definition scan_exp :: "pystr \<Rightarrow> int option \<times> pystr" where
  "scan_exp r =
     (case r of
        e # r1 \<Rightarrow>
          if e = 69 \<or> e = 101 then
            (let (neg, r2) = (case r1 of c # r' \<Rightarrow>
                                if c = 45 then (True, r') else if c = 43 then (False, r') else (False, r1)
                              | [] \<Rightarrow> (False, r1));
                 ds = takeWhile is_digit r2
             in if ds = [] then (None, r)
                else (Some (if neg then - int (digits_val ds) else int (digits_val ds)),
                      dropWhile is_digit r2))
          else (None, r)
      | [] \<Rightarrow> (None, r))"

definition dec_value :: "pystr \<Rightarrow> pystr \<Rightarrow> int \<Rightarrow> rat" where
  "dec_value whole fracd e =
     (let neg = (case whole of c # _ \<Rightarrow> c = 45 | [] \<Rightarrow> False);
          ds = (if neg then tl whole else whole);
          m = of_nat (digits_val (ds @ fracd)) / 10 ^ length fracd
      in scale10 (if neg then - m else m) e)"

definition int_value :: "pystr \<Rightarrow> int" where
  "int_value t =
     (case t of
        c # ds \<Rightarrow> if c = 45 then - int (digits_val ds) else int (digits_val t)
      | [] \<Rightarrow> 0)"

definition starts_with :: "pystr \<Rightarrow> pystr \<Rightarrow> bool" where
  "starts_with p s \<longleftrightarrow> take (length p) s = p"

definition after_prefix :: "pystr \<Rightarrow> pystr \<Rightarrow> pystr" where
  "after_prefix p s = drop (length p) s"

definition scan_number ::
  "('e, 'm) json_hooks_scheme \<Rightarrow> pystr \<Rightarrow> 'e json_fail + pyval \<times> pystr" where
  "scan_number h s =
     (case scan_int_part s of
        None \<Rightarrow> Inl JDecode
      | Some (whole, r) \<Rightarrow>
          (let (fracd, r1) = scan_frac r; (ex, r2) = scan_exp r1 in
           if fracd = [] \<and> ex = None then
             (case hook_int h whole of Inl e \<Rightarrow> Inl (JHook e) | Inr v \<Rightarrow> Inr (v, r2))
           else
             Inr (PFloat (float_of (dec_value whole fracd (case ex of None \<Rightarrow> 0 | Some e \<Rightarrow> e))), r2)))"

definition scan_constant ::
  "('e, 'm) json_hooks_scheme \<Rightarrow> pystr \<Rightarrow> pystr \<Rightarrow> 'e json_fail + pyval \<times> pystr" where
  "scan_constant h name s =
     (case hook_constant h name of
        Inl e \<Rightarrow> Inl (JHook e)
      | Inr v \<Rightarrow> Inr (v, after_prefix name s))"

definition scan_atom ::
  "('e, 'm) json_hooks_scheme \<Rightarrow> pystr \<Rightarrow> 'e json_fail + pyval \<times> pystr" where
  "scan_atom h s =
     (if starts_with (py ''null'') s then Inr (PNone, after_prefix (py ''null'') s)
      else if starts_with (py ''true'') s then Inr (PBool True, after_prefix (py ''true'') s)
      else if starts_with (py ''false'') s then Inr (PBool False, after_prefix (py ''false'') s)
      else if starts_with (py ''NaN'') s then scan_constant h (py ''NaN'') s
      else if starts_with (py ''Infinity'') s then scan_constant h (py ''Infinity'') s
      else if starts_with (py ''-Infinity'') s then scan_constant h (py ''-Infinity'') s
      else scan_number h s)"

definition close_object ::
  "('e, 'm) json_hooks_scheme \<Rightarrow> (pystr \<times> pyval) list \<Rightarrow> pystr \<Rightarrow> 'e json_fail + pyval \<times> pystr" where
  "close_object h pairs r =
     (case hook_object h pairs of Inl e \<Rightarrow> Inl (JHook e) | Inr v \<Rightarrow> Inr (v, r))"

text \<open>
  The three mutually recursive scanners, each written over the scanners it calls: a value, the
  rest of an array after its bracket, the rest of an object after its brace.
\<close>

type_synonym 'e scan_result = "'e json_fail + pyval \<times> pystr"

definition scan_step ::
  "('e, 'm) json_hooks_scheme \<Rightarrow> (nat \<Rightarrow> pyval list \<Rightarrow> pystr \<Rightarrow> 'e scan_result) \<Rightarrow>
   (nat \<Rightarrow> (pystr \<times> pyval) list \<Rightarrow> pystr \<Rightarrow> 'e scan_result) \<Rightarrow> nat \<Rightarrow> pystr \<Rightarrow> 'e scan_result" where
  "scan_step h elems members budget s =
     (case s of
        [] \<Rightarrow> Inl JDecode
      | c # r \<Rightarrow>
          if c = 34 then
            (case scan_string [] r of
               None \<Rightarrow> Inl JDecode
             | Some (t, r1) \<Rightarrow> Inr (PStr t, r1))
          else if c = 123 then
            (if budget = 0 then Inl JRecursion
             else
               (let r1 = skip_ws r in
                if r1 \<noteq> [] \<and> hd r1 = 125 then close_object h [] (tl r1)
                else members (budget - 1) [] r1))
          else if c = 91 then
            (if budget = 0 then Inl JRecursion
             else
               (let r1 = skip_ws r in
                if r1 \<noteq> [] \<and> hd r1 = 93 then Inr (PList [], tl r1)
                else elems (budget - 1) [] r1))
          else scan_atom h s)"

definition elems_step ::
  "(nat \<Rightarrow> pystr \<Rightarrow> 'e scan_result) \<Rightarrow> (nat \<Rightarrow> pyval list \<Rightarrow> pystr \<Rightarrow> 'e scan_result) \<Rightarrow>
   nat \<Rightarrow> pyval list \<Rightarrow> pystr \<Rightarrow> 'e scan_result" where
  "elems_step scan elems budget acc s =
     (case scan budget s of
        Inl e \<Rightarrow> Inl e
      | Inr (v, r) \<Rightarrow>
          (case skip_ws r of
             [] \<Rightarrow> Inl JDecode
           | c # r1 \<Rightarrow>
               if c = 93 then Inr (PList (rev (v # acc)), r1)
               else if c = 44 then elems budget (v # acc) (skip_ws r1)
               else Inl JDecode))"

definition members_step ::
  "('e, 'm) json_hooks_scheme \<Rightarrow> (nat \<Rightarrow> pystr \<Rightarrow> 'e scan_result) \<Rightarrow>
   (nat \<Rightarrow> (pystr \<times> pyval) list \<Rightarrow> pystr \<Rightarrow> 'e scan_result) \<Rightarrow>
   nat \<Rightarrow> (pystr \<times> pyval) list \<Rightarrow> pystr \<Rightarrow> 'e scan_result" where
  "members_step h scan members budget acc s =
     (if s = [] \<or> hd s \<noteq> 34 then Inl JDecode
      else
        (case scan_string [] (tl s) of
           None \<Rightarrow> Inl JDecode
         | Some (key, r) \<Rightarrow>
             (case skip_ws r of
                [] \<Rightarrow> Inl JDecode
              | c # r1 \<Rightarrow>
                  if c \<noteq> 58 then Inl JDecode
                  else
                    (case scan budget (skip_ws r1) of
                       Inl e \<Rightarrow> Inl e
                     | Inr (v, r2) \<Rightarrow>
                         (case skip_ws r2 of
                            [] \<Rightarrow> Inl JDecode
                          | c' # r3 \<Rightarrow>
                              if c' = 125 then close_object h (rev ((key, v) # acc)) r3
                              else if c' = 44 then members budget ((key, v) # acc) (skip_ws r3)
                              else Inl JDecode)))))"

fun json_scan :: "('e, 'm) json_hooks_scheme \<Rightarrow> nat \<Rightarrow> nat \<Rightarrow> pystr \<Rightarrow> 'e scan_result"
  and json_elems ::
    "('e, 'm) json_hooks_scheme \<Rightarrow> nat \<Rightarrow> nat \<Rightarrow> pyval list \<Rightarrow> pystr \<Rightarrow> 'e scan_result"
  and json_members ::
    "('e, 'm) json_hooks_scheme \<Rightarrow> nat \<Rightarrow> nat \<Rightarrow> (pystr \<times> pyval) list \<Rightarrow> pystr \<Rightarrow> 'e scan_result" where
  "json_scan h 0 budget s = Inl JFuel"
| "json_scan h (Suc k) budget s = scan_step h (json_elems h k) (json_members h k) budget s"
| "json_elems h 0 budget acc s = Inl JFuel"
| "json_elems h (Suc k) budget acc s = elems_step (json_scan h k) (json_elems h k) budget acc s"
| "json_members h 0 budget acc s = Inl JFuel"
| "json_members h (Suc k) budget acc s =
     members_step h (json_scan h k) (json_members h k) budget acc s"

definition json_loads_with ::
  "('e, 'm) json_hooks_scheme \<Rightarrow> nat \<Rightarrow> pystr \<Rightarrow> 'e json_fail + pyval" where
  "json_loads_with h budget s =
     (if s \<noteq> [] \<and> hd s = 0xFEFF then Inl JDecode
      else
        (case json_scan h (2 * length s + 2) budget (skip_ws s) of
           Inl e \<Rightarrow> Inl e
         | Inr (v, r) \<Rightarrow> if skip_ws r = [] then Inr v else Inl JDecode))"

text \<open>
  Plain \<open>json.loads\<close>: later duplicates of a key win, and an integer literal with more digits
  than the interpreter's \<open>int_max_str_digits\<close> (zero means no limit) raises \<open>ValueError\<close>.
\<close>

record py_limits =
  py_recursion :: nat
  py_int_digits :: nat

definition digit_count :: "pystr \<Rightarrow> nat" where
  "digit_count t = length t - (if starts_with [45] t then 1 else 0)"

definition py_int :: "py_limits \<Rightarrow> pystr \<Rightarrow> unit + int" where
  "py_int L t =
     (if py_int_digits L \<noteq> 0 \<and> py_int_digits L < digit_count t then Inl ()
      else Inr (int_value t))"

definition constant_value :: "pystr \<Rightarrow> pyval" where
  "constant_value name =
     PFloat (if name = py ''NaN'' then NaN else if name = py ''Infinity'' then PosInf else NegInf)"

definition plain_hooks :: "py_limits \<Rightarrow> unit json_hooks" where
  "plain_hooks L =
     \<lparr>hook_object = (\<lambda>ps. Inr (PDict (dict_of (map (\<lambda>(k, v). (PStr k, v)) ps)))),
      hook_int = (\<lambda>t. case py_int L t of Inl u \<Rightarrow> Inl u | Inr i \<Rightarrow> Inr (PInt i)),
      hook_constant = (\<lambda>n. Inr (constant_value n))\<rparr>"

definition json_loads :: "py_limits \<Rightarrow> pystr \<Rightarrow> unit json_fail + pyval" where
  "json_loads L s = json_loads_with (plain_hooks L) (py_recursion L) s"

subsection \<open>Evaluation\<close>

lemma json_scan_numeral:
  "json_scan h (numeral n) m s =
     scan_step h (json_elems h (pred_numeral n)) (json_members h (pred_numeral n)) m s"
  "json_elems h (numeral n) m acc s =
     elems_step (json_scan h (pred_numeral n)) (json_elems h (pred_numeral n)) m acc s"
  "json_members h (numeral n) m mem s =
     members_step h (json_scan h (pred_numeral n)) (json_members h (pred_numeral n)) m mem s"
  by (simp_all add: numeral_eq_Suc)

lemmas json_eval = json_loads_def json_loads_with_def py_def skip_ws_def is_ws_def
  close_object_def plain_hooks_def dict_of_def scan_step_def elems_step_def members_step_def
  scan_atom_def scan_number_def starts_with_def after_prefix_def scan_int_part_def scan_frac_def
  scan_exp_def is_digit_def py_int_def digit_count_def int_value_def digits_val_def
  json_scan_numeral

subsection \<open>Progress and fuel\<close>

lemma length_skip_ws: "length (skip_ws s) \<le> length s"
  by (simp add: skip_ws_def length_dropWhile_le)

lemma scan_string_progress: "scan_string acc s = Some (t, r) \<Longrightarrow> length r < length s"
proof (induction acc s rule: scan_string.induct)
  case (2 acc c r')
  then show ?case
    by (fastforce split: if_splits option.splits dest!: scan_escape_shorter)
qed simp

lemma scan_int_part_progress:
  "scan_int_part s = Some (w, r) \<Longrightarrow> length r < length s"
  using length_dropWhile_le [of is_digit]
  by (auto simp: scan_int_part_def Let_def le_imp_less_Suc less_SucI
      split: list.splits if_splits)

lemma scan_frac_le: "length (snd (scan_frac r)) \<le> length r"
  using length_dropWhile_le [of is_digit]
  by (auto simp: scan_frac_def le_SucI split: list.splits if_splits)

lemma scan_exp_le: "length (snd (scan_exp r)) \<le> length r"
  using length_dropWhile_le [of is_digit]
  by (auto simp: scan_exp_def Let_def le_SucI split: list.splits if_splits)

lemma scan_number_progress: "scan_number h s = Inr (v, r) \<Longrightarrow> length r < length s"
proof -
  assume *: "scan_number h s = Inr (v, r)"
  then obtain w r0 where 1: "scan_int_part s = Some (w, r0)"
    by (auto simp: scan_number_def split: option.splits)
  with * have "r = snd (scan_exp (snd (scan_frac r0)))"
    by (auto simp: scan_number_def split: prod.splits if_splits sum.splits)
  then show "length r < length s"
    using scan_int_part_progress [OF 1] scan_frac_le [of r0] scan_exp_le [of "snd (scan_frac r0)"]
    by simp
qed

lemma after_prefix_progress: "starts_with p s \<Longrightarrow> p \<noteq> [] \<Longrightarrow> length (after_prefix p s) < length s"
  by (cases s; cases p) (auto simp: starts_with_def after_prefix_def)

lemma scan_atom_progress: "scan_atom h s = Inr (v, r) \<Longrightarrow> length r < length s"
  by (auto simp: scan_atom_def scan_constant_def py_def
      intro: after_prefix_progress scan_number_progress split: if_splits sum.splits)

lemma json_scan_step_progress:
  assumes elems: "\<And>m acc s v r. json_elems h k m acc s = Inr (v, r) \<Longrightarrow> length r < length s"
    and members: "\<And>m acc s v r. json_members h k m acc s = Inr (v, r) \<Longrightarrow> length r < length s"
    and ok: "json_scan h (Suc k) m s = Inr (v, r)"
  shows "length r < length s"
proof (cases s)
  case (Cons c s')
  have le: "length (skip_ws s') \<le> length s'" "length (tl (skip_ws s')) \<le> length s'"
    using length_skip_ws [of s'] by auto
  have e: "length r < Suc (length s')" if "json_elems h k n [] (skip_ws s') = Inr (v, r)" for n
    using elems [OF that] le by simp
  have mm: "length r < Suc (length s')" if "json_members h k n [] (skip_ws s') = Inr (v, r)" for n
    using members [OF that] le by simp
  show ?thesis
    using ok Cons le scan_string_progress [of "[]" s'] scan_atom_progress [of h s v r]
    by (auto simp: scan_step_def Let_def close_object_def less_Suc_eq_le less_imp_le dest: e mm
        split: if_splits option.splits sum.splits)
qed (use ok in \<open>simp add: scan_step_def\<close>)

lemma json_elems_step_progress:
  assumes scan: "\<And>m s v r. json_scan h k m s = Inr (v, r) \<Longrightarrow> length r < length s"
    and elems: "\<And>m acc s v r. json_elems h k m acc s = Inr (v, r) \<Longrightarrow> length r < length s"
    and ok: "json_elems h (Suc k) m acc s = Inr (v, r)"
  shows "length r < length s"
proof -
  obtain v1 r1 c r2 where 1: "json_scan h k m s = Inr (v1, r1)" "skip_ws r1 = c # r2"
    using ok by (auto simp: elems_step_def split: sum.splits list.splits)
  then have 2: "length r2 < length s"
    using scan [OF 1(1)] length_skip_ws [of r1] by simp
  consider "r = r2" | "json_elems h k m (v1 # acc) (skip_ws r2) = Inr (v, r)"
    using ok 1 by (auto simp: elems_step_def split: if_splits)
  then show ?thesis
  proof cases
    case 2
    with elems [OF 2] length_skip_ws [of r2] \<open>length r2 < length s\<close> show ?thesis by simp
  qed (use 2 in simp)
qed

lemma json_members_step_progress:
  assumes scan: "\<And>m s v r. json_scan h k m s = Inr (v, r) \<Longrightarrow> length r < length s"
    and members: "\<And>m acc s v r. json_members h k m acc s = Inr (v, r) \<Longrightarrow> length r < length s"
    and ok: "json_members h (Suc k) m acc s = Inr (v, r)"
  shows "length r < length s"
proof -
  obtain key r1 r2 v1 r3 c r4 where 1: "s \<noteq> []" "scan_string [] (tl s) = Some (key, r1)"
      "skip_ws r1 = 58 # r2" "json_scan h k m (skip_ws r2) = Inr (v1, r3)" "skip_ws r3 = c # r4"
    using ok by (auto simp: members_step_def split: sum.splits list.splits option.splits if_splits)
  then have 2: "length r4 < length s"
    using scan [OF 1(4)] length_skip_ws [of r1] length_skip_ws [of r2] length_skip_ws [of r3]
      scan_string_progress [OF 1(2)] by simp
  consider "r = r4" | "json_members h k m ((key, v1) # acc) (skip_ws r4) = Inr (v, r)"
    using ok 1 by (auto simp: members_step_def close_object_def split: if_splits sum.splits)
  then show ?thesis
  proof cases
    case 2
    with members [OF 2] length_skip_ws [of r4] \<open>length r4 < length s\<close> show ?thesis by simp
  qed (use 2 in simp)
qed

lemma json_progress_all:
  "(\<forall>m s v r. json_scan h k m s = Inr (v, r) \<longrightarrow> length r < length s) \<and>
   (\<forall>m acc s v r. json_elems h k m acc s = Inr (v, r) \<longrightarrow> length r < length s) \<and>
   (\<forall>m acc s v r. json_members h k m acc s = Inr (v, r) \<longrightarrow> length r < length s)"
proof (induction k)
  case (Suc k)
  then have scan: "\<And>m s v r. json_scan h k m s = Inr (v, r) \<Longrightarrow> length r < length s"
    and elems: "\<And>m acc s v r. json_elems h k m acc s = Inr (v, r) \<Longrightarrow> length r < length s"
    and members: "\<And>m acc s v r. json_members h k m acc s = Inr (v, r) \<Longrightarrow> length r < length s"
    by blast+
  show ?case
    by (intro conjI allI impI)
      (erule json_scan_step_progress [rotated 2] json_elems_step_progress [rotated 2]
         json_members_step_progress [rotated 2]; erule scan elems members)+
qed simp

lemma json_scan_progress: "json_scan h k m s = Inr (v, r) \<Longrightarrow> length r < length s"
  using json_progress_all by blast

text \<open>Two units of fuel per character of input are enough.\<close>

lemma json_fuel_all:
  "(\<forall>m s. 2 * length s < k \<longrightarrow> json_scan h k m s \<noteq> Inl JFuel) \<and>
   (\<forall>m acc s. 2 * length s + 1 < k \<longrightarrow> json_elems h k m acc s \<noteq> Inl JFuel) \<and>
   (\<forall>m acc s. 2 * length s + 1 < k \<longrightarrow> json_members h k m acc s \<noteq> Inl JFuel)"
proof (induction k)
  case (Suc k)
  have atom: "scan_atom h s \<noteq> Inl JFuel" for s
    by (auto simp: scan_atom_def scan_constant_def scan_number_def Let_def
        split: option.splits sum.splits prod.splits)
  have ws: "length (skip_ws s) \<le> length s" for s
    by (rule length_skip_ws)
  have scan: "json_scan h (Suc k) m s \<noteq> Inl JFuel" if "2 * length s < Suc k" for m s
  proof (cases s)
    case (Cons c r)
    with that have "2 * length (skip_ws r) + 1 < k"
      using ws [of r] by simp
    with Suc Cons atom show ?thesis
      by (auto simp: scan_step_def Let_def close_object_def split: option.splits sum.splits)
  qed (simp add: scan_step_def)
  have elems: "json_elems h (Suc k) m acc s \<noteq> Inl JFuel" if "2 * length s + 1 < Suc k" for m acc s
  proof (cases "json_scan h k m s")
    case (Inl e)
    with that Suc show ?thesis by (auto simp: elems_step_def)
  next
    case (Inr p)
    obtain v r where p: "p = (v, r)" by (cases p)
    have "2 * length (skip_ws r2) + 1 < k" if "skip_ws r = c # r2" for c r2
      using json_scan_progress [OF Inr [unfolded p]] that ws [of r] ws [of r2] \<open>2 * length s + 1 < Suc k\<close>
      by simp
    with Suc Inr p show ?thesis
      by (auto simp: elems_step_def split: list.splits)
  qed
  have members: "json_members h (Suc k) m acc s \<noteq> Inl JFuel" if lt: "2 * length s + 1 < Suc k" for m acc s
  proof (cases "s = [] \<or> hd s \<noteq> 34 \<or> scan_string [] (tl s) = None")
    case False
    then obtain key r where key: "scan_string [] (tl s) = Some (key, r)" and s: "s \<noteq> []" "hd s = 34"
      by auto
    have r: "length r < length s"
      using scan_string_progress [OF key] s by (cases s) auto
    have val: "2 * length (skip_ws r1) < k" if "skip_ws r = c # r1" for c r1
      using r lt that ws [of r] ws [of r1] by simp
    have rest: "2 * length (skip_ws r3) + 1 < k"
      if "skip_ws r = c # r1" "json_scan h k m (skip_ws r1) = Inr (v, r2)" "skip_ws r2 = c' # r3"
      for c r1 v r2 c' r3
      using json_scan_progress [OF that(2)] r lt that ws [of r] ws [of r1] ws [of r2] ws [of r3] by simp
    show ?thesis
      using s key val rest Suc by (auto simp: members_step_def close_object_def split: list.splits sum.splits)
  qed (auto simp: members_step_def)
  from scan elems members show ?case by blast
qed simp

lemma json_enough_fuel: "json_loads_with h m s \<noteq> Inl JFuel"
proof -
  have "2 * length (skip_ws s) < 2 * length s + 2"
    using length_skip_ws [of s] by simp
  then have "json_scan h (2 * length s + 2) m (skip_ws s) \<noteq> Inl JFuel"
    using json_fuel_all by blast
  then show ?thesis
    by (auto simp: json_loads_with_def split: sum.splits)
qed

end
