(* ===== verification/Lines.thy ===== *)
theory Lines
  imports Json
begin

text \<open>
  JSONL over byte streams, shared by the live follower (\<open>sidecar/tail.py\<close>), the historical
  replay (\<open>sidecar/adapters/replay.py\<close>) and the bounded readers (\<open>sidecar/adapters/base.py\<close>):
  what one raw line means, and the reference reading of a byte stream as bounded lines.

  The reference is a machine that takes one byte at a time and hands each complete line of at
  most \<open>m\<close> bytes to a callback. The interface \<open>chunk_reader\<close> states that a reader that takes
  whole chunks is that machine; it follows that a reader cannot tell how its input was cut.
\<close>

abbreviation NL :: "8 word" where
  "NL \<equiv> 10"

definition is_bytes_ws :: "8 word \<Rightarrow> bool" where
  "is_bytes_ws b \<longleftrightarrow> b = 32 \<or> 9 \<le> unat b \<and> unat b \<le> 13"

text \<open>\<open>not raw.strip()\<close> on bytes.\<close>

definition is_blank :: "bytes \<Rightarrow> bool" where
  "is_blank raw \<longleftrightarrow> list_all is_bytes_ws raw"

text \<open>
  The exceptions of \<open>json.loads\<close> that \<open>except (json.JSONDecodeError, UnicodeError)\<close> does not
  catch: the exhausted recursion budget, and the plain \<open>ValueError\<close> of an integer literal over
  the interpreter's digit ceiling.
\<close>

datatype loads_exc = RecursionError | IntDigitsValueError

definition line_value :: "py_limits \<Rightarrow> bytes \<Rightarrow> loads_exc + pyval option" where
  "line_value L raw =
     (case json_loads L (decode_replace raw) of
        Inl JRecursion \<Rightarrow> Inl RecursionError
      | Inl (JHook _) \<Rightarrow> Inl IntDigitsValueError
      | Inl _ \<Rightarrow> Inr None
      | Inr v \<Rightarrow> Inr (Some v))"

definition as_dict :: "pyval option \<Rightarrow> pydict option" where
  "as_dict v = (case v of Some (PDict d) \<Rightarrow> Some d | _ \<Rightarrow> None)"

text \<open>The object on one raw line, if it holds one.\<close>

definition line_record :: "py_limits \<Rightarrow> bytes \<Rightarrow> loads_exc + pydict option" where
  "line_record L raw =
     (if is_blank raw then Inr None
      else case line_value L raw of Inl e \<Rightarrow> Inl e | Inr v \<Rightarrow> Inr (as_dict v))"

text \<open>The objects on a list of lines; stops at the first line that raises.\<close>

fun lines_records :: "py_limits \<Rightarrow> bytes list \<Rightarrow> loads_exc option \<times> pydict list" where
  "lines_records L [] = (None, [])"
| "lines_records L (l # ls) =
     (case line_record L l of
        Inl e \<Rightarrow> (Some e, [])
      | Inr r \<Rightarrow>
          (case lines_records L ls of
             (e, ds) \<Rightarrow> (e, (case r of None \<Rightarrow> ds | Some d \<Rightarrow> d # ds))))"

text \<open>The complete lines of a stream (without their newlines) and the unterminated rest.\<close>

fun split_lines :: "bytes \<Rightarrow> bytes \<Rightarrow> bytes list \<times> bytes" where
  "split_lines cur [] = ([], rev cur)"
| "split_lines cur (b # s) =
     (if b = NL then (case split_lines [] s of (ls, t) \<Rightarrow> (rev cur # ls, t))
      else split_lines (b # cur) s)"

definition complete_lines :: "bytes \<Rightarrow> bytes list" where
  "complete_lines s = fst (split_lines [] s)"

definition trailing :: "bytes \<Rightarrow> bytes" where
  "trailing s = snd (split_lines [] s)"

text \<open>
  The bounded line machine: the bytes of the current line, or \<open>None\<close> once it has grown past
  the bound \<open>m\<close> and is being dropped, and the complete lines within the bound.
\<close>

type_synonym line_state = "bytes option \<times> bytes list"

definition line_byte :: "nat \<Rightarrow> line_state \<Rightarrow> 8 word \<Rightarrow> line_state" where
  "line_byte m st b =
     (case st of
        (None, ls) \<Rightarrow> if b = NL then (Some [], ls) else (None, ls)
      | (Some p, ls) \<Rightarrow>
          if b = NL then (Some [], ls @ [p])
          else if m < length p + 1 then (None, ls)
          else (Some (p @ [b]), ls))"

definition line_run :: "nat \<Rightarrow> line_state \<Rightarrow> bytes \<Rightarrow> line_state" where
  "line_run m st s = foldl (line_byte m) st s"

subsection \<open>The bounded line machine reads the bounded lines\<close>

lemma line_run_Nil [simp]: "line_run m st [] = st"
  by (simp add: line_run_def)

lemma line_run_Cons [simp]: "line_run m st (b # s) = line_run m (line_byte m st b) s"
  by (simp add: line_run_def)

lemma line_run_append: "line_run m st (s @ t) = line_run m (line_run m st s) t"
  by (simp add: line_run_def)

lemma split_lines_append_cur: "split_lines cur s =
    (case split_lines [] s of
       ([], t) \<Rightarrow> ([], rev cur @ t)
     | (l # ls, t) \<Rightarrow> ((rev cur @ l) # ls, t))"
proof (induction s arbitrary: cur)
  case (Cons b s)
  show ?case
  proof (cases "b = NL")
    case False
    have "split_lines (b # cur) s = (case split_lines [] s of
        ([], t) \<Rightarrow> ([], rev (b # cur) @ t) | (l # ls, t) \<Rightarrow> ((rev (b # cur) @ l) # ls, t))"
      by (rule Cons.IH)
    moreover have "split_lines [b] s = (case split_lines [] s of
        ([], t) \<Rightarrow> ([], rev [b] @ t) | (l # ls, t) \<Rightarrow> ((rev [b] @ l) # ls, t))"
      by (rule Cons.IH)
    ultimately show ?thesis
      using False by (auto split: prod.splits list.splits)
  qed (auto split: prod.splits)
qed simp

lemma complete_lines_NL:
  "NL \<notin> set l \<Longrightarrow> complete_lines (l @ NL # s) = l # complete_lines s"
  "NL \<notin> set l \<Longrightarrow> trailing (l @ NL # s) = trailing s"
proof -
  have "NL \<notin> set l \<Longrightarrow> split_lines cur (l @ NL # s) =
      (case split_lines [] s of (ls, t) \<Rightarrow> ((rev cur @ l) # ls, t))" for cur
    by (induction l arbitrary: cur) (auto split: prod.splits)
  from this [of "[]"] show "NL \<notin> set l \<Longrightarrow> complete_lines (l @ NL # s) = l # complete_lines s"
    and "NL \<notin> set l \<Longrightarrow> trailing (l @ NL # s) = trailing s"
    by (auto simp: complete_lines_def trailing_def split: prod.splits)
qed

lemma no_NL:
  "NL \<notin> set l \<Longrightarrow> complete_lines l = []" "NL \<notin> set l \<Longrightarrow> trailing l = l"
proof -
  have "NL \<notin> set l \<Longrightarrow> split_lines cur l = ([], rev cur @ l)" for cur
    by (induction l arbitrary: cur) auto
  then show "NL \<notin> set l \<Longrightarrow> complete_lines l = []" "NL \<notin> set l \<Longrightarrow> trailing l = l"
    by (simp_all add: complete_lines_def trailing_def)
qed

lemma length_after_newline:
  "s \<noteq> [] \<Longrightarrow> length (dropWhile (\<lambda>b. b \<noteq> NL) s) - Suc 0 < length s" for s :: bytes
  using length_dropWhile_le [of "\<lambda>b. b \<noteq> NL" s] by (cases s) auto

lemma takeWhile_line [simp]:
  "NL \<notin> set l \<Longrightarrow> takeWhile (\<lambda>b. b \<noteq> NL) (l @ NL # r) = l"
  "NL \<notin> set l \<Longrightarrow> dropWhile (\<lambda>b. b \<noteq> NL) (l @ NL # r) = NL # r"
  by (induction l) auto

text \<open>Every stream is a complete line followed by a stream, or an unterminated line.\<close>

lemma line_cases:
  obtains (part) "NL \<notin> set s" | (line) l r where "s = l @ NL # r" "NL \<notin> set l"
  by (metis split_list_first)

lemma line_induct [case_names part line]:
  assumes "\<And>s. NL \<notin> set s \<Longrightarrow> P s"
    and "\<And>l r. NL \<notin> set l \<Longrightarrow> P r \<Longrightarrow> P (l @ NL # r)"
  shows "P s"
proof (induction "length s" arbitrary: s rule: less_induct)
  case less
  show ?case
  proof (cases s rule: line_cases)
    case (line l r)
    then show ?thesis
      using assms(2) less by simp
  qed (rule assms(1))
qed

lemma line_run_dropping: "NL \<notin> set s \<Longrightarrow> line_run m (None, ls) s = (None, ls)"
  by (induction s) (auto simp: line_byte_def)

lemma line_run_part:
  "NL \<notin> set s \<Longrightarrow> length p \<le> m \<Longrightarrow> line_run m (Some p, ls) s =
    (if length p + length s \<le> m then Some (p @ s) else None, ls)"
  by (induction s arbitrary: p) (auto simp: line_byte_def line_run_dropping)

text \<open>What the machine holds of an unterminated line: nothing once it passes the bound.\<close>

definition bounded :: "nat \<Rightarrow> bytes \<Rightarrow> bytes option" where
  "bounded m s = (if length s \<le> m then Some s else None)"

definition bounded_lines :: "nat \<Rightarrow> bytes \<Rightarrow> bytes list" where
  "bounded_lines m s = filter (\<lambda>l. length l \<le> m) (complete_lines s)"

lemma line_run_spec:
  "line_run m (Some [], ls) s = (bounded m (trailing s), ls @ bounded_lines m s)"
proof (induction s arbitrary: ls rule: line_induct)
  case (part s)
  then show ?case
    by (simp add: line_run_part no_NL bounded_def bounded_lines_def)
next
  case (line l r)
  have "line_run m (Some [], ls) (l @ [NL]) = (Some [], ls @ filter (\<lambda>l. length l \<le> m) [l])"
    using line(1) by (simp add: line_run_append line_run_part) (simp add: line_byte_def)
  then have "line_run m (Some [], ls) ((l @ [NL]) @ r) =
      line_run m (Some [], ls @ filter (\<lambda>l. length l \<le> m) [l]) r"
    by (simp only: line_run_append)
  then show ?case
    using line by (simp add: complete_lines_NL bounded_lines_def)
qed

lemma line_run_acc:
  "line_run m (c, ls) s = (fst (line_run m (c, []) s), ls @ snd (line_run m (c, []) s))"
proof (induction s arbitrary: c ls)
  case (Cons b s)
  obtain c' ls' where 1: "line_byte m (c, []) b = (c', ls')" by fastforce
  then have "line_byte m (c, ls) b = (c', ls @ ls')"
    by (auto simp: line_byte_def split: option.splits if_splits)
  with 1 Cons [of c' "ls @ ls'"] Cons [of c' ls'] show ?case by simp
qed simp

lemma bounded_lines_append:
  "bounded_lines m (s @ t) = bounded_lines m s @ snd (line_run m (bounded m (trailing s), []) t)"
  "bounded m (trailing (s @ t)) = fst (line_run m (bounded m (trailing s), []) t)"
proof -
  have "line_run m (Some [], []) (s @ t) =
      line_run m (bounded m (trailing s), bounded_lines m s) t"
    by (simp add: line_run_append line_run_spec)
  also have "\<dots> = (fst (line_run m (bounded m (trailing s), []) t),
      bounded_lines m s @ snd (line_run m (bounded m (trailing s), []) t))"
    by (rule line_run_acc)
  finally show "bounded_lines m (s @ t) = bounded_lines m s @ snd (line_run m (bounded m (trailing s), []) t)"
    "bounded m (trailing (s @ t)) = fst (line_run m (bounded m (trailing s), []) t)"
    by (simp_all add: line_run_spec)
qed

lemma complete_lines_Nil [simp]: "complete_lines [] = []" "trailing [] = []"
  by (simp_all add: complete_lines_def trailing_def)

lemma no_NL_trailing: "NL \<notin> set (trailing s)"
  by (induction s rule: line_induct) (simp_all add: no_NL complete_lines_NL)

lemma complete_lines_append:
  "complete_lines (s @ t) = complete_lines s @ complete_lines (trailing s @ t)"
  by (induction s rule: line_induct) (simp_all add: no_NL complete_lines_NL)

lemma trailing_trailing_append: "trailing (trailing s @ t) = trailing (s @ t)"
  by (induction s rule: line_induct) (simp_all add: no_NL complete_lines_NL)

lemma trailing_rev: "trailing s = rev (takeWhile (\<lambda>b. b \<noteq> NL) (rev s))"
proof (induction s rule: line_induct)
  case (part s)
  then have "takeWhile (\<lambda>b. b \<noteq> NL) (rev s) = rev s"
    by (auto simp: takeWhile_eq_all_conv)
  with part show ?case
    by (simp add: no_NL del: takeWhile_eq_all_conv)
next
  case (line l r)
  then show ?case
    by (simp add: complete_lines_NL takeWhile_tail)
qed

lemma trailing_append:
  "trailing (s @ t) = (if NL \<in> set t then trailing t else trailing s @ t)"
proof (cases "NL \<in> set t")
  case False
  then have "takeWhile (\<lambda>b. b \<noteq> NL) (rev t @ rev s) = rev t @ takeWhile (\<lambda>b. b \<noteq> NL) (rev s)"
    by (intro takeWhile_append2) auto
  with False show ?thesis
    by (simp add: trailing_rev)
next
  case True
  then have "takeWhile (\<lambda>b. b \<noteq> NL) (rev t @ rev s) = takeWhile (\<lambda>b. b \<noteq> NL) (rev t)"
    by (intro takeWhile_append1 [of NL]) auto
  with True show ?thesis
    by (simp add: trailing_rev)
qed

lemma length_trailing: "length (trailing s) \<le> length s"
  by (simp add: trailing_rev length_takeWhile_le [of _ "rev s", simplified])

lemma NL_shortens_trailing:
  assumes "NL \<in> set s"
  shows "length (trailing s) < length s"
proof -
  obtain a b where "s = (a @ [NL]) @ b" "NL \<notin> set b"
    using split_list_last [OF assms] by auto
  then show ?thesis
    by (simp only: trailing_append) (simp add: trailing_rev)
qed

subsection \<open>Records of lines\<close>

lemma lines_records_append:
  "lines_records L (ls @ ms) =
    (case lines_records L ls of
       (Some e, ds) \<Rightarrow> (Some e, ds)
     | (None, ds) \<Rightarrow> (case lines_records L ms of (e, ds') \<Rightarrow> (e, ds @ ds')))"
  by (induction ls) (auto split: sum.splits prod.splits option.splits)

text \<open>Lines none of which makes \<open>json.loads\<close> raise past the handler.\<close>

definition benign :: "py_limits \<Rightarrow> bytes list \<Rightarrow> bool" where
  "benign L ls \<longleftrightarrow> fst (lines_records L ls) = None"

definition records_of :: "py_limits \<Rightarrow> bytes list \<Rightarrow> pydict list" where
  "records_of L ls = snd (lines_records L ls)"

lemma benign_append [simp]: "benign L (ls @ ms) \<longleftrightarrow> benign L ls \<and> benign L ms"
  by (auto simp: benign_def lines_records_append split: prod.splits option.splits)

lemma records_of_append:
  "benign L ls \<Longrightarrow> records_of L (ls @ ms) = records_of L ls @ records_of L ms"
  by (auto simp: benign_def records_of_def lines_records_append split: prod.splits option.splits)

lemma benign_Nil [simp]: "benign L []" and records_of_Nil [simp]: "records_of L [] = []"
  by (simp_all add: benign_def records_of_def)

lemma benign_single: "benign L [l] \<longleftrightarrow> (\<exists>r. line_record L l = Inr r)"
  by (auto simp: benign_def split: sum.splits)

lemma records_of_single:
  "line_record L l = Inr r \<Longrightarrow> records_of L [l] = (case r of None \<Rightarrow> [] | Some d \<Rightarrow> [d])"
  by (simp add: records_of_def)

lemma length_records_of: "length (records_of L ls) \<le> length ls"
  by (induction ls)
    (auto simp: records_of_def le_SucI split: sum.splits prod.splits option.splits)

subsection \<open>Readers that take chunks\<close>

locale chunk_reader =
  fixes feed :: "'s \<Rightarrow> bytes \<Rightarrow> 's"
    and byte :: "'s \<Rightarrow> 8 word \<Rightarrow> 's"
    and valid :: "'s \<Rightarrow> bool"
  assumes feed_bytes: "valid s \<Longrightarrow> feed s c = foldl byte s c"
    and byte_valid: "valid s \<Longrightarrow> valid (byte s b)"
begin

lemma bytes_valid: "valid s \<Longrightarrow> valid (foldl byte s c)"
  by (induction c arbitrary: s) (auto intro: byte_valid)

lemma feed_append: "valid s \<Longrightarrow> feed s (c @ d) = feed (feed s c) d"
  by (simp add: feed_bytes bytes_valid)

lemma feed_chunks: "valid s \<Longrightarrow> foldl feed s cs = feed s (concat cs)"
proof (induction cs arbitrary: s)
  case (Cons c cs)
  then show ?case
    using bytes_valid [of s c] by (simp add: feed_append) (simp add: feed_bytes)
qed (simp add: feed_bytes)

end

end
