(* ===== verification/Replay.thy ===== *)
theory Replay
  imports Lines
begin

text \<open>
  Bounded historical replay of JSONL transcripts (\<open>sidecar/adapters/replay.py\<close>): a forward scan
  of the file that returns one page of records after a line ordinal, under independent budgets
  for lines, records, retained bytes, scanned bytes and time.

  \<^item> \<open>replay_state\<close> holds the local variables of \<open>replay_jsonl_events\<close>; \<open>replay_limits\<close> its
    arguments, with \<open>skip_through\<close> already computed.
  \<^item> The file is \<open>content i\<close> at the \<open>i\<close>-th iteration of the read loop (\<open>None\<close> is an \<open>OSError\<close>
    of \<open>open\<close> or \<open>read\<close>), and \<open>expired i\<close> is what the deadline test answers there.
\<close>

record replay_limits =
  rl_skip :: nat
  rl_records :: nat
  rl_scan :: nat
  rl_retained :: nat
  rl_line :: nat

record replay_state =
  rs_records :: "pydict list"
  rs_ordinal :: nat
  rs_retained :: nat
  rs_pending :: bytes
  rs_dropping :: bool
  rs_stop :: bool

record ReplayPage =
  page_records :: "pydict list"
  page_exhausted :: bool

definition empty_page :: ReplayPage where
  "empty_page = \<lparr>page_records = [], page_exhausted = True\<rparr>"

definition CHUNK_BYTES :: nat where
  "CHUNK_BYTES = 262144"

text \<open>The inner function \<open>consume\<close>; its result \<open>True\<close> means that the page is full.\<close>

definition replay_consume ::
  "py_limits \<Rightarrow> replay_limits \<Rightarrow> replay_state \<Rightarrow> bytes \<Rightarrow> loads_exc + bool \<times> replay_state" where
  "replay_consume L P st raw =
     (if rs_ordinal st \<le> rl_skip P \<or> is_blank raw then Inr (False, st)
      else
        (case line_value L raw of
           Inl e \<Rightarrow> Inl e
         | Inr v \<Rightarrow>
             (case as_dict v of
                None \<Rightarrow> Inr (False, st)
              | Some d \<Rightarrow>
                  if int (rl_retained P) - int (rs_retained st) < int (length raw) then
                    Inr (rs_records st \<noteq> [], st)
                  else
                    (let st1 = st\<lparr>rs_records := rs_records st
                                   @ [dict_set d (pstr ''seq'') (PInt (int (rs_ordinal st)))],
                                 rs_retained := rs_retained st + length raw\<rparr>
                     in Inr (rl_records P \<le> length (rs_records st1)
                             \<or> rl_retained P \<le> rs_retained st1, st1)))))"

text \<open>The loop over one chunk; \<open>rest\<close> is \<open>chunk[start:]\<close>.\<close>

function replay_chunk ::
  "py_limits \<Rightarrow> replay_limits \<Rightarrow> replay_state \<Rightarrow> bytes \<Rightarrow> loads_exc + replay_state" where
  "replay_chunk L P st rest =
     (if rest = [] then Inr st
      else if NL \<notin> set rest then
        (if rs_dropping st then Inr st
         else if length (rs_pending st) + length rest \<le> rl_line P then
           Inr (st\<lparr>rs_pending := rs_pending st @ rest\<rparr>)
         else Inr (st\<lparr>rs_pending := [], rs_dropping := True\<rparr>))
      else
        (let segment = takeWhile (\<lambda>b. b \<noteq> NL) rest;
             rest' = tl (dropWhile (\<lambda>b. b \<noteq> NL) rest);
             st1 = st\<lparr>rs_ordinal := rs_ordinal st + 1\<rparr>
         in if rs_dropping st1 then
              replay_chunk L P (st1\<lparr>rs_dropping := False, rs_pending := []\<rparr>) rest'
            else if rl_line P < length (rs_pending st1) + length segment then
              replay_chunk L P (st1\<lparr>rs_pending := []\<rparr>) rest'
            else
              (case replay_consume L P (st1\<lparr>rs_pending := []\<rparr>) (rs_pending st1 @ segment) of
                 Inl e \<Rightarrow> Inl e
               | Inr (True, st2) \<Rightarrow> Inr (st2\<lparr>rs_stop := True\<rparr>)
               | Inr (False, st2) \<Rightarrow> replay_chunk L P st2 rest')))"
  by pat_completeness auto
termination
  by (relation "measure (\<lambda>(L, P, st, s). length s)") (auto simp: length_after_newline)

declare replay_chunk.simps [simp del]

text \<open>The read loop: the state at its end and whether the end of the file was seen.\<close>

datatype replay_exc = ReplayLoads loads_exc | ReplayOSError

function replay_loop ::
  "py_limits \<Rightarrow> replay_limits \<Rightarrow> (nat \<Rightarrow> bytes option) \<Rightarrow> (nat \<Rightarrow> bool) \<Rightarrow> nat \<Rightarrow> nat \<Rightarrow> replay_state
   \<Rightarrow> replay_exc + replay_state \<times> bool" where
  "replay_loop L P content expired i scanned st =
     (if rs_stop st \<or> rl_scan P \<le> scanned then Inr (st, False)
      else if expired i then Inr (st, False)
      else
        (case content i of
           None \<Rightarrow> Inl ReplayOSError
         | Some c \<Rightarrow>
             (let chunk = take (min CHUNK_BYTES (rl_scan P - scanned)) (drop scanned c) in
              if chunk = [] then Inr (st, True)
              else
                (case replay_chunk L P st chunk of
                   Inl e \<Rightarrow> Inl (ReplayLoads e)
                 | Inr st' \<Rightarrow>
                     replay_loop L P content expired (i + 1) (scanned + length chunk) st'))))"
  by pat_completeness auto
termination
  by (relation "measure (\<lambda>(L, P, content, expired, i, scanned, st). rl_scan P - scanned)")
    (auto simp: CHUNK_BYTES_def)

declare replay_loop.simps [simp del]

definition initial_replay :: replay_state where
  "initial_replay = \<lparr>rs_records = [], rs_ordinal = 0, rs_retained = 0, rs_pending = [],
     rs_dropping = False, rs_stop = False\<rparr>"

definition replay_jsonl_events ::
  "py_limits \<Rightarrow> (nat \<Rightarrow> bytes option) \<Rightarrow> (nat \<Rightarrow> bool) \<Rightarrow> int option \<Rightarrow> int \<Rightarrow> int \<Rightarrow> int \<Rightarrow> int \<Rightarrow> time
   \<Rightarrow> loads_exc + ReplayPage" where
  "replay_jsonl_events L content expired after_seq max_records max_scan max_retained max_line timeout =
     (if max_records \<le> 0 \<or> max_scan \<le> 0 \<or> max_retained \<le> 0 \<or> max_line \<le> 0 \<or> timeout \<le> 0 then
        Inr empty_page
      else
        (let skip = (case after_seq of None \<Rightarrow> 0 | Some n \<Rightarrow> if n < 0 then 0 else nat n);
             P = \<lparr>rl_skip = skip, rl_records = nat max_records, rl_scan = nat max_scan,
                  rl_retained = nat max_retained, rl_line = nat max_line\<rparr>
         in case replay_loop L P content expired 0 0 initial_replay of
              Inl ReplayOSError \<Rightarrow> Inr empty_page
            | Inl (ReplayLoads e) \<Rightarrow> Inl e
            | Inr (st, eof) \<Rightarrow>
                Inr \<lparr>page_records = rs_records st, page_exhausted = (eof \<and> \<not> rs_stop st)\<rparr>))"

text \<open>
  The adapter-facing wrapper with the default budgets; \<open>is_file\<close> is \<open>path.is_file()\<close>, \<open>None\<close>
  for an \<open>OSError\<close>.
\<close>

definition replay_jsonl_transcript ::
  "py_limits \<Rightarrow> (nat \<Rightarrow> bytes option) \<Rightarrow> (nat \<Rightarrow> bool) \<Rightarrow> bool option \<Rightarrow> pystr \<Rightarrow> int option \<Rightarrow> int
   \<Rightarrow> loads_exc + ReplayPage" where
  "replay_jsonl_transcript L content expired is_file transcript after_seq max_records =
     (if transcript = [] then Inr empty_page
      else if is_file \<noteq> Some True then Inr empty_page
      else replay_jsonl_events L content expired after_seq max_records
             (64 * 1024 * 1024) (8 * 1024 * 1024) (1024 * 1024) 5)"

subsection \<open>The chunk loop processes complete lines\<close>

text \<open>Reference: one complete line after the other, until the page is full.\<close>

fun run_lines ::
  "py_limits \<Rightarrow> replay_limits \<Rightarrow> replay_state \<Rightarrow> bytes list \<Rightarrow> loads_exc + replay_state" where
  "run_lines L P st [] = Inr st"
| "run_lines L P st (l # ls) =
     (let st1 = st\<lparr>rs_ordinal := rs_ordinal st + 1\<rparr> in
      if rl_line P < length l then run_lines L P st1 ls
      else
        (case replay_consume L P st1 l of
           Inl e \<Rightarrow> Inl e
         | Inr (True, st2) \<Rightarrow> Inr (st2\<lparr>rs_stop := True\<rparr>)
         | Inr (False, st2) \<Rightarrow> run_lines L P st2 ls))"

definition rs_cur :: "replay_state \<Rightarrow> bytes option" where
  "rs_cur st = (if rs_dropping st then None else Some (rs_pending st))"

definition rs_with :: "replay_state \<Rightarrow> bytes option \<Rightarrow> replay_state" where
  "rs_with st cur =
     st\<lparr>rs_pending := (case cur of None \<Rightarrow> [] | Some p \<Rightarrow> p), rs_dropping := (cur = None)\<rparr>"

text \<open>The state between chunks, after \<open>t\<close> of the current line has been read.\<close>

definition at_line :: "replay_limits \<Rightarrow> bytes \<Rightarrow> replay_state \<Rightarrow> bool" where
  "at_line P t st \<longleftrightarrow> NL \<notin> set t \<and> \<not> rs_stop st \<and> (rs_dropping st \<longrightarrow> rs_pending st = [])
     \<and> rs_cur st = bounded (rl_line P) t"

lemma rs_with_simps [simp]:
  "rs_cur (rs_with st c) = c" "rs_stop (rs_with st c) = rs_stop st"
  "rs_ordinal (rs_with st c) = rs_ordinal st" "rs_records (rs_with st c) = rs_records st"
  "rs_retained (rs_with st c) = rs_retained st" "rs_with (rs_with st c') c = rs_with st c"
  by (auto simp: rs_cur_def rs_with_def split: option.splits)

lemma rs_with_stop [simp]: "(rs_with st c)\<lparr>rs_stop := b\<rparr> = rs_with (st\<lparr>rs_stop := b\<rparr>) c"
  by (simp add: rs_with_def)

lemma consume_keeps:
  "replay_consume L P (rs_with st c) l =
    (case replay_consume L P st l of Inl e \<Rightarrow> Inl e | Inr (b, st') \<Rightarrow> Inr (b, rs_with st' c))"
  by (auto simp: replay_consume_def rs_with_def Let_def split: sum.splits option.splits)

lemma run_lines_keeps:
  "run_lines L P (rs_with st c) ls =
    (case run_lines L P st ls of Inl e \<Rightarrow> Inl e | Inr st' \<Rightarrow> Inr (rs_with st' c))"
proof (induction ls arbitrary: st)
  case (Cons l ls)
  have "(rs_with st c)\<lparr>rs_ordinal := n\<rparr> = rs_with (st\<lparr>rs_ordinal := n\<rparr>) c" for n
    by (simp add: rs_with_def)
  moreover have "(rs_with st c)\<lparr>rs_stop := True\<rparr> = rs_with (st\<lparr>rs_stop := True\<rparr>) c" for st
    by (simp add: rs_with_def)
  ultimately show ?case
    using Cons.IH
    by (auto simp: Let_def consume_keeps split: sum.splits prod.splits bool.splits)
qed simp

lemma consume_frame:
  "replay_consume L P st l = Inr (b, st') \<Longrightarrow>
    rs_stop st' = rs_stop st \<and> rs_ordinal st' = rs_ordinal st \<and> rs_cur st' = rs_cur st"
  by (auto simp: replay_consume_def rs_cur_def Let_def split: if_splits sum.splits option.splits)

lemma rs_with_cur: "rs_dropping st \<longrightarrow> rs_pending st = [] \<Longrightarrow> rs_cur st = c \<Longrightarrow> rs_with st c = st"
  by (cases st) (auto simp: rs_cur_def rs_with_def split: if_splits)

lemma replay_chunk_part:
  assumes "NL \<notin> set c" and "at_line P t st"
  shows "replay_chunk L P st c = Inr (rs_with st (bounded (rl_line P) (t @ c)))"
proof (cases "c = []")
  case True
  then show ?thesis
    using assms(2) by (simp add: replay_chunk.simps at_line_def rs_with_cur)
next
  case False
  with assms show ?thesis
    by (subst replay_chunk.simps)
      (auto simp: at_line_def rs_cur_def rs_with_def bounded_def split: if_splits)
qed

lemma replay_chunk_line:
  assumes l: "NL \<notin> set l" and st: "at_line P t st"
  defines "st1 \<equiv> rs_with (st\<lparr>rs_ordinal := rs_ordinal st + 1\<rparr>) (Some [])"
  shows "replay_chunk L P st (l @ NL # r) =
    (if rl_line P < length (t @ l) then replay_chunk L P st1 r
     else case replay_consume L P st1 (t @ l) of
            Inl e \<Rightarrow> Inl e
          | Inr (True, st2) \<Rightarrow> Inr (st2\<lparr>rs_stop := True\<rparr>)
          | Inr (False, st2) \<Rightarrow> replay_chunk L P st2 r)"
proof -
  have drop: "st\<lparr>rs_ordinal := n, rs_dropping := False, rs_pending := []\<rparr> =
      rs_with (st\<lparr>rs_ordinal := n\<rparr>) (Some [])" for n
    by (simp add: rs_with_def)
  have keep: "st\<lparr>rs_ordinal := n, rs_pending := []\<rparr> = rs_with (st\<lparr>rs_ordinal := n\<rparr>) (Some [])"
    if "\<not> rs_dropping st" for n
    using that by (cases st) (simp add: rs_with_def)
  show ?thesis
  proof (cases "rs_dropping st")
    case True
    with st have "rl_line P < length t"
      by (auto simp: at_line_def rs_cur_def bounded_def split: if_splits)
    with True l show ?thesis
      by (subst replay_chunk.simps) (simp add: st1_def drop)
  next
    case False
    with st have t: "rs_pending st = t" "length t \<le> rl_line P"
      by (auto simp: at_line_def rs_cur_def bounded_def split: if_splits)
    with False l show ?thesis
      by (subst replay_chunk.simps) (simp add: st1_def keep)
  qed
qed

lemma replay_chunk_spec:
  assumes "at_line P t st"
  shows "replay_chunk L P st c =
    (case run_lines L P st (complete_lines (t @ c)) of
       Inl e \<Rightarrow> Inl e
     | Inr st' \<Rightarrow>
         Inr (rs_with st' (if rs_stop st' then Some [] else bounded (rl_line P) (trailing (t @ c)))))"
  using assms
proof (induction c arbitrary: t st rule: line_induct)
  case (part c)
  then have "NL \<notin> set (t @ c)" by (simp add: at_line_def)
  with part show ?case
    by (simp add: replay_chunk_part no_NL at_line_def)
next
  case (line l r)
  define st0 where "st0 = st\<lparr>rs_ordinal := Suc (rs_ordinal st)\<rparr>"
  have t: "NL \<notin> set (t @ l)" and stop: "\<not> rs_stop st0"
    using line by (simp_all add: at_line_def st0_def)
  then have lines: "complete_lines (t @ l @ NL # r) = (t @ l) # complete_lines r"
    "trailing (t @ l @ NL # r) = trailing r"
    using complete_lines_NL [of "t @ l" r] by simp_all
  have next_line: "replay_chunk L P (rs_with st2 (Some [])) r =
      (case run_lines L P st2 (complete_lines r) of
         Inl e \<Rightarrow> Inl e
       | Inr st' \<Rightarrow> Inr (rs_with st' (if rs_stop st' then Some [] else bounded (rl_line P) (trailing r))))"
    if "\<not> rs_stop st2" for st2
  proof -
    have "at_line P [] (rs_with st2 (Some []))"
      using that by (simp add: at_line_def bounded_def) (simp add: rs_with_def)
    from line.IH [OF this] show ?thesis
      by (simp add: run_lines_keeps split: sum.splits)
  qed
  show ?case
  proof (cases "rl_line P < length (t @ l)")
    case True
    with next_line [OF stop] show ?thesis
      unfolding replay_chunk_line [OF line.hyps line.prems] lines by (simp add: st0_def)
  next
    case False
    show ?thesis
    proof (cases "replay_consume L P st0 (t @ l)")
      case (Inl e)
      with False show ?thesis
        unfolding replay_chunk_line [OF line.hyps line.prems] lines
        by (simp add: st0_def [symmetric] consume_keeps)
    next
      case (Inr x)
      obtain b st2 where x: "x = (b, st2)" by fastforce
      have "\<not> rs_stop st2"
        using consume_frame [of L P st0 "t @ l" b st2] Inr x stop by simp
      with False Inr x next_line [of st2] show ?thesis
        unfolding replay_chunk_line [OF line.hyps line.prems] lines
        by (auto simp: st0_def [symmetric] consume_keeps split: bool.splits)
    qed
  qed
qed

subsection \<open>The page does not depend on how the file is cut into chunks\<close>

definition replay_feed ::
  "py_limits \<Rightarrow> replay_limits \<Rightarrow> loads_exc + replay_state \<Rightarrow> bytes \<Rightarrow> loads_exc + replay_state" where
  "replay_feed L P s c =
     (case s of
        Inl e \<Rightarrow> Inl e
      | Inr st \<Rightarrow> if rs_stop st then Inr st else replay_chunk L P st c)"

definition replay_ok :: "replay_limits \<Rightarrow> loads_exc + replay_state \<Rightarrow> bool" where
  "replay_ok P s \<longleftrightarrow> (case s of Inl e \<Rightarrow> True | Inr st \<Rightarrow> rs_stop st \<or> (\<exists>t. at_line P t st))"

lemma run_lines_append:
  "\<not> rs_stop st \<Longrightarrow> run_lines L P st (ls @ ms) =
    (case run_lines L P st ls of
       Inl e \<Rightarrow> Inl e
     | Inr st' \<Rightarrow> if rs_stop st' then Inr st' else run_lines L P st' ms)"
proof (induction ls arbitrary: st)
  case (Cons l ls)
  then show ?case
    by (auto simp: Let_def consume_frame split: sum.splits prod.splits bool.splits)
qed simp

lemma at_line_next:
  assumes "at_line P t st" and "run_lines L P st (complete_lines (t @ c)) = Inr st'" and "\<not> rs_stop st'"
  shows "at_line P (trailing (t @ c)) (rs_with st' (bounded (rl_line P) (trailing (t @ c))))"
  using assms(3) by (simp add: at_line_def no_NL_trailing) (simp add: rs_with_def bounded_def)

lemma replay_feed_ok:
  assumes "replay_ok P s"
  shows "replay_ok P (replay_feed L P s c)"
proof (cases "\<exists>st. s = Inr st \<and> \<not> rs_stop st")
  case True
  then obtain st where st: "s = Inr st" "\<not> rs_stop st" by blast
  with assms obtain t where t: "at_line P t st"
    by (auto simp: replay_ok_def)
  show ?thesis
  proof (cases "run_lines L P st (complete_lines (t @ c))")
    case (Inr st')
    then show ?thesis
      using st at_line_next [OF t Inr]
      by (cases "rs_stop st'") (auto simp: replay_ok_def replay_feed_def replay_chunk_spec [OF t])
  qed (simp add: replay_ok_def replay_feed_def replay_chunk_spec [OF t] st)
next
  case False
  with assms show ?thesis
    by (auto simp: replay_ok_def replay_feed_def split: sum.splits)
qed

lemma replay_feed_append:
  "replay_ok P s \<Longrightarrow> replay_feed L P s (c @ d) = replay_feed L P (replay_feed L P s c) d"
proof (cases s)
  case (Inr st)
  assume ok: "replay_ok P s"
  show ?thesis
  proof (cases "rs_stop st")
    case False
    with ok Inr obtain t where t: "at_line P t st"
      by (auto simp: replay_ok_def)
    have lines: "complete_lines (t @ c @ d) = complete_lines (t @ c) @ complete_lines (trailing (t @ c) @ d)"
      "trailing (t @ c @ d) = trailing (trailing (t @ c) @ d)"
      using complete_lines_append [of "t @ c" d] trailing_trailing_append [of "t @ c" d] by simp_all
    show ?thesis
    proof (cases "run_lines L P st (complete_lines (t @ c))")
      case (Inl e)
      with False Inr t lines show ?thesis
        by (simp add: replay_feed_def replay_chunk_spec [OF t] run_lines_append)
    next
      case st': (Inr st')
      show ?thesis
      proof (cases "rs_stop st'")
        case True
        with False Inr t lines st' show ?thesis
          by (simp add: replay_feed_def replay_chunk_spec [OF t] run_lines_append)
      next
        case nostop: False
        note t' = at_line_next [OF t st' nostop]
        show ?thesis
          using False Inr t lines st' nostop
          by (auto simp: replay_feed_def replay_chunk_spec [OF t] replay_chunk_spec [OF t']
              run_lines_append run_lines_keeps split: sum.splits)
      qed
    qed
  qed (simp add: replay_feed_def Inr)
qed (simp add: replay_feed_def)

interpretation replay_reader: chunk_reader "replay_feed L P" "\<lambda>s b. replay_feed L P s [b]" "replay_ok P"
  for L :: py_limits and P :: replay_limits
proof unfold_locales
  show "replay_ok P s \<Longrightarrow> replay_feed L P s c = foldl (\<lambda>s b. replay_feed L P s [b]) s c" for s c
  proof (induction c arbitrary: s)
    case Nil
    then show ?case
      by (auto simp: replay_feed_def replay_chunk.simps split: sum.splits)
  next
    case (Cons b c)
    then show ?case
      using replay_feed_append [of P s L "[b]" c] replay_feed_ok [of P s L "[b]"] by simp
  qed
qed (rule replay_feed_ok)

lemma replay_loop_stable:
  assumes "replay_ok P (Inr st)" and "length c < rl_scan P" and "scanned \<le> length c"
    and "\<not> rs_stop st"
  shows "replay_loop L P (\<lambda>_. Some c) (\<lambda>_. False) i scanned st =
    (case replay_feed L P (Inr st) (drop scanned c) of
       Inl e \<Rightarrow> Inl (ReplayLoads e)
     | Inr st' \<Rightarrow> Inr (st', \<not> rs_stop st'))"
  using assms
proof (induction "length c - scanned" arbitrary: scanned st i rule: less_induct)
  case less
  define n where "n = min CHUNK_BYTES (rl_scan P - scanned)"
  define chunk where "chunk = take n (drop scanned c)"
  have n: "0 < n" using less.prems by (simp add: n_def CHUNK_BYTES_def)
  show ?case
  proof (cases "scanned = length c")
    case True
    then show ?thesis
      using less.prems
      by (subst replay_loop.simps) (simp add: replay_feed_def replay_chunk.simps)
  next
    case False
    then have ne: "chunk \<noteq> []" using n less.prems by (simp add: chunk_def)
    have rest: "drop scanned c = chunk @ drop (scanned + length chunk) c"
      using append_take_drop_id [of n "drop scanned c"]
      by (cases "n \<le> length c - scanned") (simp_all add: chunk_def add.commute)
    have feed: "replay_feed L P (Inr st) (drop scanned c) =
        replay_feed L P (replay_feed L P (Inr st) chunk) (drop (scanned + length chunk) c)"
      using replay_reader.feed_append [OF less.prems(1)] rest by metis
    have loop: "replay_loop L P (\<lambda>_. Some c) (\<lambda>_. False) i scanned st =
        (case replay_feed L P (Inr st) chunk of
           Inl e \<Rightarrow> Inl (ReplayLoads e)
         | Inr st' \<Rightarrow> replay_loop L P (\<lambda>_. Some c) (\<lambda>_. False) (i + 1) (scanned + length chunk) st')"
      using less.prems ne
      by (subst replay_loop.simps)
        (simp add: replay_feed_def n_def [symmetric] chunk_def [symmetric] split: sum.splits)
    show ?thesis
    proof (cases "replay_feed L P (Inr st) chunk")
      case (Inl e)
      then show ?thesis by (simp add: loop feed) (simp add: replay_feed_def)
    next
      case (Inr st')
      have ok: "replay_ok P (Inr st')"
        using replay_feed_ok [OF less.prems(1), of L chunk] Inr by simp
      show ?thesis
      proof (cases "rs_stop st'")
        case True
        then show ?thesis
          unfolding loop feed Inr by (simp add: replay_feed_def replay_loop.simps)
      next
        case False
        have "length c - (scanned + length chunk) < length c - scanned" "scanned + length chunk \<le> length c"
          using ne less.prems by (auto simp: chunk_def)
        from less.hyps [OF this(1) ok less.prems(2) this(2) False] Inr show ?thesis
          by (simp add: loop feed)
      qed
    qed
  qed
qed

subsection \<open>Paging by line ordinal\<close>

text \<open>The objects on the lines within the line bound, with the ordinals of their lines.\<close>

fun numbered :: "py_limits \<Rightarrow> nat \<Rightarrow> nat \<Rightarrow> bytes list \<Rightarrow> (nat \<times> pydict) list" where
  "numbered L m n [] = []"
| "numbered L m n (l # ls) =
     (case (if length l \<le> m then line_record L l else Inr None) of
        Inr (Some d) \<Rightarrow> [(n + 1, d)]
      | _ \<Rightarrow> []) @ numbered L m (n + 1) ls"

definition seq_record :: "nat \<times> pydict \<Rightarrow> pydict" where
  "seq_record x = dict_set (snd x) (pstr ''seq'') (PInt (int (fst x)))"

lemma numbered_sorted:
  "sorted_wrt (<) (map fst (numbered L m n ls)) \<and> (\<forall>x \<in> set (numbered L m n ls). n < fst x)"
proof (induction ls arbitrary: n)
  case (Cons l ls)
  from Cons [of "n + 1"] show ?case
    by (auto split: sum.splits option.splits)
qed simp

definition room :: "replay_limits \<Rightarrow> replay_state \<Rightarrow> bool" where
  "room P st \<longleftrightarrow> \<not> rs_stop st \<and> (rs_records st = [] \<longrightarrow> rs_retained st = 0)
     \<and> rs_retained st < rl_retained P"

lemma consume_cases:
  assumes "room P st" and "line_record L l = Inr r" and "length l \<le> rl_line P"
    and "rl_line P \<le> rl_retained P"
  shows "\<exists>full st'. replay_consume L P st l = Inr (full, st')
    \<and> (if full then rs_records st' \<noteq> [] else room P st') \<and> rs_ordinal st' = rs_ordinal st
    \<and> (rs_records st' = rs_records st
         @ (case r of Some d \<Rightarrow> if rl_skip P < rs_ordinal st then [seq_record (rs_ordinal st, d)] else []
            | None \<Rightarrow> [])
       \<or> full \<and> rs_records st' = rs_records st)"
proof (cases "rs_ordinal st \<le> rl_skip P \<or> r = None")
  case True
  then have "replay_consume L P st l = Inr (False, st)"
    using assms(2) by (auto simp: replay_consume_def line_record_def split: if_splits sum.splits)
  with True assms(1) show ?thesis
    by (auto split: option.splits)
next
  case False
  then obtain d where d: "r = Some d" "rl_skip P < rs_ordinal st" by auto
  let ?st = "st\<lparr>rs_records := rs_records st @ [seq_record (rs_ordinal st, d)],
    rs_retained := rs_retained st + length l\<rparr>"
  have c: "replay_consume L P st l =
      (if int (rl_retained P) - int (rs_retained st) < int (length l) then Inr (rs_records st \<noteq> [], st)
       else Inr (rl_records P \<le> length (rs_records ?st) \<or> rl_retained P \<le> rs_retained ?st, ?st))"
    using d assms(2) by (auto simp: replay_consume_def line_record_def seq_record_def Let_def
        split: if_splits sum.splits)
  show ?thesis
  proof (cases "int (rl_retained P) - int (rs_retained st) < int (length l)")
    case True
    then have "rs_records st \<noteq> []"
      using assms(1,3,4) by (auto simp: room_def)
    with True c show ?thesis by auto
  next
    case False
    then show ?thesis
      using assms(1) d unfolding c by (auto simp: room_def)
  qed
qed

lemma run_lines_page:
  assumes "room P st" and "\<forall>l \<in> set ls. length l \<le> rl_line P \<longrightarrow> (\<exists>r. line_record L l = Inr r)"
    and "rl_line P \<le> rl_retained P"
  shows "\<exists>k st'. run_lines L P st ls = Inr st'
    \<and> rs_records st' = rs_records st @ map seq_record
        (take k (filter (\<lambda>x. rl_skip P < fst x) (numbered L (rl_line P) (rs_ordinal st) ls)))
    \<and> (if rs_stop st' then rs_records st' \<noteq> [] else
         length (filter (\<lambda>x. rl_skip P < fst x) (numbered L (rl_line P) (rs_ordinal st) ls)) \<le> k)"
  using assms
proof (induction ls arbitrary: st)
  case Nil
  then show ?case by (auto simp: room_def)
next
  case (Cons l ls)
  define st1 where "st1 = st\<lparr>rs_ordinal := rs_ordinal st + 1\<rparr>"
  have st1: "room P st1" "rs_records st1 = rs_records st" "rs_ordinal st1 = rs_ordinal st + 1"
    using Cons.prems(1) by (simp_all add: st1_def room_def)
  show ?case
  proof (cases "length l \<le> rl_line P")
    case False
    then have eq: "run_lines L P st (l # ls) = run_lines L P st1 ls"
      "numbered L (rl_line P) (rs_ordinal st) (l # ls) = numbered L (rl_line P) (rs_ordinal st1) ls"
      by (simp_all add: st1_def)
    show ?thesis
      unfolding eq st1(2) [symmetric] using Cons.prems(2,3) by (intro Cons.IH [OF st1(1)]) simp_all
  next
    case True
    with Cons.prems(2) obtain r where r: "line_record L l = Inr r" by auto
    let ?x = "case r of Some d \<Rightarrow> [(rs_ordinal st + 1, d)] | None \<Rightarrow> []"
    let ?ys = "numbered L (rl_line P) (rs_ordinal st + 1) ls"
    have num: "numbered L (rl_line P) (rs_ordinal st) (l # ls) = ?x @ ?ys"
      using True r by (simp split: option.splits)
    let ?fx = "filter (\<lambda>x. rl_skip P < fst x) ?x"
    have fx: "(case r of Some d \<Rightarrow> if rl_skip P < rs_ordinal st1 then [seq_record (rs_ordinal st1, d)] else []
        | None \<Rightarrow> []) = map seq_record ?fx"
      by (simp add: st1(3) split: option.splits)
    obtain full st2 where c: "replay_consume L P st1 l = Inr (full, st2)"
      "if full then rs_records st2 \<noteq> [] else room P st2" "rs_ordinal st2 = rs_ordinal st + 1"
      "rs_records st2 = rs_records st @ map seq_record ?fx \<or> full \<and> rs_records st2 = rs_records st"
      using consume_cases [OF st1(1) r True Cons.prems(3)] unfolding fx [unfolded st1(3)] st1(2,3) by blast
    show ?thesis
    proof (cases full)
      case True
      obtain j where j: "rs_records st2 = rs_records st @ map seq_record (take j ?fx)" "j \<le> length ?fx"
      proof (cases "rs_records st2 = rs_records st")
        case True
        then show ?thesis using that [of 0] by simp
      next
        case False
        with c(4) show ?thesis using that [of "length ?fx"] by simp
      qed
      have "run_lines L P st (l # ls) = Inr (st2\<lparr>rs_stop := True\<rparr>)"
        using c(1) True \<open>length l \<le> rl_line P\<close> by (simp add: st1_def [symmetric, simplified])
      moreover have "take j (filter (\<lambda>x. rl_skip P < fst x) (?x @ ?ys)) = take j ?fx"
        using j(2) by simp
      ultimately show ?thesis
        unfolding num using j(1) c(2) True
        by (intro exI [of _ j] exI [of _ "st2\<lparr>rs_stop := True\<rparr>"]) simp
    next
      case False
      have room2: "room P st2"
        using c(2) False by simp
      have ok2: "\<forall>l \<in> set ls. length l \<le> rl_line P \<longrightarrow> (\<exists>r. line_record L l = Inr r)"
        using Cons.prems(2) by simp
      obtain k st3 where k: "run_lines L P st2 ls = Inr st3"
        "rs_records st3 = rs_records st2 @ map seq_record (take k (filter (\<lambda>x. rl_skip P < fst x) ?ys))"
        "if rs_stop st3 then rs_records st3 \<noteq> [] else length (filter (\<lambda>x. rl_skip P < fst x) ?ys) \<le> k"
        using Cons.IH [OF room2 ok2 Cons.prems(3), unfolded c(3)] by blast
      have "run_lines L P st (l # ls) = Inr st3"
        using c(1) False k(1) \<open>length l \<le> rl_line P\<close> by (simp add: st1_def [symmetric, simplified])
      moreover have "map seq_record ?fx @ map seq_record (take k (filter (\<lambda>x. rl_skip P < fst x) ?ys)) =
          map seq_record (take (k + length ?fx) (filter (\<lambda>x. rl_skip P < fst x) (?x @ ?ys)))"
        by simp
      ultimately show ?thesis
        unfolding num using k c(4) False
        by (intro exI [of _ "k + length ?fx"] exI [of _ st3]) (simp split: if_splits)
    qed
  qed
qed

text \<open>One page of a file that fits the scan budget and is read in time.\<close>

definition stable_page :: "py_limits \<Rightarrow> bytes \<Rightarrow> int \<Rightarrow> int \<Rightarrow> int \<Rightarrow> int \<Rightarrow> int option \<Rightarrow> loads_exc + ReplayPage" where
  "stable_page L c max_records max_scan max_retained max_line q =
     replay_jsonl_events L (\<lambda>_. Some c) (\<lambda>_. False) q max_records max_scan max_retained max_line 1"

definition skip_of :: "int option \<Rightarrow> nat" where
  "skip_of q = (case q of None \<Rightarrow> 0 | Some n \<Rightarrow> if n < 0 then 0 else nat n)"

definition remaining :: "py_limits \<Rightarrow> nat \<Rightarrow> bytes \<Rightarrow> nat \<Rightarrow> (nat \<times> pydict) list" where
  "remaining L m c skip = filter (\<lambda>x. skip < fst x) (numbered L m 0 (complete_lines c))"

lemma benign_iff: "benign L ls \<longleftrightarrow> (\<forall>l \<in> set ls. \<exists>r. line_record L l = Inr r)"
proof (induction ls)
  case (Cons l ls)
  have "benign L (l # ls) \<longleftrightarrow> benign L [l] \<and> benign L ls"
    using benign_append [of L "[l]" ls] by simp
  with Cons show ?case
    by (simp add: benign_single)
qed simp

lemma consume_size:
  "replay_consume L P st l = Inr (full, st') \<Longrightarrow> length (rs_records st) < rl_records P \<Longrightarrow>
    length (rs_records st') \<le> rl_records P \<and> (\<not> full \<longrightarrow> length (rs_records st') < rl_records P)"
  by (auto simp: replay_consume_def Let_def split: if_splits sum.splits option.splits)

lemma run_lines_size:
  "run_lines L P st ls = Inr st' \<Longrightarrow> length (rs_records st) < rl_records P \<Longrightarrow>
    length (rs_records st') \<le> rl_records P"
proof (induction ls arbitrary: st)
  case (Cons l ls)
  then show ?case
    by (auto simp: Let_def split: if_splits sum.splits bool.splits prod.splits dest!: consume_size)
qed simp

lemma stable_page_spec:
  assumes "0 < max_records" "0 < max_line" "max_line \<le> max_retained" and "int (length c) < max_scan"
    and "benign L (bounded_lines (nat max_line) c)"
  shows "\<exists>k exhausted. stable_page L c max_records max_scan max_retained max_line q =
      Inr \<lparr>page_records = map seq_record (take k (remaining L (nat max_line) c (skip_of q))),
           page_exhausted = exhausted\<rparr>
    \<and> (if exhausted then length (remaining L (nat max_line) c (skip_of q)) \<le> k
       else take k (remaining L (nat max_line) c (skip_of q)) \<noteq> [])
    \<and> length (take k (remaining L (nat max_line) c (skip_of q))) \<le> nat max_records"
proof -
  define P where "P = \<lparr>rl_skip = skip_of q, rl_records = nat max_records, rl_scan = nat max_scan,
                  rl_retained = nat max_retained, rl_line = nat max_line\<rparr>"
  have line: "at_line P [] initial_replay"
    by (simp add: at_line_def initial_replay_def rs_cur_def bounded_def)
  then have ok: "replay_ok P (Inr initial_replay)"
    by (auto simp: replay_ok_def)
  have fields: "rl_skip P = skip_of q" "rl_line P = nat max_line" "rs_ordinal initial_replay = 0"
    "rs_records initial_replay = []"
    by (simp_all add: P_def initial_replay_def)
  have room: "room P initial_replay"
    using assms by (simp add: room_def initial_replay_def P_def)
  have lines: "\<forall>l \<in> set (complete_lines c). length l \<le> rl_line P \<longrightarrow> (\<exists>r. line_record L l = Inr r)"
    using assms(5) by (simp add: benign_iff bounded_lines_def P_def)
  have "rl_line P \<le> rl_retained P"
    using assms(3) by (simp add: P_def)
  from run_lines_page [OF room lines this] obtain k st where st:
    "run_lines L P initial_replay (complete_lines c) = Inr st"
    "rs_records st = map seq_record (take k (remaining L (nat max_line) c (skip_of q)))"
    "if rs_stop st then rs_records st \<noteq> [] else length (remaining L (nat max_line) c (skip_of q)) \<le> k"
    unfolding fields append_Nil remaining_def [symmetric] by blast
  have loop: "replay_loop L P (\<lambda>_. Some c) (\<lambda>_. False) 0 0 initial_replay =
      (case replay_chunk L P initial_replay c of
         Inl e \<Rightarrow> Inl (ReplayLoads e) | Inr st' \<Rightarrow> Inr (st', \<not> rs_stop st'))"
    using replay_loop_stable [OF ok, of c 0 L 0] assms(4)
    by (simp add: P_def replay_feed_def initial_replay_def split: sum.splits)
  have "\<exists>st'. replay_chunk L P initial_replay c = Inr st' \<and> rs_records st' = rs_records st
      \<and> rs_stop st' = rs_stop st"
    using replay_chunk_spec [OF line, of L c] st(1) by simp
  then obtain st' where "replay_chunk L P initial_replay c = Inr st'" "rs_records st' = rs_records st"
    "rs_stop st' = rs_stop st" by blast
  then have "stable_page L c max_records max_scan max_retained max_line q =
      Inr \<lparr>page_records = rs_records st, page_exhausted = (\<not> rs_stop st)\<rparr>"
    using assms loop unfolding P_def
    by (simp add: stable_page_def replay_jsonl_events_def skip_of_def split: option.splits)
  moreover have "length (rs_records st) \<le> nat max_records"
    using run_lines_size [OF st(1)] assms(1) by (simp add: fields) (simp add: P_def)
  ultimately show ?thesis
    using st(2,3) by (intro exI [of _ k] exI [of _ "\<not> rs_stop st"]) auto
qed

text \<open>A client that asks for the next page after the last \<open>seq\<close> it got, until exhaustion.\<close>

fun read_pages :: "(int option \<Rightarrow> loads_exc + ReplayPage) \<Rightarrow> nat \<Rightarrow> int option \<Rightarrow> pydict list option" where
  "read_pages page 0 q = None"
| "read_pages page (Suc n) q =
     (case page q of
        Inl _ \<Rightarrow> None
      | Inr p \<Rightarrow>
          if page_exhausted p then Some (page_records p)
          else map_option ((@) (page_records p))
                 (read_pages page n (strict_int (dget (last (page_records p)) ''seq''))))"

lemma seq_of_record: "dget (seq_record x) ''seq'' = PInt (int (fst x))"
  by (simp add: seq_record_def dict_get_set)


text \<open>
  A page keeps its budgets and its cursor contract: it holds at most \<open>max_records\<close> records,
  every record carries as \<open>seq\<close> the ordinal of a line after the requested one, and the ordinals
  increase. A transcript that cannot be read is an exhausted empty page.
\<close>

theorem replay_page_bounded:
  assumes "stable_page L c max_records max_scan max_retained max_line q = Inr p"
    and "0 < max_records" "0 < max_line" "max_line \<le> max_retained" and "int (length c) < max_scan"
    and "benign L (bounded_lines (nat max_line) c)"
  shows "int (length (page_records p)) \<le> max_records
    \<and> (\<exists>ns. map (\<lambda>r. dget r ''seq'') (page_records p) = map (PInt \<circ> int) ns \<and> sorted_wrt (<) ns
         \<and> (\<forall>n \<in> set ns. skip_of q < n))
    \<and> replay_jsonl_events L (\<lambda>_. None) (\<lambda>_. False) q max_records max_scan max_retained max_line 1 =
        Inr empty_page"
proof (intro conjI)
  let ?r = "remaining L (nat max_line) c (skip_of q)"
  obtain k ex where p: "p = \<lparr>page_records = map seq_record (take k ?r), page_exhausted = ex\<rparr>"
    and size: "length (take k ?r) \<le> nat max_records"
    using stable_page_spec [OF assms(2-6), of q] assms(1) by auto
  have sorted: "sorted_wrt (<) (map fst ?r)"
    using numbered_sorted [of L "nat max_line" 0 "complete_lines c"]
    by (simp add: remaining_def sorted_wrt_map sorted_wrt_filter)
  show "\<exists>ns. map (\<lambda>r. dget r ''seq'') (page_records p) = map (PInt \<circ> int) ns \<and> sorted_wrt (<) ns
         \<and> (\<forall>n \<in> set ns. skip_of q < n)"
  proof (intro exI [of _ "map fst (take k ?r)"] conjI)
    show "map (\<lambda>r. dget r ''seq'') (page_records p) = map (PInt \<circ> int) (map fst (take k ?r))"
      by (simp add: p seq_of_record)
    show "sorted_wrt (<) (map fst (take k ?r))"
      using sorted by (simp add: take_map [symmetric] sorted_wrt_take)
    show "\<forall>n \<in> set (map fst (take k ?r)). skip_of q < n"
      by (auto simp: remaining_def dest!: in_set_takeD)
  qed
  show "replay_jsonl_events L (\<lambda>_. None) (\<lambda>_. False) q max_records max_scan max_retained max_line 1 =
      Inr empty_page"
    using assms(2-5) by (simp add: replay_jsonl_events_def replay_loop.simps initial_replay_def)
  show "int (length (page_records p)) \<le> max_records"
    using size assms(2) by (simp add: p)
qed


subsection \<open>Examples\<close>

definition ex_replay_limits :: py_limits where
  "ex_replay_limits = \<lparr>py_recursion = 4, py_int_digits = 0\<rparr>"

text \<open>The transcript \<open>{}\<close>, blank line, \<open>{}\<close>, unterminated rest.\<close>

definition ex_transcript :: bytes where
  "ex_transcript = [123, 125, 10, 10, 123, 125, 10, 123]"

lemma ex_replay_object: "line_record ex_replay_limits [123, 125] = Inr (Some [])"
  "line_record ex_replay_limits [] = Inr None"
  by (simp_all add: line_record_def line_value_def is_blank_def is_bytes_ws_def as_dict_def
      ex_replay_limits_def decode_replace_ascii json_eval)

lemma ex_replay_lines: "complete_lines ex_transcript = [[123, 125], [], [123, 125]]"
  "bounded_lines 8 ex_transcript = [[123, 125], [], [123, 125]]" "length ex_transcript = 8"
  by (simp_all add: bounded_lines_def complete_lines_def ex_transcript_def)

lemma ex_replay_benign: "benign ex_replay_limits [[123, 125], [], [123, 125]]"
  by (simp add: benign_iff ex_replay_lines ex_replay_object)

lemma ex_remaining: "remaining ex_replay_limits 8 ex_transcript 0 = [(1, []), (3, [])]"
  by (simp add: remaining_def ex_replay_lines ex_replay_object)


theorem replay_page_bounded_witness:
  "\<exists>p. stable_page ex_replay_limits ex_transcript 1 100 8 8 None = Inr p \<and> length (page_records p) \<le> 1"
proof -
  obtain p where "stable_page ex_replay_limits ex_transcript 1 100 8 8 None = Inr p"
    using stable_page_spec [of 1 8 8 ex_transcript 100 ex_replay_limits None]
    by (auto simp: ex_replay_benign ex_replay_lines)
  then show ?thesis
    using replay_page_bounded [of ex_replay_limits ex_transcript 1 100 8 8 None p]
    by (simp add: ex_replay_benign ex_replay_lines)
qed

end
