(* ===== verification/Json_Dump.thy ===== *)
theory Json_Dump
  imports Json "HOL-Library.List_Lexorder" "HOL-Library.Product_Lexorder"
begin

text \<open>
  \<open>json.dumps\<close> of the standard library with compact separators, as the sidecar writes its
  signatures, stores and logs.

  \<^item> \<open>dump_opts\<close> are the keyword arguments \<open>ensure_ascii\<close>, \<open>sort_keys\<close> and \<open>allow_nan\<close>.
  \<^item> The argument \<open>fr\<close> is \<open>float.__repr__\<close> on finite values, the only part of the output that
    depends on the binary representation of a number.
  \<^item> A value that has no JSON form is the \<open>TypeError\<close> \<open>DumpType\<close>; a refused \<open>NaN\<close> or infinity
    is the \<open>ValueError\<close> \<open>DumpNaN\<close>. Sorting compares keys as texts; the sidecar only sorts
    objects whose keys are texts, and another key there is a \<open>DumpType\<close>.
\<close>

record dump_opts =
  ensure_ascii :: bool
  sort_keys :: bool
  allow_nan :: bool

datatype dump_fail = DumpType | DumpNaN

definition hex_char :: "nat \<Rightarrow> nat" where
  "hex_char n = (if n < 10 then 48 + n else 87 + n)"

definition hex4_text :: "nat \<Rightarrow> pystr" where
  "hex4_text n =
     [hex_char (n div 4096 mod 16), hex_char (n div 256 mod 16), hex_char (n div 16 mod 16),
      hex_char (n mod 16)]"

definition u_escape :: "nat \<Rightarrow> pystr" where
  "u_escape n = 92 # 117 # hex4_text n"

definition escape_char :: "bool \<Rightarrow> nat \<Rightarrow> pystr" where
  "escape_char ascii c =
     (if c = 34 then [92, 34]
      else if c = 92 then [92, 92]
      else if c = 10 then [92, 110]
      else if c = 13 then [92, 114]
      else if c = 9 then [92, 116]
      else if c = 12 then [92, 102]
      else if c = 8 then [92, 98]
      else if c < 32 then u_escape c
      else if \<not> ascii \<or> c < 127 then [c]
      else if c < 0x10000 then u_escape c
      else u_escape (0xD800 + (c - 0x10000) div 1024) @ u_escape (0xDC00 + (c - 0x10000) mod 1024))"

definition dump_string :: "bool \<Rightarrow> pystr \<Rightarrow> pystr" where
  "dump_string ascii s = 34 # concat (map (escape_char ascii) s) @ [34]"

definition dump_float :: "dump_opts \<Rightarrow> (rat \<Rightarrow> pystr) \<Rightarrow> pyfloat \<Rightarrow> dump_fail + pystr" where
  "dump_float opts fr f =
     (case f of
        Fin r \<Rightarrow> Inr (fr r)
      | PosInf \<Rightarrow> if allow_nan opts then Inr (py ''Infinity'') else Inl DumpNaN
      | NegInf \<Rightarrow> if allow_nan opts then Inr (py ''-Infinity'') else Inl DumpNaN
      | NaN \<Rightarrow> if allow_nan opts then Inr (py ''NaN'') else Inl DumpNaN)"

definition key_text :: "dump_opts \<Rightarrow> (rat \<Rightarrow> pystr) \<Rightarrow> pyval \<Rightarrow> dump_fail + pystr" where
  "key_text opts fr k =
     (case k of
        PStr s \<Rightarrow> Inr s
      | PBool b \<Rightarrow> Inr (if b then py ''true'' else py ''false'')
      | PNone \<Rightarrow> Inr (py ''null'')
      | PInt i \<Rightarrow> Inr (int_str i)
      | PFloat f \<Rightarrow> dump_float opts fr f
      | _ \<Rightarrow> Inl DumpType)"

definition str_key :: "pyval \<Rightarrow> pystr" where
  "str_key k = (case k of PStr s \<Rightarrow> s | _ \<Rightarrow> [])"

definition is_str :: "pyval \<Rightarrow> bool" where
  "is_str v = (case v of PStr _ \<Rightarrow> True | _ \<Rightarrow> False)"

definition dump_order :: "dump_opts \<Rightarrow> (pyval \<times> 'a) list \<Rightarrow> dump_fail + (pyval \<times> 'a) list" where
  "dump_order opts d =
     (if \<not> sort_keys opts then Inr d
      else if list_all (\<lambda>kv. is_str (fst kv)) d then Inr (sort_key (\<lambda>kv. str_key (fst kv)) d)
      else Inl DumpType)"

fun join_comma :: "pystr list \<Rightarrow> pystr" where
  "join_comma [] = []"
| "join_comma [x] = x"
| "join_comma (x # y # xs) = x @ 44 # join_comma (y # xs)"

fun collect :: "('e + 'a) list \<Rightarrow> 'e + 'a list" where
  "collect [] = Inr []"
| "collect (Inl e # xs) = Inl e"
| "collect (Inr x # xs) = (case collect xs of Inl e \<Rightarrow> Inl e | Inr ys \<Rightarrow> Inr (x # ys))"

definition dump_member ::
  "dump_opts \<Rightarrow> (rat \<Rightarrow> pystr) \<Rightarrow> pyval \<times> (dump_fail + pystr) \<Rightarrow> dump_fail + pystr" where
  "dump_member opts fr kv =
     (case key_text opts fr (fst kv) of
        Inl e \<Rightarrow> Inl e
      | Inr k \<Rightarrow>
          (case snd kv of
             Inl e \<Rightarrow> Inl e
           | Inr t \<Rightarrow> Inr (dump_string (ensure_ascii opts) k @ 58 # t)))"

definition dump_array :: "(dump_fail + pystr) list \<Rightarrow> dump_fail + pystr" where
  "dump_array ts = (case collect ts of Inl e \<Rightarrow> Inl e | Inr xs \<Rightarrow> Inr (91 # join_comma xs @ [93]))"

definition dump_object ::
  "dump_opts \<Rightarrow> (rat \<Rightarrow> pystr) \<Rightarrow> (pyval \<times> (dump_fail + pystr)) list \<Rightarrow> dump_fail + pystr" where
  "dump_object opts fr d =
     (case dump_order opts d of
        Inl e \<Rightarrow> Inl e
      | Inr d' \<Rightarrow>
          (case collect (map (dump_member opts fr) d') of
             Inl e \<Rightarrow> Inl e
           | Inr xs \<Rightarrow> Inr (123 # join_comma xs @ [125])))"

fun json_dumps :: "dump_opts \<Rightarrow> (rat \<Rightarrow> pystr) \<Rightarrow> pyval \<Rightarrow> dump_fail + pystr" where
  "json_dumps opts fr PNone = Inr (py ''null'')"
| "json_dumps opts fr (PBool b) = Inr (if b then py ''true'' else py ''false'')"
| "json_dumps opts fr (PInt i) = Inr (int_str i)"
| "json_dumps opts fr (PFloat f) = dump_float opts fr f"
| "json_dumps opts fr (PStr s) = Inr (dump_string (ensure_ascii opts) s)"
| "json_dumps opts fr (PList xs) = dump_array (map (json_dumps opts fr) xs)"
| "json_dumps opts fr (PTuple xs) = dump_array (map (json_dumps opts fr) xs)"
| "json_dumps opts fr (PDict d) =
     dump_object opts fr (map (\<lambda>kv. (fst kv, json_dumps opts fr (snd kv))) d)"
| "json_dumps opts fr (PEnum v) = json_dumps opts fr v"
| "json_dumps opts fr _ = Inl DumpType"

end
