(* ===== verification/Index.thy ===== *)
theory Index
  imports Model Json_Dump "HOL-Library.AList" "HOL-Library.Multiset"
begin

text \<open>
  The incremental session index (\<open>sidecar/index.py\<close>), with the rule that it shares with the
  scanner: of several sessions with the same key the latest wins, the first of them on a tie.

  \<^item> A dictionary is the list of its items in insertion order, updated with \<open>AList.update\<close>.
  \<^item> \<open>stat_env\<close> is what \<open>stat\<close> answers for an expanded path: modification time in nanoseconds
    and size, \<open>None\<close> for an \<open>OSError\<close>. \<open>mkpath\<close> is \<open>str(Path(p).expanduser())\<close>.
  \<^item> \<open>update\<close> is given the values the caller's iterable yields; \<open>None\<close> is a value that is not
    a \<open>Session\<close>, which raises \<open>TypeError\<close> before anything changes.
\<close>

subsection \<open>Latest by key\<close>

locale latest_by =
  fixes put :: "('k \<times> 'a) list \<Rightarrow> 'a \<Rightarrow> ('k \<times> 'a) list"
    and key :: "'a \<Rightarrow> 'k"
    and stamp :: "'a \<Rightarrow> 'o::linorder"
  assumes put_lookup: "map_of (put d x) =
      (case map_of d (key x) of
         Some y \<Rightarrow> if stamp y < stamp x then (map_of d)(key x \<mapsto> x) else map_of d
       | None \<Rightarrow> (map_of d)(key x \<mapsto> x))"
    and put_distinct: "distinct (map fst d) \<Longrightarrow> distinct (map fst (put d x))"
begin

text \<open>The dictionary holds, per key, the first of the latest values seen.\<close>

definition newest_in :: "'a list \<Rightarrow> 'k \<Rightarrow> 'a \<Rightarrow> bool" where
  "newest_in xs k x \<longleftrightarrow> (\<exists>us vs. xs = us @ x # vs \<and> key x = k
     \<and> (\<forall>u \<in> set us. key u = k \<longrightarrow> stamp u < stamp x)
     \<and> (\<forall>v \<in> set vs. key v = k \<longrightarrow> stamp v \<le> stamp x))"

lemma newest_in_snoc_old:
  assumes "newest_in xs k x" and "key y = k \<longrightarrow> stamp y \<le> stamp x"
  shows "newest_in (xs @ [y]) k x"
proof -
  obtain us vs where "xs = us @ x # vs" "key x = k"
    "\<forall>u \<in> set us. key u = k \<longrightarrow> stamp u < stamp x" "\<forall>v \<in> set vs. key v = k \<longrightarrow> stamp v \<le> stamp x"
    using assms(1) by (auto simp: newest_in_def)
  with assms(2) show ?thesis
    unfolding newest_in_def by (intro exI [of _ us] exI [of _ "vs @ [y]"]) auto
qed

lemma newest_in_snoc_new:
  "\<forall>u \<in> set xs. key u = key y \<longrightarrow> stamp u < stamp y \<Longrightarrow> newest_in (xs @ [y]) (key y) y"
  unfolding newest_in_def by (intro exI [of _ xs] exI [of _ "[]"]) simp

lemma newest_in_bound: "newest_in xs k x \<Longrightarrow> u \<in> set xs \<Longrightarrow> key u = k \<Longrightarrow> stamp u \<le> stamp x"
  unfolding newest_in_def by (fastforce intro: less_imp_le)

lemma newest_in_mem: "newest_in xs k x \<Longrightarrow> x \<in> set xs \<and> key x = k"
  unfolding newest_in_def by auto

lemma fold_latest:
  "(\<forall>k x. map_of (foldl put [] xs) k = Some x \<longrightarrow> newest_in xs k x)
    \<and> dom (map_of (foldl put [] xs)) = key ` set xs \<and> distinct (map fst (foldl put [] xs))"
proof (induction xs rule: rev_induct)
  case (snoc y xs)
  let ?d = "foldl put [] xs"
  have dom: "map_of ?d (key y) = None \<longleftrightarrow> key y \<notin> key ` set xs"
    using snoc by blast
  have "newest_in (xs @ [y]) k x" if "map_of (put ?d y) k = Some x" for k x
  proof (cases "map_of ?d (key y)")
    case None
    then have "newest_in (xs @ [y]) (key y) y"
      using dom by (intro newest_in_snoc_new) (metis imageI)
    with None show ?thesis
      using that snoc newest_in_snoc_old [of xs k x y] by (auto simp: put_lookup split: if_splits)
  next
    case (Some z)
    have z: "newest_in xs (key y) z" using snoc Some by blast
    show ?thesis
    proof (cases "stamp z < stamp y")
      case True
      have "newest_in (xs @ [y]) (key y) y"
        using newest_in_bound [OF z] True by (intro newest_in_snoc_new) (auto intro: le_less_trans)
      then show ?thesis
        using that snoc Some True newest_in_snoc_old [of xs k x y]
        by (auto simp: put_lookup split: if_splits)
    next
      case False
      then have x: "map_of ?d k = Some x"
        using that Some by (simp add: put_lookup)
      then have "newest_in xs k x" using snoc by blast
      moreover have "key y = k \<longrightarrow> stamp y \<le> stamp x"
        using x Some False by auto
      ultimately show ?thesis by (rule newest_in_snoc_old)
    qed
  qed
  moreover have "dom (map_of (put ?d y)) = key ` set (xs @ [y])"
    using snoc by (auto simp: put_lookup split: option.splits)
  ultimately show ?case
    using snoc by (simp add: put_distinct)
qed simp

end

definition latest_put :: "(SessionKey \<times> Session) list \<Rightarrow> Session \<Rightarrow> (SessionKey \<times> Session) list" where
  "latest_put d s =
     (case map_of d (session_key s) of
        None \<Rightarrow> AList.update (session_key s) s d
      | Some previous \<Rightarrow>
          if s_updated_at previous < s_updated_at s then AList.update (session_key s) s d else d)"

interpretation latest: latest_by latest_put session_key s_updated_at
  by unfold_locales
    (auto simp: latest_put_def update_conv' distinct_update split: option.splits)

subsection \<open>Sessions in order\<close>

definition sorted_sessions :: "Session list \<Rightarrow> Session list" where
  "sorted_sessions ss = sort_key order_key ss"

lemma sorted_sessions_unique:
  assumes "set xs = set ys" and "sorted_wrt (<) (map order_key xs)" "sorted_wrt (<) (map order_key ys)"
  shows "xs = ys"
proof -
  have inj: "inj_on order_key (set xs)"
    using assms(2) by (simp add: strict_sorted_iff distinct_map)
  have "map order_key xs = map order_key ys"
    using assms by (intro sorted_distinct_set_unique) (auto simp: strict_sorted_iff)
  then show ?thesis
    using inj assms(1) by (intro map_inj_on [of order_key]) simp_all
qed

subsection \<open>The index\<close>

record FileSignature =
  fs_path :: pystr
  fs_exists :: bool
  fs_mtime_ns :: int
  fs_size :: int

type_synonym stat_env = "pystr \<Rightarrow> (int \<times> int) option"

record IndexEntry =
  ie_session :: Session
  ie_sources :: "FileSignature list"
  ie_metadata :: "dump_fail + pystr"

record IndexDelta =
  changed :: "SessionKey set"
  removed :: "SessionKey set"
  unchanged :: "SessionKey set"

definition path_signature :: "stat_env \<Rightarrow> pystr \<Rightarrow> FileSignature" where
  "path_signature st p =
     (case st p of
        None \<Rightarrow> \<lparr>fs_path = p, fs_exists = False, fs_mtime_ns = 0, fs_size = 0\<rparr>
      | Some (m, n) \<Rightarrow> \<lparr>fs_path = p, fs_exists = True, fs_mtime_ns = m, fs_size = n\<rparr>)"

fun path_text :: "pyval \<Rightarrow> pystr" where
  "path_text (PStr s) = s"
| "path_text (PPath s) = s"
| "path_text _ = []"

definition SOURCE_KEYS :: "pystr list" where
  "SOURCE_KEYS = [py ''state'', py ''store'', py ''workspace'']"

definition source_paths :: "(pystr \<Rightarrow> pystr) \<Rightarrow> Session \<Rightarrow> pystr list" where
  "source_paths mkpath s =
     (let paths = filter (\<lambda>p. p \<noteq> [])
            (s_transcript s # map (\<lambda>k. path_text (dict_get (s_extra s) k)) SOURCE_KEYS)
      in sort (remdups (map mkpath paths)))"

definition source_signatures ::
  "(pystr \<Rightarrow> pystr) \<Rightarrow> stat_env \<Rightarrow> Session \<Rightarrow> FileSignature list" where
  "source_signatures mkpath st s = map (path_signature st) (source_paths mkpath s)"

definition metadata_signature ::
  "(pyval \<Rightarrow> pystr) \<Rightarrow> (rat \<Rightarrow> pystr) \<Rightarrow> Session \<Rightarrow> dump_fail + pystr" where
  "metadata_signature rp fr s =
     json_dumps \<lparr>ensure_ascii = False, sort_keys = True, allow_nan = True\<rparr> fr (PDict (session_to_dict rp s))"

type_synonym IncrementalIndex = "(SessionKey \<times> IndexEntry) list"

definition index_get :: "IncrementalIndex \<Rightarrow> SessionKey \<Rightarrow> Session option" where
  "index_get ix k = map_option ie_session (map_of ix k)"

definition index_keys :: "IncrementalIndex \<Rightarrow> SessionKey set" where
  "index_keys ix = fst ` set ix"

definition index_sessions :: "IncrementalIndex \<Rightarrow> Session list" where
  "index_sessions ix = sorted_sessions (map (ie_session \<circ> snd) ix)"

text \<open>The environment of one update: paths, \<open>stat\<close> and the printers of \<open>json.dumps\<close>.\<close>

record index_env =
  ix_mkpath :: "pystr \<Rightarrow> pystr"
  ix_stat :: stat_env
  ix_rp :: "pyval \<Rightarrow> pystr"
  ix_fr :: "rat \<Rightarrow> pystr"

definition index_entry :: "index_env \<Rightarrow> Session \<Rightarrow> IndexEntry" where
  "index_entry env s =
     \<lparr>ie_session = s, ie_sources = source_signatures (ix_mkpath env) (ix_stat env) s,
      ie_metadata = metadata_signature (ix_rp env) (ix_fr env) s\<rparr>"

definition same_entry :: "IndexEntry \<Rightarrow> IndexEntry \<Rightarrow> bool" where
  "same_entry p e \<longleftrightarrow> ie_sources p = ie_sources e \<and> ie_metadata p = ie_metadata e"

fun update_entries ::
  "index_env \<Rightarrow> IncrementalIndex \<Rightarrow> (SessionKey \<times> Session) list \<Rightarrow> IncrementalIndex
   \<Rightarrow> SessionKey set \<Rightarrow> SessionKey set \<Rightarrow> IncrementalIndex \<times> SessionKey set \<times> SessionKey set" where
  "update_entries env old [] new ch un = (new, ch, un)"
| "update_entries env old ((k, s) # ls) new ch un =
     (let e = index_entry env s; new' = AList.update k e new in
      case map_of old k of
        None \<Rightarrow> update_entries env old ls new' (insert k ch) un
      | Some p \<Rightarrow>
          if \<not> same_entry p e then update_entries env old ls new' (insert k ch) un
          else update_entries env old ls new' ch (insert k un))"

definition update_index ::
  "index_env \<Rightarrow> IncrementalIndex \<Rightarrow> Session option list \<Rightarrow> (IncrementalIndex \<times> IndexDelta) option" where
  "update_index env ix items =
     (if None \<in> set items then None
      else
        (let latest = foldl latest_put [] (map the items) in
         case update_entries env ix latest [] {} {} of
           (new, ch, un) \<Rightarrow>
             Some (new, \<lparr>changed = ch, removed = index_keys ix - index_keys new, unchanged = un\<rparr>)))"

definition clear_index :: "IncrementalIndex \<Rightarrow> SessionKey set \<times> IncrementalIndex" where
  "clear_index ix = (index_keys ix, [])"

subsection \<open>What an update reports\<close>

lemma update_entries_spec:
  assumes "update_entries env old ls new ch un = (new', ch', un')"
    and "distinct (map fst ls)" and "distinct (map fst new)"
  shows "distinct (map fst new')
    \<and> map_of new' = map_of new ++ (\<lambda>k. map_option (index_entry env) (map_of ls k))
    \<and> ch' = ch \<union> {k \<in> fst ` set ls. \<not> (\<exists>p s. map_of old k = Some p \<and> map_of ls k = Some s
                     \<and> same_entry p (index_entry env s))}
    \<and> un' = un \<union> {k. \<exists>p s. map_of old k = Some p \<and> map_of ls k = Some s
                     \<and> same_entry p (index_entry env s)}"
  using assms
proof (induction ls arbitrary: new ch un)
  case Nil
  then show ?case by (auto simp: fun_eq_iff map_add_def)
next
  case (Cons x ls)
  obtain k s where x: "x = (k, s)" by fastforce
  let ?e = "index_entry env s"
  have k: "map_of ls k = None" "k \<notin> fst ` set ls" and ls: "distinct (map fst ls)"
    using Cons.prems(2) x by (auto simp: map_of_eq_None_iff)
  have d: "distinct (map fst (AList.update k ?e new))"
    using Cons.prems(3) by (rule distinct_update)
  have add: "map_of (AList.update k ?e new) ++ (\<lambda>k. map_option (index_entry env) (map_of ls k)) =
      map_of new ++ (\<lambda>j. map_option (index_entry env) (map_of (x # ls) j))"
    using k x by (auto simp: fun_eq_iff map_add_def update_conv' split: option.splits)
  show ?case
  proof (cases "\<exists>p. map_of old k = Some p \<and> same_entry p ?e")
    case True
    then have "update_entries env old ls (AList.update k ?e new) ch (insert k un) = (new', ch', un')"
      using Cons.prems(1) x by (auto simp: Let_def)
    from Cons.IH [OF this ls d] add True k x show ?thesis
      by (auto split: if_splits)
  next
    case False
    then have "update_entries env old ls (AList.update k ?e new) (insert k ch) un = (new', ch', un')"
      using Cons.prems(1) x by (auto simp: Let_def split: option.splits)
    from Cons.IH [OF this ls d] add False k x show ?thesis
      by (auto split: if_splits)
  qed
qed

text \<open>An index whose keys are those of its sessions; every update produces one.\<close>

definition index_wf :: "IncrementalIndex \<Rightarrow> bool" where
  "index_wf ix \<longleftrightarrow> distinct (map fst ix) \<and> (\<forall>(k, e) \<in> set ix. k = session_key (ie_session e))"

lemma update_index_spec:
  assumes "update_index env ix items = Some (ix', delta)"
  defines "L \<equiv> map_of (foldl latest_put [] (map the items))"
  shows "index_wf ix' \<and> map_of ix' = (\<lambda>k. map_option (index_entry env) (L k))
    \<and> index_keys ix' = session_key ` the ` set items
    \<and> (\<forall>k s. L k = Some s \<longrightarrow> latest.newest_in (map the items) k s)
    \<and> removed delta = index_keys ix - index_keys ix'
    \<and> unchanged delta = {k. \<exists>p s. map_of ix k = Some p \<and> L k = Some s \<and> same_entry p (index_entry env s)}
    \<and> changed delta = index_keys ix' - unchanged delta"
proof -
  let ?d = "foldl latest_put [] (map the items)"
  note fold = latest.fold_latest [of "map the items"]
  obtain ch un where u: "update_entries env ix ?d [] {} {} = (ix', ch, un)"
    "delta = \<lparr>changed = ch, removed = index_keys ix - index_keys ix', unchanged = un\<rparr>"
    using assms(1) by (auto simp: update_index_def Let_def split: if_splits prod.splits)
  have dist: "distinct (map fst ?d)" using fold by blast
  note spec = update_entries_spec [OF u(1) dist, simplified]
  have m: "map_of ix' = (\<lambda>k. map_option (index_entry env) (L k))"
    using spec by (simp add: L_def)
  have keys: "index_keys ix' = fst ` set ?d"
  proof -
    have "dom (map_of ix') = dom L"
      unfolding m by (auto simp: dom_def)
    then show ?thesis
      by (simp add: index_keys_def dom_map_of_conv_image_fst L_def)
  qed
  also have "\<dots> = session_key ` the ` set items"
    using fold by (simp add: dom_map_of_conv_image_fst image_image)
  finally have keys2: "index_keys ix' = session_key ` the ` set items" .
  have wf: "index_wf ix'"
    unfolding index_wf_def
  proof (intro conjI ballI)
    show di: "distinct (map fst ix')" using spec by blast
    fix x assume x: "x \<in> set ix'"
    obtain k e where ke: "x = (k, e)" by fastforce
    then have "map_of ix' k = Some e" using x di by simp
    then obtain s where "L k = Some s" "e = index_entry env s" using m by auto
    moreover have "session_key s = k"
      using fold latest.newest_in_mem calculation(1) unfolding L_def by blast
    ultimately show "case x of (k, e) \<Rightarrow> k = session_key (ie_session e)"
      by (simp add: ke index_entry_def)
  qed
  show ?thesis
    using wf m keys keys2 fold spec u(2) by (auto simp: L_def)
qed

text \<open>
  C19: An update reports every key exactly once and truthfully. The new index holds, for each
  key that occurs in the snapshot, the first of the latest sessions with that key; its keys are
  partitioned into changed and unchanged ones, unchanged meaning that the previous entry had
  the same source signatures and metadata; removed are exactly the keys that disappeared.
\<close>

theorem index_update_exact:
  assumes "update_index env ix (map Some ss) = Some (ix', delta)"
  shows "(\<forall>k s. index_get ix' k = Some s \<longrightarrow> latest.newest_in ss k s)
    \<and> index_keys ix' = session_key ` set ss
    \<and> changed delta \<union> unchanged delta = index_keys ix' \<and> changed delta \<inter> unchanged delta = {}
    \<and> removed delta = index_keys ix - index_keys ix'
    \<and> (\<forall>k. k \<in> unchanged delta \<longleftrightarrow> (\<exists>p e. map_of ix k = Some p \<and> map_of ix' k = Some e \<and> same_entry p e))"
proof -
  note spec = update_index_spec [OF assms]
  have "unchanged delta \<subseteq> index_keys ix'"
  proof
    fix k assume "k \<in> unchanged delta"
    then obtain e where "map_of ix' k = Some e" using spec by auto
    then show "k \<in> index_keys ix'"
      by (force simp: index_keys_def dest: map_of_SomeD)
  qed
  with spec show ?thesis
    by (auto simp: index_get_def index_entry_def comp_def image_image)
qed

text \<open>
  An update with an unchanged snapshot over unchanged files reports nothing: no key is
  changed or removed, and the index stays the same map.
\<close>

theorem index_update_idempotent:
  assumes "update_index env ix (map Some ss) = Some (ix1, d1)"
    and "update_index env ix1 (map Some ss) = Some (ix2, d2)"
  shows "changed d2 = {} \<and> removed d2 = {} \<and> unchanged d2 = session_key ` set ss
    \<and> map_of ix2 = map_of ix1"
proof -
  note s1 = update_index_spec [OF assms(1)] and s2 = update_index_spec [OF assms(2)]
  have un: "unchanged d2 = {k. \<exists>e. map_of ix2 k = Some e}"
    using s1 s2 by (auto simp: same_entry_def)
  also have "\<dots> = index_keys ix2"
    by (simp add: index_keys_def dom_map_of_conv_image_fst [symmetric] dom_def)
  finally show ?thesis
    using s1 s2 by (auto simp: image_image)
qed

text \<open>
  The listing is newest first without gaps or repetitions: it holds exactly the indexed
  sessions, each key once, strictly ordered by age and then by agent and session id, so that it
  depends on the set of entries only and not on their insertion order.
\<close>

theorem index_listing_sorted:
  assumes "index_wf ix"
  shows "sorted_wrt (\<lambda>s t. order_key s < order_key t) (index_sessions ix)
    \<and> set (index_sessions ix) = {s. \<exists>k. index_get ix k = Some s}
    \<and> (\<forall>ix'. index_wf ix' \<and> map_of ix' = map_of ix \<longrightarrow> index_sessions ix' = index_sessions ix)"
proof (intro conjI allI impI)
  have strict: "sorted_wrt (\<lambda>s t. order_key s < order_key t) (index_sessions jx)"
    if "index_wf jx" for jx
  proof -
    have keys: "map session_key (map (ie_session \<circ> snd) jx) = map fst jx"
      using that by (auto simp: index_wf_def)
    have "distinct (map session_key (map (ie_session \<circ> snd) jx))"
      unfolding keys using that by (simp add: index_wf_def)
    then have "distinct (map order_key (map (ie_session \<circ> snd) jx))"
      by (auto simp: distinct_map inj_on_def order_key_def session_key_def)
    then have "distinct (map order_key (index_sessions jx))"
      using mset_eq_imp_distinct_iff [of "map order_key (index_sessions jx)"
          "map order_key (map (ie_session \<circ> snd) jx)"]
      by (simp add: index_sessions_def sorted_sessions_def multiset.map_comp)
    moreover have "sorted (map order_key (index_sessions jx))"
      by (simp add: index_sessions_def sorted_sessions_def)
    ultimately have "sorted_wrt (<) (map order_key (index_sessions jx))"
      by (simp only: strict_sorted_iff)
    then show ?thesis
      by (simp add: sorted_wrt_map)
  qed
  have members: "set (index_sessions jx) = {s. \<exists>k. index_get jx k = Some s}" if "index_wf jx" for jx
  proof -
    have "map_of jx k = Some e \<longleftrightarrow> (k, e) \<in> set jx" for k e
      using that by (simp add: index_wf_def)
    then show ?thesis
      by (force simp: index_sessions_def sorted_sessions_def index_get_def)
  qed
  show "sorted_wrt (\<lambda>s t. order_key s < order_key t) (index_sessions ix)"
    "set (index_sessions ix) = {s. \<exists>k. index_get ix k = Some s}"
    using strict members assms by auto
  fix ix' assume ix': "index_wf ix' \<and> map_of ix' = map_of ix"
  then have "set (index_sessions ix') = set (index_sessions ix)"
    using members assms by (simp add: index_get_def)
  moreover have "sorted_wrt (<) (map order_key (index_sessions ix'))"
    "sorted_wrt (<) (map order_key (index_sessions ix))"
    using strict ix' assms by (simp_all add: sorted_wrt_map)
  ultimately show "index_sessions ix' = index_sessions ix"
    by (rule sorted_sessions_unique)
qed

subsection \<open>Examples\<close>

definition ex_index_env :: index_env where
  "ex_index_env = \<lparr>ix_mkpath = id, ix_stat = (\<lambda>_. Some (7, 9)), ix_rp = (\<lambda>_. []), ix_fr = (\<lambda>_. py ''0.0'')\<rparr>"

definition ex_indexed :: "string \<Rightarrow> rat \<Rightarrow> Session" where
  "ex_indexed i u = \<lparr>s_agent = py ''codex'', s_id = py i, s_project = [], s_transcript = py ''t.jsonl'',
     s_updated_at = u, s_title = [], s_status = IDLE, s_extra = [], s_parent_id = None\<rparr>"

lemma update_index_total: "\<exists>ix' d. update_index env ix (map Some ss) = Some (ix', d)"
  by (auto simp: update_index_def Let_def split: prod.splits)

theorem index_update_exact_witness:
  "\<exists>ix d. update_index ex_index_env [] (map Some [ex_indexed ''a'' 1, ex_indexed ''a'' 2]) = Some (ix, d)
    \<and> index_keys ix = {session_key (ex_indexed ''a'' 1)} \<and> removed d = {}"
proof -
  let ?ss = "[ex_indexed ''a'' 1, ex_indexed ''a'' 2]"
  obtain ix d where u: "update_index ex_index_env [] (map Some ?ss) = Some (ix, d)"
    using update_index_total by blast
  have "session_key (ex_indexed ''a'' 2) = session_key (ex_indexed ''a'' 1)"
    by (simp add: session_key_def ex_indexed_def)
  with u index_update_exact [OF u] show ?thesis
    by (auto simp: index_keys_def)
qed

theorem index_update_idempotent_witness:
  "\<exists>ix d ix' d'. update_index ex_index_env [] (map Some [ex_indexed ''a'' 1]) = Some (ix, d)
    \<and> update_index ex_index_env ix (map Some [ex_indexed ''a'' 1]) = Some (ix', d') \<and> changed d' = {}"
proof -
  obtain ix d where u: "update_index ex_index_env [] (map Some [ex_indexed ''a'' 1]) = Some (ix, d)"
    using update_index_total by blast
  obtain ix' d' where u': "update_index ex_index_env ix (map Some [ex_indexed ''a'' 1]) = Some (ix', d')"
    using update_index_total by blast
  show ?thesis
    using u u' index_update_idempotent [OF u u'] by blast
qed

theorem index_listing_sorted_witness:
  "set (index_sessions [(session_key (ex_indexed ''a'' 1), index_entry ex_index_env (ex_indexed ''a'' 1))]) =
    {ex_indexed ''a'' 1}"
proof -
  let ?ix = "[(session_key (ex_indexed ''a'' 1), index_entry ex_index_env (ex_indexed ''a'' 1))]"
  have wf: "index_wf ?ix"
    by (simp add: index_wf_def index_entry_def)
  have "{s. \<exists>k. index_get ?ix k = Some s} = {ex_indexed ''a'' 1}"
    by (auto simp: index_get_def index_entry_def session_key_def)
  with conjunct1 [OF conjunct2 [OF index_listing_sorted [OF wf]]] show ?thesis
    by (simp only:)
qed

end
