(* ===== verification/Py_Text.thy ===== *)
theory Py_Text
  imports PyValue Lines
begin

text \<open>
  The methods of \<open>str\<close> and \<open>bytes\<close> that the sidecar uses on text.

  \<^item> White space and line boundaries are those of Python's \<open>str\<close> (Unicode) and \<open>bytes\<close>.
  \<^item> \<open>lower\<close> is exact on ASCII; its argument \<open>low\<close> is the Unicode lower-case mapping of the other
    code points, the interpreter's character database.
\<close>

definition is_space :: "nat \<Rightarrow> bool" where
  "is_space c \<longleftrightarrow> 9 \<le> c \<and> c \<le> 13 \<or> 28 \<le> c \<and> c \<le> 32 \<or> c = 0x85 \<or> c = 0xA0 \<or> c = 0x1680
     \<or> 0x2000 \<le> c \<and> c \<le> 0x200A \<or> c = 0x2028 \<or> c = 0x2029 \<or> c = 0x202F \<or> c = 0x205F \<or> c = 0x3000"

definition strip_by :: "('a \<Rightarrow> bool) \<Rightarrow> 'a list \<Rightarrow> 'a list" where
  "strip_by P s = rev (dropWhile P (rev (dropWhile P s)))"

definition strip :: "pystr \<Rightarrow> pystr" where
  "strip s = strip_by is_space s"

text \<open>\<open>s.split()\<close>: the maximal runs of characters that are not white space.\<close>

fun split_ws :: "pystr \<Rightarrow> pystr \<Rightarrow> pystr list" where
  "split_ws cur [] = (if cur = [] then [] else [rev cur])"
| "split_ws cur (c # s) =
     (if is_space c then (if cur = [] then split_ws [] s else rev cur # split_ws [] s)
      else split_ws (c # cur) s)"

definition split :: "pystr \<Rightarrow> pystr list" where
  "split s = split_ws [] s"

fun join :: "pystr \<Rightarrow> pystr list \<Rightarrow> pystr" where
  "join sep [] = []"
| "join sep [x] = x"
| "join sep (x # y # xs) = x @ sep @ join sep (y # xs)"

definition is_line_end :: "nat \<Rightarrow> bool" where
  "is_line_end c \<longleftrightarrow> 10 \<le> c \<and> c \<le> 13 \<or> 28 \<le> c \<and> c \<le> 30 \<or> c = 0x85 \<or> c = 0x2028 \<or> c = 0x2029"

text \<open>\<open>splitlines\<close>, where a carriage return and a following newline end one line.\<close>

fun split_lines_by :: "('a \<Rightarrow> bool) \<Rightarrow> 'a \<Rightarrow> 'a \<Rightarrow> 'a list \<Rightarrow> 'a list \<Rightarrow> 'a list list" where
  "split_lines_by P cr lf cur [] = (if cur = [] then [] else [rev cur])"
| "split_lines_by P cr lf cur (c # s) =
     (if P c then
        rev cur # split_lines_by P cr lf [] (if c = cr \<and> s \<noteq> [] \<and> hd s = lf then tl s else s)
      else split_lines_by P cr lf (c # cur) s)"

definition splitlines :: "pystr \<Rightarrow> pystr list" where
  "splitlines s = split_lines_by is_line_end 13 10 [] s"

definition bytes_splitlines :: "bytes \<Rightarrow> bytes list" where
  "bytes_splitlines s = split_lines_by (\<lambda>b. b = 10 \<or> b = 13) 13 10 [] s"

definition lower :: "(nat \<Rightarrow> pystr) \<Rightarrow> pystr \<Rightarrow> pystr" where
  "lower low s = concat (map (\<lambda>c. if 65 \<le> c \<and> c \<le> 90 then [c + 32] else if c < 128 then [c] else low c) s)"

definition ends_with :: "'a list \<Rightarrow> 'a list \<Rightarrow> bool" where
  "ends_with s t \<longleftrightarrow> length t \<le> length s \<and> drop (length s - length t) s = t"

text \<open>\<open>s.partition(c)\<close>: the part before the first \<open>c\<close>, whether there is one, and the rest.\<close>

definition partition_at :: "'a \<Rightarrow> 'a list \<Rightarrow> 'a list \<times> bool \<times> 'a list" where
  "partition_at c s =
     (if c \<in> set s then (takeWhile (\<lambda>x. x \<noteq> c) s, True, tl (dropWhile (\<lambda>x. x \<noteq> c) s))
      else (s, False, []))"

subsection \<open>Laws\<close>

lemma split_lines_by_append:
  assumes "P lf" and "cr \<noteq> lf"
  shows "split_lines_by P cr lf cur ((a @ [lf]) @ b) =
    split_lines_by P cr lf cur (a @ [lf]) @ split_lines_by P cr lf [] b"
proof (induction "length a" arbitrary: a cur rule: less_induct)
  case less
  show ?case
  proof (cases a)
    case Nil
    with assms show ?thesis by auto
  next
    case (Cons c a')
    show ?thesis
    proof (cases "P c \<and> c = cr \<and> hd (a' @ [lf]) = lf")
      case True
      show ?thesis
      proof (cases a')
        case Nil
        with True \<open>a = c # a'\<close> assms show ?thesis by simp
      next
        case (Cons d a'')
        with True \<open>a = c # a'\<close> less [of a''] show ?thesis by simp
      qed
    next
      case False
      then have "\<not> (c = cr \<and> a' @ lf # b \<noteq> [] \<and> hd (a' @ lf # b) = lf)" if "P c"
        using that by (cases a') auto
      with Cons False less [of a'] show ?thesis by auto
    qed
  qed
qed

lemma bytes_splitlines_append:
  "bytes_splitlines ((a @ [10]) @ b) = bytes_splitlines (a @ [10]) @ bytes_splitlines b"
  unfolding bytes_splitlines_def by (rule split_lines_by_append) auto

end
