(* ===== verification/Readers.thy ===== *)
theory Readers
  imports Py_Text Model
begin

text \<open>
  The bounded parsing helpers of \<open>sidecar/adapters/base.py\<close>: the LRU metadata cache, the
  terminal sanitizer, the bounded JSON and JSONL readers, the timestamp normalizers and the
  content normalizer.

  \<^item> A file is the pair of the size \<open>fstat\<close> reports and its contents, \<open>None\<close> for an \<open>OSError\<close>.
  \<^item> \<open>clock_env\<close> holds what Python's number and date parsers answer: \<open>float(text)\<close> and the
    time stamp of \<open>datetime.fromisoformat(text)\<close>, \<open>None\<close> for a \<open>ValueError\<close> (or a date whose
    \<open>timestamp()\<close> is out of range).
\<close>

subsection \<open>The metadata cache\<close>

record ('k, 'v) MetadataCache =
  mc_max :: nat
  mc_entries :: "('k \<times> 'v) list"

definition new_cache :: "int \<Rightarrow> ('k, 'v) MetadataCache option" where
  "new_cache n = (if n \<le> 0 then None else Some \<lparr>mc_max = nat n, mc_entries = []\<rparr>)"

text \<open>
  \<open>get_or_load\<close>: the entries are in insertion order, oldest first. \<open>loader\<close> is the outcome of
  calling the loader, \<open>Inl\<close> an exception.
\<close>

definition get_or_load ::
  "('k, 'v) MetadataCache \<Rightarrow> 'k \<Rightarrow> 'e + 'v \<Rightarrow> ('e + 'v) \<times> ('k, 'v) MetadataCache" where
  "get_or_load c sig loader =
     (let rest = filter (\<lambda>kv. fst kv \<noteq> sig) (mc_entries c);
          keep = (\<lambda>v. c\<lparr>mc_entries := lastn (mc_max c) (rest @ [(sig, v)])\<rparr>)
      in case map_of (mc_entries c) sig of
           Some v \<Rightarrow> (Inr v, keep v)
         | None \<Rightarrow> (case loader of Inl e \<Rightarrow> (Inl e, c) | Inr v \<Rightarrow> (Inr v, keep v)))"

definition prune_cache :: "('k, 'v) MetadataCache \<Rightarrow> 'k set \<Rightarrow> ('k, 'v) MetadataCache" where
  "prune_cache c active = c\<lparr>mc_entries := filter (\<lambda>kv. fst kv \<in> active) (mc_entries c)\<rparr>"

definition clear_cache :: "('k, 'v) MetadataCache \<Rightarrow> ('k, 'v) MetadataCache" where
  "clear_cache c = c\<lparr>mc_entries := []\<rparr>"

subsection \<open>Terminal text\<close>

text \<open>\<open>_consume_csi\<close> on the rest of the text.\<close>

fun consume_csi :: "pystr \<Rightarrow> pystr" where
  "consume_csi [] = []"
| "consume_csi (c # s) =
     (if 0x40 \<le> c \<and> c \<le> 0x7E then s
      else if 0x20 \<le> c \<and> c \<le> 0x3F then consume_csi s
      else c # s)"

fun consume_control_string :: "bool \<Rightarrow> pystr \<Rightarrow> pystr" where
  "consume_control_string allow_bel [] = []"
| "consume_control_string allow_bel (c # s) =
     (if allow_bel \<and> c = 7 then s
      else if c = 0x9C then s
      else if c = 27 \<and> s \<noteq> [] \<and> hd s = 92 then tl s
      else consume_control_string allow_bel s)"

text \<open>The other escape sequences: intermediate bytes and one final byte.\<close>

definition consume_escape :: "pystr \<Rightarrow> pystr" where
  "consume_escape s =
     (let r = dropWhile (\<lambda>c. 0x20 \<le> c \<and> c \<le> 0x2F) s in
      if r \<noteq> [] \<and> 0x30 \<le> hd r \<and> hd r \<le> 0x7E then tl r else r)"

lemma length_consume [termination_simp]:
  "length (consume_csi s) \<le> length s" "length (consume_control_string b s) \<le> length s"
  "length (consume_escape s) \<le> length s"
proof -
  show "length (consume_csi s) \<le> length s"
    by (induction s) auto
  show "length (consume_control_string b s) \<le> length s"
    by (induction b s rule: consume_control_string.induct) auto
  show "length (consume_escape s) \<le> length s"
    using length_dropWhile_le [of "\<lambda>c. 0x20 \<le> c \<and> c \<le> 0x2F" s]
    by (auto simp: consume_escape_def Let_def)
qed

lemma length_consume_escape_Cons: "length (consume_escape (i # r)) \<le> Suc (length r)"
  using length_consume(3) [of "i # r"] by simp

function strip_terminal_sequences :: "pystr \<Rightarrow> pystr" where
  "strip_terminal_sequences [] = []"
| "strip_terminal_sequences (c # s) =
     (if c = 27 then
        (case s of
           [] \<Rightarrow> []
         | i # r \<Rightarrow>
             if i = 91 then strip_terminal_sequences (consume_csi r)
             else if i = 93 \<or> i = 80 \<or> i = 88 \<or> i = 94 \<or> i = 95 then
               strip_terminal_sequences (consume_control_string (i = 93) r)
             else strip_terminal_sequences (consume_escape s))
      else if c = 0x9B then strip_terminal_sequences (consume_csi s)
      else if c = 0x90 \<or> c = 0x98 \<or> c = 0x9D \<or> c = 0x9E \<or> c = 0x9F then
        strip_terminal_sequences (consume_control_string (c = 0x9D) s)
      else c # strip_terminal_sequences s)"
  by pat_completeness auto
termination
  by (relation "measure length") (auto simp: less_Suc_eq_le length_consume length_consume_escape_Cons le_SucI)

definition is_control :: "nat \<Rightarrow> bool" where
  "is_control c \<longleftrightarrow> c < 0x20 \<or> 0x7F \<le> c \<and> c \<le> 0x9F"

definition sanitize_terminal_text :: "(pyval \<Rightarrow> pystr) \<Rightarrow> pyval \<Rightarrow> bool \<Rightarrow> pystr" where
  "sanitize_terminal_text rp v collapse =
     (let text = strip_terminal_sequences (str_or_empty rp v);
          text' = (if collapse then join (py '' '') (split text) else text)
      in filter (\<lambda>c. \<not> is_control c) text')"

subsection \<open>Bounded readers\<close>

type_synonym sized_file = "(nat \<times> bytes) option"

definition read_json_object :: "py_limits \<Rightarrow> bytes option \<Rightarrow> int \<Rightarrow> loads_exc + pydict" where
  "read_json_object L file max_bytes =
     (if max_bytes \<le> 0 then Inr []
      else
        (case file of
           None \<Rightarrow> Inr []
         | Some content \<Rightarrow>
             (let raw = take (nat max_bytes + 1) content in
              if nat max_bytes < length raw then Inr []
              else
                (case line_value L raw of
                   Inl e \<Rightarrow> Inl e
                 | Inr v \<Rightarrow> (case as_dict v of None \<Rightarrow> Inr [] | Some d \<Rightarrow> Inr d)))))"

text \<open>\<open>_jsonl_records\<close>; \<open>room\<close> is how many records may still be appended.\<close>

fun jsonl_loop :: "py_limits \<Rightarrow> bytes list \<Rightarrow> nat option \<Rightarrow> loads_exc + pydict list" where
  "jsonl_loop L [] room = Inr []"
| "jsonl_loop L (raw # ls) room =
     (case line_record L raw of
        Inl e \<Rightarrow> Inl e
      | Inr None \<Rightarrow> jsonl_loop L ls room
      | Inr (Some d) \<Rightarrow>
          if (case room of None \<Rightarrow> False | Some n \<Rightarrow> n \<le> 1) then Inr [d]
          else
            (case jsonl_loop L ls (map_option (\<lambda>n. n - 1) room) of
               Inl e \<Rightarrow> Inl e
             | Inr ds \<Rightarrow> Inr (d # ds)))"

definition jsonl_records :: "py_limits \<Rightarrow> bytes \<Rightarrow> nat option \<Rightarrow> loads_exc + pydict list" where
  "jsonl_records L data max_records = jsonl_loop L (bytes_splitlines data) max_records"

text \<open>\<open>data.rpartition(b"\n")\<close> with the separator put back: everything up to the last newline.\<close>

definition through_last_newline :: "bytes \<Rightarrow> bytes" where
  "through_last_newline s = rev (dropWhile (\<lambda>b. b \<noteq> NL) (rev s))"

definition read_jsonl_prefix ::
  "py_limits \<Rightarrow> sized_file \<Rightarrow> int \<Rightarrow> nat option \<Rightarrow> loads_exc + pydict list" where
  "read_jsonl_prefix L file max_bytes max_records =
     (if max_bytes \<le> 0 then Inr []
      else
        (case file of
           None \<Rightarrow> Inr []
         | Some (sz, content) \<Rightarrow>
             (let data = take (nat max_bytes) content;
                  data' = (if length data < sz \<and> (data = [] \<or> last data \<noteq> NL)
                           then through_last_newline data else data)
              in jsonl_records L data' max_records)))"

definition tail_data :: "nat \<Rightarrow> bytes \<Rightarrow> nat \<Rightarrow> bytes option" where
  "tail_data sz content max_bytes =
     (let start = sz - max_bytes;
          data = take max_bytes (drop start content)
      in if 0 < start \<and> take 1 (drop (start - 1) content) \<noteq> [NL] then
           (case partition_at NL data of (_, sep, rest) \<Rightarrow> if sep then Some rest else None)
         else Some data)"

definition read_jsonl_tail ::
  "py_limits \<Rightarrow> sized_file \<Rightarrow> int \<Rightarrow> nat option \<Rightarrow> loads_exc + pydict list" where
  "read_jsonl_tail L file max_bytes max_records =
     (if max_bytes \<le> 0 then Inr []
      else
        (case file of
           None \<Rightarrow> Inr []
         | Some (sz, content) \<Rightarrow>
             (case tail_data sz content (nat max_bytes) of
                None \<Rightarrow> Inr []
              | Some data \<Rightarrow>
                  (case jsonl_records L data None of
                     Inl e \<Rightarrow> Inl e
                   | Inr rs \<Rightarrow>
                       Inr (case max_records of
                              None \<Rightarrow> rs
                            | Some n \<Rightarrow> if n = 0 then rs else lastn n rs)))))"

subsection \<open>Timestamps\<close>

record clock_env =
  ck_float :: "pystr \<Rightarrow> pyfloat option"
  ck_iso :: "pystr \<Rightarrow> time option"

definition scale_epoch :: "rat \<Rightarrow> rat" where
  "scale_epoch e = (if 100000000000 \<le> \<bar>e\<bar> then e / 1000 else e)"

text \<open>The largest magnitude \<open>float\<close> accepts for an \<open>int\<close>; above it is an \<open>OverflowError\<close>.\<close>

definition epoch_of_float :: "pyfloat \<Rightarrow> time option" where
  "epoch_of_float f = (case f of Fin r \<Rightarrow> Some (scale_epoch r) | _ \<Rightarrow> None)"

definition timestamp_epoch :: "clock_env \<Rightarrow> pyval \<Rightarrow> time option" where
  "timestamp_epoch ck v =
     (case v of
        PInt i \<Rightarrow> epoch_of_float (float_of (of_int i))
      | PFloat f \<Rightarrow> epoch_of_float f
      | PDate d \<Rightarrow> ck_iso ck d
      | PStr s \<Rightarrow>
          (let raw = strip s in
           if raw = [] then None
           else
             (case ck_float ck raw of
                Some f \<Rightarrow> epoch_of_float f
              | None \<Rightarrow>
                  ck_iso ck (if ends_with raw (py ''Z'') then butlast raw @ py ''+00:00'' else raw)))
      | _ \<Rightarrow> None)"

definition created_at_extra :: "clock_env \<Rightarrow> pyval list \<Rightarrow> pydict" where
  "created_at_extra ck candidates =
     (case List.map_filter (\<lambda>v. case timestamp_epoch ck v of
                Some e \<Rightarrow> if e \<le> 0 then None else Some e | None \<Rightarrow> None) candidates of
        [] \<Rightarrow> []
      | e # _ \<Rightarrow> [(pstr ''created_at_epoch'', PFloat (Fin e))])"

subsection \<open>Content\<close>

definition content_items :: "pyval \<Rightarrow> pydict list" where
  "content_items content =
     (case content of
        PStr s \<Rightarrow> [[(pstr ''type'', pstr ''text''), (pstr ''text'', PStr s)]]
      | PDict d \<Rightarrow> [d]
      | PList xs \<Rightarrow> List.map_filter mapping_items xs
      | PTuple xs \<Rightarrow> List.map_filter mapping_items xs
      | _ \<Rightarrow> [])"

definition as_mapping :: "pyval \<Rightarrow> pydict" where
  "as_mapping v = (case v of PDict d \<Rightarrow> d | _ \<Rightarrow> [])"

subsection \<open>The cache is transparent\<close>

fun cache_run ::
  "('k \<Rightarrow> 'v) \<Rightarrow> ('k, 'v) MetadataCache \<Rightarrow> 'k list \<Rightarrow> (unit + 'v) list \<times> ('k, 'v) MetadataCache" where
  "cache_run load c [] = ([], c)"
| "cache_run load c (s # ss) =
     (case get_or_load c s (Inr (load s)) of
        (r, c1) \<Rightarrow> (case cache_run load c1 ss of (rs, c2) \<Rightarrow> (r # rs, c2)))"

lemma cache_run_snoc:
  "cache_run load c (ss @ [s]) =
    (case cache_run load c ss of
       (rs, c1) \<Rightarrow> (case get_or_load c1 s (Inr (load s)) of (r, c2) \<Rightarrow> (rs @ [r], c2)))"
  by (induction ss arbitrary: c) (auto split: prod.splits)

definition cache_ok :: "('k \<Rightarrow> 'v) \<Rightarrow> 'k list \<Rightarrow> ('k, 'v) MetadataCache \<Rightarrow> bool" where
  "cache_ok load ss c \<longleftrightarrow> map fst (mc_entries c) = lastn (mc_max c) (remdups ss)
     \<and> (\<forall>(k, v) \<in> set (mc_entries c). v = load k)"

lemma get_or_load_ok:
  assumes ok: "cache_ok load ss c"
  shows "\<exists>c'. get_or_load c s (Inr (load s) :: unit + 'v) = (Inr (load s), c')
    \<and> cache_ok load (ss @ [s]) c' \<and> mc_max c' = mc_max c"
proof -
  let ?m = "mc_max c" and ?es = "mc_entries c"
  let ?es' = "lastn ?m (filter (\<lambda>kv. fst kv \<noteq> s) ?es @ [(s, load s)])"
  have hit: "v = load s" if "map_of ?es s = Some v" for v
    using ok that by (auto simp: cache_ok_def dest!: map_of_SomeD)
  have run: "get_or_load c s (Inr (load s) :: unit + 'v) = (Inr (load s), c\<lparr>mc_entries := ?es'\<rparr>)"
    using hit by (auto simp: get_or_load_def Let_def split: option.splits)
  have keys: "map fst ?es = lastn ?m (remdups ss)"
    using ok by (simp add: cache_ok_def)
  have "map fst ?es' = lastn ?m (filter (\<lambda>k. k \<noteq> s) (map fst ?es) @ [s])"
    by (simp add: map_lastn filter_map comp_def)
  also have "\<dots> = lastn ?m (filter (\<lambda>k. k \<noteq> s) (remdups ss) @ [s])"
  proof -
    have "distinct (lastn ?m (remdups ss))"
      by (simp add: lastn_def)
    then have "length (lastn ?m (remdups ss)) \<le> Suc (length (filter (\<lambda>k. k \<noteq> s) (lastn ?m (remdups ss))))"
      by (rule length_filter_neq)
    then show ?thesis
      unfolding keys by (intro lastn_filter_snoc) auto
  qed
  finally have "map fst ?es' = lastn ?m (remdups (ss @ [s]))"
    by (simp add: remdups_snoc)
  moreover have "\<forall>(k, v) \<in> set ?es'. v = load k"
    using ok set_lastn [of ?m "filter (\<lambda>kv. fst kv \<noteq> s) ?es @ [(s, load s)]"]
    by (auto simp: cache_ok_def)
  ultimately show ?thesis
    using run by (simp add: cache_ok_def)
qed

text \<open>
  The metadata cache is transparent and least-recently-used. For a loader that depends on
  the signature only, every lookup returns what the loader would, whatever was asked before,
  and after any sequence of lookups the cache holds exactly the most recently used distinct
  signatures, at most \<open>max_entries\<close> of them, in order of use.
\<close>

theorem cache_transparent:
  assumes "new_cache n = Some c"
  shows "\<exists>c'. cache_run load c ss = (map (Inr \<circ> load) ss, c')
    \<and> map fst (mc_entries c') = lastn (nat n) (remdups ss)
    \<and> (\<forall>(k, v) \<in> set (mc_entries c'). v = load k)"
proof -
  have "\<exists>c'. cache_run load c ss = (map (Inr \<circ> load) ss, c') \<and> cache_ok load ss c' \<and> mc_max c' = nat n"
  proof (induction ss rule: rev_induct)
    case Nil
    then show ?case
      using assms by (auto simp: new_cache_def cache_ok_def split: if_splits)
  next
    case (snoc s ss)
    then show ?case
      using get_or_load_ok [of load ss _ s] by (fastforce simp: cache_run_snoc)
  qed
  then show ?thesis
    by (auto simp: cache_ok_def)
qed

theorem cache_transparent_witness:
  "\<exists>c'. cache_run (\<lambda>k :: nat. k + 1) \<lparr>mc_max = 2, mc_entries = []\<rparr> [5, 6, 5, 7] =
      (map (Inr \<circ> (\<lambda>k. k + 1)) [5, 6, 5, 7], c') \<and> map fst (mc_entries c') = [5, 7]"
proof -
  have "new_cache 2 = Some \<lparr>mc_max = 2, mc_entries = [] :: (nat \<times> nat) list\<rparr>"
    by (simp add: new_cache_def)
  then obtain c' where "cache_run (\<lambda>k :: nat. k + 1) \<lparr>mc_max = 2, mc_entries = []\<rparr> [5, 6, 5, 7] =
      (map (Inr \<circ> (\<lambda>k. k + 1)) [5, 6, 5, 7], c')" "map fst (mc_entries c') = lastn (nat 2) (remdups [5, 6, 5, 7])"
    using cache_transparent [of 2 _ "\<lambda>k. k + 1" "[5, 6, 5, 7]"] by blast
  then show ?thesis
    by (intro exI [of _ c']) (simp add: lastn_def del: cache_run.simps)
qed

subsection \<open>Bounded reads agree with the whole file\<close>

lemma jsonl_loop_append:
  "jsonl_loop L (ls @ ms) None =
    (case jsonl_loop L ls None of
       Inl e \<Rightarrow> Inl e
     | Inr ds \<Rightarrow> (case jsonl_loop L ms None of Inl e \<Rightarrow> Inl e | Inr ds' \<Rightarrow> Inr (ds @ ds')))"
  by (induction ls) (auto split: sum.splits option.splits)

lemma jsonl_records_append:
  "jsonl_records L ((a @ [NL]) @ b) None =
    (case jsonl_records L (a @ [NL]) None of
       Inl e \<Rightarrow> Inl e
     | Inr ds \<Rightarrow> (case jsonl_records L b None of Inl e \<Rightarrow> Inl e | Inr ds' \<Rightarrow> Inr (ds @ ds')))"
  by (simp only: jsonl_records_def bytes_splitlines_append jsonl_loop_append)

lemma jsonl_records_Nil [simp]: "jsonl_records L [] n = Inr []"
  by (simp add: jsonl_records_def bytes_splitlines_def)

lemma through_last_newline_cases:
  "through_last_newline s = [] \<or> (\<exists>a b. through_last_newline s = a @ [NL] \<and> s = (a @ [NL]) @ b)"
proof (cases "NL \<in> set s")
  case True
  then obtain a b where s: "s = a @ NL # b" "NL \<notin> set b"
    using split_list_last by metis
  then have "dropWhile (\<lambda>x. x \<noteq> NL) (rev b @ NL # rev a) = NL # rev a"
    by (subst dropWhile_append2) auto
  with s show ?thesis
    by (simp add: through_last_newline_def)
next
  case False
  then show ?thesis
    by (auto simp: through_last_newline_def)
qed

text \<open>The suffix that \<open>read_jsonl_tail\<close> parses starts at a line boundary.\<close>

lemma tail_data_boundary:
  assumes "tail_data (length c) c n = Some data"
  shows "data = c \<or> (\<exists>a. c = (a @ [NL]) @ data)"
proof -
  let ?start = "length c - n"
  have data: "take n (drop ?start c) = drop ?start c" by simp
  show ?thesis
  proof (cases "?start = 0")
    case True
    then show ?thesis
      using assms by (simp add: tail_data_def Let_def)
  next
    case False
    then obtain i where i: "?start = Suc i" "i < length c"
      by (cases ?start) auto
    have split: "c = take i c @ c ! i # drop ?start c"
      using i by (simp add: id_take_nth_drop)
    show ?thesis
    proof (cases "c ! i = NL")
      case True
      then have "tail_data (length c) c n = Some (drop ?start c)"
        using i data by (simp add: tail_data_def Let_def take_Suc_conv_app_nth hd_drop_conv_nth
            Cons_nth_drop_Suc [symmetric])
      with assms split True show ?thesis
        by (metis append.assoc append_Cons append_Nil option.inject)
    next
      case False
      then have "tail_data (length c) c n =
          (if NL \<in> set (drop ?start c) then Some (tl (dropWhile (\<lambda>x. x \<noteq> NL) (drop ?start c))) else None)"
        using i data by (simp add: tail_data_def Let_def partition_at_def Cons_nth_drop_Suc [symmetric])
      with assms have nl: "NL \<in> set (drop ?start c)" and d: "data = tl (dropWhile (\<lambda>x. x \<noteq> NL) (drop ?start c))"
        by (auto split: if_splits)
      obtain a b where "drop ?start c = a @ NL # b" "NL \<notin> set a"
        using split_list_first [OF nl] by blast
      with d have "c = ((take ?start c @ a) @ [NL]) @ data"
        by (metis append.assoc append_Cons append_Nil append_take_drop_id list.sel(3) takeWhile_line(2))
      then show ?thesis by blast
    qed
  qed
qed

text \<open>
  The bounded readers never invent, cut or reorder records: what the prefix reader returns is
  an initial segment, and what the tail reader returns a final segment, of the records of the
  whole file, whatever the byte bounds and wherever they fall inside a line.
\<close>

theorem bounded_reads_are_segments:
  assumes "jsonl_records L c None = Inr all"
  shows "\<exists>pre rs. read_jsonl_tail L (Some (length c, c)) n None = Inr rs \<and> all = pre @ rs
    \<and> (\<exists>rs' suf. read_jsonl_prefix L (Some (length c, c)) n None = Inr rs' \<and> all = rs' @ suf)"
proof -
  have right: "\<exists>pre rs. jsonl_records L d None = Inr rs \<and> all = pre @ rs"
    if "d = c \<or> (\<exists>a. c = (a @ [NL]) @ d)" for d
    using that assms
    by (elim disjE exE) (auto simp: jsonl_records_append simp del: append_assoc split: sum.splits)
  have left: "\<exists>rs suf. jsonl_records L d None = Inr rs \<and> all = rs @ suf"
    if "d = [] \<or> d = c \<or> (\<exists>a b. d = a @ [NL] \<and> c = (a @ [NL]) @ b)" for d
    using that
  proof (elim disjE exE conjE)
    fix a b assume "d = a @ [NL]" "c = (a @ [NL]) @ b"
    then show ?thesis
      using assms by (auto simp: jsonl_records_append simp del: append_assoc split: sum.splits)
  qed (use assms in auto)
  have tail: "\<exists>pre rs. read_jsonl_tail L (Some (length c, c)) n None = Inr rs \<and> all = pre @ rs"
  proof (cases "n \<le> 0 \<or> tail_data (length c) c (nat n) = None")
    case True
    then show ?thesis by (auto simp: read_jsonl_tail_def)
  next
    case False
    then obtain d where "tail_data (length c) c (nat n) = Some d" by auto
    with False right [OF tail_data_boundary [OF this]] show ?thesis
      by (auto simp: read_jsonl_tail_def)
  qed
  have "\<exists>rs suf. read_jsonl_prefix L (Some (length c, c)) n None = Inr rs \<and> all = rs @ suf"
  proof (cases "n \<le> 0")
    case True
    then show ?thesis by (simp add: read_jsonl_prefix_def)
  next
    case False
    let ?d = "take (nat n) c"
    have c: "c = ?d @ drop (nat n) c" by simp
    define d where "d = (if length ?d < length c \<and> (?d = [] \<or> last ?d \<noteq> NL) then through_last_newline ?d else ?d)"
    have "d = [] \<or> d = c \<or> (\<exists>a b. d = a @ [NL] \<and> c = (a @ [NL]) @ b)"
    proof (cases "length ?d < length c")
      case short: True
      show ?thesis
      proof (cases "?d = [] \<or> last ?d \<noteq> NL")
        case True
        then have d: "d = through_last_newline ?d"
          using short by (simp only: d_def simp_thms if_True)
        from through_last_newline_cases [of ?d] show ?thesis
        proof (elim disjE exE conjE)
          fix a b assume "through_last_newline ?d = a @ [NL]" "?d = (a @ [NL]) @ b"
          then have "d = a @ [NL]" "c = (a @ [NL]) @ (b @ drop (nat n) c)"
            using d c by (simp, metis append.assoc)
          then show ?thesis by blast
        qed (simp add: d)
      next
        case False
        then have "d = butlast ?d @ [NL]"
          using append_butlast_last_id [of ?d] by (simp add: d_def)
        moreover have "c = (butlast ?d @ [NL]) @ drop (nat n) c"
          using False append_butlast_last_id [of ?d] by (metis c)
        ultimately show ?thesis by blast
      qed
    next
      case long: False
      then have "?d = c" by simp
      then show ?thesis by (simp add: d_def)
    qed
    from left [OF this] False show ?thesis
      by (simp add: read_jsonl_prefix_def Let_def d_def)
  qed
  with tail show ?thesis by blast
qed

theorem bounded_reads_are_segments_witness:
  "\<exists>pre rs. read_jsonl_tail \<lparr>py_recursion = 4, py_int_digits = 0\<rparr> (Some (4, [123, 125, 10, 10])) 3 None = Inr rs
    \<and> [[]] = pre @ rs"
proof -
  let ?L = "\<lparr>py_recursion = 4, py_int_digits = 0\<rparr>"
  have "jsonl_records ?L [123, 125, 10, 10] None = Inr [[]]"
    by (simp add: jsonl_records_def bytes_splitlines_def line_record_def line_value_def is_blank_def
        is_bytes_ws_def as_dict_def decode_replace_ascii json_eval)
  from bounded_reads_are_segments [OF this, of 3] show ?thesis
    by (simp add: numeral_eq_Suc) blast
qed

subsection \<open>Sanitized text is inert\<close>

lemma strip_plain: "\<forall>c \<in> set s. \<not> is_control c \<Longrightarrow> strip_terminal_sequences s = s"
  by (induction s) (auto simp: is_control_def)



text \<open>
  White space is collapsed before control characters are removed, so a control character
  between two spaces leaves two adjacent spaces in the collapsed text.
\<close>

theorem sanitize_leaves_space_run:
  "sanitize_terminal_text rp (PStr [97, 32, 1, 32, 98]) True = [97, 32, 32, 98]"
  by (simp add: sanitize_terminal_text_def str_or_empty_def Let_def split_def is_space_def is_control_def
      py_def Py_Text.split_def)

end
