(* ===== verification/State.thy ===== *)
theory State
  imports Readers "HOL-Library.AList"
begin

text \<open>
  Inference of a session's lifecycle state (\<open>sidecar/state.py\<close>): the metadata header of Cursor
  terminal snapshots, the summary of a transcript tail, and the state engine.

  \<^item> \<open>text_env\<close> holds the interpreter's printers and tables: \<open>str\<close> of floats and containers, the
    lower-case mapping of non-ASCII code points, the number and date parsers, and
    \<open>str(Path(p).expanduser())\<close>.
  \<^item> A directory listing is the list of its entries in the order \<open>scandir\<close> yields them, \<open>None\<close>
    for an \<open>OSError\<close>.
  \<^item> The outcome of an adapter's \<open>infer_status\<close> is \<open>Inl\<close> the text of an exception or \<open>Inr\<close> the
    returned value.
\<close>

record text_env =
  te_str :: "pyval \<Rightarrow> pystr"
  te_low :: "nat \<Rightarrow> pystr"
  te_clock :: clock_env
  te_path :: "pystr \<Rightarrow> pystr"

definition str_lower :: "text_env \<Rightarrow> pyval \<Rightarrow> pystr" where
  "str_lower E v = lower (te_low E) (str_or_empty (te_str E) v)"

subsection \<open>Terminal snapshots\<close>

definition TRUE_VALUES :: "pystr list" where
  "TRUE_VALUES = [py ''1'', py ''true'', py ''yes'', py ''on'']"

definition NULL_VALUES :: "pystr list" where
  "NULL_VALUES = [[], py ''null'', py ''none'', py ''~'']"

definition RUNNING_VALUES :: "pystr list" where
  "RUNNING_VALUES = [py ''busy'', py ''running'', py ''working'']"

definition FINISHED_VALUES :: "pystr list" where
  "FINISHED_VALUES = [py ''cancelled'', py ''completed'', py ''done'', py ''exited'', py ''failed'',
     py ''stopped'', py ''succeeded'', py ''success'']"

definition is_key_char :: "nat \<Rightarrow> bool" where
  "is_key_char c \<longleftrightarrow> 97 \<le> c \<and> c \<le> 122 \<or> 48 \<le> c \<and> c \<le> 57"

text \<open>\<open>re.sub(r"[^a-z0-9]+", "_", s)\<close>.\<close>

fun sub_runs :: "bool \<Rightarrow> pystr \<Rightarrow> pystr" where
  "sub_runs in_run [] = []"
| "sub_runs in_run (c # s) =
     (if is_key_char c then c # sub_runs False s
      else if in_run then sub_runs True s
      else 95 # sub_runs True s)"

definition normalized_key :: "text_env \<Rightarrow> pystr \<Rightarrow> pystr" where
  "normalized_key E s = strip_by (\<lambda>c. c = 95) (sub_runs False (lower (te_low E) (strip s)))"

definition strip_quotes :: "pystr \<Rightarrow> pystr" where
  "strip_quotes s = strip_by (\<lambda>c. c = 34 \<or> c = 39) s"

definition bounded_text :: "bytes option \<Rightarrow> int \<Rightarrow> pystr" where
  "bounded_text file max_bytes =
     (if max_bytes \<le> 0 then []
      else case file of None \<Rightarrow> [] | Some c \<Rightarrow> decode_replace (take (nat max_bytes) c))"

type_synonym metadata = "(pystr \<times> pystr) list"

fun parse_lines :: "text_env \<Rightarrow> bool \<Rightarrow> pystr list \<Rightarrow> metadata \<Rightarrow> metadata" where
  "parse_lines E delimited [] m = m"
| "parse_lines E delimited (line # ls) m =
     (if delimited \<and> strip line = py ''---'' then m
      else
        (case partition_at 58 line of
           (key, sep, value) \<Rightarrow>
             if \<not> sep then parse_lines E delimited ls m
             else
               (let k = normalized_key E key in
                parse_lines E delimited ls
                  (if k = [] then m else AList.update k (strip_quotes (strip value)) m))))"

definition parse_terminal_metadata :: "text_env \<Rightarrow> pystr \<Rightarrow> int \<Rightarrow> metadata" where
  "parse_terminal_metadata E text max_lines =
     (let lines = splitlines text;
          delimited = (lines \<noteq> [] \<and> strip (hd lines) = py ''---'');
          body = drop (if delimited then 1 else 0) lines
      in parse_lines E delimited (take (nat max_lines) body) [])"

definition normalized_metadata :: "text_env \<Rightarrow> metadata \<Rightarrow> metadata" where
  "normalized_metadata E m =
     foldl (\<lambda>d (k, v). AList.update (normalized_key E k) (lower (te_low E) (strip_quotes (strip v))) d) [] m"

text \<open>\<open>a or b or c\<close> over optional texts: the first non-empty one, else the last.\<close>

fun first_text :: "pystr option list \<Rightarrow> pystr option" where
  "first_text [] = None"
| "first_text [x] = x"
| "first_text (x # xs) = (if x \<noteq> None \<and> x \<noteq> Some [] then x else first_text xs)"

definition has_text :: "pystr option \<Rightarrow> bool" where
  "has_text x \<longleftrightarrow> (case x of None \<Rightarrow> False | Some s \<Rightarrow> s \<notin> set NULL_VALUES)"

definition nonneg_float :: "text_env \<Rightarrow> pystr \<Rightarrow> bool" where
  "nonneg_float E s =
     (case ck_float (te_clock E) s of Some (Fin r) \<Rightarrow> 0 \<le> r | Some PosInf \<Rightarrow> True | _ \<Rightarrow> False)"

definition terminal_metadata_is_active :: "text_env \<Rightarrow> metadata \<Rightarrow> bool" where
  "terminal_metadata_is_active E metadata =
     (let n = map_of (normalized_metadata E metadata);
          states = List.map_filter n
            [py ''status'', py ''state'', py ''process_status'', py ''command_status'']
      in if \<exists>v \<in> set states. v \<in> set FINISHED_VALUES then False
         else if \<exists>v \<in> set states. v \<in> set RUNNING_VALUES then True
         else if \<exists>k \<in> set [py ''running'', py ''is_running'', py ''command_running'', py ''process_running''].
                   \<exists>v \<in> set_option (n k). v \<in> set TRUE_VALUES then True
         else if (case n (py ''running_for_ms'') of
                    None \<Rightarrow> False
                  | Some r \<Rightarrow>
                      has_text (first_text [n (py ''command''), n (py ''current_command''),
                                            n (py ''active_command'')])
                      \<and> nonneg_float E r) then True
         else if has_text (first_text [n (py ''current_command''), n (py ''active_command'')]) then True
         else has_text (n (py ''last_command''))
              \<and> (case (case n (py ''last_exit_code'') of Some v \<Rightarrow> Some v | None \<Rightarrow> n (py ''exit_code'')) of
                   None \<Rightarrow> False
                 | Some v \<Rightarrow> v \<in> set NULL_VALUES))"

record terminal_entry =
  ent_name :: pystr
  ent_is_file :: "bool option"
  ent_mtime :: "time option"
  ent_content :: "bytes option"

definition terminal_file_is_active :: "text_env \<Rightarrow> terminal_entry \<Rightarrow> time \<Rightarrow> time \<Rightarrow> int \<Rightarrow> bool" where
  "terminal_file_is_active E ent now fresh max_bytes =
     (case ent_mtime ent of
        None \<Rightarrow> False
      | Some modified \<Rightarrow>
          if fresh < max 0 (now - modified) then False
          else terminal_metadata_is_active E
                 (parse_terminal_metadata E (bounded_text (ent_content ent) max_bytes) 64))"

text \<open>The parts of a path text between its separators.\<close>

fun path_parts :: "pystr \<Rightarrow> pystr \<Rightarrow> pystr list" where
  "path_parts cur [] = [rev cur]"
| "path_parts cur (c # s) = (if c = 47 then rev cur # path_parts [] s else path_parts (c # cur) s)"

text \<open>
  The directory \<open>terminals\<close> beside the nearest parent named \<open>agent-transcripts\<close>; the argument is
  the reversed list of the parent's parts.
\<close>

fun sibling_terminals :: "pystr list \<Rightarrow> pystr option" where
  "sibling_terminals [] = None"
| "sibling_terminals (p # ps) =
     (if p = py ''agent-transcripts'' then Some (join (py ''/'') (rev ps @ [py ''terminals'']))
      else sibling_terminals ps)"

definition cursor_terminal_roots :: "text_env \<Rightarrow> Session \<Rightarrow> pystr option \<Rightarrow> pystr option \<Rightarrow> pystr list" where
  "cursor_terminal_roots E s home terminals_root =
     (case terminals_root of
        Some r \<Rightarrow> [r]
      | None \<Rightarrow>
          (let near = (if s_transcript s = [] then []
                       else (case sibling_terminals (tl (rev (path_parts [] (te_path E (s_transcript s))))) of
                               None \<Rightarrow> [] | Some r \<Rightarrow> [r]));
               configured = (case dget (s_extra s) ''terminals_root'' of
                               PStr p \<Rightarrow> [te_path E p] | PPath p \<Rightarrow> [te_path E p] | _ \<Rightarrow> []);
               slug = dget (s_extra s) ''project_slug'';
               projects = (case home of
                             None \<Rightarrow> []
                           | Some h \<Rightarrow>
                               if \<not> truthy slug then []
                               else
                                 (let t = py_str (te_str E) slug in
                                  [te_path E ((if t \<noteq> [] \<and> hd t = 47 then t
                                               else te_path E h @ py ''/.cursor/projects/'' @ t)
                                              @ py ''/terminals'')]))
           in rev (remdups (rev (near @ configured @ projects)))))"

type_synonym dir_env = "pystr \<Rightarrow> terminal_entry list option"

datatype scan_outcome = Found | Exhausted | Counted nat

fun scan_entries ::
  "text_env \<Rightarrow> time \<Rightarrow> time \<Rightarrow> int \<Rightarrow> int \<Rightarrow> terminal_entry list \<Rightarrow> nat \<Rightarrow> scan_outcome" where
  "scan_entries E now fresh max_files max_bytes [] inspected = Counted inspected"
| "scan_entries E now fresh max_files max_bytes (ent # es) inspected =
     (if max_files \<le> int inspected then Exhausted
      else if \<not> ends_with (ent_name ent) (py ''.txt'') then
        scan_entries E now fresh max_files max_bytes es (inspected + 1)
      else if ent_is_file ent \<noteq> Some True then
        scan_entries E now fresh max_files max_bytes es (inspected + 1)
      else if terminal_file_is_active E ent now fresh max_bytes then Found
      else scan_entries E now fresh max_files max_bytes es (inspected + 1))"

fun scan_roots ::
  "text_env \<Rightarrow> dir_env \<Rightarrow> time \<Rightarrow> time \<Rightarrow> int \<Rightarrow> int \<Rightarrow> pystr list \<Rightarrow> nat \<Rightarrow> bool" where
  "scan_roots E dirs now fresh max_files max_bytes [] inspected = False"
| "scan_roots E dirs now fresh max_files max_bytes (r # rs) inspected =
     (case dirs r of
        None \<Rightarrow> scan_roots E dirs now fresh max_files max_bytes rs inspected
      | Some es \<Rightarrow>
          (case scan_entries E now fresh max_files max_bytes es inspected of
             Found \<Rightarrow> True
           | Exhausted \<Rightarrow> False
           | Counted n \<Rightarrow> scan_roots E dirs now fresh max_files max_bytes rs n))"

definition cursor_terminal_active ::
  "text_env \<Rightarrow> dir_env \<Rightarrow> Session \<Rightarrow> time \<Rightarrow> pystr option \<Rightarrow> time \<Rightarrow> pystr option \<Rightarrow> int \<Rightarrow> int \<Rightarrow> bool" where
  "cursor_terminal_active E dirs s now home fresh terminals_root max_files max_bytes =
     (if lower (te_low E) (s_agent s) \<notin> {py ''cursor'', py ''cursor-ide'', py ''cursor_ide''} then False
      else if lower (te_low E) (case map_of (s_extra s) (pstr ''source'') of
                None \<Rightarrow> [] | Some v \<Rightarrow> py_str (te_str E) v) = py ''cli'' then False
      else if max_files \<le> 0 then False
      else scan_roots E dirs now fresh max_files max_bytes
             (cursor_terminal_roots E s home terminals_root) 0)"

subsection \<open>The summary of a transcript tail\<close>

fun first_timestamp :: "text_env \<Rightarrow> pyval list \<Rightarrow> time option" where
  "first_timestamp E [] = None"
| "first_timestamp E (v # vs) =
     (case timestamp_epoch (te_clock E) v of Some t \<Rightarrow> Some t | None \<Rightarrow> first_timestamp E vs)"

definition record_timestamp :: "text_env \<Rightarrow> pydict \<Rightarrow> time option" where
  "record_timestamp E r =
     first_timestamp E [dget r ''timestamp'', dget r ''time'', dget r ''createdAt'', dget r ''updatedAt'',
                        dget (as_mapping (dget r ''message'')) ''timestamp'']"

fun first_identifier :: "text_env \<Rightarrow> pydict \<Rightarrow> pystr list \<Rightarrow> pystr" where
  "first_identifier E item [] = []"
| "first_identifier E item (k # ks) =
     (let v = dict_get item k in
      if v \<noteq> PNone \<and> py_str (te_str E) v \<noteq> [] then py_str (te_str E) v
      else first_identifier E item ks)"

definition tool_identifier :: "text_env \<Rightarrow> pydict \<Rightarrow> bool \<Rightarrow> pystr" where
  "tool_identifier E item result =
     first_identifier E item
       (if result then [py ''tool_use_id'', py ''toolUseId'', py ''tool_call_id'', py ''toolCallId'', py ''id'']
        else [py ''id'', py ''tool_use_id'', py ''toolUseId'', py ''tool_call_id'', py ''toolCallId''])"

datatype tail_kind = NoKind | UserKind | AssistantKind | ThinkingKind | ToolUseKind | ToolResultKind

record TailState =
  ts_last_kind :: tail_kind
  ts_activity_at :: "time option"
  ts_unmatched :: nat

text \<open>The local variables of \<open>_tail_state\<close>.\<close>

record tail_vars =
  tv_unmatched :: "(pystr \<times> nat) list"
  tv_anonymous :: "nat list"
  tv_last_kind :: tail_kind
  tv_activity_at :: "time option"
  tv_ordinal :: nat

definition mark :: "tail_kind \<Rightarrow> time option \<Rightarrow> tail_vars \<Rightarrow> tail_vars" where
  "mark kind ts v =
     v\<lparr>tv_ordinal := tv_ordinal v + 1, tv_last_kind := kind, tv_activity_at := ts\<rparr>"

definition tool_started :: "pystr \<Rightarrow> time option \<Rightarrow> tail_vars \<Rightarrow> tail_vars" where
  "tool_started ident ts v =
     (let v1 = mark ToolUseKind ts v in
      if ident \<noteq> [] then v1\<lparr>tv_unmatched := AList.update ident (tv_ordinal v1) (tv_unmatched v1)\<rparr>
      else v1\<lparr>tv_anonymous := tv_anonymous v1 @ [tv_ordinal v1]\<rparr>)"

definition tool_finished :: "pystr \<Rightarrow> time option \<Rightarrow> tail_vars \<Rightarrow> tail_vars" where
  "tool_finished ident ts v =
     mark ToolResultKind ts
       (if ident \<noteq> [] then v\<lparr>tv_unmatched := AList.delete ident (tv_unmatched v)\<rparr>
        else v\<lparr>tv_anonymous := butlast (tv_anonymous v)\<rparr>)"

definition tail_item :: "text_env \<Rightarrow> pystr \<Rightarrow> time option \<Rightarrow> tail_vars \<Rightarrow> pydict \<Rightarrow> tail_vars" where
  "tail_item E role ts v item =
     (let item_type = str_lower E (dget item ''type'') in
      if item_type = py ''tool_use'' \<or> item_type = py ''tool_call'' then
        tool_started (tool_identifier E item False) ts v
      else if item_type = py ''tool_result'' then tool_finished (tool_identifier E item True) ts v
      else if item_type = py ''thinking'' then mark ThinkingKind ts v
      else if item_type = py ''text'' \<and> strip (str_or_empty (te_str E) (dget item ''text'')) \<noteq> [] then
        (if role = py ''user'' then mark UserKind ts v
         else if role = py ''assistant'' then mark AssistantKind ts v
         else v)
      else v)"

text \<open>The items of a record: itself for a bare tool record, else those of its content.\<close>

definition record_items :: "text_env \<Rightarrow> pydict \<Rightarrow> pydict list" where
  "record_items E r =
     (let message = as_mapping (dget r ''message'');
          content = (case map_of message (pstr ''content'') of Some c \<Rightarrow> c | None \<Rightarrow> dget r ''content'')
      in if str_lower E (dget r ''type'') \<in> {py ''tool_use'', py ''tool_call'', py ''tool_result''} then [r]
         else content_items content)"

definition tail_record :: "text_env \<Rightarrow> tail_vars \<Rightarrow> pydict \<Rightarrow> tail_vars" where
  "tail_record E v r =
     (let record_type = str_lower E (dget r ''type'');
          message = as_mapping (dget r ''message'');
          role = lower (te_low E)
            (if truthy (dget r ''role'') then py_str (te_str E) (dget r ''role'')
             else if truthy (dget message ''role'') then py_str (te_str E) (dget message ''role'')
             else record_type);
          ts = record_timestamp E r;
          items = record_items E r;
          v1 = foldl (tail_item E role ts) v items;
          v2 = (case seq_items (dget message ''tool_calls'') of
                  None \<Rightarrow> v1
                | Some calls \<Rightarrow>
                    foldl (\<lambda>u call. tool_started (tool_identifier E call False) ts u) v1
                      (List.map_filter mapping_items calls))
      in if items \<noteq> [] then v2
         else if record_type \<in> {py ''thinking'', py ''tool_call_started''} then mark ThinkingKind ts v2
         else if role = py ''tool'' then mark ToolResultKind ts v2
         else v2)"

definition initial_vars :: tail_vars where
  "initial_vars = \<lparr>tv_unmatched = [], tv_anonymous = [], tv_last_kind = NoKind, tv_activity_at = None,
     tv_ordinal = 0\<rparr>"

definition tail_state :: "text_env \<Rightarrow> pydict list \<Rightarrow> TailState" where
  "tail_state E records =
     (let v = foldl (tail_record E) initial_vars records in
      \<lparr>ts_last_kind = tv_last_kind v, ts_activity_at = tv_activity_at v,
       ts_unmatched = length (tv_unmatched v) + length (tv_anonymous v)\<rparr>)"

subsection \<open>The engine\<close>

type_synonym file_sig = "pystr \<times> int \<times> int"

record StateEngine =
  en_fresh :: time
  en_idle :: time
  en_tail_bytes :: int
  en_tail_records :: int
  en_terminal_fresh :: time
  en_terminal_bytes :: int
  en_terminal_files :: int
  en_home :: pystr
  en_cache :: "(file_sig, TailState) MetadataCache"

definition new_state_engine ::
  "time \<Rightarrow> time \<Rightarrow> int \<Rightarrow> int \<Rightarrow> time \<Rightarrow> int \<Rightarrow> int \<Rightarrow> pystr \<Rightarrow> time option \<Rightarrow> time option \<Rightarrow> int
   \<Rightarrow> StateEngine option" where
  "new_state_engine fresh0 idle0 tail_bytes tail_records terminal_fresh terminal_bytes terminal_files
      home fresh_threshold idle_threshold cache_size =
     (let fresh = (case fresh_threshold of None \<Rightarrow> fresh0 | Some t \<Rightarrow> t);
          idle = (case idle_threshold of None \<Rightarrow> idle0 | Some t \<Rightarrow> t)
      in if fresh < 0 \<or> idle < 0 \<or> idle < fresh \<or> tail_bytes \<le> 0 \<or> tail_records \<le> 0
            \<or> terminal_fresh < 0 \<or> terminal_bytes \<le> 0 \<or> terminal_files \<le> 0 then None
         else
           map_option (\<lambda>c. \<lparr>en_fresh = fresh, en_idle = idle, en_tail_bytes = tail_bytes,
             en_tail_records = tail_records, en_terminal_fresh = terminal_fresh,
             en_terminal_bytes = terminal_bytes, en_terminal_files = terminal_files,
             en_home = home, en_cache = c\<rparr>) (new_cache cache_size))"

text \<open>What the outside answers during one \<open>infer_status\<close>.\<close>

record infer_env =
  ie_hint :: "(pystr + pyval) option"
  ie_now :: time
  ie_is_file :: bool
  ie_signature :: "file_sig option"
  ie_file :: sized_file
  ie_dirs :: dir_env

fun hint_status :: "pyval \<Rightarrow> Status option" where
  "hint_status (PEnum (PStr v)) = status_of v"
| "hint_status (PStr v) = status_of v"
| "hint_status _ = None"

definition age_status :: "StateEngine \<Rightarrow> TailState \<Rightarrow> time \<Rightarrow> Status" where
  "age_status en ts age =
     (if en_idle en < age then IDLE
      else if age \<le> en_fresh en
              \<and> (ts_last_kind ts \<in> {UserKind, ThinkingKind}
                 \<or> ts_last_kind ts = ToolUseKind \<and> 0 < ts_unmatched ts) then WORKING
      else WAITING)"

definition infer_from_tail ::
  "text_env \<Rightarrow> StateEngine \<Rightarrow> Session \<Rightarrow> infer_env \<Rightarrow> TailState \<Rightarrow> Status" where
  "infer_from_tail E en s env ts =
     (let activity = (case ts_activity_at ts of None \<Rightarrow> s_updated_at s | Some t \<Rightarrow> t);
          status = age_status en ts (max 0 (ie_now env - activity))
      in if status \<noteq> IDLE \<and> age_seconds s (ie_now env) \<le> en_idle en
            \<and> cursor_terminal_active E (ie_dirs env) s (ie_now env) (Some (en_home en))
                (en_terminal_fresh en) None (en_terminal_files en) (en_terminal_bytes en)
         then WORKING else status)"

text \<open>The part of \<open>infer_status\<close> after the adapter's hint.\<close>

definition infer_from_transcript ::
  "py_limits \<Rightarrow> text_env \<Rightarrow> StateEngine \<Rightarrow> Session \<Rightarrow> infer_env \<Rightarrow> (loads_exc + Status) \<times> StateEngine" where
  "infer_from_transcript L E en s env =
     (if s_transcript s = [] \<or> \<not> ie_is_file env then (Inr DEAD, en)
      else
        (case ie_signature env of
           None \<Rightarrow> (Inr DEAD, en)
         | Some sig \<Rightarrow>
             (let loader = (case read_jsonl_tail L (ie_file env) (en_tail_bytes en)
                                  (Some (nat (en_tail_records en))) of
                              Inl e \<Rightarrow> Inl e | Inr rs \<Rightarrow> Inr (tail_state E rs))
              in case get_or_load (en_cache en) sig loader of
                   (Inl e, c) \<Rightarrow> (Inl e, en\<lparr>en_cache := c\<rparr>)
                 | (Inr ts, c) \<Rightarrow> (Inr (infer_from_tail E en s env ts), en\<lparr>en_cache := c\<rparr>))))"

text \<open>\<open>infer_status\<close> with the errors handed to \<open>on_error\<close>.\<close>

definition infer_status ::
  "py_limits \<Rightarrow> text_env \<Rightarrow> StateEngine \<Rightarrow> Session \<Rightarrow> infer_env
   \<Rightarrow> (loads_exc + Status) \<times> StateEngine \<times> (pystr \<times> pystr) list" where
  "infer_status L E en s env =
     (case ie_hint env of
        None \<Rightarrow> (case infer_from_transcript L E en s env of (r, en1) \<Rightarrow> (r, en1, []))
      | Some (Inl error) \<Rightarrow>
          (case infer_from_transcript L E en s env of
             (r, en1) \<Rightarrow> (r, en1, [(py ''infer_status'', error)]))
      | Some (Inr v) \<Rightarrow>
          if v = PNone then (case infer_from_transcript L E en s env of (r, en1) \<Rightarrow> (r, en1, []))
          else
            (case hint_status v of
               Some st \<Rightarrow> (Inr st, en, [])
             | None \<Rightarrow>
                 (case infer_from_transcript L E en s env of
                    (r, en1) \<Rightarrow> (r, en1, [(py ''infer_status'', py ''ValueError'')]))))"

definition apply_state ::
  "py_limits \<Rightarrow> text_env \<Rightarrow> StateEngine \<Rightarrow> Session \<Rightarrow> infer_env
   \<Rightarrow> (loads_exc + Session) \<times> StateEngine \<times> (pystr \<times> pystr) list" where
  "apply_state L E en s env =
     (case infer_status L E en s env of
        (Inl e, en1, errs) \<Rightarrow> (Inl e, en1, errs)
      | (Inr st, en1, errs) \<Rightarrow> (Inr (s\<lparr>s_status := st\<rparr>), en1, errs))"

subsection \<open>Terminal evidence is bounded\<close>

definition entry_active :: "text_env \<Rightarrow> time \<Rightarrow> time \<Rightarrow> int \<Rightarrow> terminal_entry \<Rightarrow> bool" where
  "entry_active E now fresh max_bytes ent \<longleftrightarrow> ends_with (ent_name ent) (py ''.txt'')
     \<and> ent_is_file ent = Some True \<and> terminal_file_is_active E ent now fresh max_bytes"

definition listed :: "dir_env \<Rightarrow> pystr list \<Rightarrow> terminal_entry list" where
  "listed dirs roots = concat (map (\<lambda>r. case dirs r of None \<Rightarrow> [] | Some es \<Rightarrow> es) roots)"

lemma scan_entries_Cons:
  "scan_entries E now fresh m b (e # es) n =
    (if m \<le> int n then Exhausted
     else if entry_active E now fresh b e then Found
     else scan_entries E now fresh m b es (n + 1))"
  by (simp add: entry_active_def)

lemma scan_entries_spec:
  "scan_entries E now fresh m b es n =
    (if \<exists>e \<in> set (take (nat m - n) es). entry_active E now fresh b e then Found
     else if nat m - n < length es then Exhausted else Counted (n + length es))"
proof (induction es arbitrary: n)
  case (Cons e es)
  show ?case
  proof (cases "m \<le> int n")
    case True
    then show ?thesis by simp
  next
    case False
    then have k: "nat m - n = Suc (nat m - Suc n)" by simp
    show ?thesis
      unfolding scan_entries_Cons k using False Cons [of "n + 1"] by simp
  qed
qed simp

lemma scan_roots_spec:
  "scan_roots E dirs now fresh m b rs n \<longleftrightarrow>
    (\<exists>e \<in> set (take (nat m - n) (listed dirs rs)). entry_active E now fresh b e)"
proof (induction rs arbitrary: n)
  case (Cons r rs)
  show ?case
  proof (cases "dirs r")
    case None
    with Cons show ?thesis by (simp add: listed_def)
  next
    case (Some es)
    then have l: "listed dirs (r # rs) = es @ listed dirs rs"
      by (simp add: listed_def)
    show ?thesis
    proof (cases "nat m - n < length es")
      case True
      then show ?thesis
        by (auto simp: Some l scan_entries_spec)
    next
      case False
      then show ?thesis
        using Cons [of "n + length es"]
        by (auto simp: Some l scan_entries_spec diff_diff_left)
    qed
  qed
qed (simp add: listed_def)


subsection \<open>Open tool calls\<close>

datatype tool_op = Start pystr | Finish pystr

definition item_ops :: "text_env \<Rightarrow> pydict \<Rightarrow> tool_op list" where
  "item_ops E item =
     (let t = str_lower E (dget item ''type'') in
      if t = py ''tool_use'' \<or> t = py ''tool_call'' then [Start (tool_identifier E item False)]
      else if t = py ''tool_result'' then [Finish (tool_identifier E item True)]
      else [])"

text \<open>The starts and ends of tool calls that a record mentions, in order.\<close>

definition record_ops :: "text_env \<Rightarrow> pydict \<Rightarrow> tool_op list" where
  "record_ops E r =
     concat (map (item_ops E) (record_items E r))
     @ (case seq_items (dget (as_mapping (dget r ''message'')) ''tool_calls'') of
          None \<Rightarrow> []
        | Some calls \<Rightarrow> map (\<lambda>call. Start (tool_identifier E call False)) (List.map_filter mapping_items calls))"

text \<open>A call is open when no end with its identifier follows its last start.\<close>

definition open_ids :: "tool_op list \<Rightarrow> pystr set" where
  "open_ids ops = {i. i \<noteq> [] \<and> (\<exists>us vs. ops = us @ Start i # vs \<and> Finish i \<notin> set vs)}"

fun open_anonymous :: "nat \<Rightarrow> tool_op list \<Rightarrow> nat" where
  "open_anonymous n [] = n"
| "open_anonymous n (Start i # ops) = open_anonymous (if i = [] then n + 1 else n) ops"
| "open_anonymous n (Finish i # ops) = open_anonymous (if i = [] then n - 1 else n) ops"

lemma open_anonymous_append:
  "open_anonymous n (ops @ ops') = open_anonymous (open_anonymous n ops) ops'"
  by (induction n ops rule: open_anonymous.induct) auto

lemma snoc_eq_split:
  "ops @ [x] = us @ y # vs \<longleftrightarrow>
    vs = [] \<and> us = ops \<and> x = y \<or> (\<exists>vs'. vs = vs' @ [x] \<and> ops = us @ y # vs')"
  by (cases vs rule: rev_cases) auto

lemma open_ids_snoc:
  "j \<in> open_ids (ops @ [x]) \<longleftrightarrow> j \<noteq> [] \<and> (x = Start j \<or> x \<noteq> Finish j \<and> j \<in> open_ids ops)"
proof -
  have "(\<exists>us vs. ops @ [x] = us @ Start j # vs \<and> Finish j \<notin> set vs) \<longleftrightarrow>
      x = Start j \<or> x \<noteq> Finish j \<and> (\<exists>us vs. ops = us @ Start j # vs \<and> Finish j \<notin> set vs)"
    (is "?l \<longleftrightarrow> ?r")
  proof
    assume ?l
    then obtain us vs where "ops @ [x] = us @ Start j # vs" "Finish j \<notin> set vs" by blast
    then consider (last) "x = Start j"
      | (before) vs' where "vs = vs' @ [x]" "ops = us @ Start j # vs'" "Finish j \<notin> set vs"
      by (auto simp: snoc_eq_split)
    then show ?r
    proof cases
      case before
      then have "x \<noteq> Finish j" "Finish j \<notin> set vs'" by auto
      with before(2) show ?thesis
        by (intro disjI2 conjI exI [of _ us] exI [of _ vs'])
    qed simp
  next
    assume ?r
    then show ?l
    proof (elim disjE conjE exE)
      fix us vs assume "x \<noteq> Finish j" "ops = us @ Start j # vs" "Finish j \<notin> set vs"
      then show ?l by (intro exI [of _ us] exI [of _ "vs @ [x]"]) simp
    next
      assume "x = Start j"
      then show ?l by (intro exI [of _ ops] exI [of _ "[]"]) simp
    qed
  qed
  then show ?thesis
    by (cases "j = []") (simp_all add: open_ids_def)
qed

lemma open_ids_Start: "open_ids (ops @ [Start i]) = (if i = [] then open_ids ops else insert i (open_ids ops))"
  using open_ids_snoc [of _ ops "Start i"] by (auto simp: open_ids_def)

lemma open_ids_Finish: "open_ids (ops @ [Finish i]) = open_ids ops - {i}"
  using open_ids_snoc [of _ ops "Finish i"] by (auto simp: open_ids_def)

definition tail_inv :: "tool_op list \<Rightarrow> tail_vars \<Rightarrow> bool" where
  "tail_inv ops v \<longleftrightarrow> fst ` set (tv_unmatched v) = open_ids ops \<and> distinct (map fst (tv_unmatched v))
     \<and> length (tv_anonymous v) = open_anonymous 0 ops"

lemma tail_inv_mark [simp]: "tail_inv ops (mark k ts v) = tail_inv ops v"
  by (simp add: tail_inv_def mark_def)

lemma keys_update: "fst ` set (AList.update k v al) = insert k (fst ` set al)"
  using arg_cong [OF update_keys [of k v al], of set] by auto

lemma keys_delete: "fst ` set (AList.delete k al) = fst ` set al - {k}"
  using arg_cong [OF delete_keys [of k al], of set] by auto

lemma tail_inv_started: "tail_inv ops v \<Longrightarrow> tail_inv (ops @ [Start i]) (tool_started i ts v)"
  by (simp add: tail_inv_def tool_started_def mark_def Let_def open_ids_Start open_anonymous_append
      keys_update distinct_update)

lemma open_ids_nonempty [simp]: "[] \<notin> open_ids ops"
  by (simp add: open_ids_def)

lemma tail_inv_finished: "tail_inv ops v \<Longrightarrow> tail_inv (ops @ [Finish i]) (tool_finished i ts v)"
  by (simp add: tail_inv_def tool_finished_def mark_def open_ids_Finish open_anonymous_append
      keys_delete distinct_delete)

lemma tail_inv_item: "tail_inv ops v \<Longrightarrow> tail_inv (ops @ item_ops E item) (tail_item E role ts v item)"
  by (simp add: tail_item_def item_ops_def Let_def tail_inv_started tail_inv_finished)

lemma tail_inv_items:
  "tail_inv ops v \<Longrightarrow> tail_inv (ops @ concat (map (item_ops E) items)) (foldl (tail_item E role ts) v items)"
proof (induction items arbitrary: ops v)
  case (Cons x items)
  from Cons.IH [OF tail_inv_item [OF Cons.prems, of E x role ts]] show ?case by simp
qed simp

lemma tail_inv_calls:
  "tail_inv ops v \<Longrightarrow> tail_inv (ops @ map (\<lambda>c. Start (f c)) calls) (foldl (\<lambda>u c. tool_started (f c) ts u) v calls)"
proof (induction calls arbitrary: ops v)
  case (Cons x calls)
  from Cons.IH [OF tail_inv_started [OF Cons.prems, of "f x" ts]] show ?case by simp
qed simp

lemma tail_inv_record: "tail_inv ops v \<Longrightarrow> tail_inv (ops @ record_ops E r) (tail_record E v r)"
proof -
  assume v: "tail_inv ops v"
  let ?calls = "seq_items (dget (as_mapping (dget r ''message'')) ''tool_calls'')"
  note inv = tail_inv_items [OF v, of E "record_items E r"]
  have "tail_inv (ops @ record_ops E r)
      (case ?calls of
         None \<Rightarrow> foldl (tail_item E role ts) v (record_items E r)
       | Some calls \<Rightarrow> foldl (\<lambda>u call. tool_started (tool_identifier E call False) ts u)
           (foldl (tail_item E role ts) v (record_items E r)) (List.map_filter mapping_items calls))" for role ts
    using inv [of role ts] tail_inv_calls [OF inv [of role ts], of "\<lambda>c. tool_identifier E c False"]
    by (cases ?calls) (simp_all add: record_ops_def)
  then show ?thesis
    by (simp add: tail_record_def Let_def)
qed

text \<open>
  C31: The open tool calls of a transcript tail are counted exactly: the number is that of the
  distinct identifiers whose last start has no later end, whatever the spelling in which the
  records carry them, plus the anonymous calls that anonymous results have not consumed.
\<close>

theorem open_tools_counted:
  "ts_unmatched (tail_state E records) =
    card (open_ids (concat (map (record_ops E) records)))
    + open_anonymous 0 (concat (map (record_ops E) records))"
proof -
  have inv: "tail_inv (concat (map (record_ops E) rs)) (foldl (tail_record E) initial_vars rs)" for rs
  proof (induction rs rule: rev_induct)
    case Nil
    show ?case
      by (simp add: tail_inv_def initial_vars_def open_ids_def)
  next
    case (snoc r rs)
    from tail_inv_record [OF snoc, of E r] show ?case by simp
  qed
  let ?v = "foldl (tail_record E) initial_vars records"
  have "length (tv_unmatched ?v) = card (fst ` set (tv_unmatched ?v))"
    using inv [of records] distinct_card [of "map fst (tv_unmatched ?v)"] by (simp add: tail_inv_def)
  then show ?thesis
    using inv [of records] by (simp add: tail_state_def Let_def tail_inv_def)
qed

subsection \<open>Status and age\<close>

definition activity_rank :: "Status \<Rightarrow> nat" where
  "activity_rank st = (case st of WORKING \<Rightarrow> 2 | WAITING \<Rightarrow> 1 | IDLE \<Rightarrow> 0 | DEAD \<Rightarrow> 0)"

definition no_terminals :: "infer_env \<Rightarrow> bool" where
  "no_terminals env \<longleftrightarrow> (\<forall>r. ie_dirs env r = None)"

lemma no_terminals_inactive:
  "no_terminals env \<Longrightarrow> \<not> cursor_terminal_active E (ie_dirs env) s now home fresh troot m b"
proof -
  assume "no_terminals env"
  then have "listed (ie_dirs env) rs = []" for rs
    by (simp add: listed_def no_terminals_def)
  then show ?thesis
    by (simp add: cursor_terminal_active_def scan_roots_spec)
qed

lemma age_status_mono:
  "a \<le> b \<Longrightarrow> activity_rank (age_status en ts b) \<le> activity_rank (age_status en ts a)"
  by (auto simp: age_status_def activity_rank_def)

text \<open>
  A quiet session only ever calms down. Without a new record and without terminal evidence a
  later inference gives the same status or a less active one; and once the last activity is
  older than the idle threshold the status is idle whatever the shared project terminals show.
\<close>

theorem quiet_session_calms_down:
  assumes "ie_now env \<le> ie_now env'" and "no_terminals env" "no_terminals env'"
    and "\<And>t. ts_activity_at ts = Some t \<Longrightarrow> en_idle en < ie_now env'' - t"
    and "ts_activity_at ts = None \<Longrightarrow> en_idle en < ie_now env'' - s_updated_at s"
    and "0 \<le> en_idle en"
  shows "activity_rank (infer_from_tail E en s env' ts) \<le> activity_rank (infer_from_tail E en s env ts)
    \<and> infer_from_tail E en s env'' ts = IDLE"
proof
  let ?act = "case ts_activity_at ts of None \<Rightarrow> s_updated_at s | Some t \<Rightarrow> t"
  have "max 0 (ie_now env - ?act) \<le> max 0 (ie_now env' - ?act)"
    using assms(1) by auto
  from age_status_mono [OF this] show
    "activity_rank (infer_from_tail E en s env' ts) \<le> activity_rank (infer_from_tail E en s env ts)"
    using no_terminals_inactive assms(2,3) by (simp add: infer_from_tail_def Let_def)
  have "en_idle en < ie_now env'' - ?act"
    using assms(4,5) by (cases "ts_activity_at ts") auto
  then have "age_status en ts (max 0 (ie_now env'' - ?act)) = IDLE"
    by (simp add: age_status_def less_max_iff_disj)
  then show "infer_from_tail E en s env'' ts = IDLE"
    by (simp add: infer_from_tail_def)
qed

subsection \<open>Examples\<close>

definition ex_text_env :: text_env where
  "ex_text_env = \<lparr>te_str = (\<lambda>_. []), te_low = (\<lambda>c. [c]),
     te_clock = \<lparr>ck_float = (\<lambda>_. None), ck_iso = (\<lambda>_. None)\<rparr>, te_path = id\<rparr>"

lemma listed_empty: "listed (\<lambda>_. Some []) rs = []"
  by (simp add: listed_def)

definition ex_cursor :: Session where
  "ex_cursor = \<lparr>s_agent = py ''cursor'', s_id = py ''c1'', s_project = [],
     s_transcript = py ''/p/agent-transcripts/c1.jsonl'', s_updated_at = 100, s_title = [],
     s_status = IDLE, s_extra = [], s_parent_id = None\<rparr>"


definition ex_engine :: StateEngine where
  "ex_engine = \<lparr>en_fresh = 90, en_idle = 900, en_tail_bytes = 65536, en_tail_records = 512,
     en_terminal_fresh = 20, en_terminal_bytes = 4096, en_terminal_files = 64, en_home = [],
     en_cache = \<lparr>mc_max = 4096, mc_entries = []\<rparr>\<rparr>"

definition ex_infer :: "time \<Rightarrow> infer_env" where
  "ex_infer now = \<lparr>ie_hint = None, ie_now = now, ie_is_file = True, ie_signature = None, ie_file = None,
     ie_dirs = (\<lambda>_. None)\<rparr>"

theorem quiet_session_calms_down_witness:
  "infer_from_tail ex_text_env ex_engine ex_cursor (ex_infer 1001)
     \<lparr>ts_last_kind = UserKind, ts_activity_at = Some 100, ts_unmatched = 0\<rparr> = IDLE"
  using quiet_session_calms_down [of "ex_infer 100" "ex_infer 100"
      "\<lparr>ts_last_kind = UserKind, ts_activity_at = Some 100, ts_unmatched = 0\<rparr>" ex_engine "ex_infer 1001"
      ex_cursor ex_text_env]
  by (simp add: ex_infer_def ex_engine_def no_terminals_def)

end
