(* ===== verification/Scan.thy ===== *)
theory Scan
  imports Index State
begin

text \<open>
  Failure-isolated discovery (\<open>sidecar/scan.py\<close>): every adapter is asked for its sessions, each
  session gets its status from the state engine, the latest session per key is kept.

  \<^item> An adapter is what the scanner sees of it: its identity, name and agent names, and the course
    of \<open>discover\<close>: an exception at once, or the values the iterator yields (\<open>None\<close> for one that
    is not a \<open>Session\<close>) up to its end or an exception.
  \<^item> \<open>envs\<close> gives the environment in which a session's status is inferred.
\<close>

record exc_info =
  ex_type :: pystr
  ex_text :: pystr

record ScanError =
  se_adapter :: pystr
  se_stage :: pystr
  se_message :: pystr
  se_type :: pystr
  se_session :: "pystr option"

record scan_adapter =
  sa_identity :: nat
  sa_name :: pystr
  sa_class :: pystr
  sa_agent_names :: "pystr list"
  sa_discover :: "exc_info + Session option list \<times> exc_info option"

definition adapter_name :: "scan_adapter \<Rightarrow> pystr" where
  "adapter_name a = (if sa_name a \<noteq> [] then sa_name a else sa_class a)"

definition adapter_agent_names :: "scan_adapter \<Rightarrow> pystr list" where
  "adapter_agent_names a =
     rev (remdups (rev (filter (\<lambda>n. n \<noteq> []) (adapter_name a # sa_agent_names a))))"

fun unique_adapters :: "nat list \<Rightarrow> scan_adapter list \<Rightarrow> scan_adapter list" where
  "unique_adapters seen [] = []"
| "unique_adapters seen (a # as) =
     (if sa_identity a \<in> set seen then unique_adapters seen as
      else a # unique_adapters (sa_identity a # seen) as)"

record Scanner =
  sc_adapters :: "scan_adapter list"
  sc_engine :: StateEngine
  sc_errors :: "ScanError list"
  sc_failed :: "pystr list"

definition new_scanner :: "scan_adapter list \<Rightarrow> StateEngine \<Rightarrow> Scanner" where
  "new_scanner as en =
     \<lparr>sc_adapters = unique_adapters [] as, sc_engine = en, sc_errors = [], sc_failed = []\<rparr>"

definition scan_error :: "scan_adapter \<Rightarrow> pystr \<Rightarrow> exc_info \<Rightarrow> pystr option \<Rightarrow> ScanError" where
  "scan_error a stage e sid =
     \<lparr>se_adapter = adapter_name a, se_stage = stage,
      se_message = (if ex_text e \<noteq> [] then ex_text e else ex_type e), se_type = ex_type e,
      se_session = sid\<rparr>"

text \<open>The local variables of \<open>scan\<close> and the engine.\<close>

record scan_vars =
  sv_errors :: "ScanError list"
  sv_failed :: "pystr set"
  sv_dedup :: "(SessionKey \<times> Session) list"
  sv_engine :: StateEngine

definition discover_failed :: "scan_adapter \<Rightarrow> exc_info \<Rightarrow> scan_vars \<Rightarrow> scan_vars" where
  "discover_failed a e v =
     v\<lparr>sv_errors := sv_errors v @ [scan_error a (py ''discover'') e None],
       sv_failed := sv_failed v \<union> set (adapter_agent_names a)\<rparr>"

definition non_session :: exc_info where
  "non_session = \<lparr>ex_type = py ''TypeError'', ex_text = py ''adapter discover() yielded a non-Session value''\<rparr>"

definition loads_exc_name :: "loads_exc \<Rightarrow> pystr" where
  "loads_exc_name e = (case e of RecursionError \<Rightarrow> py ''RecursionError'' | IntDigitsValueError \<Rightarrow> py ''ValueError'')"

text \<open>\<open>sn_str\<close> is the text of an exception of the state engine, by its class name.\<close>

record scan_env =
  sn_limits :: py_limits
  sn_text :: text_env
  sn_now :: time
  sn_infer :: "Session \<Rightarrow> infer_env"
  sn_str :: "pystr \<Rightarrow> pystr"

definition state_exc :: "scan_env \<Rightarrow> pystr \<Rightarrow> exc_info" where
  "state_exc env t = \<lparr>ex_type = t, ex_text = sn_str env t\<rparr>"

definition classify :: "scan_env \<Rightarrow> scan_adapter \<Rightarrow> scan_vars \<Rightarrow> Session \<Rightarrow> Session \<times> scan_vars" where
  "classify env a v s =
     (case apply_state (sn_limits env) (sn_text env) (sv_engine v) s (sn_infer env s) of
        (r, en, errs) \<Rightarrow>
          (let v1 = v\<lparr>sv_engine := en,
                      sv_errors := sv_errors v @ map (\<lambda>(stage, t). scan_error a stage
                        (state_exc env t) (Some (s_id s))) errs\<rparr>
           in case r of
                Inr s' \<Rightarrow> (s', v1)
              | Inl e \<Rightarrow>
                  (s\<lparr>s_status := DEAD\<rparr>,
                   v1\<lparr>sv_errors := sv_errors v1
                        @ [scan_error a (py ''state'') (state_exc env (loads_exc_name e)) (Some (s_id s))]\<rparr>)))"

definition too_old :: "scan_env \<Rightarrow> time option \<Rightarrow> Session \<Rightarrow> bool" where
  "too_old env recent s \<longleftrightarrow> (case recent of None \<Rightarrow> False | Some r \<Rightarrow> r < age_seconds s (sn_now env))"

definition scan_value ::
  "scan_env \<Rightarrow> time option \<Rightarrow> scan_adapter \<Rightarrow> scan_vars \<Rightarrow> Session option \<Rightarrow> scan_vars" where
  "scan_value env recent a v item =
     (case item of
        None \<Rightarrow> discover_failed a non_session v
      | Some s \<Rightarrow>
          if too_old env recent s then v
          else
            (case classify env a v s of
               (s', v1) \<Rightarrow> v1\<lparr>sv_dedup := latest_put (sv_dedup v1) s'\<rparr>))"

definition scan_adapter_step :: "scan_env \<Rightarrow> time option \<Rightarrow> scan_vars \<Rightarrow> scan_adapter \<Rightarrow> scan_vars" where
  "scan_adapter_step env recent v a =
     (case sa_discover a of
        Inl e \<Rightarrow> discover_failed a e v
      | Inr (items, ending) \<Rightarrow>
          (let v1 = foldl (scan_value env recent a) v items in
           case ending of None \<Rightarrow> v1 | Some e \<Rightarrow> discover_failed a e v1))"

definition scan_all :: "scan_env \<Rightarrow> time option \<Rightarrow> StateEngine \<Rightarrow> scan_adapter list \<Rightarrow> scan_vars" where
  "scan_all env recent en as =
     foldl (scan_adapter_step env recent)
       \<lparr>sv_errors = [], sv_failed = {}, sv_dedup = [], sv_engine = en\<rparr> as"

text \<open>\<open>scan\<close>: \<open>None\<close> is the \<open>ValueError\<close> of contradictory or negative arguments.\<close>

definition scan ::
  "scan_env \<Rightarrow> Scanner \<Rightarrow> time option \<Rightarrow> time option \<Rightarrow> (Session list \<times> Scanner) option" where
  "scan env sc recent_seconds recent =
     (if recent \<noteq> None \<and> recent_seconds \<noteq> None then None
      else
        (let r = (if recent \<noteq> None then recent else recent_seconds) in
         if (case r of None \<Rightarrow> False | Some x \<Rightarrow> x < 0) then None
         else
           (let v = scan_all env r (sc_engine sc) (sc_adapters sc) in
            Some (sorted_sessions (map snd (sv_dedup v)),
                  sc\<lparr>sc_engine := sv_engine v, sc_errors := sv_errors v,
                     sc_failed := sorted_list_of_set (sv_failed v)\<rparr>))))"

subsection \<open>Isolation and order\<close>

lemma discover_failed_keeps [simp]:
  "sv_dedup (discover_failed a e v) = sv_dedup v" "sv_engine (discover_failed a e v) = sv_engine v"
  by (simp_all add: discover_failed_def)

text \<open>The steps use the errors and failures collected so far only to extend them.\<close>

definition same_sessions :: "scan_vars \<Rightarrow> scan_vars \<Rightarrow> bool" where
  "same_sessions v w \<longleftrightarrow> sv_dedup v = sv_dedup w \<and> sv_engine v = sv_engine w"

lemma scan_value_same:
  "same_sessions v w \<Longrightarrow> same_sessions (scan_value env recent a v x) (scan_value env recent a w x)"
  by (auto simp: same_sessions_def scan_value_def classify_def Let_def split: option.splits prod.splits sum.splits)

lemma scan_values_same:
  "same_sessions v w \<Longrightarrow>
    same_sessions (foldl (scan_value env recent a) v xs) (foldl (scan_value env recent a) w xs)"
  by (induction xs arbitrary: v w) (auto intro: scan_value_same)

lemma scan_step_same:
  "same_sessions v w \<Longrightarrow>
    same_sessions (scan_adapter_step env recent v a) (scan_adapter_step env recent w a)"
  using scan_values_same [of v w env recent a]
  by (auto simp: scan_adapter_step_def Let_def same_sessions_def split: sum.splits prod.splits option.splits)

lemma scan_steps_same:
  "same_sessions v w \<Longrightarrow>
    same_sessions (foldl (scan_adapter_step env recent) v as) (foldl (scan_adapter_step env recent) w as)"
  by (induction as arbitrary: v w) (auto intro: scan_step_same)

text \<open>
  C32: A broken adapter costs its own sessions only. If an adapter's \<open>discover\<close> raises at once,
  the scan returns exactly the sessions, in the same order and with the same statuses, that it
  would return without that adapter.
\<close>

theorem scan_isolates_broken_adapter:
  assumes "sa_discover bad = Inl e"
    and "scan env (sc\<lparr>sc_adapters := as @ bad # cs\<rparr>) rs r = Some (found, sc1)"
    and "scan env (sc\<lparr>sc_adapters := as @ cs\<rparr>) rs r = Some (expected, sc2)"
  shows "found = expected \<and> sc_engine sc1 = sc_engine sc2"
proof -
  let ?r = "if r \<noteq> None then r else rs"
  let ?v0 = "\<lparr>sv_errors = [], sv_failed = {}, sv_dedup = [], sv_engine = sc_engine sc\<rparr>"
  let ?v = "foldl (scan_adapter_step env ?r) ?v0 as"
  have "same_sessions (scan_adapter_step env ?r ?v bad) ?v"
    by (simp add: scan_adapter_step_def assms(1) same_sessions_def)
  from scan_steps_same [OF this, of env ?r cs]
  have "same_sessions (scan_all env ?r (sc_engine sc) (as @ bad # cs))
      (scan_all env ?r (sc_engine sc) (as @ cs))"
    by (simp add: scan_all_def)
  then show ?thesis
    using assms(2,3) by (auto simp: scan_def Let_def same_sessions_def split: if_splits)
qed

text \<open>The values an adapter yields before its iterator ends or raises.\<close>

definition yielded :: "scan_adapter \<Rightarrow> Session list" where
  "yielded a = (case sa_discover a of Inl _ \<Rightarrow> [] | Inr (items, _) \<Rightarrow> List.map_filter id items)"

definition same_but_status :: "Session \<Rightarrow> Session \<Rightarrow> bool" where
  "same_but_status s t \<longleftrightarrow> s\<lparr>s_status := DEAD\<rparr> = t\<lparr>s_status := DEAD\<rparr>"

lemma classify_same: "classify env a v s = (s', v1) \<Longrightarrow> same_but_status s' s \<and> sv_dedup v1 = sv_dedup v"
  by (auto simp: classify_def apply_state_def same_but_status_def Let_def split: prod.splits sum.splits)

definition taken_into :: "Session list \<Rightarrow> scan_vars \<Rightarrow> bool" where
  "taken_into ss v \<longleftrightarrow> (\<exists>ts. list_all2 same_but_status ts ss \<and> sv_dedup v = foldl latest_put [] ts)"

lemma scan_value_taken:
  assumes "taken_into ss v"
  shows "taken_into (ss @ filter (\<lambda>s. \<not> too_old env recent s) (case x of None \<Rightarrow> [] | Some s \<Rightarrow> [s]))
    (scan_value env recent a v x)"
proof (cases "\<exists>s. x = Some s \<and> \<not> too_old env recent s")
  case True
  then obtain s where s: "x = Some s" "\<not> too_old env recent s" by blast
  obtain s' v1 where c: "classify env a v s = (s', v1)" by fastforce
  obtain ts where ts: "list_all2 same_but_status ts ss" "sv_dedup v = foldl latest_put [] ts"
    using assms by (auto simp: taken_into_def)
  have "list_all2 same_but_status (ts @ [s']) (ss @ [s])"
    using ts(1) classify_same [OF c] by (simp add: list_all2_appendI)
  then show ?thesis
    using s c ts(2) classify_same [OF c] unfolding taken_into_def
    by (intro exI [of _ "ts @ [s']"]) (simp add: scan_value_def)
next
  case False
  then show ?thesis
    using assms by (auto simp: scan_value_def taken_into_def split: option.splits)
qed

lemma scan_values_taken:
  "taken_into ss v \<Longrightarrow>
    taken_into (ss @ filter (\<lambda>s. \<not> too_old env recent s) (List.map_filter id xs))
      (foldl (scan_value env recent a) v xs)"
proof (induction xs arbitrary: ss v)
  case (Cons x xs)
  have "List.map_filter id (x # xs) = (case x of None \<Rightarrow> [] | Some s \<Rightarrow> [s]) @ List.map_filter id xs"
    by (cases x) (simp_all add: List.map_filter_simps)
  then show ?case
    using Cons.IH [OF scan_value_taken [OF Cons.prems, of env recent x a]]
    by (simp only: foldl_Cons filter_append append_assoc)
qed (simp add: List.map_filter_simps)

lemma scan_steps_taken:
  "taken_into ss v \<Longrightarrow>
    taken_into (ss @ filter (\<lambda>s. \<not> too_old env recent s) (concat (map yielded as)))
      (foldl (scan_adapter_step env recent) v as)"
proof (induction as arbitrary: ss v)
  case (Cons a as)
  have "taken_into (ss @ filter (\<lambda>s. \<not> too_old env recent s) (yielded a)) (scan_adapter_step env recent v a)"
    using scan_values_taken [OF Cons.prems, of env recent _ a] Cons.prems
    by (auto simp: scan_adapter_step_def yielded_def Let_def taken_into_def split: sum.splits option.splits)
  from Cons.IH [OF this] show ?case by simp
qed simp

lemma same_but_status_fields:
  "same_but_status s t \<Longrightarrow> session_key s = session_key t \<and> s_updated_at s = s_updated_at t
    \<and> order_key s = order_key t"
  by (cases s; cases t) (simp add: same_but_status_def session_key_def order_key_def)

lemma list_all2_memD1: "list_all2 P xs ys \<Longrightarrow> x \<in> set xs \<Longrightarrow> \<exists>y \<in> set ys. P x y"
  by (induction rule: list_all2_induct) auto

lemma list_all2_memD2: "list_all2 P xs ys \<Longrightarrow> y \<in> set ys \<Longrightarrow> \<exists>x \<in> set xs. P x y"
  by (induction rule: list_all2_induct) auto

text \<open>What the dictionary of the latest sessions becomes after sorting its values.\<close>

definition latest_listing :: "Session list \<Rightarrow> Session list" where
  "latest_listing ts = sorted_sessions (map snd (foldl latest_put [] ts))"

lemma latest_dict:
  shows "distinct (map fst (foldl latest_put [] ts))"
    and "fst ` set (foldl latest_put [] ts) = session_key ` set ts"
    and "e \<in> set (foldl latest_put [] ts) \<Longrightarrow> latest.newest_in ts (fst e) (snd e)"
proof -
  note fold = latest.fold_latest [of ts]
  show d: "distinct (map fst (foldl latest_put [] ts))"
    and "fst ` set (foldl latest_put [] ts) = session_key ` set ts"
    using fold by (simp_all add: dom_map_of_conv_image_fst)
  assume "e \<in> set (foldl latest_put [] ts)"
  then have "map_of (foldl latest_put [] ts) (fst e) = Some (snd e)"
    using d by simp
  then show "latest.newest_in ts (fst e) (snd e)"
    using fold by blast
qed

lemma latest_listing_newest:
  "s \<in> set (latest_listing ts) \<Longrightarrow> latest.newest_in ts (session_key s) s"
proof -
  assume "s \<in> set (latest_listing ts)"
  then obtain e where e: "e \<in> set (foldl latest_put [] ts)" "s = snd e"
    by (auto simp: latest_listing_def sorted_sessions_def)
  then show ?thesis
    using latest_dict(3) [OF e(1)] latest.newest_in_mem by metis
qed

lemma latest_listing_keys:
  "mset (map session_key (latest_listing ts)) = mset (map fst (foldl latest_put [] ts))"
proof -
  have "map session_key (map snd (foldl latest_put [] ts)) = map fst (foldl latest_put [] ts)"
    using latest_dict(3) latest.newest_in_mem by fastforce
  then show ?thesis
    by (metis latest_listing_def mset_map mset_sort sorted_sessions_def)
qed

lemma latest_listing_distinct: "distinct (map session_key (latest_listing ts))"
  using latest_dict(1) latest_listing_keys mset_eq_imp_distinct_iff by blast

lemma latest_listing_set: "session_key ` set (latest_listing ts) = session_key ` set ts"
  using mset_eq_setD [OF latest_listing_keys [of ts]] by (simp add: latest_dict(2))

lemma latest_listing_sorted: "sorted_wrt (\<lambda>s t. order_key s < order_key t) (latest_listing ts)"
proof -
  have "distinct (map order_key (latest_listing ts))"
    using latest_listing_distinct [of ts]
    by (auto simp: distinct_map inj_on_def order_key_def session_key_def)
  moreover have "sorted (map order_key (latest_listing ts))"
    by (simp add: latest_listing_def sorted_sessions_def)
  ultimately have "sorted_wrt (<) (map order_key (latest_listing ts))"
    by (simp only: strict_sorted_iff)
  then show ?thesis
    by (simp only: sorted_wrt_map)
qed

lemma scan_listing:
  assumes "scan env sc rs r = Some (found, sc')"
  obtains ts where
    "list_all2 same_but_status ts (filter (\<lambda>s. \<not> too_old env (if r \<noteq> None then r else rs) s)
       (concat (map yielded (sc_adapters sc))))"
    and "found = latest_listing ts"
proof -
  define rr where "rr = (if r \<noteq> None then r else rs)"
  let ?v0 = "\<lparr>sv_errors = [], sv_failed = {}, sv_dedup = [], sv_engine = sc_engine sc\<rparr>"
  have "taken_into [] ?v0"
    by (simp add: taken_into_def)
  from scan_steps_taken [OF this, of env rr "sc_adapters sc"] obtain ts where
    ts: "list_all2 same_but_status ts (filter (\<lambda>s. \<not> too_old env rr s) (concat (map yielded (sc_adapters sc))))"
      "sv_dedup (scan_all env rr (sc_engine sc) (sc_adapters sc)) = foldl latest_put [] ts"
    by (auto simp: taken_into_def scan_all_def)
  moreover have "found = sorted_sessions (map snd (sv_dedup (scan_all env rr (sc_engine sc) (sc_adapters sc))))"
    using assms by (auto simp: scan_def Let_def rr_def split: if_splits)
  ultimately have "found = latest_listing ts"
    by (simp add: latest_listing_def)
  with ts(1) show thesis
    using that unfolding rr_def by blast
qed

text \<open>
  C18: A scan reports every recent session once, the latest version of it, newest first. Whatever
  the adapters raise or yield, the keys of the result are exactly those of the yielded sessions
  that are recent enough, no key occurs twice, no yielded session with the same key is newer
  than the reported one, and the result is strictly ordered by age, agent and session id.
\<close>

theorem scan_reports_latest:
  assumes "scan env sc rs r = Some (found, sc')"
  defines "ys \<equiv> filter (\<lambda>s. \<not> too_old env (if r \<noteq> None then r else rs) s) (concat (map yielded (sc_adapters sc)))"
  shows "session_key ` set found = session_key ` set ys
    \<and> sorted_wrt (\<lambda>s t. order_key s < order_key t) found \<and> distinct (map session_key found)
    \<and> (\<forall>s \<in> set found. \<exists>y \<in> set ys. same_but_status s y
         \<and> (\<forall>z \<in> set ys. session_key z = session_key s \<longrightarrow> s_updated_at z \<le> s_updated_at s))"
proof -
  from assms(1) obtain ts where ts: "list_all2 same_but_status ts ys" and found: "found = latest_listing ts"
    unfolding ys_def by (rule scan_listing)
  have "map session_key ts = map session_key ys"
    using ts by (induction rule: list_all2_induct) (auto dest: same_but_status_fields)
  then have keys: "session_key ` set ts = session_key ` set ys"
    by (metis list.set_map)
  have "\<exists>y \<in> set ys. same_but_status s y
      \<and> (\<forall>z \<in> set ys. session_key z = session_key s \<longrightarrow> s_updated_at z \<le> s_updated_at s)"
    if s: "s \<in> set found" for s
  proof -
    note new = latest_listing_newest [OF s [unfolded found]]
    then have "s \<in> set ts"
      using latest.newest_in_mem by blast
    then obtain y where y: "y \<in> set ys" "same_but_status s y"
      using list_all2_memD1 [OF ts] by blast
    have "s_updated_at z \<le> s_updated_at s" if z: "z \<in> set ys" "session_key z = session_key s" for z
    proof -
      obtain t where t: "t \<in> set ts" "same_but_status t z"
        using list_all2_memD2 [OF ts z(1)] by blast
      show ?thesis
        using latest.newest_in_bound [OF new t(1)] same_but_status_fields [OF t(2)] z(2) by simp
    qed
    with y show ?thesis by blast
  qed
  then show ?thesis
    by (simp add: found keys latest_listing_set latest_listing_sorted latest_listing_distinct)
qed

subsection \<open>Examples\<close>

definition ex_scan_env :: scan_env where
  "ex_scan_env = \<lparr>sn_limits = \<lparr>py_recursion = 1000, py_int_digits = 4300\<rparr>, sn_text = ex_text_env, sn_now = 200,
     sn_infer = (\<lambda>_. ex_infer 200), sn_str = id\<rparr>"

definition ex_adapter :: "nat \<Rightarrow> exc_info + Session option list \<times> exc_info option \<Rightarrow> scan_adapter" where
  "ex_adapter i d = \<lparr>sa_identity = i, sa_name = py ''cursor'', sa_class = py ''CursorAdapter'',
     sa_agent_names = [], sa_discover = d\<rparr>"

definition ex_scanner :: "scan_adapter list \<Rightarrow> Scanner" where
  "ex_scanner as = \<lparr>sc_adapters = as, sc_engine = ex_engine, sc_errors = [], sc_failed = []\<rparr>"

theorem scan_isolates_broken_adapter_witness:
  "map_option fst (scan ex_scan_env (ex_scanner [ex_adapter 1 (Inl non_session),
        ex_adapter 2 (Inr ([Some ex_cursor, None], None))]) None None)
   = map_option fst (scan ex_scan_env (ex_scanner [ex_adapter 2 (Inr ([Some ex_cursor, None], None))]) None None)"
proof -
  let ?good = "ex_adapter 2 (Inr ([Some ex_cursor, None], None))"
  let ?bad = "ex_adapter 1 (Inl non_session)"
  obtain found sc1 where
    w: "scan ex_scan_env ((ex_scanner [])\<lparr>sc_adapters := [] @ ?bad # [?good]\<rparr>) None None = Some (found, sc1)"
    by (simp add: scan_def Let_def)
  obtain expected sc2 where
    g: "scan ex_scan_env ((ex_scanner [])\<lparr>sc_adapters := [] @ [?good]\<rparr>) None None = Some (expected, sc2)"
    by (simp add: scan_def Let_def)
  have "sa_discover ?bad = Inl non_session" by (simp add: ex_adapter_def)
  from scan_isolates_broken_adapter [OF this w g] w g show ?thesis
    by (simp add: ex_scanner_def)
qed

theorem scan_reports_latest_witness:
  "\<exists>found sc'. scan ex_scan_env (ex_scanner [ex_adapter 2 (Inr ([Some ex_cursor, None], None))]) None None
      = Some (found, sc') \<and> session_key ` set found = {session_key ex_cursor}"
proof -
  obtain found sc' where
    w: "scan ex_scan_env (ex_scanner [ex_adapter 2 (Inr ([Some ex_cursor, None], None))]) None None = Some (found, sc')"
    by (simp add: scan_def Let_def)
  with scan_reports_latest [OF w] show ?thesis
    by (simp add: ex_scanner_def ex_adapter_def yielded_def too_old_def List.map_filter_simps)
qed

end
