(* ===== verification/Tailer_Pool.thy ===== *)
theory Tailer_Pool
  imports Index State "HOL-Library.AList"
begin

text \<open>
  The tailer pool (\<open>sidecar/tailer_pool.py\<close>): one tailer per recent session, checkpoints for the
  sessions that aged out, a bounded list of diagnostics, bounded polling.

  \<^item> A tailer is an object the pool calls through its methods, a record of functions
    (\<open>tailer_ops\<close>) on a value that holds everything its answers depend on. A method that raises
    answers with the class name of the exception.
  \<^item> \<open>tp_trace\<close> records what the pool did to the outside: tailers created and closed, events
    published. The publisher does not raise.
  \<^item> Python iterates over the set \<open>removed\<close> in an order of its own: \<open>px_order\<close>.
  \<^item> The pool's lock is held during each operation, so the operations do not interleave.
\<close>

datatype diag = Raised pystr | DiagText pystr

datatype make_exc = Expected pystr | Unexpected pystr

datatype param_kind = POSITIONAL_ONLY | POSITIONAL_OR_KEYWORD | VAR_POSITIONAL | KEYWORD_ONLY | VAR_KEYWORD

record 't tailer_factory =
  fa_parameters :: "(param_kind \<times> pystr) list option"
  fa_keyword :: "Session \<Rightarrow> bool \<Rightarrow> make_exc + 't"
  fa_positional :: "Session \<Rightarrow> make_exc + 't"

record ('t, 'e) tailer_ops =
  to_errors :: "'t \<Rightarrow> diag list option"
  to_clear :: "'t \<Rightarrow> 't"
  to_close :: "'t \<Rightarrow> 't"
  to_export :: "'t \<Rightarrow> (pystr + pyval) option"
  to_restore :: "'t \<Rightarrow> pydict \<Rightarrow> (pystr option \<times> 't) option"
  to_single :: "'t \<Rightarrow> bool option"
  to_poll :: "'t \<Rightarrow> (pystr + 'e option list) \<times> 't"
  to_pending :: "'t \<Rightarrow> bool option"
  to_follower :: "'t \<Rightarrow> (pystr \<times> int) option"
  to_set_session :: "'t \<Rightarrow> Session \<Rightarrow> 't"

record 't pool_env =
  px_new :: "Session \<Rightarrow> bool \<Rightarrow> pydict option \<Rightarrow> make_exc + 't"
  px_is_file :: "pystr \<Rightarrow> bool"
  px_size :: "pystr \<Rightarrow> int option"
  px_low :: "nat \<Rightarrow> pystr"
  px_order :: "SessionKey set \<Rightarrow> SessionKey list"

datatype 'e pool_effect = Opened SessionKey | Released SessionKey | Published 'e

type_synonym tail_error = "pystr \<times> pystr \<times> pystr"

record ('t, 'e) TailerPool =
  tp_recent :: time
  tp_max_polls :: int
  tp_factory :: "'t tailer_factory option"
  tp_known :: "SessionKey set"
  tp_tailers :: "(SessionKey \<times> 't) list"
  tp_paths :: "SessionKey \<rightharpoonup> pystr"
  tp_checkpoints :: "SessionKey \<rightharpoonup> pystr \<times> pydict"
  tp_pending :: "SessionKey set"
  tp_errors :: "tail_error list"
  tp_error_keys :: "tail_error set"
  tp_closed :: bool
  tp_trace :: "'e pool_effect list"

definition MAX_TAIL_ERRORS :: nat where
  "MAX_TAIL_ERRORS = 128"

definition MAX_TAIL_ERROR_AGENT_LENGTH :: nat where
  "MAX_TAIL_ERROR_AGENT_LENGTH = 64"

definition MAX_TAIL_ERROR_SESSION_ID_LENGTH :: nat where
  "MAX_TAIL_ERROR_SESSION_ID_LENGTH = 256"

definition MAX_TAIL_ERROR_CODE_LENGTH :: nat where
  "MAX_TAIL_ERROR_CODE_LENGTH = 128"

text \<open>The constructor; \<open>None\<close> is its \<open>ValueError\<close>.\<close>

definition new_pool :: "time \<Rightarrow> int \<Rightarrow> 't tailer_factory option \<Rightarrow> ('t, 'e) TailerPool option" where
  "new_pool recent polls fac =
     (if recent < 0 \<or> polls \<le> 0 then None
      else Some \<lparr>tp_recent = recent, tp_max_polls = polls, tp_factory = fac, tp_known = {},
        tp_tailers = [], tp_paths = Map.empty, tp_checkpoints = Map.empty, tp_pending = {},
        tp_errors = [], tp_error_keys = {}, tp_closed = False, tp_trace = []\<rparr>)"

subsection \<open>Diagnostics\<close>

definition printable :: "nat \<Rightarrow> bool" where
  "printable c \<longleftrightarrow> 0x20 \<le> c \<and> c \<noteq> 0x7F \<and> \<not> (0xD800 \<le> c \<and> c \<le> 0xDFFF)"

definition bounded_identifier :: "pystr \<Rightarrow> nat \<Rightarrow> pystr" where
  "bounded_identifier v n =
     (let safe = take n (filter printable v) in if safe \<noteq> [] then safe else py ''unknown'')"

definition is_code_start :: "nat \<Rightarrow> bool" where
  "is_code_start c \<longleftrightarrow> 65 \<le> c \<and> c \<le> 90 \<or> 97 \<le> c \<and> c \<le> 122 \<or> c = 95"

definition is_code_char :: "nat \<Rightarrow> bool" where
  "is_code_char c \<longleftrightarrow> is_code_start c \<or> 48 \<le> c \<and> c \<le> 57 \<or> c = 46"

text \<open>\<open>_TAIL_ERROR_CODE.fullmatch\<close>: the suffix decides how the rest is split.\<close>

definition is_error_code :: "pystr \<Rightarrow> bool" where
  "is_error_code s \<longleftrightarrow>
     list_ex (\<lambda>suffix. ends_with s suffix
         \<and> (let stem = take (length s - length suffix) s
            in stem \<noteq> [] \<and> is_code_start (hd stem) \<and> list_all is_code_char (tl stem)))
       [py ''Error'', py ''Exception'', py ''Warning'']"

definition TAIL_ERROR_FALLBACK_CODE :: pystr where
  "TAIL_ERROR_FALLBACK_CODE = py ''tail_error''"

definition safe_error_code :: "diag \<Rightarrow> pystr" where
  "safe_error_code d =
     (let candidate = take MAX_TAIL_ERROR_CODE_LENGTH
            (case d of Raised cls \<Rightarrow> cls | DiagText t \<Rightarrow> strip (fst (partition_at 58 t)))
      in if is_error_code candidate then candidate else TAIL_ERROR_FALLBACK_CODE)"

definition error_entry :: "SessionKey \<Rightarrow> diag \<Rightarrow> tail_error" where
  "error_entry k d =
     (bounded_identifier (fst k) MAX_TAIL_ERROR_AGENT_LENGTH,
      bounded_identifier (snd k) MAX_TAIL_ERROR_SESSION_ID_LENGTH, safe_error_code d)"

definition record_tail_error :: "SessionKey \<Rightarrow> diag \<Rightarrow> ('t, 'e) TailerPool \<Rightarrow> ('t, 'e) TailerPool" where
  "record_tail_error k d p =
     (let e = error_entry k d in
      if e \<in> tp_error_keys p then p
      else
        (let p1 = (if MAX_TAIL_ERRORS \<le> length (tp_errors p)
                   then p\<lparr>tp_errors := tl (tp_errors p),
                          tp_error_keys := tp_error_keys p - {hd (tp_errors p)}\<rparr>
                   else p)
         in p1\<lparr>tp_errors := tp_errors p1 @ [e], tp_error_keys := insert e (tp_error_keys p1)\<rparr>))"

definition record_all :: "SessionKey \<Rightarrow> diag list \<Rightarrow> ('t, 'e) TailerPool \<Rightarrow> ('t, 'e) TailerPool" where
  "record_all k ds p = foldl (\<lambda>q d. record_tail_error k d q) p ds"

definition consume_tailer_errors ::
  "('t, 'e) tailer_ops \<Rightarrow> SessionKey \<Rightarrow> 't \<Rightarrow> ('t, 'e) TailerPool \<Rightarrow> 't \<times> ('t, 'e) TailerPool" where
  "consume_tailer_errors ops k t p =
     (case to_errors ops t of None \<Rightarrow> (t, p) | Some ds \<Rightarrow> (to_clear ops t, record_all k ds p))"

definition close_tailer ::
  "('t, 'e) tailer_ops \<Rightarrow> SessionKey \<Rightarrow> 't \<Rightarrow> ('t, 'e) TailerPool \<Rightarrow> ('t, 'e) TailerPool" where
  "close_tailer ops k t p =
     (let (t1, p1) = consume_tailer_errors ops k t p;
          p2 = p1\<lparr>tp_trace := tp_trace p1 @ [Released k]\<rparr>
      in snd (consume_tailer_errors ops k (to_close ops t1) p2))"

subsection \<open>Clearing\<close>

definition no_errors :: "('t, 'e) TailerPool \<Rightarrow> ('t, 'e) TailerPool" where
  "no_errors p = p\<lparr>tp_errors := [], tp_error_keys := {}\<rparr>"

definition clear_pool :: "('t, 'e) tailer_ops \<Rightarrow> ('t, 'e) TailerPool \<Rightarrow> ('t, 'e) TailerPool" where
  "clear_pool ops p =
     no_errors
       (foldl (\<lambda>q (k, t). close_tailer ops k t q)
          (no_errors (p\<lparr>tp_known := {}, tp_tailers := [], tp_paths := Map.empty,
             tp_checkpoints := Map.empty, tp_pending := {}\<rparr>))
          (tp_tailers p))"

definition reset_pool :: "('t, 'e) tailer_ops \<Rightarrow> ('t, 'e) TailerPool \<Rightarrow> ('t, 'e) TailerPool" where
  "reset_pool ops p = (clear_pool ops (p\<lparr>tp_closed := True\<rparr>))\<lparr>tp_closed := False\<rparr>"

definition close_pool :: "('t, 'e) tailer_ops \<Rightarrow> ('t, 'e) TailerPool \<Rightarrow> ('t, 'e) TailerPool" where
  "close_pool ops p = (if tp_closed p then p else clear_pool ops (p\<lparr>tp_closed := True\<rparr>))"

subsection \<open>Policy\<close>

text \<open>\<open>Path(p).suffix\<close>: the name's last dot and what follows, unless the dot is first or last.\<close>

definition path_name :: "pystr \<Rightarrow> pystr" where
  "path_name p =
     (let parts = filter (\<lambda>s. s \<noteq> [] \<and> s \<noteq> [46]) (path_parts [] p)
      in if parts = [] then [] else last parts)"

definition path_suffix :: "pystr \<Rightarrow> pystr" where
  "path_suffix p =
     (let name = path_name p;
          ext = rev (takeWhile (\<lambda>c. c \<noteq> 46) (rev name))
      in if 46 \<in> set name \<and> ext \<noteq> [] \<and> length ext + 1 < length name then 46 # ext else [])"

definition supports_tailing :: "'t pool_env \<Rightarrow> Session \<Rightarrow> bool" where
  "supports_tailing env s =
     (if s_transcript s = [] then False
      else
        (let suffix = lower (px_low env) (path_suffix (s_transcript s)) in
         if dget (s_extra s) ''transcript_kind'' = pstr ''cursor-chat-sqlite''
         then suffix \<in> {py ''.db'', py ''.sqlite'', py ''.sqlite3''}
         else if s_agent s = py ''dsh'' then True
         else suffix = py ''.jsonl''))"

definition should_tail :: "'t pool_env \<Rightarrow> time \<Rightarrow> time \<Rightarrow> Session \<Rightarrow> bool" where
  "should_tail env recent now s =
     (if \<not> supports_tailing env s then False
      else if s_status s \<in> {WORKING, WAITING} then True
      else age_seconds s now \<le> recent)"

subsection \<open>Lifecycle\<close>

definition drop_tailer ::
  "('t, 'e) tailer_ops \<Rightarrow> bool \<Rightarrow> SessionKey \<Rightarrow> ('t, 'e) TailerPool \<Rightarrow> bool \<times> ('t, 'e) TailerPool" where
  "drop_tailer ops retain k p =
     (let existed = (map_of (tp_tailers p) k \<noteq> None \<or> tp_paths p k \<noteq> None
            \<or> tp_checkpoints p k \<noteq> None \<or> k \<in> tp_pending p);
          tailer = map_of (tp_tailers p) k;
          (tailer1, p1) =
            (case tailer of
               Some t \<Rightarrow>
                 if retain then
                   (let (t1, q) = consume_tailer_errors ops k t p;
                        q1 = q\<lparr>tp_checkpoints := (tp_checkpoints q)(k := None)\<rparr>
                    in (Some t1,
                        case to_export ops t1 of
                          None \<Rightarrow> q1
                        | Some (Inl cls) \<Rightarrow> record_tail_error k (Raised cls) q1
                        | Some (Inr v) \<Rightarrow>
                            (case (tp_paths q1 k, mapping_items v) of
                               (Some path, Some cp) \<Rightarrow>
                                 q1\<lparr>tp_checkpoints := (tp_checkpoints q1)(k \<mapsto> (path, cp))\<rparr>
                             | _ \<Rightarrow> q1)))
                 else (tailer, p\<lparr>tp_checkpoints := (tp_checkpoints p)(k := None)\<rparr>)
             | None \<Rightarrow>
                 (tailer, if retain then p else p\<lparr>tp_checkpoints := (tp_checkpoints p)(k := None)\<rparr>));
          p2 = p1\<lparr>tp_tailers := AList.delete k (tp_tailers p1), tp_paths := (tp_paths p1)(k := None),
                  tp_pending := tp_pending p1 - {k}\<rparr>
      in (existed, case tailer1 of None \<Rightarrow> p2 | Some t \<Rightarrow> close_tailer ops k t p2))"

definition accepts_from_start :: "param_kind \<times> pystr \<Rightarrow> bool" where
  "accepts_from_start q \<longleftrightarrow> fst q = VAR_KEYWORD
     \<or> snd q = py ''from_start'' \<and> fst q \<in> {POSITIONAL_OR_KEYWORD, KEYWORD_ONLY}"

definition make_tailer ::
  "'t pool_env \<Rightarrow> 't tailer_factory option \<Rightarrow> Session \<Rightarrow> bool \<Rightarrow> make_exc + 't" where
  "make_tailer env fac s from_start =
     (case fac of
        None \<Rightarrow> px_new env s from_start None
      | Some f \<Rightarrow>
          (case fa_parameters f of
             None \<Rightarrow> fa_keyword f s from_start
           | Some ps \<Rightarrow>
               if list_ex accepts_from_start ps then fa_keyword f s from_start else fa_positional f s))"

definition make_resumable_tailer ::
  "'t pool_env \<Rightarrow> 't tailer_factory option \<Rightarrow> Session \<Rightarrow> bool \<Rightarrow> pydict option \<Rightarrow> make_exc + 't \<times> bool" where
  "make_resumable_tailer env fac s from_start cp =
     (if Option.is_none fac \<and> cp \<noteq> None
         \<and> dget (s_extra s) ''transcript_kind'' = pstr ''cursor-chat-sqlite''
      then (case px_new env s from_start cp of Inl e \<Rightarrow> Inl e | Inr t \<Rightarrow> Inr (t, True))
      else (case make_tailer env fac s from_start of Inl e \<Rightarrow> Inl e | Inr t \<Rightarrow> Inr (t, False)))"

definition exc_class :: "make_exc \<Rightarrow> pystr" where
  "exc_class e = (case e of Expected c \<Rightarrow> c | Unexpected c \<Rightarrow> c)"

text \<open>The guards of \<open>_capture_initial_checkpoint\<close>.\<close>

definition can_capture :: "'t pool_env \<Rightarrow> Session \<Rightarrow> bool" where
  "can_capture env s \<longleftrightarrow> supports_tailing env s
     \<and> (if s_agent s = py ''dsh'' then strict_int (dget (s_extra s) ''seq'') \<noteq> None
        else px_is_file env (s_transcript s))"

definition capture_initial_checkpoint ::
  "('t, 'e) tailer_ops \<Rightarrow> 't pool_env \<Rightarrow> SessionKey \<Rightarrow> Session \<Rightarrow> ('t, 'e) TailerPool \<Rightarrow> ('t, 'e) TailerPool" where
  "capture_initial_checkpoint ops env k s p =
     (let p0 = p\<lparr>tp_checkpoints := (tp_checkpoints p)(k := None)\<rparr> in
      if \<not> can_capture env s then p0
      else
        (case make_tailer env (tp_factory p0) s False of
           Inl e \<Rightarrow> record_tail_error k (Raised (exc_class e)) p0
         | Inr t \<Rightarrow>
             (let (t1, p1) = consume_tailer_errors ops k t (p0\<lparr>tp_trace := tp_trace p0 @ [Opened k]\<rparr>) in
              case to_export ops t1 of
                None \<Rightarrow> close_tailer ops k t1 p1
              | Some (Inl cls) \<Rightarrow> close_tailer ops k t1 (record_tail_error k (Raised cls) p1)
              | Some (Inr v) \<Rightarrow>
                  (let p2 = close_tailer ops k t1 p1 in
                   case mapping_items v of
                     None \<Rightarrow> p2
                   | Some cp \<Rightarrow>
                       p2\<lparr>tp_checkpoints := (tp_checkpoints p2)(k \<mapsto> (s_transcript s, cp))\<rparr>))))"

subsection \<open>Polling\<close>

definition has_unread_data :: "('t, 'e) tailer_ops \<Rightarrow> 't pool_env \<Rightarrow> 't \<Rightarrow> bool" where
  "has_unread_data ops env t =
     (if to_pending ops t = Some True then True
      else
        (case to_follower ops t of
           None \<Rightarrow> False
         | Some (path, off) \<Rightarrow> (case px_size env path of None \<Rightarrow> False | Some n \<Rightarrow> off < n)))"

definition publish_events :: "'e option list \<Rightarrow> ('t, 'e) TailerPool \<Rightarrow> ('t, 'e) TailerPool" where
  "publish_events xs p = p\<lparr>tp_trace := tp_trace p @ map Published (List.map_filter id xs)\<rparr>"

fun poll_loop ::
  "('t, 'e) tailer_ops \<Rightarrow> 't pool_env \<Rightarrow> SessionKey \<Rightarrow> bool \<Rightarrow> nat \<Rightarrow> 't \<Rightarrow> ('t, 'e) TailerPool
   \<Rightarrow> bool \<times> 't \<times> ('t, 'e) TailerPool" where
  "poll_loop ops env k single 0 t p = (True, t, p)"
| "poll_loop ops env k single (Suc n) t p =
     (case to_poll ops t of
        (Inl cls, t1) \<Rightarrow>
          (False, consume_tailer_errors ops k t1 (record_tail_error k (Raised cls) p))
      | (Inr items, t1) \<Rightarrow>
          (let (t2, p2) = consume_tailer_errors ops k t1 p;
               p3 = publish_events items p2;
               emitted = list_ex (\<lambda>x. x \<noteq> None) items
           in if single then (has_unread_data ops env t2, t2, p3)
              else if \<not> emitted \<and> \<not> has_unread_data ops env t2 then (False, t2, p3)
              else poll_loop ops env k single n t2 p3))"

definition pool_poll ::
  "('t, 'e) tailer_ops \<Rightarrow> 't pool_env \<Rightarrow> SessionKey \<Rightarrow> 't \<Rightarrow> ('t, 'e) TailerPool \<Rightarrow> bool \<times> ('t, 'e) TailerPool" where
  "pool_poll ops env k t p =
     (let single = (to_single ops t = Some True);
          (unread, t1, p1) =
            poll_loop ops env k single (if single then 1 else nat (tp_max_polls p)) t p
      in (unread, p1\<lparr>tp_tailers := AList.update k t1 (tp_tailers p1)\<rparr>))"

definition poll_and_mark ::
  "('t, 'e) tailer_ops \<Rightarrow> 't pool_env \<Rightarrow> SessionKey \<Rightarrow> 't \<Rightarrow> ('t, 'e) TailerPool \<Rightarrow> ('t, 'e) TailerPool" where
  "poll_and_mark ops env k t p =
     (let (unread, p1) = pool_poll ops env k t p
      in if unread then p1\<lparr>tp_pending := insert k (tp_pending p1)\<rparr>
         else p1\<lparr>tp_pending := tp_pending p1 - {k}\<rparr>)"

subsection \<open>Refreshing\<close>

text \<open>The checkpoint of the session's own transcript; one of another transcript is dropped.\<close>

definition saved_checkpoint ::
  "SessionKey \<Rightarrow> Session \<Rightarrow> ('t, 'e) TailerPool \<Rightarrow> pydict option \<times> ('t, 'e) TailerPool" where
  "saved_checkpoint k s p =
     (case tp_checkpoints p k of
        None \<Rightarrow> (None, p)
      | Some (path, cp) \<Rightarrow>
          if path = s_transcript s then (Some cp, p)
          else (None, p\<lparr>tp_checkpoints := (tp_checkpoints p)(k := None)\<rparr>))"

definition restore_tailer ::
  "('t, 'e) tailer_ops \<Rightarrow> SessionKey \<Rightarrow> pydict option \<Rightarrow> bool \<Rightarrow> 't \<Rightarrow> ('t, 'e) TailerPool
   \<Rightarrow> 't \<times> ('t, 'e) TailerPool" where
  "restore_tailer ops k checkpoint consumed t p =
     (case checkpoint of
        None \<Rightarrow> (t, p)
      | Some cp \<Rightarrow>
          if consumed then (t, p)
          else (case to_restore ops t cp of
                  None \<Rightarrow> (t, p)
                | Some (None, t') \<Rightarrow> (t', p)
                | Some (Some cls, t') \<Rightarrow> (t', record_tail_error k (Raised cls) p)))"

definition own_tailer :: "SessionKey \<Rightarrow> Session \<Rightarrow> 't \<Rightarrow> ('t, 'e) TailerPool \<Rightarrow> ('t, 'e) TailerPool" where
  "own_tailer k s t p =
     p\<lparr>tp_checkpoints := (tp_checkpoints p)(k := None),
       tp_tailers := AList.update k t (tp_tailers p),
       tp_paths := (tp_paths p)(k \<mapsto> s_transcript s)\<rparr>"

text \<open>
  Creating the tailer of an active session that has none. The left result is the class of an
  exception that \<open>_update\<close> does not catch.
\<close>

definition open_tailer ::
  "('t, 'e) tailer_ops \<Rightarrow> 't pool_env \<Rightarrow> SessionKey \<Rightarrow> Session \<Rightarrow> bool \<Rightarrow> ('t, 'e) TailerPool
   \<Rightarrow> (pystr + 't option) \<times> ('t, 'e) TailerPool" where
  "open_tailer ops env k s from_start p =
     (let (checkpoint, p0) = saved_checkpoint k s p
      in case make_resumable_tailer env (tp_factory p0) s from_start checkpoint of
           Inl (Expected cls) \<Rightarrow> (Inr None, record_tail_error k (Raised cls) p0)
         | Inl (Unexpected cls) \<Rightarrow> (Inl cls, p0)
         | Inr (t, consumed) \<Rightarrow>
             (let (t1, p1) = consume_tailer_errors ops k t (p0\<lparr>tp_trace := tp_trace p0 @ [Opened k]\<rparr>);
                  (t2, p2) = restore_tailer ops k checkpoint consumed t1 p1
              in (Inr (Some t2), own_tailer k s t2 p2)))"

text \<open>The steps of \<open>_update\<close> for an active session: a tailer of another transcript is dropped, the
  session's tailer is created or told about the new session object, and it is polled.\<close>

definition drop_moved ::
  "('t, 'e) tailer_ops \<Rightarrow> SessionKey \<Rightarrow> Session \<Rightarrow> ('t, 'e) TailerPool \<Rightarrow> ('t, 'e) TailerPool" where
  "drop_moved ops k s p =
     (if map_of (tp_tailers p) k \<noteq> None \<and> tp_paths p k \<noteq> Some (s_transcript s)
      then snd (drop_tailer ops False k p) else p)"

definition renew_tailer ::
  "('t, 'e) tailer_ops \<Rightarrow> 't pool_env \<Rightarrow> SessionKey \<Rightarrow> Session \<Rightarrow> bool \<Rightarrow> ('t, 'e) TailerPool
   \<Rightarrow> (pystr + 't option) \<times> ('t, 'e) TailerPool" where
  "renew_tailer ops env k s from_start p =
     (case map_of (tp_tailers p) k of
        None \<Rightarrow> open_tailer ops env k s from_start p
      | Some t \<Rightarrow>
          (let t1 = to_set_session ops t s
           in (Inr (Some t1), p\<lparr>tp_tailers := AList.update k t1 (tp_tailers p)\<rparr>)))"

definition update_session ::
  "('t, 'e) tailer_ops \<Rightarrow> 't pool_env \<Rightarrow> time \<Rightarrow> bool \<Rightarrow> bool \<Rightarrow> SessionKey \<Rightarrow> Session \<Rightarrow> ('t, 'e) TailerPool
   \<Rightarrow> pystr option \<times> ('t, 'e) TailerPool" where
  "update_session ops env now initial new_session k s p =
     (if \<not> should_tail env (tp_recent p) now s then
        (None, if initial then capture_initial_checkpoint ops env k s p
               else snd (drop_tailer ops True k p))
      else
        (case renew_tailer ops env k s (new_session \<and> \<not> initial) (drop_moved ops k s p) of
           (Inl cls, q) \<Rightarrow> (Some cls, q)
         | (Inr None, q) \<Rightarrow> (None, q)
         | (Inr (Some t), q) \<Rightarrow> (None, if initial then q else poll_and_mark ops env k t q)))"

fun update_all ::
  "('t, 'e) tailer_ops \<Rightarrow> 't pool_env \<Rightarrow> time \<Rightarrow> bool \<Rightarrow> SessionKey set \<Rightarrow> (SessionKey \<rightharpoonup> Session)
   \<Rightarrow> SessionKey list \<Rightarrow> ('t, 'e) TailerPool \<Rightarrow> pystr option \<times> ('t, 'e) TailerPool" where
  "update_all ops env now initial added current [] p = (None, p)"
| "update_all ops env now initial added current (k # ks) p =
     (case update_session ops env now initial (k \<in> added) k (the (current k)) p of
        (Some cls, q) \<Rightarrow> (Some cls, q)
      | (None, q) \<Rightarrow> update_all ops env now initial added current ks q)"

definition expire_step ::
  "('t, 'e) tailer_ops \<Rightarrow> 't pool_env \<Rightarrow> time \<Rightarrow> (SessionKey \<rightharpoonup> Session) \<Rightarrow> bool \<times> ('t, 'e) TailerPool
   \<Rightarrow> SessionKey \<Rightarrow> bool \<times> ('t, 'e) TailerPool" where
  "expire_step ops env now current q k =
     (case current k of
        None \<Rightarrow> (let (e, p) = drop_tailer ops False k (snd q) in (e \<or> fst q, p))
      | Some s \<Rightarrow>
          if should_tail env (tp_recent (snd q)) now s then q
          else (let (e, p) = drop_tailer ops True k (snd q) in (e \<or> fst q, p)))"

definition poll_pending_step ::
  "('t, 'e) tailer_ops \<Rightarrow> 't pool_env \<Rightarrow> ('t, 'e) TailerPool \<Rightarrow> SessionKey \<Rightarrow> ('t, 'e) TailerPool" where
  "poll_pending_step ops env p k =
     (case map_of (tp_tailers p) k of
        None \<Rightarrow> p\<lparr>tp_pending := tp_pending p - {k}\<rparr>
      | Some t \<Rightarrow>
          (let (unread, p1) = pool_poll ops env k t p
           in if unread then p1 else p1\<lparr>tp_pending := tp_pending p1 - {k}\<rparr>))"

definition drop_all :: "('t, 'e) tailer_ops \<Rightarrow> SessionKey list \<Rightarrow> ('t, 'e) TailerPool \<Rightarrow> ('t, 'e) TailerPool" where
  "drop_all ops ks p = foldl (\<lambda>q k. snd (drop_tailer ops False k q)) p ks"

definition session_map :: "Session list \<Rightarrow> SessionKey \<rightharpoonup> Session" where
  "session_map ss = foldl (\<lambda>m s. m(session_key s \<mapsto> s)) Map.empty ss"

definition session_keys :: "Session list \<Rightarrow> SessionKey set" where
  "session_keys ss = set (map session_key ss)"

definition refresh ::
  "('t, 'e) tailer_ops \<Rightarrow> 't pool_env \<Rightarrow> Session list \<Rightarrow> SessionKey list \<Rightarrow> bool \<Rightarrow> time
   \<Rightarrow> ('t, 'e) TailerPool \<Rightarrow> (pystr + bool) \<times> ('t, 'e) TailerPool" where
  "refresh ops env sessions changed_keys initial now p =
     (if tp_closed p then (Inr False, p)
      else
        (let current = session_map sessions;
             current_keys = session_keys sessions;
             changed = set changed_keys \<inter> current_keys;
             added = current_keys - tp_known p;
             removed = tp_known p - current_keys;
             p1 = drop_all ops (px_order env removed) p;
             (expired, p2) = foldl (expire_step ops env now current) (False, p1) (map fst (tp_tailers p1))
         in case update_all ops env now initial added current (sorted_list_of_set changed) p2 of
              (Some cls, p3) \<Rightarrow> (Inl cls, p3)
            | (None, p3) \<Rightarrow>
                (let pending_before = tp_pending p3;
                     p4 = foldl (poll_pending_step ops env) p3 (sorted_list_of_set (pending_before - changed))
                 in (Inr (changed \<noteq> {} \<or> removed \<noteq> {} \<or> pending_before \<noteq> {} \<or> expired),
                     p4\<lparr>tp_known := current_keys\<rparr>))))"

subsection \<open>What the diagnostics leave alone\<close>

text \<open>Everything of a pool but its diagnostics and its trace.\<close>

definition lifecycle :: "('t, 'e) TailerPool \<Rightarrow> ('t, 'e) TailerPool" where
  "lifecycle p = p\<lparr>tp_errors := [], tp_error_keys := {}, tp_trace := []\<rparr>"

lemma lifecycle_fields:
  assumes "lifecycle p = lifecycle q"
  shows "tp_recent p = tp_recent q" "tp_max_polls p = tp_max_polls q" "tp_factory p = tp_factory q"
    "tp_known p = tp_known q" "tp_tailers p = tp_tailers q" "tp_paths p = tp_paths q"
    "tp_checkpoints p = tp_checkpoints q" "tp_pending p = tp_pending q" "tp_closed p = tp_closed q"
  using assms by (cases p; cases q; simp add: lifecycle_def)+

definition is_error_entry :: "tail_error \<Rightarrow> bool" where
  "is_error_entry e \<longleftrightarrow> (\<exists>k d. e = error_entry k d)"

lemma is_error_entry [simp]: "is_error_entry (error_entry k d)"
  unfolding is_error_entry_def by blast

definition errors_ok :: "('t, 'e) TailerPool \<Rightarrow> bool" where
  "errors_ok p \<longleftrightarrow> length (tp_errors p) \<le> MAX_TAIL_ERRORS \<and> distinct (tp_errors p)
     \<and> set (tp_errors p) = tp_error_keys p \<and> list_all is_error_entry (tp_errors p)"

lemma record_tail_error_frame [simp]:
  "lifecycle (record_tail_error k d p) = lifecycle p" "tp_trace (record_tail_error k d p) = tp_trace p"
  by (simp_all add: record_tail_error_def lifecycle_def Let_def)

lemma record_tail_error_ok: "errors_ok p \<Longrightarrow> errors_ok (record_tail_error k d p)"
proof (cases "tp_errors p")
  case Nil
  then show "errors_ok p \<Longrightarrow> errors_ok (record_tail_error k d p)"
    by (auto simp: errors_ok_def record_tail_error_def Let_def MAX_TAIL_ERRORS_def)
next
  case (Cons e es)
  then show "errors_ok p \<Longrightarrow> errors_ok (record_tail_error k d p)"
    by (auto simp: errors_ok_def record_tail_error_def Let_def MAX_TAIL_ERRORS_def)
qed

lemma record_all_frame [simp]:
  "lifecycle (record_all k ds p) = lifecycle p" "tp_trace (record_all k ds p) = tp_trace p"
  by (induction ds arbitrary: p) (simp_all add: record_all_def)

lemma record_all_ok: "errors_ok p \<Longrightarrow> errors_ok (record_all k ds p)"
  by (induction ds arbitrary: p) (simp_all add: record_all_def record_tail_error_ok)

lemma pool_consume_frame [simp]:
  "lifecycle (snd (consume_tailer_errors ops k t p)) = lifecycle p"
  "tp_trace (snd (consume_tailer_errors ops k t p)) = tp_trace p"
  by (simp_all add: consume_tailer_errors_def split: option.splits)

lemma consume_ok: "errors_ok p \<Longrightarrow> errors_ok (snd (consume_tailer_errors ops k t p))"
  by (simp add: consume_tailer_errors_def record_all_ok split: option.splits)

lemma errors_ok_update [simp]:
  "errors_ok (p\<lparr>tp_trace := tr\<rparr>) = errors_ok p" "errors_ok (p\<lparr>tp_checkpoints := c\<rparr>) = errors_ok p"
  "errors_ok (p\<lparr>tp_tailers := ts\<rparr>) = errors_ok p" "errors_ok (p\<lparr>tp_paths := ps\<rparr>) = errors_ok p"
  "errors_ok (p\<lparr>tp_pending := pd\<rparr>) = errors_ok p" "errors_ok (p\<lparr>tp_known := kn\<rparr>) = errors_ok p"
  "errors_ok (p\<lparr>tp_closed := cl\<rparr>) = errors_ok p"
  by (simp_all add: errors_ok_def)

lemma lifecycle_trace [simp]: "lifecycle (p\<lparr>tp_trace := tr\<rparr>) = lifecycle p"
  by (simp add: lifecycle_def)

lemma close_tailer_frame [simp]:
  "lifecycle (close_tailer ops k t p) = lifecycle p"
  "tp_trace (close_tailer ops k t p) = tp_trace p @ [Released k]"
  by (simp_all add: close_tailer_def split_beta Let_def)

lemma close_tailer_ok: "errors_ok p \<Longrightarrow> errors_ok (close_tailer ops k t p)"
  by (simp add: close_tailer_def split_beta Let_def consume_ok)

lemma errors_ok_none [simp]: "errors_ok (no_errors p)"
  by (simp add: errors_ok_def no_errors_def)

lemmas diag_ok = record_tail_error_ok record_all_ok consume_ok close_tailer_ok

lemmas diag_fields [simp] =
  lifecycle_fields [OF record_tail_error_frame(1)]
  lifecycle_fields [OF pool_consume_frame(1)]
  lifecycle_fields [OF close_tailer_frame(1)]

subsection \<open>The pool's invariant\<close>

definition active :: "('t, 'e) TailerPool \<Rightarrow> SessionKey set" where
  "active p = fst ` set (tp_tailers p)"

text \<open>Every created tailer is closed once, except those the pool owns.\<close>

definition balanced :: "('t, 'e) TailerPool \<Rightarrow> bool" where
  "balanced p \<longleftrightarrow> (\<forall>k. count_list (tp_trace p) (Opened k) =
     count_list (tp_trace p) (Released k) + (if k \<in> active p then 1 else 0))"

definition keys_ok :: "('t, 'e) TailerPool \<Rightarrow> bool" where
  "keys_ok p \<longleftrightarrow> distinct (map fst (tp_tailers p)) \<and> dom (tp_paths p) = active p
     \<and> dom (tp_checkpoints p) \<inter> active p = {} \<and> tp_pending p \<subseteq> active p"

definition pool_inv :: "('t, 'e) TailerPool \<Rightarrow> bool" where
  "pool_inv p \<longleftrightarrow> keys_ok p \<and> balanced p \<and> errors_ok p \<and> 0 \<le> tp_recent p \<and> 0 < tp_max_polls p"

lemma active_lookup: "map_of (tp_tailers p) k \<noteq> None \<longleftrightarrow> k \<in> active p"
  by (simp add: active_def map_of_eq_None_iff)

lemma lookup_active: "map_of (tp_tailers p) k = Some t \<Longrightarrow> k \<in> active p"
  using active_lookup [of p k] by simp

lemma pool_inv_new: "new_pool recent polls fac = Some p \<Longrightarrow> pool_inv p"
  by (auto simp: new_pool_def pool_inv_def keys_ok_def balanced_def errors_ok_def active_def split: if_splits)

lemma active_delete: "fst ` set (AList.delete k ts) = fst ` set ts - {k}"
  by (simp add: delete_keys flip: set_map)

lemma active_update: "fst ` set (AList.update k t ts) = insert k (fst ` set ts)"
  using update_keys [of k t ts] by (auto simp flip: set_map split: if_splits)

lemma drop_tailer_fields:
  fixes ops :: "('t, 'e) tailer_ops" and p :: "('t, 'e) TailerPool" and k :: SessionKey and retain :: bool
  defines "q \<equiv> snd (drop_tailer ops retain k p)"
  shows "tp_tailers q = AList.delete k (tp_tailers p)" "tp_paths q = (tp_paths p)(k := None)"
    "tp_pending q = tp_pending p - {k}" "tp_known q = tp_known p" "tp_closed q = tp_closed p"
    "tp_recent q = tp_recent p" "tp_max_polls q = tp_max_polls p" "tp_factory q = tp_factory p"
    "tp_trace q = tp_trace p @ (if k \<in> active p then [Released k] else [])"
    "dom (tp_checkpoints q) \<subseteq> (if retain then insert k (dom (tp_checkpoints p)) else dom (tp_checkpoints p) - {k})"
    "\<And>k'. k' \<noteq> k \<Longrightarrow> tp_checkpoints q k' = tp_checkpoints p k'"
    "errors_ok p \<Longrightarrow> errors_ok q"
  unfolding q_def active_lookup [symmetric]
  by (auto simp: drop_tailer_def Let_def split_beta diag_ok split: option.splits sum.splits)

lemma drop_tailer_inv:
  assumes "pool_inv p"
  shows "pool_inv (snd (drop_tailer ops retain k p))" "active (snd (drop_tailer ops retain k p)) = active p - {k}"
proof -
  let ?q = "snd (drop_tailer ops retain k p)"
  note f = drop_tailer_fields [where ops = ops and p = p and k = k and retain = retain]
  show a: "active ?q = active p - {k}"
    by (simp add: active_def f active_delete)
  have "dom (tp_checkpoints ?q) \<subseteq> insert k (dom (tp_checkpoints p))"
    using f(10) by (auto split: if_splits)
  then have "dom (tp_checkpoints ?q) \<inter> (active p - {k}) = {}"
    using assms unfolding pool_inv_def keys_ok_def by blast
  then have "keys_ok ?q"
    using assms unfolding pool_inv_def keys_ok_def a
    by (auto simp: f(1-3) distinct_delete)
  moreover have "balanced ?q"
    using assms unfolding pool_inv_def balanced_def a by (auto simp: f(9))
  ultimately show "pool_inv ?q"
    using assms f(12) by (simp add: pool_inv_def f(6,7))
qed

lemma drop_all_inv:
  "pool_inv p \<Longrightarrow> pool_inv (drop_all ops ks p) \<and> active (drop_all ops ks p) = active p - set ks
    \<and> dom (tp_checkpoints (drop_all ops ks p)) \<subseteq> dom (tp_checkpoints p) - set ks
    \<and> tp_recent (drop_all ops ks p) = tp_recent p"
proof (induction ks arbitrary: p)
  case (Cons k ks)
  note d = drop_tailer_inv [OF Cons.prems, of ops False k]
  have "drop_all ops (k # ks) p = drop_all ops ks (snd (drop_tailer ops False k p))"
    by (simp add: drop_all_def)
  moreover have "active p - insert k (set ks) = active p - {k} - set ks"
    by blast
  ultimately show ?case
    using Cons.IH [OF d(1)] drop_tailer_fields(6,10) [where ops = ops and p = p and k = k and retain = False] d(2) by (simp; blast)
qed (simp add: drop_all_def)

lemma record_trace [simp]:
  "tp_tailers (p\<lparr>tp_trace := tr\<rparr>) = tp_tailers p" "active (p\<lparr>tp_trace := tr\<rparr>) = active p"
  "active (p\<lparr>tp_pending := pd\<rparr>) = active p" "active (p\<lparr>tp_checkpoints := c\<rparr>) = active p"
  "active (p\<lparr>tp_known := kn\<rparr>) = active p"
  by (simp_all add: active_def)

text \<open>What a step may do to one key's entry: the frame of \<open>_update\<close> and of polling.\<close>

lemma poll_loop_frame:
  "poll_loop ops env k single n t p = (unread, t', q) \<Longrightarrow>
    lifecycle q = lifecycle p \<and> (errors_ok p \<longrightarrow> errors_ok q)
    \<and> (\<exists>xs. tp_trace q = tp_trace p @ map Published xs)"
proof (induction n arbitrary: t p)
  case (Suc n)
  show ?case
  proof (cases "to_poll ops t")
    case (Pair r t1)
    show ?thesis
    proof (cases r)
      case (Inl cls)
      have "q = snd (consume_tailer_errors ops k t1 (record_tail_error k (Raised cls) p))"
        using Suc.prems Pair Inl by simp
      then show ?thesis
        by (auto simp: diag_ok intro: exI [of _ "[]"])
    next
      case (Inr items)
      define p3 where "p3 = publish_events items (snd (consume_tailer_errors ops k t1 p))"
      have p3: "lifecycle p3 = lifecycle p" "errors_ok p \<longrightarrow> errors_ok p3"
        "tp_trace p3 = tp_trace p @ map Published (List.map_filter id items)"
        by (simp_all add: p3_def publish_events_def diag_ok)
      consider "q = p3" | "poll_loop ops env k single n (fst (consume_tailer_errors ops k t1 p)) p3 = (unread, t', q)"
        using Suc.prems Pair Inr by (auto simp: split_beta Let_def p3_def split: if_splits)
      then show ?thesis
      proof cases
        case 1
        with p3 show ?thesis by blast
      next
        case 2
        from Suc.IH [OF this] p3 show ?thesis
          by (metis append_assoc map_append)
      qed
    qed
  qed
qed (auto intro: exI [of _ "[]"])

lemma count_published [simp]:
  "count_list (map Published xs) (Opened k) = 0" "count_list (map Published xs) (Released k) = 0"
  by (induction xs) simp_all

lemma pool_poll_inv:
  assumes "pool_inv p" and "k \<in> active p" and "pool_poll ops env k t p = (unread, q)"
  shows "pool_inv q" "active q = active p" "tp_recent q = tp_recent p" "tp_checkpoints q = tp_checkpoints p"
    "tp_pending q = tp_pending p" "tp_paths q = tp_paths p"
proof -
  obtain t' p1 single n where l: "poll_loop ops env k single n t p = (unread, t', p1)"
    and q: "q = p1\<lparr>tp_tailers := AList.update k t' (tp_tailers p1)\<rparr>"
    using assms(3) by (auto simp: pool_poll_def Let_def split: prod.splits)
  note fr = poll_loop_frame [OF l]
  note f = lifecycle_fields [OF conjunct1 [OF fr]]
  show a: "active q = active p"
    using assms(2) by (auto simp: active_def q active_update f)
  show "tp_recent q = tp_recent p" "tp_checkpoints q = tp_checkpoints p" "tp_pending q = tp_pending p"
    "tp_paths q = tp_paths p"
    by (simp_all add: q f)
  obtain xs where tr: "tp_trace p1 = tp_trace p @ map Published xs"
    using fr by blast
  have "keys_ok q"
    using assms(1) unfolding pool_inv_def keys_ok_def a by (simp add: q f distinct_update)
  moreover have "balanced q"
    using assms(1) unfolding pool_inv_def balanced_def a by (simp add: q tr)
  ultimately show "pool_inv q"
    using assms(1) fr by (simp add: pool_inv_def q f)
qed

text \<open>Changes of a pool that keep its keys and balance its trace.\<close>

lemma pool_inv_like:
  assumes "pool_inv p" and "tp_tailers q = tp_tailers p" "tp_paths q = tp_paths p" "tp_recent q = tp_recent p"
    and "tp_max_polls q = tp_max_polls p" and "tp_pending q \<subseteq> tp_pending p" and "errors_ok q"
    and "dom (tp_checkpoints q) \<inter> active p = {}" and "balanced q"
  shows "pool_inv q"
  using assms unfolding pool_inv_def keys_ok_def active_def by auto

lemma balanced_like:
  assumes "balanced p" and "tp_tailers q = tp_tailers p" and "tp_trace q = tp_trace p \<or>
    tp_trace q = tp_trace p @ [Opened k, Released k]"
  shows "balanced q"
  using assms(3)
proof
  have a: "active q = active p"
    using assms(2) by (simp add: active_def)
  show "balanced q" if "tp_trace q = tp_trace p"
    using assms(1) that unfolding balanced_def a by simp
  show "balanced q" if "tp_trace q = tp_trace p @ [Opened k, Released k]"
    using assms(1) that unfolding balanced_def a by simp
qed

lemma capture_fields:
  "tp_tailers (capture_initial_checkpoint ops env k s p) = tp_tailers p"
  "tp_paths (capture_initial_checkpoint ops env k s p) = tp_paths p"
  "tp_recent (capture_initial_checkpoint ops env k s p) = tp_recent p"
  "tp_max_polls (capture_initial_checkpoint ops env k s p) = tp_max_polls p"
  "tp_pending (capture_initial_checkpoint ops env k s p) = tp_pending p"
  "dom (tp_checkpoints (capture_initial_checkpoint ops env k s p)) \<subseteq> insert k (dom (tp_checkpoints p))"
  "tp_trace (capture_initial_checkpoint ops env k s p) \<in> {tp_trace p, tp_trace p @ [Opened k, Released k]}"
  "errors_ok p \<Longrightarrow> errors_ok (capture_initial_checkpoint ops env k s p)"
  by (auto simp: capture_initial_checkpoint_def Let_def split_beta diag_ok split: option.splits sum.splits)

lemma capture_inv:
  assumes "pool_inv p" and "k \<notin> active p" and q: "q = capture_initial_checkpoint ops env k s p"
  shows "pool_inv q" "active q = active p" "tp_recent q = tp_recent p"
    "dom (tp_checkpoints q) \<subseteq> insert k (dom (tp_checkpoints p))"
proof -
  note f = capture_fields [where ops = ops and env = env and k = k and s = s and p = p, folded q]
  show "active q = active p" "tp_recent q = tp_recent p"
    "dom (tp_checkpoints q) \<subseteq> insert k (dom (tp_checkpoints p))"
    using f(1,3,6) by (simp_all add: active_def)
  have "dom (tp_checkpoints q) \<inter> active p = {}"
    using assms(1,2) f(6) unfolding pool_inv_def keys_ok_def by blast
  moreover have "balanced q"
    using assms(1) f(1,7) balanced_like [of p q k] unfolding pool_inv_def by blast
  ultimately show "pool_inv q"
    using assms(1) f pool_inv_like [OF assms(1) f(1-4)] unfolding pool_inv_def by simp
qed

lemma saved_checkpoint_frame:
  assumes "saved_checkpoint k s p = (c, q)"
  shows "q = p\<lparr>tp_checkpoints := tp_checkpoints q\<rparr>" "dom (tp_checkpoints q) \<subseteq> dom (tp_checkpoints p)"
    "errors_ok q = errors_ok p"
  using assms by (auto simp: saved_checkpoint_def split: option.splits if_splits)

lemma restore_tailer_frame [simp]:
  "lifecycle (snd (restore_tailer ops k c b t p)) = lifecycle p"
  "tp_trace (snd (restore_tailer ops k c b t p)) = tp_trace p"
  by (auto simp: restore_tailer_def split: option.splits)

lemma restore_tailer_ok: "errors_ok p \<Longrightarrow> errors_ok (snd (restore_tailer ops k c b t p))"
  by (auto simp: restore_tailer_def diag_ok split: option.splits)

lemmas restore_fields [simp] = lifecycle_fields [OF restore_tailer_frame(1)]

lemma open_tailer_cases:
  assumes "open_tailer ops env k s fs p = (r, q)"
  obtains (failed) p0 c where "saved_checkpoint k s p = (c, p0)" "\<And>t. r \<noteq> Inr (Some t)"
      "lifecycle q = lifecycle p0" "tp_trace q = tp_trace p0" "errors_ok p0 \<Longrightarrow> errors_ok q"
  | (opened) p0 c t p1 where "saved_checkpoint k s p = (c, p0)" "r = Inr (Some t)" "q = own_tailer k s t p1"
      "lifecycle p1 = lifecycle p0" "tp_trace p1 = tp_trace p0 @ [Opened k]" "errors_ok p0 \<Longrightarrow> errors_ok p1"
proof -
  obtain c p0 where s: "saved_checkpoint k s p = (c, p0)" by fastforce
  show thesis
  proof (cases "make_resumable_tailer env (tp_factory p0) s fs c")
    case (Inl e)
    with s assms show thesis
      by (intro failed [OF s]; cases e) (auto simp: open_tailer_def diag_ok)
  next
    case (Inr tb)
    obtain t b where tb: "tb = (t, b)" by fastforce
    define u where "u = consume_tailer_errors ops k t (p0\<lparr>tp_trace := tp_trace p0 @ [Opened k]\<rparr>)"
    define v where "v = restore_tailer ops k c b (fst u) (snd u)"
    have "r = Inr (Some (fst v))" "q = own_tailer k s (fst v) (snd v)"
      using s assms Inr tb by (auto simp: open_tailer_def split_beta Let_def u_def v_def)
    then show thesis
      by (rule opened [OF s]) (simp_all add: u_def v_def restore_tailer_ok diag_ok)
  qed
qed


lemma own_tailer_inv:
  assumes "pool_inv p" and "k \<notin> active p" and "lifecycle p1 = lifecycle p\<lparr>tp_checkpoints := c\<rparr>"
    and "dom c \<subseteq> dom (tp_checkpoints p)" and "tp_trace p1 = tp_trace p @ [Opened k]" and "errors_ok p1"
  shows "pool_inv (own_tailer k s t p1)" "active (own_tailer k s t p1) = insert k (active p)"
proof -
  let ?q = "own_tailer k s t p1"
  have "lifecycle p1 = lifecycle (p\<lparr>tp_checkpoints := c\<rparr>)"
    using assms(3) by (simp add: lifecycle_def)
  note f = lifecycle_fields [OF this]
  show a: "active ?q = insert k (active p)"
    by (simp add: active_def own_tailer_def f active_update)
  have "keys_ok ?q"
    using assms(1,2,4) unfolding pool_inv_def keys_ok_def a
    by (auto simp: own_tailer_def f distinct_update)
  moreover have "balanced ?q"
    using assms(1,2) unfolding pool_inv_def balanced_def a
    by (auto simp: own_tailer_def assms(5))
  moreover have "errors_ok ?q"
    using assms(6) by (simp add: own_tailer_def)
  ultimately show "pool_inv ?q"
    using assms(1) by (simp add: pool_inv_def own_tailer_def f)
qed

lemma open_tailer_inv:
  assumes "pool_inv p" and "k \<notin> active p" and o: "open_tailer ops env k s fs p = (r, q)"
  shows "pool_inv q \<and> active q = (if \<exists>t. r = Inr (Some t) then insert k (active p) else active p)
    \<and> tp_recent q = tp_recent p \<and> dom (tp_checkpoints q) \<subseteq> dom (tp_checkpoints p)"
  using o
proof (cases rule: open_tailer_cases)
  case (failed p0 c)
  note sv = saved_checkpoint_frame [OF failed(1)]
  note f = lifecycle_fields [OF failed(3)]
  have same: "tp_tailers q = tp_tailers p" "tp_paths q = tp_paths p" "tp_recent q = tp_recent p"
    "tp_max_polls q = tp_max_polls p" "tp_pending q \<subseteq> tp_pending p" "tp_trace q = tp_trace p"
    unfolding f failed(4) by (subst sv(1), simp)+
  have cps: "dom (tp_checkpoints q) \<subseteq> dom (tp_checkpoints p)"
    using sv(2) by (simp add: f)
  then have "pool_inv q"
    using assms(1) sv(3) failed(5) pool_inv_like [OF assms(1) same(1-5)] balanced_like [OF _ same(1)] same(6)
    unfolding pool_inv_def keys_ok_def by blast
  then show ?thesis
    using failed(2) same cps by (auto simp: active_def)
next
  case (opened p0 c t p1)
  note sv = saved_checkpoint_frame [OF opened(1)]
  have l: "lifecycle p1 = lifecycle p\<lparr>tp_checkpoints := tp_checkpoints p0\<rparr>"
    unfolding opened(4) by (subst sv(1)) (simp add: lifecycle_def)
  have tr: "tp_trace p1 = tp_trace p @ [Opened k]"
    unfolding opened(5) by (subst sv(1)) simp
  have "errors_ok p1"
    using assms(1) sv(3) opened(6) by (simp add: pool_inv_def)
  note o = own_tailer_inv [OF assms(1,2) l sv(2) tr this, of s t]
  have "tp_recent p1 = tp_recent p" "tp_checkpoints p1 = tp_checkpoints p0"
    using lifecycle_fields(1,7) [OF opened(4)] arg_cong [OF sv(1), of tp_recent] by simp_all
  then show ?thesis
    using o sv(2) opened(2,3) by (auto simp: own_tailer_def)
qed


definition tailed :: "'t pool_env \<Rightarrow> time \<Rightarrow> (SessionKey \<rightharpoonup> Session) \<Rightarrow> ('t, 'e) TailerPool \<Rightarrow> SessionKey \<Rightarrow> bool" where
  "tailed env now current p k \<longleftrightarrow> (\<exists>s. current k = Some s \<and> should_tail env (tp_recent p) now s)"

lemma poll_and_mark_inv:
  assumes "pool_inv p" and "k \<in> active p"
  defines "q \<equiv> \<lambda>ops env t. poll_and_mark ops env k t p"
  shows "pool_inv (q ops env t) \<and> active (q ops env t) = active p \<and> tp_recent (q ops env t) = tp_recent p
    \<and> tp_checkpoints (q ops env t) = tp_checkpoints p"
proof -
  obtain b p1 where pp: "pool_poll ops env k t p = (b, p1)" by fastforce
  note i = pool_poll_inv [OF assms(1,2) pp]
  have "pool_inv (p1\<lparr>tp_pending := insert k (tp_pending p1)\<rparr>)" "pool_inv (p1\<lparr>tp_pending := tp_pending p1 - {k}\<rparr>)"
    using i(1,2) assms(2) by (auto simp: pool_inv_def keys_ok_def balanced_def)
  then show ?thesis
    using i by (simp add: q_def poll_and_mark_def pp)
qed

lemma drop_moved_inv:
  assumes "pool_inv p"
  shows "pool_inv (drop_moved ops k s p)" "active (drop_moved ops k s p) \<subseteq> active p"
    "tp_recent (drop_moved ops k s p) = tp_recent p"
    "dom (tp_checkpoints (drop_moved ops k s p)) \<subseteq> dom (tp_checkpoints p)"
  using assms drop_tailer_inv [OF assms, of ops False k]
    drop_tailer_fields(6,10) [where ops = ops and p = p and k = k and retain = False]
  by (auto simp: drop_moved_def)

lemma renew_tailer_inv:
  assumes "pool_inv p" and r: "renew_tailer ops env k s fs p = (r, q)"
  shows "pool_inv q \<and> tp_recent q = tp_recent p \<and> dom (tp_checkpoints q) \<subseteq> dom (tp_checkpoints p)
      \<and> active q \<subseteq> insert k (active p) \<and> (\<forall>t. r = Inr (Some t) \<longrightarrow> k \<in> active q)"
proof (cases "map_of (tp_tailers p) k")
  case None
  then have "k \<notin> active p" using active_lookup [of p k] by simp
  moreover have "open_tailer ops env k s fs p = (r, q)"
    using r None by (simp add: renew_tailer_def)
  ultimately show ?thesis
    using open_tailer_inv [OF assms(1)] by (simp split: if_splits) blast
next
  case (Some t)
  have k: "k \<in> active p" using lookup_active [OF Some] .
  have q: "q = p\<lparr>tp_tailers := AList.update k (to_set_session ops t s) (tp_tailers p)\<rparr>"
    using r Some by (simp add: renew_tailer_def Let_def)
  have a: "active q = active p"
    using k by (auto simp: active_def q active_update)
  have "pool_inv q"
    using assms(1) unfolding pool_inv_def keys_ok_def balanced_def a by (simp add: q distinct_update)
  then show ?thesis
    using a k by (auto simp: q)
qed

text \<open>One session's update creates a tailer for that session only, and only if it should be tailed.\<close>

lemma update_session_active:
  assumes "pool_inv p" and s: "should_tail env (tp_recent p) now s"
    and u: "update_session ops env now initial new k s p = (r, q)"
  shows "pool_inv q \<and> tp_recent q = tp_recent p \<and> dom (tp_checkpoints q) \<subseteq> dom (tp_checkpoints p)
    \<and> active q \<subseteq> insert k (active p)"
proof -
  note p1 = drop_moved_inv [OF assms(1), of ops k s]
  obtain r2 p2 where rn: "renew_tailer ops env k s (new \<and> \<not> initial) (drop_moved ops k s p) = (r2, p2)"
    by fastforce
  note p2 = renew_tailer_inv [OF p1(1) rn]
  have sub: "pool_inv p2" "tp_recent p2 = tp_recent p" "dom (tp_checkpoints p2) \<subseteq> dom (tp_checkpoints p)"
    "active p2 \<subseteq> insert k (active p)"
    using p1 p2 by (blast, simp, blast, blast)
  consider "q = p2" | t where "r2 = Inr (Some t)" "q = poll_and_mark ops env k t p2"
    using u s rn by (simp add: update_session_def split: sum.splits option.splits if_splits)
  then show ?thesis
  proof cases
    case 1
    with sub show ?thesis by simp
  next
    case 2
    then have "k \<in> active p2" using p2 by blast
    from poll_and_mark_inv [OF sub(1) this, of ops env t] sub 2 show ?thesis by simp
  qed
qed

lemma update_session_inv:
  assumes inv: "pool_inv p" and no: "\<not> should_tail env (tp_recent p) now s \<Longrightarrow> k \<notin> active p"
    and u: "update_session ops env now initial new k s p = (r, q)"
  shows "pool_inv q \<and> tp_recent q = tp_recent p \<and> dom (tp_checkpoints q) \<subseteq> insert k (dom (tp_checkpoints p))
    \<and> active q \<subseteq> (if should_tail env (tp_recent p) now s then insert k (active p) else active p)"
proof (cases "should_tail env (tp_recent p) now s")
  case False
  then have q: "q = (if initial then capture_initial_checkpoint ops env k s p else snd (drop_tailer ops True k p))"
    using u by (simp add: update_session_def)
  have "tp_recent (snd (drop_tailer ops True k p)) = tp_recent p"
    "dom (tp_checkpoints (snd (drop_tailer ops True k p))) \<subseteq> insert k (dom (tp_checkpoints p))"
    using drop_tailer_fields(6,10) [where ops = ops and p = p and k = k and retain = True] by simp_all
  then show ?thesis
    using capture_inv [OF inv no [OF False] refl, of ops env s] drop_tailer_inv [OF inv, of ops True k] False q
    by (cases initial) auto
next
  case True
  from update_session_active [OF inv True u] True show ?thesis by auto
qed


text \<open>
  During a refresh every tailer belongs to a session of the snapshot that should be tailed.
\<close>

definition refreshing :: "'t pool_env \<Rightarrow> time \<Rightarrow> (SessionKey \<rightharpoonup> Session) \<Rightarrow> ('t, 'e) TailerPool \<Rightarrow> bool" where
  "refreshing env now current p \<longleftrightarrow> pool_inv p \<and> (\<forall>k \<in> active p. tailed env now current p k)"

lemma update_session_refreshing:
  assumes p: "refreshing env now current p" and "current k = Some s"
    and u: "update_session ops env now initial new k s p = (r, q)"
  shows "refreshing env now current q \<and> tp_recent q = tp_recent p
    \<and> dom (tp_checkpoints q) \<subseteq> insert k (dom (tp_checkpoints p))"
proof -
  have no: "\<not> should_tail env (tp_recent p) now s \<Longrightarrow> k \<notin> active p"
    using p assms(2) by (auto simp: refreshing_def tailed_def)
  have inv: "pool_inv p" using p by (simp add: refreshing_def)
  note q = update_session_inv [OF inv no u]
  then have "tailed env now current q = tailed env now current p"
    by (simp add: tailed_def fun_eq_iff)
  moreover have "tailed env now current p k" if "should_tail env (tp_recent p) now s"
    using that assms(2) by (simp add: tailed_def)
  ultimately show ?thesis
    using p q unfolding refreshing_def by (simp split: if_splits) blast+
qed

lemma update_all_refreshing:
  "refreshing env now current p \<Longrightarrow> set ks \<subseteq> dom current \<Longrightarrow>
    update_all ops env now initial added current ks p = (r, q) \<Longrightarrow>
    refreshing env now current q \<and> dom (tp_checkpoints q) \<subseteq> set ks \<union> dom (tp_checkpoints p)"
proof (induction ks arbitrary: p)
  case (Cons k ks)
  obtain s where s: "current k = Some s" using Cons.prems(2) by auto
  obtain r1 p1 where u: "update_session ops env now initial (k \<in> added) k s p = (r1, p1)" by fastforce
  note p1 = update_session_refreshing [OF Cons.prems(1) s u]
  show ?case
  proof (cases r1)
    case None
    then have "update_all ops env now initial added current ks p1 = (r, q)"
      using Cons.prems(3) u s by simp
    from Cons.IH [OF _ _ this] Cons.prems(2) p1 show ?thesis by (simp; blast)
  next
    case (Some cls)
    then show ?thesis using Cons.prems(3) u s p1 by auto
  qed
qed simp

lemma expire_step_inv:
  assumes "pool_inv (snd x)"
  shows "pool_inv (snd (expire_step ops env now current x k)) \<and> tp_recent (snd (expire_step ops env now current x k)) = tp_recent (snd x)
    \<and> active (snd (expire_step ops env now current x k)) = active (snd x) - (if tailed env now current (snd x) k then {} else {k})
    \<and> dom (tp_checkpoints (snd (expire_step ops env now current x k))) \<subseteq> dom (tp_checkpoints (snd x)) \<union> ({k} \<inter> dom current)"
proof (cases "tailed env now current (snd x) k")
  case True
  with assms show ?thesis by (auto simp: expire_step_def tailed_def)
next
  case False
  have st: "snd (expire_step ops env now current x k) = snd (drop_tailer ops (current k \<noteq> None) k (snd x))"
    using False by (auto simp: expire_step_def tailed_def Let_def split_beta split: option.splits)
  have "dom (tp_checkpoints (snd (drop_tailer ops (current k \<noteq> None) k (snd x))))
      \<subseteq> dom (tp_checkpoints (snd x)) \<union> ({k} \<inter> dom current)"
    using drop_tailer_fields(10) [where ops = ops and p = "snd x" and k = k and retain = "current k \<noteq> None"]
    by (cases "current k \<noteq> None") auto
  then show ?thesis
    using False drop_tailer_inv [OF assms, of ops "current k \<noteq> None" k]
      drop_tailer_fields(6) [where ops = ops and p = "snd x" and k = k and retain = "current k \<noteq> None"]
    by (simp add: st)
qed

lemma expire_inv:
  "pool_inv (snd x) \<Longrightarrow>
    pool_inv (snd (foldl (expire_step ops env now current) x ks))
    \<and> tp_recent (snd (foldl (expire_step ops env now current) x ks)) = tp_recent (snd x)
    \<and> active (snd (foldl (expire_step ops env now current) x ks))
        = active (snd x) - {k \<in> set ks. \<not> tailed env now current (snd x) k}
    \<and> dom (tp_checkpoints (snd (foldl (expire_step ops env now current) x ks)))
        \<subseteq> dom (tp_checkpoints (snd x)) \<union> (set ks \<inter> dom current)"
proof (induction ks arbitrary: x)
  case (Cons k ks)
  let ?y = "expire_step ops env now current x k"
  note st = expire_step_inv [OF Cons.prems, of ops env now current k]
  then have t: "tailed env now current (snd ?y) = tailed env now current (snd x)"
    by (simp add: tailed_def fun_eq_iff)
  note ih = Cons.IH [of ?y]
  have "active (snd ?y) - {j \<in> set ks. \<not> tailed env now current (snd x) j}
      = active (snd x) - {j \<in> set (k # ks). \<not> tailed env now current (snd x) j}"
    using st by auto
  moreover have "dom (tp_checkpoints (snd ?y)) \<union> (set ks \<inter> dom current)
      \<subseteq> dom (tp_checkpoints (snd x)) \<union> (set (k # ks) \<inter> dom current)"
    using st by auto
  ultimately show ?case
    using ih st by (simp add: t; blast)
qed simp

lemma poll_pending_step_refreshing:
  assumes "refreshing env now current p"
  shows "refreshing env now current (poll_pending_step ops env p k)
    \<and> tp_checkpoints (poll_pending_step ops env p k) = tp_checkpoints p"
proof (cases "map_of (tp_tailers p) k")
  case None
  then show ?thesis
    using assms by (auto simp: poll_pending_step_def refreshing_def tailed_def pool_inv_def keys_ok_def balanced_def)
next
  case (Some t)
  obtain b p1 where pp: "pool_poll ops env k t p = (b, p1)" by fastforce
  have "pool_inv p" using assms by (simp add: refreshing_def)
  note i = pool_poll_inv [OF this lookup_active [OF Some] pp]
  have "pool_inv (p1\<lparr>tp_pending := tp_pending p1 - {k}\<rparr>)"
    using i(1) by (auto simp: pool_inv_def keys_ok_def balanced_def)
  then show ?thesis
    using assms i by (simp add: poll_pending_step_def Some pp refreshing_def tailed_def)
qed

lemma poll_pending_refreshing:
  "refreshing env now current p \<Longrightarrow>
    refreshing env now current (foldl (poll_pending_step ops env) p ks)
    \<and> tp_checkpoints (foldl (poll_pending_step ops env) p ks) = tp_checkpoints p"
  by (induction ks arbitrary: p) (simp_all add: poll_pending_step_refreshing)

lemma session_map_dom: "dom (session_map ss) = session_keys ss"
proof -
  have "dom (foldl (\<lambda>m s. m(session_key s \<mapsto> s)) m ss) = dom m \<union> session_key ` set ss" for m
    by (induction ss arbitrary: m) auto
  then show ?thesis
    by (simp add: session_map_def session_keys_def)
qed

lemma pool_inv_known [simp]: "pool_inv (p\<lparr>tp_known := kn\<rparr>) = pool_inv p" "pool_inv (p\<lparr>tp_closed := c\<rparr>) = pool_inv p"
  by (simp_all add: pool_inv_def keys_ok_def balanced_def active_def)

lemma refresh_steps:
  assumes "refresh ops env ss ch initial now p = (r, q)" and "\<not> tp_closed p"
  obtains x r3 p3 where
    "x = foldl (expire_step ops env now (session_map ss)) (False, drop_all ops (px_order env (tp_known p - session_keys ss)) p)
       (map fst (tp_tailers (drop_all ops (px_order env (tp_known p - session_keys ss)) p)))"
    "update_all ops env now initial (session_keys ss - tp_known p) (session_map ss)
       (sorted_list_of_set (set ch \<inter> session_keys ss)) (snd x) = (r3, p3)"
    "r3 = None \<longrightarrow> q = (foldl (poll_pending_step ops env) p3
       (sorted_list_of_set (tp_pending p3 - set ch \<inter> session_keys ss)))\<lparr>tp_known := session_keys ss\<rparr>"
    "r3 \<noteq> None \<longrightarrow> q = p3 \<and> isl r"
proof -
  define x where "x = foldl (expire_step ops env now (session_map ss))
    (False, drop_all ops (px_order env (tp_known p - session_keys ss)) p)
       (map fst (tp_tailers (drop_all ops (px_order env (tp_known p - session_keys ss)) p)))"
  obtain e p2 where x: "x = (e, p2)" by fastforce
  obtain r3 p3 where u: "update_all ops env now initial (session_keys ss - tp_known p) (session_map ss)
       (sorted_list_of_set (set ch \<inter> session_keys ss)) p2 = (r3, p3)" by fastforce
  have "(r, q) = refresh ops env ss ch initial now p"
    using assms(1) by simp
  also have "\<dots> = (case r3 of Some cls \<Rightarrow> (Inl cls, p3)
      | None \<Rightarrow> (Inr (set ch \<inter> session_keys ss \<noteq> {} \<or> tp_known p - session_keys ss \<noteq> {} \<or> tp_pending p3 \<noteq> {} \<or> e),
          (foldl (poll_pending_step ops env) p3 (sorted_list_of_set (tp_pending p3 - set ch \<inter> session_keys ss)))
            \<lparr>tp_known := session_keys ss\<rparr>))"
    by (simp only: refresh_def Let_def x_def [symmetric] x prod.case u if_not_P [OF assms(2)])
  finally show thesis
    using that [OF x_def, of r3 p3] u x by (cases r3) simp_all
qed

lemma refresh_spec:
  assumes inv: "pool_inv p" and r: "refresh ops env ss ch initial now p = (r, q)" and "\<not> tp_closed p"
  shows "pool_inv q \<and> (\<forall>b. r = Inr b \<longrightarrow> tp_known q = session_keys ss
    \<and> (\<forall>k \<in> active q. tailed env now (session_map ss) q k)
    \<and> dom (tp_checkpoints q) \<subseteq> session_keys ss \<union> (dom (tp_checkpoints p) - set (px_order env (tp_known p - session_keys ss))))"
proof -
  let ?m = "session_map ss" and ?K = "session_keys ss"
  define p1 where "p1 = drop_all ops (px_order env (tp_known p - ?K)) p"
  note i1 = drop_all_inv [OF inv, of ops "px_order env (tp_known p - ?K)", folded p1_def]
  obtain x r3 p3 where x: "x = foldl (expire_step ops env now ?m) (False, p1) (map fst (tp_tailers p1))"
    and u: "update_all ops env now initial (?K - tp_known p) ?m (sorted_list_of_set (set ch \<inter> ?K)) (snd x) = (r3, p3)"
    and ok: "r3 = None \<longrightarrow> q = (foldl (poll_pending_step ops env) p3
       (sorted_list_of_set (tp_pending p3 - set ch \<inter> ?K)))\<lparr>tp_known := ?K\<rparr>"
    and bad: "r3 \<noteq> None \<longrightarrow> q = p3 \<and> isl r"
    by (rule refresh_steps [OF r assms(3), folded p1_def])
  have ap: "set (map fst (tp_tailers p1)) = active p1"
    by (simp add: active_def)
  have i2: "pool_inv (snd x) \<and> tp_recent (snd x) = tp_recent p1
      \<and> active (snd x) = active p1 - {k \<in> active p1. \<not> tailed env now ?m p1 k}
      \<and> dom (tp_checkpoints (snd x)) \<subseteq> dom (tp_checkpoints p1) \<union> (active p1 \<inter> ?K)"
    using expire_inv [of "(False, p1)" ops env now ?m "map fst (tp_tailers p1)", folded x, unfolded ap] i1
    by (simp add: session_map_dom)
  then have ref: "refreshing env now ?m (snd x)"
    by (simp add: refreshing_def tailed_def)
  have chs: "set (sorted_list_of_set (set ch \<inter> ?K)) = set ch \<inter> ?K"
    by simp
  have i3: "refreshing env now ?m p3 \<and> dom (tp_checkpoints p3) \<subseteq> (set ch \<inter> ?K) \<union> dom (tp_checkpoints (snd x))"
    using update_all_refreshing [OF ref _ u, unfolded chs] by (simp add: session_map_dom)
  note i4 = poll_pending_refreshing [OF conjunct1 [OF i3], of ops "sorted_list_of_set (tp_pending p3 - set ch \<inter> ?K)"]
  show ?thesis
  proof (cases r3)
    case (Some cls)
    then show ?thesis using bad i3 by (auto simp: refreshing_def)
  next
    case None
    have "dom (tp_checkpoints p3) \<subseteq> ?K \<union> (dom (tp_checkpoints p) - set (px_order env (tp_known p - ?K)))"
      using i3 i2 i1 by blast
    then show ?thesis
      using ok None i4 by (simp add: refreshing_def tailed_def)
  qed
qed

lemma close_all_frame:
  "lifecycle (foldl (\<lambda>q (k, t). close_tailer ops k t q) p ts) = lifecycle p
    \<and> tp_trace (foldl (\<lambda>q (k, t). close_tailer ops k t q) p ts) = tp_trace p @ map (\<lambda>e. Released (fst e)) ts"
  by (induction ts arbitrary: p) (simp_all add: split_beta)

lemma count_released:
  "distinct (map fst ts) \<Longrightarrow>
    count_list (map (\<lambda>e. Released (fst e)) ts) (Released k) = (if k \<in> fst ` set ts then 1 else 0)"
  "count_list (map (\<lambda>e. Released (fst e)) ts) (Opened k) = 0"
  by (induction ts) auto

lemma clear_pool_inv:
  assumes "pool_inv p"
  shows "pool_inv (clear_pool ops p) \<and> active (clear_pool ops p) = {}"
proof -
  define p0 where "p0 = no_errors (p\<lparr>tp_known := {}, tp_tailers := [], tp_paths := Map.empty,
             tp_checkpoints := Map.empty, tp_pending := {}\<rparr>)"
  define q where "q = foldl (\<lambda>q (k, t). close_tailer ops k t q) p0 (tp_tailers p)"
  note fr = close_all_frame [of ops p0 "tp_tailers p", folded q_def]
  note f = lifecycle_fields [OF conjunct1 [OF fr]]
  have a: "active (no_errors q) = {}"
    by (simp add: active_def no_errors_def f) (simp add: p0_def no_errors_def)
  have "keys_ok (no_errors q)"
    unfolding keys_ok_def a by (simp add: no_errors_def f) (simp add: p0_def no_errors_def)
  moreover have "balanced (no_errors q)"
    using assms unfolding pool_inv_def keys_ok_def balanced_def a
    by (simp add: no_errors_def fr) (simp add: p0_def no_errors_def count_released active_def)
  ultimately have "pool_inv (no_errors q)"
    using assms by (simp add: pool_inv_def) (simp add: no_errors_def f, simp add: p0_def no_errors_def)
  with a show ?thesis
    by (simp add: clear_pool_def p0_def q_def)
qed


subsection \<open>Resuming\<close>

text \<open>
  What the pool relies on when it saves and restores checkpoints: a tailer of the same source
  accepts an exported checkpoint and continues at the same cursor, and clearing the diagnostics
  of a tailer does not move it.
\<close>

locale resumable =
  fixes ops :: "('t, 'e) tailer_ops"
    and cursor :: "'t \<Rightarrow> 'c"
    and twin :: "'t \<Rightarrow> 't \<Rightarrow> bool"
  assumes clear_cursor: "cursor (to_clear ops t) = cursor t"
    and clear_twin: "twin t u \<Longrightarrow> twin (to_clear ops t) u \<and> twin t (to_clear ops u)"
    and resume: "twin t u \<Longrightarrow> \<exists>cp u'. to_export ops t = Some (Inr (PDict cp))
      \<and> to_restore ops u cp = Some (None, u') \<and> cursor u' = cursor t"
begin

lemma consume_twin:
  "twin t u \<Longrightarrow> twin (fst (consume_tailer_errors ops k t p)) u \<and> twin t (fst (consume_tailer_errors ops k u p))
    \<and> cursor (fst (consume_tailer_errors ops k t p)) = cursor t"
  by (simp add: consume_tailer_errors_def clear_twin clear_cursor split: option.splits)

lemma retained_checkpoint:
  assumes "map_of (tp_tailers p) k = Some t" and "tp_paths p k = Some path"
    and cp: "to_export ops (fst (consume_tailer_errors ops k t p)) = Some (Inr (PDict cp))"
  shows "tp_checkpoints (snd (drop_tailer ops True k p)) k = Some (path, cp)"
  using assms by (simp add: drop_tailer_def Let_def split_beta)

lemma reopened_cursor:
  assumes "tp_checkpoints q k = Some (s_transcript s, cp)" and "tp_factory q = None"
    and "dget (s_extra s) ''transcript_kind'' \<noteq> pstr ''cursor-chat-sqlite''"
    and "px_new env s fs None = Inr u" and "twin t u" and ex: "to_export ops t = Some (Inr (PDict cp))"
  shows "\<exists>t' q'. open_tailer ops env k s fs q = (Inr (Some t'), own_tailer k s t' q') \<and> cursor t' = cursor t"
proof -
  let ?c = "consume_tailer_errors ops k u (q\<lparr>tp_trace := tp_trace q @ [Opened k]\<rparr>)"
  have "twin t (fst ?c)"
    using consume_twin [OF assms(5)] by blast
  then obtain u' where u': "to_restore ops (fst ?c) cp = Some (None, u')" "cursor u' = cursor t"
    using resume ex by fastforce
  have sv: "saved_checkpoint k s q = (Some cp, q)"
    using assms(1) by (simp add: saved_checkpoint_def)
  have "make_resumable_tailer env (tp_factory q) s fs (Some cp) = Inr (u, False)"
    using assms(2-4) by (simp add: make_resumable_tailer_def make_tailer_def)
  then have "open_tailer ops env k s fs q = (Inr (Some u'), own_tailer k s u' (snd ?c))"
    using u'(1) by (simp add: open_tailer_def sv restore_tailer_def split_beta Let_def)
  with u'(2) show ?thesis by blast
qed

text \<open>A session that expires and comes back continues where its tailer stopped.\<close>

lemma expiry_resumes:
  assumes "map_of (tp_tailers p) k = Some t" and "tp_paths p k = Some (s_transcript s)" and "tp_factory p = None"
    and chat: "dget (s_extra s) ''transcript_kind'' \<noteq> pstr ''cursor-chat-sqlite''"
    and new: "px_new env s (fresh \<and> \<not> initial) None = Inr u" and "twin t u"
    and st: "should_tail env (tp_recent p) now s"
  shows "\<exists>t' q'. update_session ops env now initial fresh k s (snd (drop_tailer ops True k p))
      = (None, if initial then q' else poll_and_mark ops env k t' q')
    \<and> map_of (tp_tailers q') k = Some t' \<and> cursor t' = cursor t"
proof -
  let ?t = "fst (consume_tailer_errors ops k t p)" and ?q = "snd (drop_tailer ops True k p)"
  note tw = consume_twin [OF assms(6), of k p]
  obtain cp where cp: "to_export ops ?t = Some (Inr (PDict cp))"
    using resume tw by blast
  note f = drop_tailer_fields [where ops = ops and p = p and k = k and retain = True]
  have q: "tp_checkpoints ?q k = Some (s_transcript s, cp)" "tp_factory ?q = None" "map_of (tp_tailers ?q) k = None"
    using retained_checkpoint [OF assms(1,2) cp] assms(3) f(1,8) by (simp_all add: delete_conv')
  obtain t' q' where o: "open_tailer ops env k s (fresh \<and> \<not> initial) ?q = (Inr (Some t'), own_tailer k s t' q')"
    and cur: "cursor t' = cursor ?t"
    using reopened_cursor [OF q(1,2) chat new _ cp] tw by blast
  have "update_session ops env now initial fresh k s ?q
      = (None, if initial then own_tailer k s t' q' else poll_and_mark ops env k t' (own_tailer k s t' q'))"
    using st q(3) o f(6) by (simp add: update_session_def drop_moved_def renew_tailer_def)
  moreover have "map_of (tp_tailers (own_tailer k s t' q')) k = Some t'"
    by (simp add: own_tailer_def update_conv')
  ultimately show ?thesis
    using cur tw by auto
qed

end

subsection \<open>Properties\<close>

inductive pool_step :: "('t, 'e) tailer_ops \<Rightarrow> ('t, 'e) TailerPool \<Rightarrow> ('t, 'e) TailerPool \<Rightarrow> bool"
  for ops where
  "refresh ops env ss ch initial now p = (r, q) \<Longrightarrow> pool_step ops p q"
| "pool_step ops p (reset_pool ops p)"
| "pool_step ops p (close_pool ops p)"

lemma pool_step_inv:
  assumes "pool_step ops p q" and "pool_inv p"
  shows "pool_inv q"
  using assms(1)
proof cases
  case (1 env ss ch initial now r)
  then show ?thesis
    using refresh_spec [OF assms(2) 1] assms(2) by (cases "tp_closed p") (auto simp: refresh_def)
next
  case 2
  then show ?thesis
    using clear_pool_inv [of "p\<lparr>tp_closed := True\<rparr>" ops] assms(2) by (simp add: reset_pool_def)
next
  case 3
  then show ?thesis
    using clear_pool_inv [of "p\<lparr>tp_closed := True\<rparr>" ops] assms(2) by (simp add: close_pool_def)
qed

interpretation pool: invariant_of "\<lambda>p. \<exists>r n f. new_pool r n f = Some p" "pool_step ops" pool_inv
  for ops :: "('t, 'e) tailer_ops"
  by unfold_locales (auto intro: pool_inv_new pool_step_inv)

text \<open>
  C2: The pool owns its resources exactly. In every state that refreshes (also ones that raise),
  resets and closes can reach, each key has at most one tailer, a transcript path exactly when
  it has a tailer, never both a tailer and a saved checkpoint, and only owned tailers wait for
  another poll; and for every key the tailers created are the tailers closed plus the one still
  owned, so no tailer is leaked or closed twice.
\<close>

theorem pool_owns_tailers:
  assumes "new_pool recent polls fac = Some p0" and "(pool_step ops)\<^sup>*\<^sup>* p0 p"
  shows "distinct (map fst (tp_tailers p)) \<and> dom (tp_paths p) = active p
    \<and> dom (tp_checkpoints p) \<inter> active p = {} \<and> tp_pending p \<subseteq> active p
    \<and> (\<forall>k. count_list (tp_trace p) (Opened k) =
         count_list (tp_trace p) (Released k) + (if k \<in> active p then 1 else 0))"
proof -
  have "pool_inv p"
    using pool.reachable_inv [OF _ assms(2)] assms(1) by blast
  then show ?thesis
    unfolding pool_inv_def keys_ok_def balanced_def by blast
qed

definition plain_text :: "nat \<Rightarrow> pystr \<Rightarrow> bool" where
  "plain_text n s \<longleftrightarrow> s \<noteq> [] \<and> length s \<le> n \<and> list_all printable s"

lemma unknown_plain [simp]: "7 \<le> n \<Longrightarrow> plain_text n (py ''unknown'')"
  by (simp add: plain_text_def py_def printable_def)

lemma bounded_identifier_plain: "7 \<le> n \<Longrightarrow> plain_text n (bounded_identifier v n)"
  using unknown_plain [of n]
  by (auto simp: bounded_identifier_def Let_def plain_text_def list_all_iff dest: in_set_takeD)

lemma code_char_printable: "is_code_char c \<Longrightarrow> printable c"
  by (auto simp: is_code_char_def is_code_start_def printable_def)

lemma ends_with_split: "ends_with s t \<Longrightarrow> s = take (length s - length t) s @ t"
  unfolding ends_with_def by (metis append_take_drop_id)

lemma error_code_plain:
  assumes "is_error_code s" and "length s \<le> n"
  shows "plain_text n s"
proof -
  obtain suffix where suffix: "suffix \<in> set [py ''Error'', py ''Exception'', py ''Warning'']" "ends_with s suffix"
    and stem: "take (length s - length suffix) s \<noteq> []"
      "is_code_start (hd (take (length s - length suffix) s))"
      "list_all is_code_char (tl (take (length s - length suffix) s))"
    using assms(1) unfolding is_error_code_def Let_def list_ex_iff by blast
  let ?stem = "take (length s - length suffix) s"
  have "list_all printable suffix"
    using suffix(1) by (auto simp: py_def printable_def)
  moreover have "list_all is_code_char ?stem"
    using stem by (cases ?stem) (auto simp: is_code_char_def)
  then have "list_all printable ?stem"
    by (auto simp: list_all_iff intro: code_char_printable)
  ultimately have "list_all printable (?stem @ suffix)"
    by simp
  then have "list_all printable s"
    by (simp only: ends_with_split [OF suffix(2), symmetric])
  moreover have "s \<noteq> []"
    using stem(1) by auto
  ultimately show ?thesis
    using assms(2) by (simp add: plain_text_def)
qed

lemma safe_error_code_plain: "plain_text MAX_TAIL_ERROR_CODE_LENGTH (safe_error_code d)"
proof -
  have "plain_text MAX_TAIL_ERROR_CODE_LENGTH TAIL_ERROR_FALLBACK_CODE"
    by (simp add: plain_text_def TAIL_ERROR_FALLBACK_CODE_def MAX_TAIL_ERROR_CODE_LENGTH_def py_def printable_def)
  then show ?thesis
    unfolding safe_error_code_def Let_def by (auto intro!: error_code_plain)
qed

lemma error_entry_plain:
  "error_entry k d = (a, i, c) \<Longrightarrow> plain_text MAX_TAIL_ERROR_AGENT_LENGTH a
    \<and> plain_text MAX_TAIL_ERROR_SESSION_ID_LENGTH i \<and> plain_text MAX_TAIL_ERROR_CODE_LENGTH c"
  by (auto simp: error_entry_def safe_error_code_plain MAX_TAIL_ERROR_AGENT_LENGTH_def
      MAX_TAIL_ERROR_SESSION_ID_LENGTH_def intro!: bounded_identifier_plain)

text \<open>
  The pool's diagnostics stay bounded, distinct and printable, whatever the tailers and their
  exceptions report: in every reachable state there are at most 128 of them, none twice, the
  set used to recognise repetitions is exactly the stored ones, and each is a nonempty text of
  printable characters within the limits of its field.
\<close>

theorem tail_errors_bounded:
  assumes "new_pool recent polls fac = Some p0" and "(pool_step ops)\<^sup>*\<^sup>* p0 p"
  shows "length (tp_errors p) \<le> 128 \<and> distinct (tp_errors p) \<and> tp_error_keys p = set (tp_errors p)
    \<and> (\<forall>(a, i, c) \<in> set (tp_errors p). plain_text 64 a \<and> plain_text 256 i \<and> plain_text 128 c)"
proof -
  have "errors_ok p"
    using pool.reachable_inv [OF _ assms(2)] assms(1) by (auto simp: pool_inv_def)
  moreover have "plain_text 64 a \<and> plain_text 256 i \<and> plain_text 128 c"
    if e: "(a, i, c) \<in> set (tp_errors p)" for a i c
  proof -
    have "is_error_entry (a, i, c)"
      using \<open>errors_ok p\<close> e by (auto simp: errors_ok_def list_all_iff)
    then obtain k d where "error_entry k d = (a, i, c)"
      unfolding is_error_entry_def by metis
    from error_entry_plain [OF this] show ?thesis
      by (simp add: MAX_TAIL_ERROR_AGENT_LENGTH_def MAX_TAIL_ERROR_SESSION_ID_LENGTH_def MAX_TAIL_ERROR_CODE_LENGTH_def)
  qed
  ultimately show ?thesis
    by (auto simp: errors_ok_def MAX_TAIL_ERRORS_def)
qed

text \<open>
  C33: A refresh reconciles the pool with the snapshot. When it does not raise, the known keys are
  those of the snapshot, every tailer belongs to a session of the snapshot that is still to be
  tailed, and checkpoints remain for sessions of the snapshot only: a session that disappeared
  loses its checkpoint, one that merely aged out may keep it.
\<close>

theorem refresh_reconciles:
  assumes "pool_inv p" and "\<not> tp_closed p" and "dom (tp_checkpoints p) \<subseteq> tp_known p"
    and "set (px_order env (tp_known p - session_keys ss)) = tp_known p - session_keys ss"
    and "refresh ops env ss ch initial now p = (Inr b, q)"
  shows "tp_known q = session_keys ss \<and> dom (tp_checkpoints q) \<subseteq> tp_known q
    \<and> (\<forall>k \<in> active q. \<exists>s. session_map ss k = Some s \<and> should_tail env (tp_recent q) now s)"
proof -
  note sp = refresh_spec [OF assms(1,5,2), THEN conjunct2, rule_format, OF refl, unfolded assms(4) tailed_def]
  have known: "tp_known q = session_keys ss"
    using sp by (rule conjunct1)
  have "dom (tp_checkpoints q) \<subseteq> session_keys ss \<union> (dom (tp_checkpoints p) - (tp_known p - session_keys ss))"
    using sp by (rule conjunct2 [THEN conjunct2])
  then have "dom (tp_checkpoints q) \<subseteq> tp_known q"
    using assms(3) unfolding known by blast
  with known show ?thesis
    using sp [THEN conjunct2, THEN conjunct1] by (rule conjI [OF _ conjI])
qed

subsection \<open>Examples\<close>

definition unit_ops :: "(unit, nat) tailer_ops" where
  "unit_ops = \<lparr>to_errors = (\<lambda>_. Some [DiagText (py ''ValueError: x'')]), to_clear = id, to_close = id,
     to_export = (\<lambda>_. None), to_restore = (\<lambda>_ _. None), to_single = (\<lambda>_. Some True),
     to_poll = (\<lambda>t. (Inr [Some 1, None], t)), to_pending = (\<lambda>_. Some False), to_follower = (\<lambda>_. None),
     to_set_session = (\<lambda>t _. t)\<rparr>"

definition unit_env :: "unit pool_env" where
  "unit_env = \<lparr>px_new = (\<lambda>_ _ _. Inr ()), px_is_file = (\<lambda>_. True), px_size = (\<lambda>_. None),
     px_low = (\<lambda>c. [c]), px_order = sorted_list_of_set\<rparr>"

definition unit_pool :: "(unit, nat) TailerPool" where
  "unit_pool = \<lparr>tp_recent = 10, tp_max_polls = 32, tp_factory = None, tp_known = {},
     tp_tailers = [], tp_paths = Map.empty, tp_checkpoints = Map.empty, tp_pending = {}, tp_errors = [],
     tp_error_keys = {}, tp_closed = False, tp_trace = []\<rparr>"

definition unit_refreshed :: "(unit, nat) TailerPool" where
  "unit_refreshed = snd (refresh unit_ops unit_env [ex_cursor] [session_key ex_cursor] False 100 unit_pool)"

lemma unit_pool_new: "new_pool 10 32 None = Some unit_pool"
  by (simp add: new_pool_def unit_pool_def)

lemma unit_refreshed_reachable: "(pool_step unit_ops)\<^sup>*\<^sup>* unit_pool unit_refreshed"
  unfolding unit_refreshed_def by (intro r_into_rtranclp pool_step.intros(1)) (rule surjective_pairing)

theorem pool_owns_tailers_witness:
  "count_list (tp_trace unit_refreshed) (Opened (session_key ex_cursor)) =
    count_list (tp_trace unit_refreshed) (Released (session_key ex_cursor))
      + (if session_key ex_cursor \<in> active unit_refreshed then 1 else 0)"
  using pool_owns_tailers [OF unit_pool_new unit_refreshed_reachable] by blast

theorem tail_errors_bounded_witness: "length (tp_errors unit_refreshed) \<le> 128"
  using tail_errors_bounded [OF unit_pool_new unit_refreshed_reachable] by blast

theorem refresh_reconciles_witness:
  "\<exists>b q. refresh unit_ops unit_env [ex_cursor] [] False 100 unit_pool = (Inr b, q)
    \<and> tp_known q = session_keys [ex_cursor]"
proof -
  have r: "refresh unit_ops unit_env [ex_cursor] [] False 100 unit_pool =
      (Inr False, unit_pool\<lparr>tp_known := session_keys [ex_cursor]\<rparr>)"
    by (simp add: refresh_def unit_pool_def unit_env_def drop_all_def)
  have "pool_inv unit_pool" "\<not> tp_closed unit_pool" "dom (tp_checkpoints unit_pool) \<subseteq> tp_known unit_pool"
    "set (px_order unit_env (tp_known unit_pool - session_keys [ex_cursor])) = tp_known unit_pool - session_keys [ex_cursor]"
    using pool_inv_new [OF unit_pool_new] by (simp_all add: unit_pool_def unit_env_def)
  from refresh_reconciles [OF this r] r show ?thesis by blast
qed

end
