(* ===== verification/Tail.thy ===== *)
theory Tail
  imports Lines "HOL-Library.Sublist"
begin

text \<open>
  The JSONL follower (\<open>JSONLFollower\<close> of \<open>sidecar/tail.py\<close>): it follows a growing file by
  byte offset with bounded reads, bounded line storage and a 64-byte anchor that detects a
  rewritten file.

  \<^item> \<open>Follower\<close> holds the instance attributes; \<open>f_path\<close> is the path after \<open>expanduser\<close>.
  \<^item> \<open>file_env\<close> is what the file system answers during one call: the result of \<open>stat\<close>, of
    \<open>is_file\<close>, and the contents the (at most two) opens see, which differ when the file changes
    in between. \<open>None\<close> is an \<open>OSError\<close>. \<open>stable_env\<close> is a file that does not change meanwhile.
  \<^item> An exception that leaves \<open>json.loads\<close> uncaught leaves \<open>poll\<close> too; the state it leaves
    behind is the second component of the result.
\<close>

record file_stat =
  st_dev :: int
  st_ino :: int
  st_size :: nat

record file_env =
  env_stat :: "file_stat option"
  env_is_file :: bool
  env_anchor :: "bytes option"
  env_data :: "bytes option"

definition stable_env :: "int \<times> int \<Rightarrow> bytes \<Rightarrow> file_env" where
  "stable_env ident c =
     \<lparr>env_stat = Some \<lparr>st_dev = fst ident, st_ino = snd ident, st_size = length c\<rparr>,
      env_is_file = True, env_anchor = Some c, env_data = Some c\<rparr>"

record Follower =
  f_path :: pystr
  f_from_start :: bool
  f_max_read :: nat
  f_max_line :: nat
  f_max_records :: nat
  f_offset :: nat
  f_identity :: "(int \<times> int) option"
  f_anchor :: bytes
  f_pending :: bytes
  f_dropping :: bool
  f_records :: "pydict list"
  f_missing :: bool

text \<open>\<open>stream.seek(off); stream.read(n)\<close>.\<close>

definition read_at :: "bytes \<Rightarrow> nat \<Rightarrow> nat \<Rightarrow> bytes" where
  "read_at c off n = take n (drop off c)"

definition read_anchor :: "bytes option \<Rightarrow> nat \<Rightarrow> bytes" where
  "read_anchor c e =
     (let amount = min 64 e in
      if amount = 0 then []
      else case c of None \<Rightarrow> [] | Some content \<Rightarrow> read_at content (e - amount) amount)"

text \<open>The bytes after the last newline, or \<open>None\<close> if there is no newline (\<open>rfind\<close>).\<close>

definition after_last_newline :: "bytes \<Rightarrow> bytes option" where
  "after_last_newline s =
     (if NL \<in> set s then Some (rev (takeWhile (\<lambda>b. b \<noteq> NL) (rev s))) else None)"

definition capture_trailing_partial :: "Follower \<Rightarrow> bytes option \<Rightarrow> nat \<Rightarrow> Follower" where
  "capture_trailing_partial f data e =
     (let amount = min (f_max_line f + 1) e in
      case data of
        None \<Rightarrow> f
      | Some content \<Rightarrow>
          (let suffix = read_at content (e - amount) amount in
           case after_last_newline suffix of
             Some s \<Rightarrow>
               if f_max_line f < length s then f\<lparr>f_dropping := True\<rparr>
               else f\<lparr>f_pending := f_pending f @ s\<rparr>
           | None \<Rightarrow>
               if length suffix < e then f\<lparr>f_dropping := True\<rparr>
               else if f_max_line f < length suffix then f\<lparr>f_dropping := True\<rparr>
               else f\<lparr>f_pending := f_pending f @ suffix\<rparr>))"

definition f_initialize :: "Follower \<Rightarrow> file_env \<Rightarrow> Follower" where
  "f_initialize f env =
     (case env_stat env of
        None \<Rightarrow> f\<lparr>f_missing := True\<rparr>
      | Some st \<Rightarrow>
          if \<not> env_is_file env then f\<lparr>f_missing := True\<rparr>
          else
            (let off = (if f_from_start f then 0 else st_size st);
                 f1 = f\<lparr>f_identity := Some (st_dev st, st_ino st), f_offset := off\<rparr>
             in if off = 0 then f1
                else capture_trailing_partial
                       (f1\<lparr>f_anchor := read_anchor (env_anchor env) off\<rparr>) (env_data env) off))"

definition new_follower ::
  "pystr \<Rightarrow> bool \<Rightarrow> int \<Rightarrow> int \<Rightarrow> int \<Rightarrow> file_env \<Rightarrow> Follower option" where
  "new_follower path from_start max_read_bytes max_line_bytes max_records env =
     (if max_read_bytes \<le> 0 \<or> max_line_bytes \<le> 0 \<or> max_records \<le> 0 then None
      else Some (f_initialize
        \<lparr>f_path = path, f_from_start = from_start, f_max_read = nat max_read_bytes,
         f_max_line = nat max_line_bytes, f_max_records = nat max_records, f_offset = 0,
         f_identity = None, f_anchor = [], f_pending = [], f_dropping = False,
         f_records = [], f_missing = False\<rparr> env))"

definition f_reset :: "Follower \<Rightarrow> Follower" where
  "f_reset f = f\<lparr>f_offset := 0, f_anchor := [], f_pending := [], f_dropping := False,
     f_records := []\<rparr>"

definition consume_line :: "py_limits \<Rightarrow> Follower \<Rightarrow> bytes \<Rightarrow> loads_exc option \<times> Follower" where
  "consume_line L f raw =
     (if is_blank raw \<or> f_max_line f < length raw then (None, f)
      else
        (case line_value L raw of
           Inl e \<Rightarrow> (Some e, f)
         | Inr v \<Rightarrow>
             (case as_dict v of
                None \<Rightarrow> (None, f)
              | Some d \<Rightarrow> (None, f\<lparr>f_records := f_records f @ [d]\<rparr>))))"

function consume_chunk :: "py_limits \<Rightarrow> Follower \<Rightarrow> bytes \<Rightarrow> loads_exc option \<times> Follower" where
  "consume_chunk L f remaining =
     (if remaining = [] then (None, f)
      else if NL \<notin> set remaining then
        (if f_dropping f then (None, f)
         else if f_max_line f < length (f_pending f) + length remaining then
           (None, f\<lparr>f_pending := [], f_dropping := True\<rparr>)
         else (None, f\<lparr>f_pending := f_pending f @ remaining\<rparr>))
      else
        (let segment = takeWhile (\<lambda>b. b \<noteq> NL) remaining;
             rest = tl (dropWhile (\<lambda>b. b \<noteq> NL) remaining)
         in if f_dropping f then
              consume_chunk L (f\<lparr>f_dropping := False, f_pending := []\<rparr>) rest
            else if length (f_pending f) + length segment \<le> f_max_line f then
              (case consume_line L f (f_pending f @ segment) of
                 (Some e, f') \<Rightarrow> (Some e, f')
               | (None, f') \<Rightarrow> consume_chunk L (f'\<lparr>f_pending := []\<rparr>) rest)
            else consume_chunk L (f\<lparr>f_pending := []\<rparr>) rest))"
  by pat_completeness auto
termination
  by (relation "measure (\<lambda>(L, f, s). length s)") (auto simp: length_after_newline)

declare consume_chunk.simps [simp del]

definition pop_records :: "Follower \<Rightarrow> pydict list \<times> Follower" where
  "pop_records f =
     (take (f_max_records f) (f_records f), f\<lparr>f_records := drop (f_max_records f) (f_records f)\<rparr>)"

definition has_pending_records :: "Follower \<Rightarrow> bool" where
  "has_pending_records f \<longleftrightarrow> f_records f \<noteq> []"

text \<open>The identity, truncation and rewrite checks at the head of \<open>poll\<close>.\<close>

definition sync_file :: "Follower \<Rightarrow> file_env \<Rightarrow> file_stat \<Rightarrow> Follower" where
  "sync_file f env st =
     (let ident = (st_dev st, st_ino st) in
      if f_identity f = None then
        f\<lparr>f_identity := Some ident,
          f_offset := (if f_missing f \<or> f_from_start f then 0 else st_size st),
          f_missing := False\<rparr>
      else if f_identity f \<noteq> Some ident \<or> st_size st < f_offset f then
        f_reset (f\<lparr>f_identity := Some ident\<rparr>)
      else if f_offset f \<noteq> 0 \<and> f_anchor f \<noteq> read_anchor (env_anchor env) (f_offset f) then
        f_reset f
      else f)"

definition poll ::
  "py_limits \<Rightarrow> Follower \<Rightarrow> file_env \<Rightarrow> (loads_exc + pydict list) \<times> Follower" where
  "poll L f env =
     (if f_records f \<noteq> [] then (case pop_records f of (rs, f') \<Rightarrow> (Inr rs, f'))
      else
        (case env_stat env of
           None \<Rightarrow> (Inr [], f)
         | Some st \<Rightarrow>
             if \<not> env_is_file env then (Inr [], f)
             else
               (let f1 = sync_file f env st in
                if st_size st \<le> f_offset f1 then (Inr [], f1)
                else
                  (let amount = min (f_max_read f1) (st_size st - f_offset f1) in
                   case env_data env of
                     None \<Rightarrow> (Inr [], f1)
                   | Some content \<Rightarrow>
                       (let chunk = read_at content (f_offset f1) amount in
                        if chunk = [] then (Inr [], f1)
                        else
                          (let f2 = f1\<lparr>f_offset := f_offset f1 + length chunk,
                                       f_anchor := lastn 64 (f_anchor f1 @ chunk)\<rparr>
                           in case consume_chunk L f2 chunk of
                                (Some e, f3) \<Rightarrow> (Inl e, f3)
                              | (None, f3) \<Rightarrow>
                                  (case pop_records f3 of (rs, f4) \<Rightarrow> (Inr rs, f4))))))))"

subsection \<open>Checkpoints\<close>

definition export_checkpoint :: "Follower \<Rightarrow> pydict" where
  "export_checkpoint f =
     [(pstr ''version'', PInt 1),
      (pstr ''kind'', pstr ''jsonl''),
      (pstr ''path'', PStr (f_path f)),
      (pstr ''offset'', PInt (int (f_offset f))),
      (pstr ''identity'',
        (case f_identity f of None \<Rightarrow> PNone | Some (d, i) \<Rightarrow> PTuple [PInt d, PInt i])),
      (pstr ''anchor'', PBytes (f_anchor f)),
      (pstr ''pending'', PBytes (f_pending f)),
      (pstr ''dropping_line'', PBool (f_dropping f)),
      (pstr ''records'', PTuple (map PDict (f_records f))),
      (pstr ''missing_at_start'', PBool (f_missing f))]"


fun bytes_of :: "pyval \<Rightarrow> bytes option" where
  "bytes_of (PBytes b) = Some b"
| "bytes_of _ = None"

text \<open>The \<open>identity\<close> entry: \<open>None\<close> when it is malformed.\<close>

definition identity_of :: "pyval \<Rightarrow> (int \<times> int) option option" where
  "identity_of v =
     (if v = PNone then Some None
      else
        (case seq_items v of
           Some [a, b] \<Rightarrow>
             (case (strict_int a, strict_int b) of
                (Some x, Some y) \<Rightarrow> Some (Some (x, y))
              | _ \<Rightarrow> None)
         | _ \<Rightarrow> None))"

text \<open>\<open>restore_checkpoint\<close>: \<open>None\<close> is the result \<open>False\<close>, which leaves the follower as it is.\<close>

definition restore_checkpoint :: "Follower \<Rightarrow> pyval \<Rightarrow> Follower option" where
  "restore_checkpoint f checkpoint =
     (case mapping_items checkpoint of
        None \<Rightarrow> None
      | Some d \<Rightarrow>
          if \<not> eq_int (dget d ''version'') 1 \<or> dget d ''kind'' \<noteq> pstr ''jsonl''
            \<or> dget d ''path'' \<noteq> PStr (f_path f) then None
          else
            (case (strict_int (dget d ''offset''), bytes_of (dget d ''anchor''),
                   bytes_of (dget d ''pending''), dget d ''dropping_line'',
                   seq_items (dget d ''records''), dget d ''missing_at_start'',
                   identity_of (dget d ''identity'')) of
               (Some off, Some anchor, Some pending, PBool dropping, Some rs, PBool missing,
                Some ident) \<Rightarrow>
                 if off < 0 \<or> min 64 (nat off) < length anchor
                   \<or> min (f_max_line f) (nat off) < length pending
                   \<or> f_max_read f < length rs then None
                 else
                   (case those_map mapping_items rs of
                      None \<Rightarrow> None
                    | Some records \<Rightarrow>
                        Some (f\<lparr>f_offset := nat off, f_identity := ident, f_anchor := anchor,
                                f_pending := pending, f_dropping := dropping,
                                f_records := records, f_missing := missing\<rparr>))
             | _ \<Rightarrow> None))"

subsection \<open>The follower reads the bounded lines of the file\<close>

definition cur_of :: "Follower \<Rightarrow> bytes option" where
  "cur_of f = (if f_dropping f then None else Some (f_pending f))"

definition with_cur :: "Follower \<Rightarrow> bytes option \<Rightarrow> Follower" where
  "with_cur f cur =
     f\<lparr>f_pending := (case cur of None \<Rightarrow> [] | Some p \<Rightarrow> p), f_dropping := (cur = None)\<rparr>"

text \<open>What is held of the current line is within the line bound, and nothing of a dropped one.\<close>

definition line_ok :: "Follower \<Rightarrow> bool" where
  "line_ok f \<longleftrightarrow> length (f_pending f) \<le> f_max_line f \<and> (f_dropping f \<longrightarrow> f_pending f = [])"

lemma cur_with_cur [simp]: "cur_of (with_cur f c) = c"
  by (auto simp: cur_of_def with_cur_def split: option.splits)

lemma with_cur_self [simp]: "line_ok f \<Longrightarrow> with_cur f (cur_of f) = f"
  by (cases f) (auto simp: cur_of_def with_cur_def line_ok_def)

lemma with_cur_simps [simp]:
  "f_path (with_cur f c) = f_path f" "f_from_start (with_cur f c) = f_from_start f"
  "f_max_read (with_cur f c) = f_max_read f" "f_max_line (with_cur f c) = f_max_line f"
  "f_max_records (with_cur f c) = f_max_records f" "f_offset (with_cur f c) = f_offset f"
  "f_identity (with_cur f c) = f_identity f" "f_anchor (with_cur f c) = f_anchor f"
  "f_records (with_cur f c) = f_records f" "f_missing (with_cur f c) = f_missing f"
  by (simp_all add: with_cur_def)

lemma consume_chunk_Nil [simp]: "consume_chunk L f [] = (None, f)"
  by (simp add: consume_chunk.simps)

lemma consume_chunk_part:
  assumes "NL \<notin> set s" and "line_ok f"
  shows "consume_chunk L f s =
    (None, with_cur f (fst (line_run (f_max_line f) (cur_of f, []) s)))"
  using assms
  by (cases f; cases "s = []")
    (auto simp: consume_chunk.simps [of L _ s] cur_of_def with_cur_def line_ok_def
      line_run_dropping line_run_part)

lemma not_dropping [simp]: "\<not> f_dropping f \<Longrightarrow> f\<lparr>f_dropping := False\<rparr> = f"
  by (cases f) simp

lemma follower_commute:
  "f\<lparr>f_dropping := a, f_pending := b\<rparr> = f\<lparr>f_pending := b, f_dropping := a\<rparr>"
  "f\<lparr>f_records := c, f_pending := b\<rparr> = f\<lparr>f_pending := b, f_records := c\<rparr>"
  by simp_all

text \<open>What the end of a line hands on: nothing of a line that is dropped or over the bound.\<close>

definition line_out :: "Follower \<Rightarrow> bytes \<Rightarrow> bytes list" where
  "line_out f l =
     (if f_dropping f \<or> f_max_line f < length (f_pending f @ l) then [] else [f_pending f @ l])"

definition add_records :: "Follower \<Rightarrow> pydict list \<Rightarrow> Follower" where
  "add_records f ds = f\<lparr>f_records := f_records f @ ds\<rparr>"

lemma add_records_simps [simp]:
  "f_records (add_records f ds) = f_records f @ ds"
  "f_pending (add_records f ds) = f_pending f" "f_dropping (add_records f ds) = f_dropping f"
  "f_max_line (add_records f ds) = f_max_line f" "f_max_read (add_records f ds) = f_max_read f"
  "f_max_records (add_records f ds) = f_max_records f" "f_offset (add_records f ds) = f_offset f"
  "f_identity (add_records f ds) = f_identity f" "f_anchor (add_records f ds) = f_anchor f"
  "f_from_start (add_records f ds) = f_from_start f" "f_path (add_records f ds) = f_path f"
  "f_missing (add_records f ds) = f_missing f" "cur_of (add_records f ds) = cur_of f"
  "line_ok (add_records f ds) = line_ok f"
  "add_records (add_records f ds) ds' = add_records f (ds @ ds')"
  "add_records f [] = f"
  "with_cur (add_records f ds) c = add_records (with_cur f c) ds"
  "with_cur (with_cur f c') c = with_cur f c"
  by (simp_all add: add_records_def cur_of_def line_ok_def with_cur_def)

lemma line_ok_with_cur [simp]:
  "line_ok (with_cur f c) \<longleftrightarrow> (case c of None \<Rightarrow> True | Some p \<Rightarrow> length p \<le> f_max_line f)"
  by (simp add: line_ok_def with_cur_def split: option.splits)

lemma consume_chunk_line:
  assumes "NL \<notin> set l"
  shows "consume_chunk L f (l @ NL # r) =
    (case lines_records L (line_out f l) of
       (Some e, ds) \<Rightarrow> (Some e, f)
     | (None, ds) \<Rightarrow> consume_chunk L (add_records (with_cur f (Some [])) ds) r)"
  using assms
  by (subst consume_chunk.simps)
    (auto simp: line_out_def consume_line_def line_record_def with_cur_def add_records_def
      follower_commute split: sum.splits option.splits)

lemma line_run_line:
  assumes "NL \<notin> set l" and "line_ok f"
  shows "line_run (f_max_line f) (cur_of f, []) (l @ NL # r) =
    (case line_run (f_max_line f) (Some [], []) r of (c, ls) \<Rightarrow> (c, line_out f l @ ls))"
proof -
  let ?m = "f_max_line f"
  have "line_run ?m (cur_of f, []) (l @ [NL]) = (Some [], line_out f l)"
    using assms
    by (auto simp: line_run_append cur_of_def line_ok_def line_out_def line_run_dropping line_run_part)
      (auto simp: line_byte_def)
  then have "line_run ?m (cur_of f, []) ((l @ [NL]) @ r) = line_run ?m (Some [], line_out f l) r"
    by (simp only: line_run_append)
  with line_run_acc [of ?m "Some []" "line_out f l" r] show ?thesis
    by (simp split: prod.splits)
qed

text \<open>
  The chunk loop runs the bounded line machine: it raises exactly when a line it completes
  raises, and otherwise its state is the machine's and its new records are those of the lines.
\<close>

lemma consume_chunk_spec:
  assumes "line_ok f" and "line_run (f_max_line f) (cur_of f, []) c = (cur, ls)"
    and "lines_records L ls = (e, ds)"
  shows "fst (consume_chunk L f c) = e
    \<and> f_records (snd (consume_chunk L f c)) = f_records f @ ds
    \<and> (e = None \<longrightarrow> snd (consume_chunk L f c) = add_records (with_cur f cur) ds)"
  using assms
proof (induction c arbitrary: f cur ls e ds rule: line_induct)
  case (part s)
  have "ls = []"
    using part by (cases "f_dropping f") (auto simp: cur_of_def line_ok_def line_run_dropping line_run_part)
  with part show ?case
    by (simp add: consume_chunk_part)
next
  case (line l r)
  obtain cur' ls' where r: "line_run (f_max_line f) (Some [], []) r = (cur', ls')" by fastforce
  then have ls: "cur = cur'" "ls = line_out f l @ ls'"
    using line_run_line [OF line.hyps line.prems(1), of r] line.prems(2) by simp_all
  obtain e' ds' where d: "lines_records L ls' = (e', ds')" by fastforce
  obtain x dx where x: "lines_records L (line_out f l) = (x, dx)" by fastforce
  show ?case
  proof (cases x)
    case (Some e2)
    have "dx = []"
      using x Some by (auto simp: line_out_def split: if_splits sum.splits)
    with Some x ls line.prems(3) show ?thesis
      by (auto simp: consume_chunk_line [OF line.hyps] lines_records_append)
  next
    case None
    let ?g = "add_records (with_cur f (Some [])) dx"
    have "fst (consume_chunk L ?g r) = e'
      \<and> f_records (snd (consume_chunk L ?g r)) = f_records ?g @ ds'
      \<and> (e' = None \<longrightarrow> snd (consume_chunk L ?g r) = add_records (with_cur ?g cur') ds')"
      by (rule line.IH) (use r d in simp_all)
    with None x d ls line.prems(3) show ?thesis
      by (simp add: consume_chunk_line [OF line.hyps] lines_records_append)
  qed
qed

text \<open>The follower as a reader of chunks; \<open>None\<close> is a follower whose \<open>poll\<close> has raised.\<close>

definition feed_chunk :: "py_limits \<Rightarrow> Follower option \<Rightarrow> bytes \<Rightarrow> Follower option" where
  "feed_chunk L s c =
     Option.bind s (\<lambda>f. case consume_chunk L f c of (None, f') \<Rightarrow> Some f' | (Some _, _) \<Rightarrow> None)"

definition held_ok :: "Follower option \<Rightarrow> bool" where
  "held_ok s \<longleftrightarrow> (case s of None \<Rightarrow> True | Some f \<Rightarrow> line_ok f)"

lemma line_run_bound:
  "line_run m (c, ls) s = (Some p, ls') \<Longrightarrow> (\<forall>q. c = Some q \<longrightarrow> length q \<le> m) \<Longrightarrow> length p \<le> m"
  by (induction s arbitrary: c ls) (auto simp: line_byte_def split: option.splits if_splits)

lemma cur_of_bound: "line_ok f \<Longrightarrow> cur_of f = Some q \<Longrightarrow> length q \<le> f_max_line f"
  by (auto simp: cur_of_def line_ok_def split: if_splits)

lemma feed_chunk_spec:
  assumes "line_ok f" and "line_run (f_max_line f) (cur_of f, []) c = (cur, ls)"
  shows "feed_chunk L (Some f) c =
    (if benign L ls then Some (add_records (with_cur f cur) (records_of L ls)) else None)"
proof -
  obtain e ds where d: "lines_records L ls = (e, ds)" by fastforce
  show ?thesis
    using consume_chunk_spec [OF assms d] d
    by (auto simp: feed_chunk_def benign_def records_of_def split: prod.splits option.splits)
qed

lemma feed_chunk_ok: "held_ok s \<Longrightarrow> held_ok (feed_chunk L s c)"
proof (cases s)
  case (Some f)
  assume "held_ok s"
  then have ok: "line_ok f" by (simp add: held_ok_def Some)
  obtain cur ls where r: "line_run (f_max_line f) (cur_of f, []) c = (cur, ls)" by fastforce
  show ?thesis
    using line_run_bound [of "f_max_line f" "cur_of f" "[]" c] cur_of_bound [OF ok] r
    by (auto simp: Some feed_chunk_spec [OF ok r] held_ok_def split: option.splits)
qed (simp add: feed_chunk_def held_ok_def)

lemma feed_chunk_append:
  "held_ok s \<Longrightarrow> feed_chunk L s (c @ d) = feed_chunk L (feed_chunk L s c) d"
proof (cases s)
  case (Some f)
  assume "held_ok s"
  then have ok: "line_ok f" by (simp add: held_ok_def Some)
  let ?m = "f_max_line f"
  obtain cur ls where c: "line_run ?m (cur_of f, []) c = (cur, ls)" by fastforce
  obtain cur' ls' where d: "line_run ?m (cur, []) d = (cur', ls')" by fastforce
  have cd: "line_run ?m (cur_of f, []) (c @ d) = (cur', ls @ ls')"
    using c d line_run_acc [of ?m cur ls d] by (simp add: line_run_append)
  show ?thesis
  proof (cases "benign L ls")
    case True
    let ?g = "add_records (with_cur f cur) (records_of L ls)"
    have "line_ok ?g"
      using feed_chunk_ok [of "Some f" L c] ok True c
      by (simp add: held_ok_def feed_chunk_spec [OF ok c])
    then have "feed_chunk L (Some ?g) d =
        (if benign L ls' then Some (add_records (with_cur ?g cur') (records_of L ls')) else None)"
      using d by (intro feed_chunk_spec) simp_all
    with True show ?thesis
      by (simp add: Some feed_chunk_spec [OF ok c] feed_chunk_spec [OF ok cd] records_of_append)
  next
    case False
    then show ?thesis
      by (simp add: Some feed_chunk_spec [OF ok c] feed_chunk_spec [OF ok cd])
        (simp add: feed_chunk_def)
  qed
qed (simp add: feed_chunk_def)

interpretation follower: chunk_reader "feed_chunk L" "\<lambda>s b. feed_chunk L s [b]" held_ok
  for L :: py_limits
proof unfold_locales
  show "held_ok s \<Longrightarrow> feed_chunk L s c = foldl (\<lambda>s b. feed_chunk L s [b]) s c" for s c
  proof (induction c arbitrary: s)
    case Nil
    then show ?case by (cases s) (simp_all add: feed_chunk_def)
  next
    case (Cons b c)
    then show ?case
      using feed_chunk_append [of s L "[b]" c] feed_chunk_ok [of s L "[b]"] by simp
  qed
qed (rule feed_chunk_ok)

subsection \<open>Polling a file that only grows\<close>

text \<open>The lines within the bound that \<open>c\<close> completes after its first \<open>o0\<close> bytes.\<close>

definition new_lines :: "nat \<Rightarrow> nat \<Rightarrow> bytes \<Rightarrow> bytes list" where
  "new_lines m o0 c = drop (length (bounded_lines m (take o0 c))) (bounded_lines m c)"

lemma new_lines_append:
  assumes "o0 \<le> length s"
  shows "new_lines m o0 (s @ t) =
    new_lines m o0 s @ snd (line_run m (bounded m (trailing s), []) t)"
proof -
  have "length (bounded_lines m (take o0 s)) \<le> length (bounded_lines m s)"
    using bounded_lines_append(1) [of m "take o0 s" "drop o0 s"] by simp
  then show ?thesis
    using assms by (simp add: new_lines_def bounded_lines_append(1))
qed

lemma new_lines_start [simp]: "new_lines m (length c) c = []" "new_lines m 0 c = bounded_lines m c"
  by (simp_all add: new_lines_def bounded_lines_def complete_lines_def)

lemma benign_new_lines_prefix:
  "o0 \<le> n \<Longrightarrow> n \<le> length c \<Longrightarrow> benign L (new_lines m o0 c) \<Longrightarrow> benign L (new_lines m o0 (take n c))"
  using new_lines_append [of o0 "take n c" m "drop n c"] by simp

lemma read_anchor_lastn: "e \<le> length c \<Longrightarrow> read_anchor (Some c) e = lastn 64 (take e c)"
  by (auto simp: read_anchor_def read_at_def lastn_def drop_take min_def)

text \<open>
  The follower is at its offset in \<open>c\<close>: the anchor and the current line are those of the
  bytes read, and what was returned and what is queued are the records of the lines
  completed since the start offset \<open>o0\<close>.
\<close>

definition following ::
  "py_limits \<Rightarrow> int \<times> int \<Rightarrow> nat \<Rightarrow> bytes \<Rightarrow> Follower \<Rightarrow> pydict list \<Rightarrow> bool" where
  "following L ident o0 c f out \<longleftrightarrow>
     line_ok f \<and> f_identity f = Some ident \<and> o0 \<le> f_offset f \<and> f_offset f \<le> length c
     \<and> 0 < f_max_read f \<and> 0 < f_max_records f
     \<and> f_anchor f = lastn 64 (take (f_offset f) c)
     \<and> cur_of f = bounded (f_max_line f) (trailing (take (f_offset f) c))
     \<and> out @ f_records f = records_of L (new_lines (f_max_line f) o0 (take (f_offset f) c))"

lemma following_grow:
  "following L ident o0 c f out \<Longrightarrow> prefix c c' \<Longrightarrow> following L ident o0 c' f out"
  by (auto simp: following_def prefix_def)

definition work :: "bytes \<Rightarrow> Follower \<Rightarrow> nat" where
  "work c f = 2 * (length c - f_offset f) + length (f_records f)"

lemma sync_following: "following L ident o0 c f out \<Longrightarrow>
    sync_file f (stable_env ident c) \<lparr>st_dev = fst ident, st_ino = snd ident, st_size = length c\<rparr> = f"
  by (auto simp: following_def sync_file_def stable_env_def read_anchor_lastn)

lemma length_line_run: "length (snd (line_run m (c, ls) s)) \<le> length ls + length s"
proof (induction s arbitrary: c ls)
  case (Cons b s)
  obtain c' ls' where b: "line_byte m (c, ls) b = (c', ls')" by fastforce
  then have "length ls' \<le> Suc (length ls)"
    by (auto simp: line_byte_def split: option.splits if_splits)
  with Cons [of c' ls'] b show ?case by simp
qed simp

lemma lines_records_benign: "benign L ls \<Longrightarrow> lines_records L ls = (None, records_of L ls)"
  by (cases "lines_records L ls") (simp add: benign_def records_of_def)

lemma pop_following:
  assumes "following L ident o0 c f out"
  shows "following L ident o0 c (snd (pop_records f)) (out @ fst (pop_records f))"
    and "f_records f \<noteq> [] \<Longrightarrow> work c (snd (pop_records f)) < work c f"
    and "work c (snd (pop_records f)) \<le> work c f"
  using assms
  by (auto simp: pop_records_def following_def work_def line_ok_def cur_of_def)

lemma take_length_take: "take (length (take n xs)) xs = take n xs"
  by (cases "n \<le> length xs") auto

text \<open>Reading one chunk of a file that does not change meanwhile.\<close>

lemma read_chunk:
  assumes f: "following L ident o0 c f out" and "f_records f = []"
    and "chunk = read_at c (f_offset f) n" and "chunk \<noteq> []"
    and ok: "benign L (new_lines (f_max_line f) o0 c)"
  defines "f2 \<equiv> f\<lparr>f_offset := f_offset f + length chunk, f_anchor := lastn 64 (f_anchor f @ chunk)\<rparr>"
  shows "\<exists>f3. consume_chunk L f2 chunk = (None, f3) \<and> following L ident o0 c f3 out
    \<and> work c f3 < work c f \<and> f_max_line f3 = f_max_line f"
proof -
  let ?m = "f_max_line f" and ?s = "take (f_offset f) c" and ?o = "f_offset f + length chunk"
  obtain cur ls where r: "line_run ?m (cur_of f, []) chunk = (cur, ls)" by fastforce
  have taken: "take ?o c = ?s @ chunk"
    by (simp add: assms(3) read_at_def take_add take_length_take del: length_take)
  have bound: "?o \<le> length c" and lens: "length ?s = f_offset f"
    using f assms(3) by (auto simp: following_def read_at_def)
  have ok2: "line_ok f2" "cur_of f2 = cur_of f" "f_max_line f2 = ?m" "f_records f2 = []"
    using following_def [THEN iffD1, OF f] assms(2) by (auto simp: f2_def line_ok_def cur_of_def)
  have new: "new_lines ?m o0 (take ?o c) = new_lines ?m o0 ?s @ ls"
    using f new_lines_append [of o0 ?s ?m chunk] r unfolding taken following_def lens by simp
  have cur: "bounded ?m (trailing (take ?o c)) = cur"
    using f r unfolding taken following_def by (simp add: bounded_lines_append(2))
  have "benign L (new_lines ?m o0 (take ?o c))"
    using ok bound f by (intro benign_new_lines_prefix) (auto simp: following_def)
  then have b: "benign L (new_lines ?m o0 ?s)" "benign L ls"
    by (simp_all add: new)
  have run: "consume_chunk L f2 chunk = (None, add_records (with_cur f2 cur) (records_of L ls))"
    using consume_chunk_spec [OF ok2(1), of chunk cur ls L None "records_of L ls"] r b(2)
    by (simp add: ok2 lines_records_benign prod_eq_iff)
  have len: "length (records_of L ls) \<le> length chunk"
    using length_records_of [of L ls] length_line_run [of ?m "cur_of f" "[]" chunk] r by simp
  have keep: "case cur of None \<Rightarrow> True | Some p \<Rightarrow> length p \<le> ?m"
    using line_run_bound [of ?m "cur_of f" "[]" chunk] r f cur_of_bound [of f]
    by (auto simp: following_def split: option.splits)
  show ?thesis
  proof (intro exI conjI)
    show "following L ident o0 c (add_records (with_cur f2 cur) (records_of L ls)) out"
      using f bound new cur taken b keep assms(2)
      by (simp add: following_def f2_def records_of_append split: option.splits)
    show "work c (add_records (with_cur f2 cur) (records_of L ls)) < work c f"
      using len bound assms(2) \<open>chunk \<noteq> []\<close> length_greater_0_conv [of chunk]
      by (simp add: work_def f2_def del: length_greater_0_conv)
  qed (use run in \<open>simp_all add: f2_def\<close>)
qed

lemma poll_following:
  assumes f: "following L ident o0 c f out" and ok: "benign L (new_lines (f_max_line f) o0 c)"
  shows "\<exists>rs f'. poll L f (stable_env ident c) = (Inr rs, f')
    \<and> following L ident o0 c f' (out @ rs) \<and> f_max_line f' = f_max_line f
    \<and> (work c f' < work c f \<or> work c f = 0 \<and> rs = [] \<and> f' = f)"
proof (cases "f_records f = []")
  case False
  then show ?thesis
    using pop_following [OF f] by (auto simp: poll_def pop_records_def)
next
  case True
  let ?chunk = "read_at c (f_offset f) (min (f_max_read f) (length c - f_offset f))"
  let ?f2 = "f\<lparr>f_offset := f_offset f + length ?chunk, f_anchor := lastn 64 (f_anchor f @ ?chunk)\<rparr>"
  show ?thesis
  proof (cases "length c \<le> f_offset f")
    case le: True
    then have "poll L f (stable_env ident c) = (Inr [], f)"
      using True sync_following [OF f] by (simp add: poll_def stable_env_def)
    with f True le show ?thesis
      by (auto simp: work_def)
  next
    case False
    then have ne: "?chunk \<noteq> []"
      using f by (auto simp: read_at_def following_def)
    have p: "poll L f (stable_env ident c) =
        (case consume_chunk L ?f2 ?chunk of
           (Some e, f3) \<Rightarrow> (Inl e, f3)
         | (None, f3) \<Rightarrow> (Inr (fst (pop_records f3)), snd (pop_records f3)))"
      using True False ne sync_following [OF f]
      by (simp add: poll_def stable_env_def Let_def split: prod.splits option.splits)
    obtain f3 where "consume_chunk L ?f2 ?chunk = (None, f3)" "following L ident o0 c f3 out"
      "work c f3 < work c f" "f_max_line f3 = f_max_line f"
      using read_chunk [OF f True refl ne ok] by blast
    with p pop_following [of L ident o0 c f3 out] show ?thesis
      by (auto simp: pop_records_def)
  qed
qed

text \<open>Successive polls, each with what the file system answers then.\<close>

fun polls :: "py_limits \<Rightarrow> Follower \<Rightarrow> file_env list \<Rightarrow> (loads_exc + pydict list) list \<times> Follower"
  where
  "polls L f [] = ([], f)"
| "polls L f (env # envs) =
     (case poll L f env of
        (r, f1) \<Rightarrow> (case polls L f1 envs of (rs, f2) \<Rightarrow> (r # rs, f2)))"

lemma polls_following:
  assumes "following L ident o0 c f out" and "sorted_wrt prefix (c # cs)"
    and "benign L (new_lines (f_max_line f) o0 (last (c # cs)))"
  shows "\<exists>rss g. polls L f (map (stable_env ident) cs) = (map Inr rss, g)
    \<and> following L ident o0 (last (c # cs)) g (out @ concat rss) \<and> f_max_line g = f_max_line f"
  using assms
proof (induction cs arbitrary: c f out)
  case (Cons c1 cs)
  have f: "following L ident o0 c1 f out"
    using Cons.prems by (auto intro: following_grow)
  have "prefix c1 (last (c1 # cs))"
    using Cons.prems(2) by auto
  then have "benign L (new_lines (f_max_line f) o0 c1)"
    using Cons.prems(3) f benign_new_lines_prefix [of o0 "length c1" "last (c1 # cs)" L "f_max_line f"]
    by (auto simp: following_def prefix_def)
  from poll_following [OF f this] obtain rs f1 where
    p: "poll L f (stable_env ident c1) = (Inr rs, f1)" "following L ident o0 c1 f1 (out @ rs)"
    "f_max_line f1 = f_max_line f" by blast
  from Cons.IH [OF p(2)] Cons.prems p(3) obtain rss g where
    "polls L f1 (map (stable_env ident) cs) = (map Inr rss, g)"
    "following L ident o0 (last (c1 # cs)) g ((out @ rs) @ concat rss)" "f_max_line g = f_max_line f1"
    by auto
  with p show ?case
    by (intro exI [of _ "rs # rss"] exI [of _ g]) simp
qed auto

lemma polls_append:
  "polls L f (es @ es') =
    (case polls L f es of (rs, g) \<Rightarrow> (case polls L g es' of (rs', h) \<Rightarrow> (rs @ rs', h)))"
  by (induction es arbitrary: f) (auto split: prod.splits)

lemma following_work:
  assumes "following L ident o0 c f out"
  shows "work c f \<le> 3 * length c"
proof -
  let ?s = "take (f_offset f) c"
  have "length (bounded_lines (f_max_line f) ?s) \<le> length c"
    using length_line_run [of "f_max_line f" "Some []" "[]" ?s] by (simp add: line_run_spec)
  then have "length (records_of L (new_lines (f_max_line f) o0 ?s)) \<le> length c"
    using length_records_of [of L "new_lines (f_max_line f) o0 ?s"] by (simp add: new_lines_def)
  moreover have "length (f_records f) \<le> length (records_of L (new_lines (f_max_line f) o0 ?s))"
    using assms unfolding following_def by (metis length_append le_add2)
  ultimately show ?thesis
    by (simp add: work_def)
qed

lemma polls_finish:
  assumes "following L ident o0 c f out" and "benign L (new_lines (f_max_line f) o0 c)"
    and "work c f \<le> n"
  shows "\<exists>rss g. polls L f (replicate n (stable_env ident c)) = (map Inr rss, g)
    \<and> following L ident o0 c g (out @ concat rss) \<and> work c g = 0 \<and> f_max_line g = f_max_line f"
  using assms
proof (induction n arbitrary: f out)
  case (Suc n)
  from poll_following [OF Suc.prems(1,2)] obtain rs f1 where
    p: "poll L f (stable_env ident c) = (Inr rs, f1)" "following L ident o0 c f1 (out @ rs)"
    "f_max_line f1 = f_max_line f" "work c f1 \<le> n"
    using Suc.prems(3) by fastforce
  from Suc.IH [OF p(2)] Suc.prems p(3,4) obtain rss g where
    "polls L f1 (replicate n (stable_env ident c)) = (map Inr rss, g)"
    "following L ident o0 c g ((out @ rs) @ concat rss)" "work c g = 0" "f_max_line g = f_max_line f1"
    by auto
  with p show ?case
    by (intro exI [of _ "rs # rss"] exI [of _ g]) simp
qed auto

subsection \<open>Starting at the end of the file\<close>

lemma capture_spec:
  assumes "e \<le> length c" and "f_pending f = []" and "\<not> f_dropping f"
  shows "capture_trailing_partial f (Some c) e =
    with_cur f (bounded (f_max_line f) (trailing (take e c)))"
proof -
  let ?m = "f_max_line f"
  define suf where "suf = lastn (?m + 1) (take e c)"
  obtain pre where pre: "take e c = pre @ suf"
    by (metis append_take_drop_id lastn_def suf_def)
  have len: "length suf = min (?m + 1) e"
    using assms(1) by (simp add: suf_def)
  have read: "read_at c (e - min (?m + 1) e) (min (?m + 1) e) = suf"
    using assms(1) by (auto simp: read_at_def suf_def lastn_def drop_take min_def)
  have after: "after_last_newline suf = (if NL \<in> set suf then Some (trailing suf) else None)"
    by (simp add: after_last_newline_def trailing_rev)
  have same: "with_cur f (Some p) = f\<lparr>f_pending := p\<rparr>"
    "with_cur f None = f\<lparr>f_dropping := True\<rparr>" for p
    using assms(2,3) by (cases f; simp add: with_cur_def)+
  have cap: "capture_trailing_partial f (Some c) e =
      (if NL \<in> set suf then
         if ?m < length (trailing suf) then with_cur f None else with_cur f (Some (trailing suf))
       else if length suf < e \<or> ?m < length suf then with_cur f None else with_cur f (Some suf))"
    using assms(2) by (simp only: capture_trailing_partial_def Let_def read option.case after same)
      auto
  show ?thesis
  proof (cases "NL \<in> set suf")
    case True
    then have "length (trailing suf) \<le> ?m"
      using NL_shortens_trailing [OF True] len by simp
    with True show ?thesis
      by (simp add: cap pre trailing_append bounded_def)
  next
    case False
    have "length suf = ?m + 1" if "length suf < e"
      using that len by simp
    moreover have "pre = []" if "\<not> length suf < e"
      using that arg_cong [OF pre, of length] assms(1) by simp
    ultimately show ?thesis
      using False by (auto simp: cap pre trailing_append bounded_def no_NL)
  qed
qed

lemma new_follower_following:
  assumes "new_follower path from_start mr ml mx (stable_env ident c) = Some f"
  shows "following L ident (if from_start then 0 else length c) c f [] \<and> f_max_line f = nat ml
    \<and> work c f \<le> 2 * length c"
proof (cases "from_start \<or> c = []")
  case True
  with assms show ?thesis
    by (auto simp: new_follower_def f_initialize_def stable_env_def following_def line_ok_def
        cur_of_def bounded_def no_NL work_def bounded_lines_def split: if_splits)
next
  case False
  let ?f = "\<lparr>f_path = path, f_from_start = False, f_max_read = nat mr,
         f_max_line = nat ml, f_max_records = nat mx, f_offset = length c,
         f_identity = Some ident, f_anchor = lastn 64 c, f_pending = [], f_dropping = False,
         f_records = [], f_missing = False\<rparr>"
  have pos: "0 < mr" "0 < ml" "0 < mx"
    using assms by (auto simp: new_follower_def split: if_splits)
  have "f = capture_trailing_partial ?f (Some c) (length c)"
    using assms False pos
    by (auto simp: new_follower_def f_initialize_def stable_env_def read_anchor_lastn Let_def
        split: if_splits)
  then have "f = with_cur ?f (bounded (nat ml) (trailing c))"
    by (simp add: capture_spec)
  with False pos show ?thesis
    by (auto simp: following_def work_def bounded_def split: option.splits)
qed

subsection \<open>A replaced, truncated or rewritten file\<close>

lemma reset_following:
  "0 < f_max_read f \<Longrightarrow> 0 < f_max_records f \<Longrightarrow>
    following L ident 0 c ((f_reset f)\<lparr>f_identity := Some ident\<rparr>) []"
  by (simp add: following_def f_reset_def line_ok_def cur_of_def bounded_def no_NL bounded_lines_def)

text \<open>The file is not the one the follower read: another inode, shorter, or other bytes before
  the offset.\<close>

definition replaced :: "Follower \<Rightarrow> int \<times> int \<Rightarrow> bytes \<Rightarrow> bool" where
  "replaced f ident c \<longleftrightarrow>
     f_identity f \<noteq> None
     \<and> (f_identity f \<noteq> Some ident \<or> length c < f_offset f
        \<or> 0 < f_offset f \<and> f_anchor f \<noteq> lastn 64 (take (f_offset f) c))"

lemma poll_replaced:
  assumes "f_records f = []" and "replaced f ident c" and "0 < f_max_read f" "0 < f_max_records f"
  shows "poll L f (stable_env ident c) =
    poll L ((f_reset f)\<lparr>f_identity := Some ident\<rparr>) (stable_env ident c)"
proof -
  let ?st = "\<lparr>st_dev = fst ident, st_ino = snd ident, st_size = length c\<rparr>"
  let ?g = "(f_reset f)\<lparr>f_identity := Some ident\<rparr>"
  have "sync_file f (stable_env ident c) ?st = ?g"
    using assms(2)
    by (cases f) (auto simp: replaced_def sync_file_def stable_env_def f_reset_def read_anchor_lastn)
  moreover have "sync_file ?g (stable_env ident c) ?st = ?g"
    using sync_following [OF reset_following [OF assms(3,4)]] .
  moreover have "f_records ?g = []"
    by (simp add: f_reset_def)
  ultimately show ?thesis
    using assms(1) by (simp add: poll_def stable_env_def)
qed

subsection \<open>What every call keeps\<close>

definition f_inv :: "Follower \<Rightarrow> bool" where
  "f_inv f \<longleftrightarrow>
     length (f_pending f) \<le> min (f_max_line f) (f_offset f)
     \<and> length (f_anchor f) \<le> min 64 (f_offset f)
     \<and> length (f_records f) \<le> f_max_read f
     \<and> (f_identity f = None \<longrightarrow> f_pending f = [] \<and> f_anchor f = [])"

definition same_config :: "Follower \<Rightarrow> Follower \<Rightarrow> bool" where
  "same_config f g \<longleftrightarrow> f_path g = f_path f \<and> f_from_start g = f_from_start f
     \<and> f_max_read g = f_max_read f \<and> f_max_line g = f_max_line f
     \<and> f_max_records g = f_max_records f"

lemma consume_chunk_frame:
  "\<exists>p d rs. snd (consume_chunk L f c) = f\<lparr>f_pending := p, f_dropping := d, f_records := f_records f @ rs\<rparr>
    \<and> length p \<le> length (f_pending f) + length c \<and> length rs \<le> length c
    \<and> (length (f_pending f) \<le> f_max_line f \<longrightarrow> length p \<le> f_max_line f)"
proof (induction c arbitrary: f rule: line_induct)
  case (part s)
  show ?case
  proof (cases "s = []")
    case True
    then show ?thesis
      by (intro exI [of _ "f_pending f"] exI [of _ "f_dropping f"] exI [of _ "[]"]) simp
  next
    case False
    with part have "consume_chunk L f s = (if f_dropping f then (None, f)
         else if f_max_line f < length (f_pending f) + length s then
           (None, f\<lparr>f_pending := [], f_dropping := True\<rparr>)
         else (None, f\<lparr>f_pending := f_pending f @ s\<rparr>))"
      by (subst consume_chunk.simps) simp
    then show ?thesis
      by (cases f) auto
  qed
next
  case (line l r)
  obtain x ds where x: "lines_records L (line_out f l) = (x, ds)" by fastforce
  have len: "length ds \<le> 1"
    using x length_records_of [of L "line_out f l"] by (auto simp: line_out_def records_of_def split: if_splits)
  show ?case
  proof (cases x)
    case None
    let ?g = "add_records (with_cur f (Some [])) ds"
    obtain p d rs where g: "snd (consume_chunk L ?g r) =
        ?g\<lparr>f_pending := p, f_dropping := d, f_records := f_records ?g @ rs\<rparr>"
      "length p \<le> length (f_pending ?g) + length r" "length rs \<le> length r"
      "length (f_pending ?g) \<le> f_max_line ?g \<longrightarrow> length p \<le> f_max_line ?g"
      using line.IH [of ?g] by blast
    show ?thesis
      using g len x None
      by (intro exI [of _ p] exI [of _ d] exI [of _ "ds @ rs"])
        (auto simp: consume_chunk_line [OF line.hyps] add_records_def with_cur_def)
  next
    case (Some e)
    then show ?thesis
      using x by (intro exI [of _ "f_pending f"] exI [of _ "f_dropping f"] exI [of _ "[]"])
        (simp add: consume_chunk_line [OF line.hyps])
  qed
qed

lemma sync_file_inv:
  "f_inv f \<Longrightarrow> f_inv (sync_file f env st) \<and> same_config f (sync_file f env st)
    \<and> f_identity (sync_file f env st) \<noteq> None"
  by (auto simp: f_inv_def sync_file_def Let_def f_reset_def same_config_def)

lemma pop_inv: "f_inv f \<Longrightarrow> f_inv (snd (pop_records f)) \<and> same_config f (snd (pop_records f))"
  by (auto simp: f_inv_def pop_records_def same_config_def)

lemma poll_inv: "f_inv f \<Longrightarrow> f_inv (snd (poll L f env)) \<and> same_config f (snd (poll L f env))"
proof (cases "f_records f = [] \<and> env_stat env \<noteq> None \<and> env_is_file env")
  case True
  then obtain st where st: "env_stat env = Some st" by blast
  assume f: "f_inv f"
  define f1 where "f1 = sync_file f env st"
  have f1: "f_inv f1" "same_config f f1" "f_identity f1 \<noteq> None" "f_records f1 = []"
    using sync_file_inv [OF f, of env st] True
    by (auto simp: f1_def sync_file_def Let_def f_reset_def)
  show ?thesis
  proof (cases "env_data env = None \<or> st_size st \<le> f_offset f1
      \<or> read_at (the (env_data env)) (f_offset f1) (min (f_max_read f1) (st_size st - f_offset f1)) = []")
    case stop: True
    with True st f1 show ?thesis
      by (cases "env_data env") (auto simp: poll_def Let_def f1_def [symmetric])
  next
    case False
    then obtain content where content: "env_data env = Some content" by auto
    define chunk where "chunk = read_at content (f_offset f1) (min (f_max_read f1) (st_size st - f_offset f1))"
    define f2 where "f2 = f1\<lparr>f_offset := f_offset f1 + length chunk, f_anchor := lastn 64 (f_anchor f1 @ chunk)\<rparr>"
    obtain e f3 where r: "consume_chunk L f2 chunk = (e, f3)" by fastforce
    have p: "snd (poll L f env) = (case e of None \<Rightarrow> snd (pop_records f3) | Some x \<Rightarrow> f3)"
      using True st False content r
      by (simp add: poll_def Let_def f1_def [symmetric] chunk_def [symmetric] f2_def [symmetric]
          split: option.splits prod.splits)
    have len: "length chunk \<le> f_max_read f1"
      by (simp add: chunk_def read_at_def)
    obtain p d rs where f3: "f3 = f2\<lparr>f_pending := p, f_dropping := d, f_records := f_records f2 @ rs\<rparr>"
      "length p \<le> length (f_pending f2) + length chunk" "length rs \<le> length chunk"
      "length (f_pending f2) \<le> f_max_line f2 \<longrightarrow> length p \<le> f_max_line f2"
      using consume_chunk_frame [of L f2 chunk] r by auto
    have inv3: "f_inv f3" "same_config f f3"
      using f1 f3 len by (auto simp: f_inv_def f2_def same_config_def)
    with pop_inv [OF inv3(1)] show ?thesis
      unfolding p by (auto simp: same_config_def split: option.splits)
  qed
next
  case False
  assume "f_inv f"
  with False pop_inv [of f] show ?thesis
    by (auto simp: poll_def same_config_def pop_records_def split: option.splits)
qed

lemma polls_inv: "f_inv f \<Longrightarrow> f_inv (snd (polls L f envs)) \<and> same_config f (snd (polls L f envs))"
proof (induction envs arbitrary: f)
  case (Cons env envs)
  obtain r f1 where p: "poll L f env = (r, f1)" by fastforce
  with poll_inv [OF Cons.prems, of L env] Cons.IH [of f1] show ?case
    by (auto simp: same_config_def split: prod.splits)
qed (simp add: same_config_def)

lemma poll_size: "poll L f env = (Inr ds, g) \<Longrightarrow> length ds \<le> f_max_records f"
proof -
  have sync: "f_max_records (sync_file f env st) = f_max_records f" for st
    by (simp add: sync_file_def Let_def f_reset_def)
  have chunk: "f_max_records f3 = f_max_records f2" if "consume_chunk L f2 c = (x, f3)" for f2 c x f3
    using consume_chunk_frame [of L f2 c] that by auto
  show "poll L f env = (Inr ds, g) \<Longrightarrow> ?thesis"
    by (auto simp: poll_def pop_records_def Let_def sync
        split: if_splits option.splits prod.splits dest!: chunk)
qed

lemma polls_sizes:
  "f_inv f \<Longrightarrow> Inr ds \<in> set (fst (polls L f envs)) \<Longrightarrow> length ds \<le> f_max_records f"
proof (induction envs arbitrary: f)
  case (Cons env envs)
  obtain r f1 where p: "poll L f env = (r, f1)" by fastforce
  with poll_inv [OF Cons.prems(1), of L env] Cons.prems Cons.IH [of f1] poll_size [of L f env ds f1]
  show ?case
    by (auto simp: same_config_def split: prod.splits)
qed simp

lemma capture_cases:
  "capture_trailing_partial g d e = g \<or> capture_trailing_partial g d e = g\<lparr>f_dropping := True\<rparr>
    \<or> (\<exists>s. length s \<le> min (f_max_line g) e
          \<and> capture_trailing_partial g d e = g\<lparr>f_pending := f_pending g @ s\<rparr>)"
proof (cases d)
  case (Some content)
  define t where "t = read_at content (e - min (f_max_line g + 1) e) (min (f_max_line g + 1) e)"
  have len: "length t \<le> e"
    by (simp add: t_def read_at_def)
  have after: "length s \<le> length t" if "after_last_newline t = Some s" for s
    using that length_trailing [of t] by (auto simp: after_last_newline_def trailing_rev split: if_splits)
  have gen: "X = g \<or> X = A \<or> (\<exists>s. length s \<le> min m e \<and> X = B s)"
    if "X = (case after_last_newline t of
         Some s \<Rightarrow> if m < length s then A else B s
       | None \<Rightarrow> if length t < e then A else if m < length t then A else B t)" for X A B m
  proof (cases "after_last_newline t")
    case None
    with that len show ?thesis
      by (cases "length t < e \<or> m < length t") (auto intro: exI [of _ t])
  next
    case (Some s)
    with that len after [OF Some] show ?thesis
      by (cases "m < length s") (auto intro!: exI [of _ s])
  qed
  have "capture_trailing_partial g d e =
      (case after_last_newline t of
         Some s \<Rightarrow> if f_max_line g < length s then g\<lparr>f_dropping := True\<rparr>
           else g\<lparr>f_pending := f_pending g @ s\<rparr>
       | None \<Rightarrow> if length t < e then g\<lparr>f_dropping := True\<rparr>
           else if f_max_line g < length t then g\<lparr>f_dropping := True\<rparr>
           else g\<lparr>f_pending := f_pending g @ t\<rparr>)"
    by (simp only: capture_trailing_partial_def Let_def Some option.case t_def)
  from gen [OF this] show ?thesis .
qed (simp add: capture_trailing_partial_def Let_def)

lemma new_follower_inv:
  assumes "new_follower path fs mr ml mx env = Some f"
  shows "f_inv f \<and> f_path f = path \<and> f_from_start f = fs \<and> f_max_read f = nat mr
    \<and> f_max_line f = nat ml \<and> f_max_records f = nat mx"
proof -
  have part: "f_inv (capture_trailing_partial g d e) \<and> same_config g (capture_trailing_partial g d e)"
    if "f_inv g" "f_pending g = []" "f_offset g = e" "f_identity g \<noteq> None" for g d e
    using capture_cases [of g d e] that by (auto simp: f_inv_def same_config_def)
  have anchor: "length (read_anchor d e) \<le> min 64 e" for d e
    by (auto simp: read_anchor_def read_at_def Let_def split: option.splits)
  obtain g where g: "f = f_initialize g env" "f_pending g = []" "f_anchor g = []" "f_records g = []"
    "f_identity g = None" "f_path g = path" "f_from_start g = fs" "f_max_read g = nat mr"
    "f_max_line g = nat ml" "f_max_records g = nat mx"
    using new_follower_def [of path fs mr ml mx env] assms by (simp split: if_splits)
  have "f_inv f \<and> same_config g f"
  proof (cases "env_stat env = None \<or> \<not> env_is_file env")
    case True
    with g(1-5) show ?thesis
      by (auto simp: f_initialize_def f_inv_def same_config_def split: option.splits)
  next
    case False
    then obtain st where st: "env_stat env = Some st" "env_is_file env" by auto
    define off where "off = (if f_from_start g then 0 else st_size st)"
    define h where "h = g\<lparr>f_identity := Some (st_dev st, st_ino st), f_offset := off\<rparr>"
    have f: "f = (if off = 0 then h
        else capture_trailing_partial (h\<lparr>f_anchor := read_anchor (env_anchor env) off\<rparr>) (env_data env) off)"
      using g(1) st by (simp add: f_initialize_def Let_def off_def h_def)
    have "f_inv h" "f_inv (h\<lparr>f_anchor := read_anchor (env_anchor env) off\<rparr>)"
      using g anchor [of "env_anchor env" off] by (simp_all add: h_def f_inv_def)
    moreover have "same_config g h" "same_config h x \<Longrightarrow> same_config g x"
      "same_config (h\<lparr>f_anchor := a\<rparr>) x = same_config h x" "f_pending h = []" "f_offset h = off"
      "f_identity h \<noteq> None" for x a
      using g(2) by (simp_all add: h_def same_config_def)
    ultimately show ?thesis
      using part [of "h\<lparr>f_anchor := read_anchor (env_anchor env) off\<rparr>" off "env_data env"]
      unfolding f by simp
  qed
  with g show ?thesis
    by (simp add: same_config_def)
qed

lemma restore_export:
  assumes "f_inv f" and "same_config f g"
  shows "restore_checkpoint g (PDict (export_checkpoint f)) = Some f"
proof -
  have "identity_of (case f_identity f of None \<Rightarrow> PNone | Some (d, i) \<Rightarrow> PTuple [PInt d, PInt i]) =
      Some (f_identity f)"
    by (auto simp: identity_of_def split: option.splits)
  moreover have "those_map mapping_items (map PDict (f_records f)) = Some (f_records f)"
    by (rule those_map_map) simp
  ultimately show ?thesis
    using assms by (cases f) (simp add: restore_checkpoint_def export_checkpoint_def f_inv_def
        same_config_def not_less)
qed

subsection \<open>Properties\<close>

text \<open>
  C1: The follower loses, repeats and reorders nothing. Whatever the sizes of the reads and
  however the writer's appends fall between the polls, at every moment the records returned so
  far followed by those still queued are exactly the objects on the lines (within the line
  bound) that the bytes read so far complete after the starting point, in file order. The
  starting point is the beginning of the file with \<open>from_start\<close> and its end otherwise; no
  poll raises as long as no new line exhausts the parser.
\<close>

theorem follower_lossless:
  assumes "new_follower path from_start mr ml mx (stable_env ident c0) = Some f"
    and "sorted_wrt prefix (c0 # cs)"
    and "benign L (new_lines (nat ml) (if from_start then 0 else length c0) (last (c0 # cs)))"
  shows "\<exists>rss g. polls L f (map (stable_env ident) cs) = (map Inr rss, g)
    \<and> concat rss @ f_records g = records_of L
        (new_lines (nat ml) (if from_start then 0 else length c0) (take (f_offset g) (last (c0 # cs))))"
  using polls_following [of L ident _ c0 f "[]" cs] new_follower_following [OF assms(1), of L]
    assms(2,3)
  by (fastforce simp: following_def)

text \<open>
  C14: The follower catches up: once the writer pauses, a number of polls linear in the file's
  length returns every record of the new lines, and nothing stays queued.
\<close>

theorem follower_catches_up:
  assumes "new_follower path from_start mr ml mx (stable_env ident c0) = Some f"
    and "sorted_wrt prefix (c0 # cs)" and "c = last (c0 # cs)"
    and "benign L (new_lines (nat ml) (if from_start then 0 else length c0) c)"
    and "3 * length c \<le> n"
  shows "\<exists>rss g.
    polls L f (map (stable_env ident) cs @ replicate n (stable_env ident c)) = (map Inr rss, g)
    \<and> concat rss = records_of L (new_lines (nat ml) (if from_start then 0 else length c0) c)
    \<and> f_records g = [] \<and> f_offset g = length c"
proof -
  let ?o = "if from_start then 0 else length c0"
  obtain rss g where g: "polls L f (map (stable_env ident) cs) = (map Inr rss, g)"
    "following L ident ?o c g (concat rss)" "f_max_line g = nat ml"
    using polls_following [of L ident ?o c0 f "[]" cs] new_follower_following [OF assms(1), of L]
      assms(2-4) by auto
  have "work c g \<le> n"
    using following_work [OF g(2)] assms(5) by simp
  from polls_finish [OF g(2) _ this] obtain rss' h where
    h: "polls L g (replicate n (stable_env ident c)) = (map Inr rss', h)"
    "following L ident ?o c h (concat rss @ concat rss')" "work c h = 0" "f_max_line h = nat ml"
    using assms(4) g(3) by auto
  then have "f_offset h = length c" "f_records h = []"
    by (auto simp: work_def following_def)
  with g(1) h show ?thesis
    by (intro exI [of _ "rss @ rss'"] exI [of _ h]) (simp add: polls_append following_def)
qed

text \<open>
  A file that was replaced, truncated or rewritten (another inode, fewer bytes than already
  read, or other bytes in front of the offset) is read again from its beginning: the polls that
  follow return exactly the objects on its lines, none of the old file's state leaks into them.
\<close>

theorem follower_restarts:
  assumes "replaced f ident c" and "f_records f = []" and "0 < f_max_read f" "0 < f_max_records f"
    and "benign L (bounded_lines (f_max_line f) c)" and "3 * length c < n"
  shows "\<exists>rss g. polls L f (replicate n (stable_env ident c)) = (map Inr rss, g)
    \<and> concat rss = records_of L (bounded_lines (f_max_line f) c) \<and> f_records g = []
    \<and> f_offset g = length c \<and> f_identity g = Some ident"
proof -
  let ?g = "(f_reset f)\<lparr>f_identity := Some ident\<rparr>"
  have f: "following L ident 0 c ?g []" and m: "f_max_line ?g = f_max_line f"
    using reset_following assms(3,4) by (auto simp: f_reset_def)
  have "polls L f (replicate n (stable_env ident c)) = polls L ?g (replicate n (stable_env ident c))"
    using assms(6) poll_replaced [OF assms(2,1,3,4)] by (cases n) simp_all
  moreover obtain rss h where "polls L ?g (replicate n (stable_env ident c)) = (map Inr rss, h)"
    "following L ident 0 c h (concat rss)" "work c h = 0" "f_max_line h = f_max_line f"
    using polls_finish [OF f, of n] following_work [OF f] assms(5,6) m by auto
  ultimately show ?thesis
    by (intro exI [of _ rss] exI [of _ h]) (auto simp: following_def work_def)
qed

text \<open>
  C23: Whatever the file system answered and whatever was polled (also when a poll raised), a
  follower's checkpoint is accepted by a new follower of the same path and bounds and gives it
  exactly the exporting follower's state, so that it continues where the other stopped.
\<close>

theorem checkpoint_roundtrip:
  assumes "new_follower path fs mr ml mx env0 = Some f0" and "polls L f0 envs = (rs, f)"
    and "new_follower path fs mr ml mx env1 = Some g"
  shows "restore_checkpoint g (PDict (export_checkpoint f)) = Some f"
proof (rule restore_export)
  show "f_inv f" "same_config f g"
    using polls_inv [of f0 L envs] new_follower_inv [OF assms(1)] new_follower_inv [OF assms(3)]
      assms(2) by (auto simp: same_config_def)
qed

text \<open>
  C24: The storage of a follower is bounded in every state it can reach: the current line by the
  line bound, the anchor by 64 bytes, the queued records by the read bound, and one poll returns
  at most \<open>max_records\<close> of them.
\<close>

theorem follower_bounded:
  assumes "new_follower path fs mr ml mx env0 = Some f0" and "polls L f0 envs = (rs, f)"
  shows "length (f_pending f) \<le> nat ml \<and> length (f_anchor f) \<le> 64
    \<and> length (f_records f) \<le> nat mr \<and> (\<forall>ds. Inr ds \<in> set rs \<longrightarrow> length ds \<le> nat mx)"
proof (intro conjI)
  note f0 = new_follower_inv [OF assms(1)]
  then have f: "f_inv f" "same_config f0 f"
    using polls_inv [of f0 L envs] assms(2) by auto
  with f0 show "length (f_pending f) \<le> nat ml" "length (f_anchor f) \<le> 64"
    "length (f_records f) \<le> nat mr"
    by (auto simp: f_inv_def same_config_def)
  show "\<forall>ds. Inr ds \<in> set rs \<longrightarrow> length ds \<le> nat mx"
    using polls_sizes [of f0 _ L envs] f0 assms(2) by auto
qed

text \<open>
  C25: A line that exhausts the parser is not skipped like other unreadable lines: \<open>poll\<close> raises
  after the offset and the anchor have moved past the whole chunk, and what follows that line
  in the chunk is never parsed, while the records before it stay queued.
\<close>

theorem poll_raise_skips_chunk:
  assumes "following L ident o0 c f out" and "f_records f = []"
    and "chunk = read_at c (f_offset f) (min (f_max_read f) (length c - f_offset f))"
    and "chunk \<noteq> []"
    and "lines_records L (snd (line_run (f_max_line f) (cur_of f, []) chunk)) = (Some e, ds)"
  shows "\<exists>f'. poll L f (stable_env ident c) = (Inl e, f')
    \<and> f_offset f' = f_offset f + length chunk \<and> f_records f' = ds"
proof -
  let ?f2 = "f\<lparr>f_offset := f_offset f + length chunk, f_anchor := lastn 64 (f_anchor f @ chunk)\<rparr>"
  have ok: "line_ok ?f2" "cur_of ?f2 = cur_of f"
    using assms(1) by (auto simp: following_def line_ok_def cur_of_def)
  obtain x f3 where r: "consume_chunk L ?f2 chunk = (x, f3)" by fastforce
  then have f3: "x = Some e" "f_records f3 = ds"
    using consume_chunk_spec [OF ok(1), of chunk _ _ L "Some e" ds] assms(2,5) ok(2)
    by (auto simp: prod_eq_iff)
  have "f_offset f3 = f_offset f + length chunk"
    using consume_chunk_frame [of L ?f2 chunk] r by auto
  moreover have "poll L f (stable_env ident c) = (Inl e, f3)"
    using assms(2-4) sync_following [OF assms(1)] r f3
    by (auto simp: poll_def stable_env_def Let_def read_at_def)
  ultimately show ?thesis
    using f3 by blast
qed


subsection \<open>Examples\<close>

definition ex_limits :: py_limits where
  "ex_limits = \<lparr>py_recursion = 1, py_int_digits = 4300\<rparr>"

lemmas ex_eval = line_record_def line_value_def is_blank_def is_bytes_ws_def as_dict_def
  ex_limits_def decode_replace_ascii json_eval

lemma ex_object: "line_record ex_limits [123, 125] = Inr (Some [])"
  by (simp add: ex_eval)

lemma ex_deep: "line_record ex_limits [91, 91] = Inl RecursionError"
  by (simp add: ex_eval)

lemma ex_lines:
  "new_lines 8 0 [123] = []" "new_lines 8 0 [123, 125, 10] = [[123, 125]]"
  "bounded_lines 8 [123, 125, 10] = [[123, 125]]"
  by (simp_all add: new_lines_def bounded_lines_def complete_lines_def)

definition ex_follower :: Follower where
  "ex_follower = \<lparr>f_path = py ''t.jsonl'', f_from_start = False, f_max_read = 2, f_max_line = 8,
     f_max_records = 1, f_offset = 0, f_identity = Some (1, 2), f_anchor = [], f_pending = [],
     f_dropping = False, f_records = [], f_missing = False\<rparr>"

lemma ex_new: "new_follower (py ''t.jsonl'') False 2 8 1 (stable_env (1, 2) []) = Some ex_follower"
  by (simp add: new_follower_def ex_follower_def f_initialize_def stable_env_def)

lemma ex_benign: "benign ex_limits [[123, 125]]"
  by (simp add: benign_single ex_object)

theorem follower_lossless_witness:
  "\<exists>rss g. polls ex_limits ex_follower [stable_env (1, 2) [123], stable_env (1, 2) [123, 125, 10]] =
      (map Inr rss, g)
    \<and> concat rss @ f_records g = records_of ex_limits (new_lines 8 0 (take (f_offset g) [123, 125, 10]))"
  using follower_lossless [OF ex_new, of "[[123], [123, 125, 10]]" ex_limits]
  by (simp add: ex_lines ex_benign)

theorem follower_catches_up_witness:
  "\<exists>rss g. polls ex_limits ex_follower
      ([stable_env (1, 2) [123], stable_env (1, 2) [123, 125, 10]]
        @ replicate 9 (stable_env (1, 2) [123, 125, 10])) = (map Inr rss, g)
    \<and> concat rss = [[]] \<and> f_records g = [] \<and> f_offset g = 3"
  using follower_catches_up [OF ex_new, of "[[123], [123, 125, 10]]" "[123, 125, 10]" ex_limits 9]
  by (simp add: numeral_3_eq_3 ex_lines ex_benign records_of_single [OF ex_object])

lemma ex_replaced: "replaced ex_follower (1, 3) c" "f_records ex_follower = []"
  "0 < f_max_read ex_follower" "0 < f_max_records ex_follower" "f_max_line ex_follower = 8"
  by (simp_all add: replaced_def ex_follower_def)

theorem follower_restarts_witness:
  "\<exists>rss g. polls ex_limits ex_follower (replicate 10 (stable_env (1, 3) [123, 125, 10])) = (map Inr rss, g)
    \<and> concat rss = [[]] \<and> f_records g = [] \<and> f_offset g = 3 \<and> f_identity g = Some (1, 3)"
  using follower_restarts [of ex_follower "(1, 3)" "[123, 125, 10]" ex_limits 10]
  by (simp add: numeral_3_eq_3 ex_replaced ex_lines ex_benign records_of_single [OF ex_object])

theorem checkpoint_roundtrip_witness:
  "restore_checkpoint ex_follower (PDict (export_checkpoint
     (snd (polls ex_limits ex_follower [stable_env (1, 2) [123]])))) =
   Some (snd (polls ex_limits ex_follower [stable_env (1, 2) [123]]))"
  using checkpoint_roundtrip [OF ex_new _ ex_new,
      of ex_limits "[stable_env (1, 2) [123]]" "fst (polls ex_limits ex_follower [stable_env (1, 2) [123]])"]
  by (metis prod.collapse)

theorem follower_bounded_witness:
  "length (f_pending (snd (polls ex_limits ex_follower [stable_env (1, 2) [123, 125]]))) \<le> 8"
  using follower_bounded [OF ex_new, of ex_limits "[stable_env (1, 2) [123, 125]]"
      "fst (polls ex_limits ex_follower [stable_env (1, 2) [123, 125]])"]
  by (simp add: prod_eq_iff)

lemma ex_following: "following ex_limits (1, 2) 0 [91, 91, 10, 123, 125, 10] (ex_follower\<lparr>f_max_read := 9\<rparr>) []"
  by (simp add: following_def ex_follower_def line_ok_def cur_of_def bounded_def no_NL new_lines_def
      bounded_lines_def)

theorem poll_raise_skips_chunk_witness:
  "\<exists>f'. poll ex_limits (ex_follower\<lparr>f_max_read := 9\<rparr>) (stable_env (1, 2) [91, 91, 10, 123, 125, 10]) =
      (Inl RecursionError, f') \<and> f_offset f' = 6 \<and> f_records f' = []"
  using poll_raise_skips_chunk [OF ex_following, of _ RecursionError "[]"]
  by (simp add: ex_follower_def read_at_def line_byte_def cur_of_def ex_deep) (simp add: numeral_eq_Suc)

end
