(* ===== verification/Session_Tailer.thy ===== *)
theory Session_Tailer
  imports Tail Model
begin

text \<open>
  One session's tailer (\<open>SessionTailer\<close> of \<open>sidecar/tail.py\<close>): it maps the records of a JSONL
  follower, of a Cursor chat follower or of a bounded DSH replay through the session's adapter.

  \<^item> The adapter and the Cursor chat follower are objects the class calls through their methods;
    they are records of functions here (\<open>adapter\<close>, \<open>'c cursor_ops\<close>). A method that raises
    returns \<open>Inl\<close> with the text of the exception (its class name for \<open>CursorChatError\<close>).
  \<^item> \<open>poll_env\<close> is what the outside answers during one call: the file system for the JSONL
    follower, the \<open>stat\<close> signature of a DSH transcript (\<open>None\<close> for an \<open>OSError\<close> or a file that
    is not regular), and the adapter's \<open>replay\<close> method on the transcript as it is then.
  \<^item> \<open>normalize\<close> may yield objects that are not events; they are \<open>None\<close> in its result.
\<close>

record adapter =
  ad_name :: pystr
  ad_normalize :: "pydict \<Rightarrow> Session \<Rightarrow> pystr + Event option list"
  ad_can_replay :: bool

record 'c cursor_ops =
  co_new :: "pystr \<Rightarrow> bool \<Rightarrow> int \<Rightarrow> 'c"
  co_poll :: "'c \<Rightarrow> (pystr + pyval list) \<times> 'c"
  co_last_error :: "'c \<Rightarrow> pystr option"
  co_export :: "'c \<Rightarrow> pydict"
  co_restore :: "'c \<Rightarrow> pydict \<Rightarrow> 'c option"
  co_has_pending :: "'c \<Rightarrow> bool"

record poll_env =
  pe_file :: file_env
  pe_signature :: "int list option"
  pe_replay :: "int option \<Rightarrow> int \<Rightarrow> pystr + pyval list"

datatype 'c any_follower = JsonlFollower Follower | ChatFollower 'c

record 'c SessionTailer =
  t_session :: Session
  t_adapter :: adapter
  t_from_start :: bool
  t_max_records :: int
  t_errors :: "pystr list"
  t_cursor_error_class :: "pystr option"
  t_is_dsh :: bool
  t_is_cursor_chat :: bool
  t_dsh_initialized :: bool
  t_last_seq :: "int option"
  t_page_pending :: bool
  t_force_replay :: bool
  t_signature :: "int list option"
  t_follower :: "'c any_follower option"

definition MAX_TAILER_DIAGNOSTICS :: nat where
  "MAX_TAILER_DIAGNOSTICS = 16"

definition append_diagnostic :: "'c SessionTailer \<Rightarrow> pystr \<Rightarrow> 'c SessionTailer" where
  "append_diagnostic t d = t\<lparr>t_errors := lastn MAX_TAILER_DIAGNOSTICS (t_errors t @ [d])\<rparr>"

definition record_cursor_error :: "'c SessionTailer \<Rightarrow> pystr \<Rightarrow> 'c SessionTailer" where
  "record_cursor_error t cls =
     (if Some cls = t_cursor_error_class t then t
      else append_diagnostic (t\<lparr>t_cursor_error_class := Some cls\<rparr>) cls)"

definition poll_cursor_records ::
  "'c cursor_ops \<Rightarrow> 'c SessionTailer \<Rightarrow> pydict list \<times> 'c SessionTailer" where
  "poll_cursor_records ops t =
     (case t_follower t of
        Some (ChatFollower c) \<Rightarrow>
          (case co_poll ops c of
             (Inl cls, c') \<Rightarrow> ([], record_cursor_error (t\<lparr>t_follower := Some (ChatFollower c')\<rparr>) cls)
           | (Inr records, c') \<Rightarrow>
               (let t1 = t\<lparr>t_follower := Some (ChatFollower c')\<rparr>;
                    t2 = (case co_last_error ops c' of
                            Some cls \<Rightarrow> record_cursor_error t1 cls
                          | None \<Rightarrow> t1\<lparr>t_cursor_error_class := None\<rparr>)
                in (List.map_filter mapping_items records, t2)))
      | _ \<Rightarrow> ([], t))"

definition normalize_record :: "'c SessionTailer \<Rightarrow> pydict \<Rightarrow> Event list \<times> 'c SessionTailer" where
  "normalize_record t r =
     (case ad_normalize (t_adapter t) r (t_session t) of
        Inl diagnostic \<Rightarrow> ([], append_diagnostic t diagnostic)
      | Inr items \<Rightarrow> (List.map_filter id items, t))"

fun normalize_all :: "'c SessionTailer \<Rightarrow> pydict list \<Rightarrow> Event list \<times> 'c SessionTailer" where
  "normalize_all t [] = ([], t)"
| "normalize_all t (r # rs) =
     (case normalize_record t r of
        (es, t1) \<Rightarrow> (case normalize_all t1 rs of (es', t2) \<Rightarrow> (es @ es', t2)))"

definition tailer_has_pending :: "'c cursor_ops \<Rightarrow> 'c SessionTailer \<Rightarrow> bool" where
  "tailer_has_pending ops t =
     (if t_is_dsh t then t_page_pending t
      else case t_follower t of
             None \<Rightarrow> False
           | Some (JsonlFollower f) \<Rightarrow> has_pending_records f
           | Some (ChatFollower c) \<Rightarrow> co_has_pending ops c)"

definition single_poll_per_refresh :: "'c SessionTailer \<Rightarrow> bool" where
  "single_poll_per_refresh t \<longleftrightarrow> t_is_dsh t \<or> t_is_cursor_chat t"

text \<open>\<open>_sequence\<close>: the integer \<open>seq\<close> of a record.\<close>

definition sequence_of :: "pydict \<Rightarrow> int option" where
  "sequence_of r = strict_int (dget r ''seq'')"

subsection \<open>Polling\<close>

text \<open>
  The loop over one replay page. \<open>newest\<close> is the highest sequence accepted so far; a record is
  accepted when its sequence is above it, and its events are kept once the tailer has a baseline.
\<close>

fun dsh_page ::
  "'c SessionTailer \<Rightarrow> int option \<Rightarrow> pyval list \<Rightarrow> Event list \<times> int option \<times> 'c SessionTailer" where
  "dsh_page t newest [] = ([], newest, t)"
| "dsh_page t newest (v # vs) =
     (case mapping_items v of
        None \<Rightarrow> dsh_page t newest vs
      | Some r \<Rightarrow>
          (case sequence_of r of
             None \<Rightarrow> dsh_page t newest vs
           | Some seq \<Rightarrow>
               if newest \<noteq> None \<and> seq \<le> the newest then dsh_page t newest vs
               else
                 (case (if t_dsh_initialized t then normalize_record t r else ([], t)) of
                    (es, t1) \<Rightarrow>
                      (case dsh_page t1 (Some seq) vs of
                         (es', newest', t2) \<Rightarrow> (es @ es', newest', t2)))))"

definition poll_dsh :: "'c SessionTailer \<Rightarrow> poll_env \<Rightarrow> Event list \<times> 'c SessionTailer" where
  "poll_dsh t env =
     (let signature = pe_signature env in
      if \<not> t_force_replay t \<and> \<not> t_page_pending t \<and> signature \<noteq> None
         \<and> signature = t_signature t then ([], t)
      else
        (let t1 = t\<lparr>t_page_pending := False\<rparr> in
         case pe_replay env (t_last_seq t1) (t_max_records t1) of
           Inl diagnostic \<Rightarrow> ([], (append_diagnostic t1 diagnostic)\<lparr>t_force_replay := True\<rparr>)
         | Inr records \<Rightarrow>
             (let t2 = t1\<lparr>t_signature := signature, t_force_replay := False\<rparr>;
                  previous = t_last_seq t2
              in case dsh_page t2 previous records of
                   (events, newest, t3) \<Rightarrow>
                     (events,
                      t3\<lparr>t_last_seq := newest, t_dsh_initialized := True,
                         t_page_pending := (t_max_records t3 \<le> int (length records)
                            \<and> newest \<noteq> previous)\<rparr>))))"

definition tailer_poll ::
  "py_limits \<Rightarrow> 'c cursor_ops \<Rightarrow> 'c SessionTailer \<Rightarrow> poll_env
   \<Rightarrow> (loads_exc + Event list) \<times> 'c SessionTailer" where
  "tailer_poll L ops t env =
     (if t_is_dsh t then (case poll_dsh t env of (es, t1) \<Rightarrow> (Inr es, t1))
      else
        (case t_follower t of
           None \<Rightarrow> (Inr [], t)
         | Some (ChatFollower c) \<Rightarrow>
             (case poll_cursor_records ops t of
                (rs, t1) \<Rightarrow> (case normalize_all t1 rs of (es, t2) \<Rightarrow> (Inr es, t2)))
         | Some (JsonlFollower f) \<Rightarrow>
             (case poll L f (pe_file env) of
                (Inl e, f') \<Rightarrow> (Inl e, t\<lparr>t_follower := Some (JsonlFollower f')\<rparr>)
              | (Inr rs, f') \<Rightarrow>
                  (case normalize_all (t\<lparr>t_follower := Some (JsonlFollower f')\<rparr>) rs of
                     (es, t2) \<Rightarrow> (Inr es, t2)))))"

subsection \<open>Checkpoints\<close>

datatype export_error = CursorChatErr pystr | BaselineRuntimeError

definition opt_int :: "int option \<Rightarrow> pyval" where
  "opt_int i = (case i of None \<Rightarrow> PNone | Some n \<Rightarrow> PInt n)"

definition tailer_export ::
  "'c cursor_ops \<Rightarrow> 'c SessionTailer \<Rightarrow> export_error + pydict" where
  "tailer_export ops t =
     (if t_is_dsh t then
        Inr [(pstr ''version'', PInt 1), (pstr ''kind'', pstr ''dsh''),
             (pstr ''path'', PStr (s_transcript (t_session t))),
             (pstr ''last_seq'', opt_int (t_last_seq t)),
             (pstr ''initialized'', PBool (t_dsh_initialized t)),
             (pstr ''page_pending'', PBool (t_page_pending t)),
             (pstr ''signature'',
               (case t_signature t of None \<Rightarrow> PNone | Some s \<Rightarrow> PTuple (map PInt s))),
             (pstr ''force_replay'', PBool (t_force_replay t))]
      else
        (case t_follower t of
           Some (ChatFollower c) \<Rightarrow>
             (let cp = co_export ops c in
              if \<not> t_from_start t \<and> dget cp ''kind'' = pstr ''cursor_chat''
                \<and> dget cp ''initialized'' \<noteq> PBool True then
                (case co_last_error ops c of
                   Some cls \<Rightarrow> Inl (CursorChatErr cls)
                 | None \<Rightarrow> Inl BaselineRuntimeError)
              else
                Inr [(pstr ''version'', PInt 1), (pstr ''kind'', pstr ''cursor_chat_session''),
                     (pstr ''path'', PStr (s_transcript (t_session t))),
                     (pstr ''follower'', PDict cp)])
         | Some (JsonlFollower f) \<Rightarrow>
             Inr [(pstr ''version'', PInt 1), (pstr ''kind'', pstr ''jsonl_session''),
                  (pstr ''path'', PStr (s_transcript (t_session t))),
                  (pstr ''follower'', PDict (export_checkpoint f))]
         | None \<Rightarrow>
             Inr [(pstr ''version'', PInt 1), (pstr ''kind'', pstr ''jsonl_session''),
                  (pstr ''path'', PStr (s_transcript (t_session t))),
                  (pstr ''follower'', PNone)]))"

text \<open>The optional integer and the signature entries; the outer \<open>None\<close> is a malformed one.\<close>

definition seq_entry :: "pyval \<Rightarrow> int option option" where
  "seq_entry v = (if v = PNone then Some None else map_option Some (strict_int v))"

definition signature_entry :: "pyval \<Rightarrow> int list option option" where
  "signature_entry v =
     (if v = PNone then Some None
      else
        (case seq_items v of
           None \<Rightarrow> None
         | Some xs \<Rightarrow>
             if length xs \<noteq> 6 then None
             else map_option Some (those_map strict_int xs)))"

definition restore_dsh :: "'c SessionTailer \<Rightarrow> pydict \<Rightarrow> 'c SessionTailer option" where
  "restore_dsh t d =
     (if dget d ''kind'' \<noteq> pstr ''dsh'' then None
      else
        (case (seq_entry (dget d ''last_seq''), dget d ''initialized'', dget d ''page_pending'',
               signature_entry (dget d ''signature''),
               case map_of d (pstr ''force_replay'') of None \<Rightarrow> PBool True | Some v \<Rightarrow> v) of
           (Some last_seq, PBool initialized, PBool page_pending, Some signature, PBool force) \<Rightarrow>
             Some (t\<lparr>t_last_seq := last_seq, t_dsh_initialized := initialized,
                     t_page_pending := page_pending, t_signature := signature,
                     t_force_replay := force\<rparr>)
         | _ \<Rightarrow> None))"

definition tailer_restore ::
  "'c cursor_ops \<Rightarrow> 'c SessionTailer \<Rightarrow> pyval \<Rightarrow> 'c SessionTailer option" where
  "tailer_restore ops t checkpoint =
     (case mapping_items checkpoint of
        None \<Rightarrow> None
      | Some d \<Rightarrow>
          if \<not> eq_int (dget d ''version'') 1
            \<or> dget d ''path'' \<noteq> PStr (s_transcript (t_session t)) then None
          else if t_is_dsh t then restore_dsh t d
          else
            (case (t_follower t, dget d ''follower'') of
               (Some (ChatFollower c), PDict cp) \<Rightarrow>
                 if set (map fst d) = {pstr ''version'', pstr ''kind'', pstr ''path'', pstr ''follower''}
                   \<and> dget d ''kind'' = pstr ''cursor_chat_session'' then
                   map_option (\<lambda>c'. t\<lparr>t_follower := Some (ChatFollower c')\<rparr>) (co_restore ops c cp)
                 else None
             | (Some (JsonlFollower f), PDict cp) \<Rightarrow>
                 if dget d ''kind'' = pstr ''jsonl_session'' then
                   map_option (\<lambda>f'. t\<lparr>t_follower := Some (JsonlFollower f')\<rparr>)
                     (restore_checkpoint f (PDict cp))
                 else None
             | _ \<Rightarrow> None))"

text \<open>
  The constructor. \<open>mkpath\<close> is \<open>str(Path(p).expanduser())\<close>; \<open>None\<close> is the \<open>ValueError\<close> of a
  follower bound that is not positive.
\<close>

definition transcript_path :: "(pystr \<Rightarrow> pystr) \<Rightarrow> Session \<Rightarrow> pystr" where
  "transcript_path mkpath s =
     mkpath (if s_transcript s \<noteq> [] then s_transcript s else py ''__missing_transcript__'')"

definition new_session_tailer ::
  "(pystr \<Rightarrow> pystr) \<Rightarrow> 'c cursor_ops \<Rightarrow> Session \<Rightarrow> adapter \<Rightarrow> bool \<Rightarrow> int \<Rightarrow> int \<Rightarrow> int
   \<Rightarrow> pyval option \<Rightarrow> poll_env \<Rightarrow> 'c SessionTailer option" where
  "new_session_tailer mkpath ops s ad from_start mr ml mx initial env =
     (let dsh = (ad_name ad = py ''dsh'' \<and> ad_can_replay ad);
          chat = (dget (s_extra s) ''transcript_kind'' = pstr ''cursor-chat-sqlite'');
          t = \<lparr>t_session = s, t_adapter = ad, t_from_start = from_start, t_max_records = mx,
               t_errors = [], t_cursor_error_class = None, t_is_dsh = dsh, t_is_cursor_chat = chat,
               t_dsh_initialized = from_start, t_last_seq = None, t_page_pending = False,
               t_force_replay = True, t_signature = None, t_follower = None\<rparr>
      in if dsh then
           (let t1 = t\<lparr>t_signature := pe_signature env\<rparr> in
            case strict_int (dget (s_extra s) ''seq'') of
              Some seq \<Rightarrow>
                Some (if from_start then t1 else t1\<lparr>t_last_seq := Some seq, t_dsh_initialized := True\<rparr>)
            | None \<Rightarrow> Some t1)
         else if chat then
           (let t1 = t\<lparr>t_follower := Some (ChatFollower (co_new ops (transcript_path mkpath s) from_start mx))\<rparr>;
                restored = Option.bind initial (tailer_restore ops t1)
            in case restored of
                 Some t2 \<Rightarrow> Some t2
               | None \<Rightarrow> Some (if from_start then t1 else snd (poll_cursor_records ops t1)))
         else
           map_option (\<lambda>f. t\<lparr>t_follower := Some (JsonlFollower f)\<rparr>)
             (new_follower (transcript_path mkpath s) from_start mr ml mx (pe_file env)))"

subsection \<open>Diagnostics\<close>

interpretation diagnostics: keeps_newest append_diagnostic t_errors "\<lambda>d. [d]"
    "\<lambda>_. MAX_TAILER_DIAGNOSTICS" "\<lambda>_. True"
  by unfold_locales (simp_all add: append_diagnostic_def)

text \<open>The part of a tailer that normalizing records leaves alone.\<close>

definition but_errors :: "'c SessionTailer \<Rightarrow> 'c SessionTailer" where
  "but_errors t = t\<lparr>t_errors := []\<rparr>"

definition adapter_events :: "'c SessionTailer \<Rightarrow> pydict \<Rightarrow> Event list" where
  "adapter_events t r =
     (case ad_normalize (t_adapter t) r (t_session t) of Inl _ \<Rightarrow> [] | Inr items \<Rightarrow> List.map_filter id items)"

lemma but_errors_simps [simp]:
  "but_errors (t\<lparr>t_errors := e\<rparr>) = but_errors t" "but_errors (append_diagnostic t d) = but_errors t"
  by (simp_all add: but_errors_def append_diagnostic_def)

lemma but_errors_eqD:
  assumes "but_errors t = but_errors u"
  shows "t_session t = t_session u" "t_adapter t = t_adapter u" "t_max_records t = t_max_records u"
    "t_is_dsh t = t_is_dsh u" "t_dsh_initialized t = t_dsh_initialized u" "t_last_seq t = t_last_seq u"
    "t_page_pending t = t_page_pending u" "t_force_replay t = t_force_replay u"
    "t_signature t = t_signature u" "t_follower t = t_follower u" "t_from_start t = t_from_start u"
    "adapter_events t = adapter_events u"
  using assms by (cases t; cases u; simp add: but_errors_def adapter_events_def fun_eq_iff)+

lemma normalize_record_spec: "normalize_record t r = (adapter_events t r, t') \<longleftrightarrow> t' = snd (normalize_record t r)"
  "but_errors (snd (normalize_record t r)) = but_errors t" "fst (normalize_record t r) = adapter_events t r"
  by (auto simp: normalize_record_def adapter_events_def split: sum.splits)

text \<open>One exception or malformed record costs its own events only.\<close>

lemma normalize_all_spec:
  "fst (normalize_all t rs) = concat (map (adapter_events t) rs)
    \<and> but_errors (snd (normalize_all t rs)) = but_errors t"
proof (induction rs arbitrary: t)
  case (Cons r rs)
  obtain es t1 where n: "normalize_record t r = (es, t1)" by fastforce
  then have "es = adapter_events t r" "but_errors t1 = but_errors t"
    using normalize_record_spec [of t r] by auto
  with n Cons.IH [of t1] but_errors_eqD [of t1 t] show ?case
    by (auto split: prod.splits)
qed simp

lemma normalize_all_errors:
  "length (t_errors t) \<le> MAX_TAILER_DIAGNOSTICS \<Longrightarrow>
    t_errors (snd (normalize_all t rs)) = lastn MAX_TAILER_DIAGNOSTICS (t_errors t @ List.map_filter
      (\<lambda>r. case ad_normalize (t_adapter t) r (t_session t) of Inl d \<Rightarrow> Some d | Inr _ \<Rightarrow> None) rs)"
proof (induction rs arbitrary: t)
  case (Cons r rs)
  obtain es t1 where n: "normalize_record t r = (es, t1)" by fastforce
  note keep = but_errors_eqD [OF normalize_record_spec(2) [of t r]]
  have t1: "t_session t1 = t_session t" "t_adapter t1 = t_adapter t"
    using keep(1,2) n by simp_all
  show ?case
  proof (cases "ad_normalize (t_adapter t) r (t_session t)")
    case (Inl d)
    with n have e: "t_errors t1 = lastn MAX_TAILER_DIAGNOSTICS (t_errors t @ [d])"
      by (auto simp: normalize_record_def append_diagnostic_def)
    then have "length (t_errors t1) \<le> MAX_TAILER_DIAGNOSTICS" by simp
    from Cons.IH [OF this] Inl n t1 e show ?thesis
      by (simp add: List.map_filter_simps split_beta)
  next
    case (Inr items)
    with n have e: "t1 = t"
      by (simp add: normalize_record_def)
    from Cons.IH [OF Cons.prems] Inr n e show ?thesis
      by (simp add: List.map_filter_simps split_beta)
  qed
qed (simp add: List.map_filter_simps)

subsection \<open>DSH pages\<close>

text \<open>The records of a page that a tailer at \<open>newest\<close> accepts, with their sequences.\<close>

fun accepted :: "int option \<Rightarrow> pyval list \<Rightarrow> (int \<times> pydict) list" where
  "accepted newest [] = []"
| "accepted newest (v # vs) =
     (case Option.bind (mapping_items v) (\<lambda>r. map_option (\<lambda>s. (s, r)) (sequence_of r)) of
        None \<Rightarrow> accepted newest vs
      | Some (s, r) \<Rightarrow>
          if newest \<noteq> None \<and> s \<le> the newest then accepted newest vs
          else (s, r) # accepted (Some s) vs)"

definition after_accepting :: "int option \<Rightarrow> (int \<times> pydict) list \<Rightarrow> int option" where
  "after_accepting newest xs = (if xs = [] then newest else Some (fst (last xs)))"

definition seq_above :: "int option \<Rightarrow> int \<Rightarrow> bool" where
  "seq_above newest s \<longleftrightarrow> (case newest of None \<Rightarrow> True | Some q \<Rightarrow> q < s)"

lemma accepted_sorted:
  "sorted_wrt (<) (map fst (accepted newest vs)) \<and> (\<forall>x \<in> set (accepted newest vs). seq_above newest (fst x))"
proof (induction newest vs rule: accepted.induct)
  case (2 newest v vs)
  then show ?case
    by (force simp: seq_above_def split: option.splits prod.splits)
qed simp

lemma accepted_from: "(s, r) \<in> set (accepted newest vs) \<Longrightarrow> PDict r \<in> set vs \<and> sequence_of r = Some s"
proof (induction vs arbitrary: newest)
  case (Cons v vs)
  from Cons.prems show ?case
    by (cases v) (auto split: option.splits if_splits dest: Cons.IH)
qed simp

lemma dsh_page_spec:
  "dsh_page t newest vs = (es, newest', t') \<Longrightarrow>
    es = (if t_dsh_initialized t then concat (map (\<lambda>x. adapter_events t (snd x)) (accepted newest vs)) else [])
    \<and> newest' = after_accepting newest (accepted newest vs) \<and> but_errors t' = but_errors t"
proof (induction t newest vs arbitrary: es newest' t' rule: dsh_page.induct)
  case (2 t newest v vs)
  show ?case
  proof (cases "Option.bind (mapping_items v) (\<lambda>r. map_option (\<lambda>s. (s, r)) (sequence_of r))")
    case None
    with 2 show ?thesis
      by (auto split: option.splits)
  next
    case (Some x)
    then obtain s r where x: "mapping_items v = Some r" "sequence_of r = Some s" "x = (s, r)"
      by (auto split: option.splits simp: bind_eq_Some_conv)
    show ?thesis
    proof (cases "newest \<noteq> None \<and> s \<le> the newest")
      case True
      with 2 x show ?thesis by (auto split: option.splits)
    next
      case False
      obtain es1 t1 where n: "(if t_dsh_initialized t then normalize_record t r else ([], t)) = (es1, t1)"
        by fastforce
      then have t1: "but_errors t1 = but_errors t"
        "es1 = (if t_dsh_initialized t then adapter_events t r else [])"
        using normalize_record_spec [of t r] by (auto split: if_splits)
      obtain es2 newest2 t2 where p: "dsh_page t1 (Some s) vs = (es2, newest2, t2)"
        by (metis prod_cases3)
      have "es = es1 @ es2" "newest' = newest2" "t' = t2"
        using "2.prems" x False n p by (auto simp: split: if_splits)
      with "2.IH"(4) [OF x(1,2) False n [symmetric] p] x False t1 but_errors_eqD [OF t1(1)]
      show ?thesis
        by (auto simp: after_accepting_def)
    qed
  qed
qed (auto simp: after_accepting_def)

fun dsh_polls :: "'c SessionTailer \<Rightarrow> poll_env list \<Rightarrow> Event list \<times> 'c SessionTailer" where
  "dsh_polls t [] = ([], t)"
| "dsh_polls t (env # envs) =
     (case poll_dsh t env of
        (es, t1) \<Rightarrow> (case dsh_polls t1 envs of (es', t2) \<Rightarrow> (es @ es', t2)))"

text \<open>The records one poll accepts.\<close>

definition poll_takes :: "'c SessionTailer \<Rightarrow> poll_env \<Rightarrow> (int \<times> pydict) list" where
  "poll_takes t env =
     (if \<not> t_force_replay t \<and> \<not> t_page_pending t \<and> pe_signature env \<noteq> None
         \<and> pe_signature env = t_signature t then []
      else case pe_replay env (t_last_seq t) (t_max_records t) of
             Inl _ \<Rightarrow> []
           | Inr vs \<Rightarrow> accepted (t_last_seq t) vs)"

lemma poll_dsh_spec:
  assumes "poll_dsh t env = (es, t')"
  shows "es = (if t_dsh_initialized t
      then concat (map (\<lambda>x. adapter_events t (snd x)) (poll_takes t env)) else [])
    \<and> t_last_seq t' = after_accepting (t_last_seq t) (poll_takes t env)
    \<and> (t_dsh_initialized t \<longrightarrow> t_dsh_initialized t') \<and> adapter_events t' = adapter_events t
    \<and> t_max_records t' = t_max_records t
    \<and> (\<forall>vs. t_force_replay t \<or> t_page_pending t \<longrightarrow>
          pe_replay env (t_last_seq t) (t_max_records t) = Inr vs \<longrightarrow>
          t_page_pending t' = (t_max_records t \<le> int (length vs) \<and> t_last_seq t' \<noteq> t_last_seq t))"
proof (cases "\<not> t_force_replay t \<and> \<not> t_page_pending t \<and> pe_signature env \<noteq> None
         \<and> pe_signature env = t_signature t")
  case True
  with assms show ?thesis
    by (auto simp: poll_dsh_def poll_takes_def after_accepting_def)
next
  case False
  show ?thesis
  proof (cases "pe_replay env (t_last_seq t) (t_max_records t)")
    case (Inl d)
    with False assms show ?thesis
      by (auto simp: poll_dsh_def poll_takes_def after_accepting_def append_diagnostic_def
          adapter_events_def fun_eq_iff Let_def)
  next
    case (Inr vs)
    let ?t2 = "t\<lparr>t_page_pending := False, t_signature := pe_signature env, t_force_replay := False\<rparr>"
    obtain es' newest t3 where p: "dsh_page ?t2 (t_last_seq t) vs = (es', newest, t3)"
      by (metis prod_cases3)
    have keep: "adapter_events ?t2 = adapter_events t"
      by (simp add: adapter_events_def fun_eq_iff)
    have t3: "but_errors t3 = but_errors ?t2"
      using dsh_page_spec [OF p] by simp
    have r: "es = es'" "t' = t3\<lparr>t_last_seq := newest, t_dsh_initialized := True,
        t_page_pending := (t_max_records t3 \<le> int (length vs) \<and> newest \<noteq> t_last_seq t)\<rparr>"
      using assms False Inr p by (auto simp: poll_dsh_def Let_def)
    have "adapter_events t' = adapter_events t3"
      by (simp add: r adapter_events_def fun_eq_iff)
    moreover have "poll_takes t env = accepted (t_last_seq t) vs"
      using False Inr by (auto simp: poll_takes_def)
    ultimately show ?thesis
      using dsh_page_spec [OF p] keep but_errors_eqD [OF t3] Inr by (simp add: r)
  qed
qed

lemma poll_takes_sorted:
  "sorted_wrt (<) (map fst (poll_takes t env)) \<and> (\<forall>x \<in> set (poll_takes t env). seq_above (t_last_seq t) (fst x))"
proof -
  have "poll_takes t env = [] \<or> (\<exists>vs. poll_takes t env = accepted (t_last_seq t) vs)"
    by (auto simp: poll_takes_def split: sum.splits)
  then show ?thesis
  proof
    assume "\<exists>vs. poll_takes t env = accepted (t_last_seq t) vs"
    then obtain vs where "poll_takes t env = accepted (t_last_seq t) vs" ..
    then show ?thesis
      using accepted_sorted [of "t_last_seq t" vs] by simp
  qed simp
qed

lemma above_after: "seq_above (after_accepting q xs) s \<Longrightarrow> \<forall>x \<in> set xs. seq_above q (fst x) \<Longrightarrow>
    sorted_wrt (<) (map fst xs) \<Longrightarrow> seq_above q s \<and> (\<forall>x \<in> set xs. fst x < s)"
proof (induction xs rule: rev_induct)
  case (snoc x xs)
  then show ?case
    by (auto simp: after_accepting_def seq_above_def sorted_wrt_append split: option.splits)
qed (simp add: after_accepting_def)

text \<open>
  C15: A DSH session's events are delivered once and in order. Whatever the replays return over
  any number of polls (repeated, reordered or malformed records, pages that overlap, failures),
  the events delivered are those of a list of replayed records whose sequence numbers strictly
  increase from the tailer's cursor on, and the cursor ends at the last of them.
\<close>

theorem dsh_delivers_once:
  assumes "dsh_polls t envs = (es, t')" and "t_dsh_initialized t"
  shows "\<exists>taken. sorted_wrt (<) (map fst taken)
    \<and> (\<forall>x \<in> set taken. seq_above (t_last_seq t) (fst x) \<and> sequence_of (snd x) = Some (fst x))
    \<and> es = concat (map (\<lambda>x. adapter_events t (snd x)) taken)
    \<and> t_last_seq t' = after_accepting (t_last_seq t) taken"
  using assms
proof (induction envs arbitrary: t es)
  case Nil
  then show ?case
    by (intro exI [of _ "[]"]) (simp add: after_accepting_def)
next
  case (Cons env envs)
  obtain es1 t1 where p: "poll_dsh t env = (es1, t1)" by fastforce
  obtain es2 where d: "dsh_polls t1 envs = (es2, t')" "es = es1 @ es2"
    using Cons.prems(1) p by (auto split: prod.splits)
  note t1 = poll_dsh_spec [OF p]
  let ?xs = "poll_takes t env"
  obtain ys where ys: "sorted_wrt (<) (map fst ys)"
    "\<forall>x \<in> set ys. seq_above (t_last_seq t1) (fst x) \<and> sequence_of (snd x) = Some (fst x)"
    "es2 = concat (map (\<lambda>x. adapter_events t1 (snd x)) ys)"
    "t_last_seq t' = after_accepting (t_last_seq t1) ys"
    using Cons.IH [OF d(1)] t1 Cons.prems(2) by blast
  have xs: "sorted_wrt (<) (map fst ?xs)" "\<forall>x \<in> set ?xs. seq_above (t_last_seq t) (fst x)"
    using poll_takes_sorted by blast+
  have seq: "\<forall>x \<in> set ?xs. sequence_of (snd x) = Some (fst x)"
    using accepted_from by (fastforce simp: poll_takes_def split: sum.splits if_splits)
  have "\<forall>y \<in> set ys. seq_above (t_last_seq t) (fst y) \<and> (\<forall>x \<in> set ?xs. fst x < fst y)"
    using above_after [OF _ xs(2,1)] ys(2) t1 by simp
  with xs ys seq t1 Cons.prems(2) d(2) show ?case
    by (intro exI [of _ "?xs @ ys"]) (auto simp: sorted_wrt_append after_accepting_def)
qed

text \<open>A transcript whose replay is a pager: the first \<open>n\<close> records after the cursor.\<close>

definition newer :: "pydict list \<Rightarrow> int option \<Rightarrow> pydict list" where
  "newer recs q = filter (\<lambda>r. case sequence_of r of None \<Rightarrow> False | Some s \<Rightarrow> seq_above q s) recs"

definition pager_env :: "pydict list \<Rightarrow> int list option \<Rightarrow> poll_env" where
  "pager_env recs sig =
     \<lparr>pe_file = \<lparr>env_stat = None, env_is_file = False, env_anchor = None, env_data = None\<rparr>,
      pe_signature = sig,
      pe_replay = (\<lambda>q n. Inr (map PDict (take (nat n) (newer recs q))))\<rparr>"

definition ordered :: "pydict list \<Rightarrow> bool" where
  "ordered recs \<longleftrightarrow> sorted_wrt (\<lambda>r r'. \<exists>s s'. sequence_of r = Some s \<and> sequence_of r' = Some s' \<and> s < s') recs
     \<and> list_all (\<lambda>r. sequence_of r \<noteq> None) recs"

lemma ordered_Cons:
  "ordered (r # rs) \<longleftrightarrow> (\<exists>s. sequence_of r = Some s
     \<and> (\<forall>r' \<in> set rs. \<exists>s'. sequence_of r' = Some s' \<and> s < s')) \<and> ordered rs"
  by (auto simp: ordered_def list_all_iff)

lemma newer_ordered: "ordered recs \<Longrightarrow> ordered (newer recs q)"
  by (auto simp: ordered_def newer_def list_all_iff intro: sorted_wrt_filter)

lemma accepted_ordered:
  "ordered rs \<Longrightarrow> \<forall>r \<in> set rs. seq_above q (the (sequence_of r)) \<Longrightarrow>
    accepted q (map PDict rs) = map (\<lambda>r. (the (sequence_of r), r)) rs"
proof (induction rs arbitrary: q)
  case (Cons r rs)
  then obtain s where s: "sequence_of r = Some s"
    "\<forall>r' \<in> set rs. \<exists>s'. sequence_of r' = Some s' \<and> s < s'" "ordered rs"
    by (auto simp: ordered_Cons)
  then have "accepted (Some s) (map PDict rs) = map (\<lambda>r. (the (sequence_of r), r)) rs"
    by (intro Cons.IH) (auto simp: seq_above_def)
  with s Cons.prems(2) show ?case
    by (auto simp: seq_above_def split: option.splits)
qed simp

lemma newer_all: "\<forall>r \<in> set rs. \<exists>s'. sequence_of r = Some s' \<and> s < s' \<Longrightarrow> newer rs (Some s) = rs"
  by (auto simp: newer_def seq_above_def intro!: filter_True split: option.splits)

lemma newer_after:
  "ordered (xs @ ys) \<Longrightarrow> xs \<noteq> [] \<Longrightarrow> sequence_of (last xs) = Some s \<Longrightarrow> newer (xs @ ys) (Some s) = ys"
proof (induction xs)
  case (Cons r xs)
  from Cons.prems(1) obtain s' where s': "sequence_of r = Some s'"
    "\<forall>r' \<in> set (xs @ ys). \<exists>s''. sequence_of r' = Some s'' \<and> s' < s''" "ordered (xs @ ys)"
    by (auto simp: ordered_Cons)
  show ?case
  proof (cases "xs = []")
    case True
    with s' Cons.prems(3) show ?thesis
      using newer_all [of ys s] by (simp add: newer_def seq_above_def)
  next
    case False
    then have "s' < s"
      using bspec [OF s'(2), of "last xs"] Cons.prems(3) last_in_set [OF False] by auto
    with False s' Cons show ?thesis
      by (simp add: newer_def seq_above_def)
  qed
qed simp

lemma newer_newer: "seq_above q s \<Longrightarrow> newer (newer recs q) (Some s) = newer recs (Some s)"
  by (auto simp: newer_def seq_above_def intro!: filter_cong split: option.splits)

lemma newer_take:
  assumes "ordered recs"
  shows "accepted q (map PDict (take n (newer recs q))) =
      map (\<lambda>r. (the (sequence_of r), r)) (take n (newer recs q))" (is ?acc)
    and "newer recs (after_accepting q (accepted q (map PDict (take n (newer recs q))))) =
      drop n (newer recs q)"
proof -
  let ?xs = "take n (newer recs q)" and ?ys = "drop n (newer recs q)"
  have above: "\<forall>r \<in> set (newer recs q). seq_above q (the (sequence_of r))"
    by (auto simp: newer_def split: option.splits)
  have ord: "ordered (?xs @ ?ys)"
    using newer_ordered [OF assms] by simp
  then have ordx: "ordered ?xs"
    by (simp add: ordered_def sorted_wrt_append del: append_take_drop_id)
  show acc: ?acc
    using accepted_ordered [OF ordx] above by (auto dest: in_set_takeD)
  show "newer recs (after_accepting q (accepted q (map PDict ?xs))) = ?ys"
  proof (cases "?xs = []")
    case True
    then show ?thesis
      by (auto simp: after_accepting_def)
  next
    case False
    have last: "last ?xs \<in> set (newer recs q)"
      using last_in_set [OF False] by (rule in_set_takeD)
    then obtain s where s: "sequence_of (last ?xs) = Some s" "seq_above q s"
      by (auto simp: newer_def split: option.splits)
    have "newer recs (Some s) = newer (?xs @ ?ys) (Some s)"
      using newer_newer [OF s(2), of recs] by simp
    also have "\<dots> = ?ys"
      using newer_after [OF ord False s(1)] .
    finally show ?thesis
      using False s(1) by (simp add: acc after_accepting_def last_map)
  qed
qed

lemma pager_polls:
  assumes "ordered recs" and "0 < t_max_records t" and "t_dsh_initialized t"
    and "t_force_replay t \<or> t_page_pending t \<or> newer recs (t_last_seq t) = []"
    and "length (newer recs (t_last_seq t)) < k \<or> newer recs (t_last_seq t) = []"
  shows "fst (dsh_polls t (replicate k (pager_env recs sig))) =
    concat (map (adapter_events t) (newer recs (t_last_seq t)))"
  using assms
proof (induction k arbitrary: t)
  case (Suc k)
  let ?env = "pager_env recs sig" and ?n = "nat (t_max_records t)" and ?r = "newer recs (t_last_seq t)"
  obtain es t1 where p: "poll_dsh t ?env = (es, t1)" by fastforce
  note spec = poll_dsh_spec [OF p]
  note acc = newer_take [OF Suc.prems(1), of "t_last_seq t" ?n]
  have takes: "poll_takes t ?env = map (\<lambda>r. (the (sequence_of r), r)) (take ?n ?r)"
    using Suc.prems(4) acc(1) by (auto simp: poll_takes_def pager_env_def)
  have rest: "newer recs (t_last_seq t1) = drop ?n ?r"
    using spec acc(2) by (simp add: takes acc(1))
  have es: "es = concat (map (adapter_events t) (take ?n ?r))"
    using spec Suc.prems(3) by (simp add: takes comp_def)
  have more: "t_page_pending t1 \<or> drop ?n ?r = []"
  proof (cases "?r = []")
    case False
    then have "length (drop ?n ?r) < length ?r"
      using Suc.prems(2) by simp
    then have "newer recs (t_last_seq t1) \<noteq> ?r"
      unfolding rest by (metis less_irrefl)
    then have "t_last_seq t1 \<noteq> t_last_seq t" by auto
    with spec False Suc.prems(2,4) show ?thesis
      by (auto simp: pager_env_def min_def split: if_splits)
  qed simp
  have "fst (dsh_polls t1 (replicate k ?env)) = concat (map (adapter_events t1) (drop ?n ?r))"
    unfolding rest [symmetric] using Suc.prems spec more rest
    by (intro Suc.IH) auto
  moreover have "concat (map (adapter_events t) (take ?n ?r)) @ concat (map (adapter_events t) (drop ?n ?r)) =
      concat (map (adapter_events t) ?r)"
    by (simp only: concat_append [symmetric] map_append [symmetric] append_take_drop_id)
  moreover have "adapter_events t1 = adapter_events t"
    using spec by simp
  ultimately show ?case
    using p es by (simp add: split_beta)
qed auto


text \<open>
  C27: A failing \<open>normalize\<close> costs one record: the events of a poll are those of all the records
  the follower returned on which the adapter does not raise, in order, each exception leaves one
  diagnostic, and of the diagnostics the newest sixteen are kept.
\<close>

theorem tailer_isolates_failures:
  assumes "t_follower t = Some (JsonlFollower f)" and "\<not> t_is_dsh t"
    and "poll L f (pe_file env) = (Inr rs, f')" and "length (t_errors t) \<le> MAX_TAILER_DIAGNOSTICS"
  shows "\<exists>t'. tailer_poll L ops t env = (Inr (concat (map (adapter_events t) rs)), t')
    \<and> t_follower t' = Some (JsonlFollower f')
    \<and> t_errors t' = lastn MAX_TAILER_DIAGNOSTICS
        (t_errors t @ List.map_filter (\<lambda>r. case ad_normalize (t_adapter t) r (t_session t) of
           Inl d \<Rightarrow> Some d | Inr _ \<Rightarrow> None) rs)"
proof -
  let ?t = "t\<lparr>t_follower := Some (JsonlFollower f')\<rparr>"
  obtain es t' where n: "normalize_all ?t rs = (es, t')" by fastforce
  have "adapter_events ?t = adapter_events t"
    by (simp add: adapter_events_def fun_eq_iff)
  then have t': "es = concat (map (adapter_events t) rs)" "but_errors t' = but_errors ?t"
    using normalize_all_spec [of ?t rs] n by auto
  have "t_errors t' = lastn MAX_TAILER_DIAGNOSTICS (t_errors t @ List.map_filter
      (\<lambda>r. case ad_normalize (t_adapter t) r (t_session t) of Inl d \<Rightarrow> Some d | Inr _ \<Rightarrow> None) rs)"
    using normalize_all_errors [of ?t rs] assms(4) n by simp
  with n t' but_errors_eqD(10) [OF t'(2)] assms show ?thesis
    by (simp add: tailer_poll_def)
qed

text \<open>
  A tailer's checkpoint restores its cursor: a second tailer of the same session accepts
  what the first exported and then has the same DSH cursor, or the same follower state.
\<close>

theorem tailer_checkpoint_roundtrip:
  assumes "t_session u = t_session t" and "t_is_dsh u = t_is_dsh t"
    and "\<forall>sig. t_signature t = Some sig \<longrightarrow> length sig = 6"
    and "t_is_dsh t \<or> (\<exists>f g. t_follower t = Some (JsonlFollower f) \<and> t_follower u = Some (JsonlFollower g)
      \<and> f_inv f \<and> same_config f g)"
  shows "\<exists>d. tailer_export ops t = Inr d \<and> tailer_restore ops u (PDict d) =
    Some (if t_is_dsh t then u\<lparr>t_last_seq := t_last_seq t, t_dsh_initialized := t_dsh_initialized t,
            t_page_pending := t_page_pending t, t_signature := t_signature t,
            t_force_replay := t_force_replay t\<rparr>
          else u\<lparr>t_follower := t_follower t\<rparr>)"
proof (cases "t_is_dsh t")
  case True
  have "seq_entry (opt_int i) = Some i" for i
    by (simp add: seq_entry_def opt_int_def split: option.splits)
  moreover have "signature_entry (case t_signature t of None \<Rightarrow> PNone | Some s \<Rightarrow> PTuple (map PInt s)) =
      Some (t_signature t)"
    using assms(3) by (auto simp: signature_entry_def those_map_map split: option.splits)
  ultimately show ?thesis
    using True assms(1,2) by (simp add: tailer_export_def tailer_restore_def restore_dsh_def)
next
  case False
  with assms(4) obtain f g where "t_follower t = Some (JsonlFollower f)"
    "t_follower u = Some (JsonlFollower g)" "f_inv f" "same_config f g" by blast
  with False assms(1,2) show ?thesis
    by (simp add: tailer_export_def tailer_restore_def restore_export)
qed

subsection \<open>Examples\<close>

definition ex_session :: Session where
  "ex_session = \<lparr>s_agent = py ''dsh'', s_id = py ''s1'', s_project = [], s_transcript = py ''t.dsh'',
     s_updated_at = 0, s_title = [], s_status = WORKING, s_extra = [], s_parent_id = None\<rparr>"

definition ex_event :: "int \<Rightarrow> Event" where
  "ex_event n = \<lparr>ev_ts = [], ev_agent = py ''dsh'', ev_session_id = py ''s1'', ev_kind = py ''text'',
     ev_text = int_str n, ev_extra = []\<rparr>"

definition ex_adapter :: adapter where
  "ex_adapter = \<lparr>ad_name = py ''dsh'',
     ad_normalize = (\<lambda>r s. case sequence_of r of None \<Rightarrow> Inl (py ''KeyError: seq'') | Some n \<Rightarrow> Inr [Some (ex_event n), None]),
     ad_can_replay = True\<rparr>"

definition ex_tailer :: "unit SessionTailer" where
  "ex_tailer = \<lparr>t_session = ex_session, t_adapter = ex_adapter, t_from_start = True, t_max_records = 1,
     t_errors = [], t_cursor_error_class = None, t_is_dsh = True, t_is_cursor_chat = False,
     t_dsh_initialized = True, t_last_seq = Some 1, t_page_pending = False, t_force_replay = True,
     t_signature = None, t_follower = Some (JsonlFollower ex_follower)\<rparr>"

definition ex_record :: "int \<Rightarrow> pydict" where
  "ex_record n = [(pstr ''seq'', PInt n)]"

lemma ex_records: "sequence_of (ex_record n) = Some n"
  "adapter_events ex_tailer (ex_record n) = [ex_event n]"
  by (simp_all add: sequence_of_def ex_record_def adapter_events_def ex_tailer_def ex_adapter_def
      List.map_filter_def)


theorem dsh_delivers_once_witness:
  "\<exists>taken. sorted_wrt (<) (map fst taken)
    \<and> fst (dsh_polls ex_tailer [pager_env [ex_record 2] None]) =
        concat (map (\<lambda>x. adapter_events ex_tailer (snd x)) taken)
    \<and> t_last_seq (snd (dsh_polls ex_tailer [pager_env [ex_record 2] None])) =
        after_accepting (Some 1) taken"
proof -
  have "t_dsh_initialized ex_tailer" "t_last_seq ex_tailer = Some 1"
    by (simp_all add: ex_tailer_def)
  then show ?thesis
    using dsh_delivers_once [of ex_tailer "[pager_env [ex_record 2] None]"
        "fst (dsh_polls ex_tailer [pager_env [ex_record 2] None])"
        "snd (dsh_polls ex_tailer [pager_env [ex_record 2] None])"] by auto
qed

definition ex_ops :: "unit cursor_ops" where
  "ex_ops = \<lparr>co_new = (\<lambda>_ _ _. ()), co_poll = (\<lambda>c. (Inr [], c)), co_last_error = (\<lambda>_. None),
     co_export = (\<lambda>_. []), co_restore = (\<lambda>_ _. None), co_has_pending = (\<lambda>_. False)\<rparr>"

theorem tailer_checkpoint_roundtrip_witness:
  "\<exists>d. tailer_export ex_ops ex_tailer = Inr d
    \<and> tailer_restore ex_ops (ex_tailer\<lparr>t_last_seq := None\<rparr>) (PDict d) = Some ex_tailer"
  using tailer_checkpoint_roundtrip [of "ex_tailer\<lparr>t_last_seq := None\<rparr>" ex_tailer ex_ops]
  by (simp add: ex_tailer_def)

theorem tailer_isolates_failures_witness:
  "\<exists>t'. tailer_poll ex_limits ex_ops (ex_tailer\<lparr>t_is_dsh := False,
        t_follower := Some (JsonlFollower (ex_follower\<lparr>f_records := [ex_record 3, []]\<rparr>))\<rparr>)
      (pager_env [] None) = (Inr [ex_event 3], t') \<and> t_errors t' = []"
  using tailer_isolates_failures [of "ex_tailer\<lparr>t_is_dsh := False,
        t_follower := Some (JsonlFollower (ex_follower\<lparr>f_records := [ex_record 3, []]\<rparr>))\<rparr>"
      "ex_follower\<lparr>f_records := [ex_record 3, []]\<rparr>" ex_limits "pager_env [] None" "[ex_record 3]"
      "ex_follower\<lparr>f_records := [[]]\<rparr>" ex_ops]
  by (simp add: poll_def pop_records_def ex_follower_def ex_tailer_def adapter_events_def
      ex_adapter_def sequence_of_def ex_record_def List.map_filter_def) blast

end
