(* ===== verification/Pool_Resume.thy ===== *)
theory Pool_Resume
  imports Tailer_Pool Session_Tailer
begin

text \<open>
  The pool on the session tailers of \<open>sidecar/tail.py\<close>: the methods the pool calls are those of
  the \<open>SessionTailer\<close> model, and its checkpoints meet the contract the pool relies on.
\<close>

definition export_class :: "export_error \<Rightarrow> pystr" where
  "export_class e = (case e of CursorChatErr cls \<Rightarrow> cls | BaselineRuntimeError \<Rightarrow> py ''RuntimeError'')"

definition loads_class :: "loads_exc \<Rightarrow> pystr" where
  "loads_class e = (case e of RecursionError \<Rightarrow> py ''RecursionError'' | IntDigitsValueError \<Rightarrow> py ''ValueError'')"

text \<open>
  \<open>SessionTailer\<close> and its followers hold no open file, so \<open>close\<close> has nothing to do; only the
  JSONL follower has an integer offset.
\<close>

definition session_tailer_ops ::
  "py_limits \<Rightarrow> 'c cursor_ops \<Rightarrow> poll_env \<Rightarrow> ('c SessionTailer, Event) tailer_ops" where
  "session_tailer_ops L cops env =
     \<lparr>to_errors = (\<lambda>t. Some (map DiagText (t_errors t))),
      to_clear = (\<lambda>t. t\<lparr>t_errors := []\<rparr>),
      to_close = (\<lambda>t. t),
      to_export = (\<lambda>t. Some (case tailer_export cops t of Inl e \<Rightarrow> Inl (export_class e) | Inr d \<Rightarrow> Inr (PDict d))),
      to_restore = (\<lambda>t cp. Some (None, case tailer_restore cops t (PDict cp) of Some t' \<Rightarrow> t' | None \<Rightarrow> t)),
      to_single = (\<lambda>t. Some (single_poll_per_refresh t)),
      to_poll = (\<lambda>t. case tailer_poll L cops t env of
                       (Inl e, t') \<Rightarrow> (Inl (loads_class e), t')
                     | (Inr es, t') \<Rightarrow> (Inr (map Some es), t')),
      to_pending = (\<lambda>t. Some (tailer_has_pending cops t)),
      to_follower = (\<lambda>t. case t_follower t of
                           Some (JsonlFollower f) \<Rightarrow> Some (f_path f, int (f_offset f))
                         | _ \<Rightarrow> None),
      to_set_session = (\<lambda>t s. t\<lparr>t_session := s\<rparr>)\<rparr>"

text \<open>The position of a tailer in its source. Where it began to read is no part of it.\<close>

definition follower_position :: "'c any_follower option \<Rightarrow> 'c any_follower option" where
  "follower_position fo =
     (case fo of Some (JsonlFollower f) \<Rightarrow> Some (JsonlFollower (f\<lparr>f_from_start := False\<rparr>)) | _ \<Rightarrow> fo)"

definition tailer_cursor ::
  "'c SessionTailer \<Rightarrow> (int option \<times> bool \<times> bool \<times> int list option \<times> bool) + 'c any_follower option" where
  "tailer_cursor t =
     (if t_is_dsh t
      then Inl (t_last_seq t, t_dsh_initialized t, t_page_pending t, t_signature t, t_force_replay t)
      else Inr (follower_position (t_follower t)))"

definition same_source :: "'c SessionTailer \<Rightarrow> 'c SessionTailer \<Rightarrow> bool" where
  "same_source t u \<longleftrightarrow> s_transcript (t_session u) = s_transcript (t_session t) \<and> t_is_dsh u = t_is_dsh t
     \<and> (\<forall>sig. t_signature t = Some sig \<longrightarrow> length sig = 6)
     \<and> (t_is_dsh t \<or> (\<exists>f g. t_follower t = Some (JsonlFollower f) \<and> t_follower u = Some (JsonlFollower g)
          \<and> f_inv f \<and> same_config f (g\<lparr>f_from_start := f_from_start f\<rparr>)))"

lemma restore_keeps_from_start:
  "restore_checkpoint (g\<lparr>f_from_start := b\<rparr>) c = map_option (\<lambda>f. f\<lparr>f_from_start := b\<rparr>) (restore_checkpoint g c)"
  by (auto simp: restore_checkpoint_def Let_def split: option.splits pyval.splits)

lemma resume_jsonl:
  assumes "f_inv f" and "same_config f (g\<lparr>f_from_start := f_from_start f\<rparr>)"
  shows "restore_checkpoint g (PDict (export_checkpoint f)) = Some (f\<lparr>f_from_start := f_from_start g\<rparr>)"
  using restore_export [OF assms] restore_keeps_from_start
    [where g = "g\<lparr>f_from_start := f_from_start f\<rparr>" and b = "f_from_start g"] by simp

lemma resume_dsh:
  assumes "t_is_dsh t" "same_source t u"
  shows "\<exists>cp u'. tailer_export cops t = Inr cp \<and> tailer_restore cops u (PDict cp) = Some u'
    \<and> tailer_cursor u' = tailer_cursor t"
proof -
  have "seq_entry (opt_int i) = Some i" for i
    by (simp add: seq_entry_def opt_int_def split: option.splits)
  moreover have "signature_entry (case t_signature t of None \<Rightarrow> PNone | Some s \<Rightarrow> PTuple (map PInt s)) =
      Some (t_signature t)"
    using assms(2) by (auto simp: signature_entry_def same_source_def those_map_map split: option.splits)
  ultimately show ?thesis
    using assms by (simp add: tailer_export_def tailer_restore_def restore_dsh_def same_source_def tailer_cursor_def)
qed

lemma session_resume:
  assumes "same_source t u"
  shows "\<exists>cp u'. tailer_export cops t = Inr cp \<and> tailer_restore cops u (PDict cp) = Some u'
    \<and> tailer_cursor u' = tailer_cursor t"
proof (cases "t_is_dsh t")
  case True
  with assms show ?thesis by (rule resume_dsh [rotated])
next
  case False
  then obtain f g where "t_follower t = Some (JsonlFollower f)" "t_follower u = Some (JsonlFollower g)"
      "f_inv f" "same_config f (g\<lparr>f_from_start := f_from_start f\<rparr>)"
    using assms by (auto simp: same_source_def)
  with False assms show ?thesis
    by (simp add: tailer_export_def tailer_restore_def resume_jsonl same_source_def tailer_cursor_def
        follower_position_def)
qed

interpretation session_pool: resumable "session_tailer_ops L cops env" tailer_cursor same_source
  for L :: py_limits and cops :: "'c cursor_ops" and env :: poll_env
proof unfold_locales
  fix t u :: "'c SessionTailer"
  show "tailer_cursor (to_clear (session_tailer_ops L cops env) t) = tailer_cursor t"
    by (simp add: session_tailer_ops_def tailer_cursor_def)
  assume tu: "same_source t u"
  then show "same_source (to_clear (session_tailer_ops L cops env) t) u
      \<and> same_source t (to_clear (session_tailer_ops L cops env) u)"
    by (simp add: session_tailer_ops_def same_source_def)
  from session_resume [OF tu, of cops] show "\<exists>cp u'. to_export (session_tailer_ops L cops env) t = Some (Inr (PDict cp))
      \<and> to_restore (session_tailer_ops L cops env) u cp = Some (None, u') \<and> tailer_cursor u' = tailer_cursor t"
    by (auto simp: session_tailer_ops_def)
qed

text \<open>
  C13: Aging out loses nothing. When a JSONL or DSH session falls out of the recency window, the
  pool closes its tailer; when the session is active again, the tailer the pool then creates
  for the same transcript stands exactly where the closed one stood: the same DSH cursor, or the
  same byte offset, anchor, partial line and queued records.
\<close>

theorem expired_session_resumes:
  assumes "map_of (tp_tailers p) k = Some t" and "tp_paths p k = Some (s_transcript s)" and "tp_factory p = None"
    and "dget (s_extra s) ''transcript_kind'' \<noteq> pstr ''cursor-chat-sqlite''"
    and "px_new env s (fresh \<and> \<not> initial) None = Inr u" and "same_source t u"
    and "should_tail env (tp_recent p) now s"
  shows "\<exists>t' q'. update_session (session_tailer_ops L cops penv) env now initial fresh k s
        (snd (drop_tailer (session_tailer_ops L cops penv) True k p))
      = (None, if initial then q' else poll_and_mark (session_tailer_ops L cops penv) env k t' q')
    \<and> map_of (tp_tailers q') k = Some t' \<and> tailer_cursor t' = tailer_cursor t"
  using assms by (rule session_pool.expiry_resumes)

subsection \<open>Example\<close>

definition ex_pool_env :: "unit SessionTailer pool_env" where
  "ex_pool_env = \<lparr>px_new = (\<lambda>s fs c. Inr (ex_tailer\<lparr>t_last_seq := None\<rparr>)), px_is_file = (\<lambda>_. True),
     px_size = (\<lambda>_. None), px_low = (\<lambda>c. [c]), px_order = sorted_list_of_set\<rparr>"

definition ex_pool :: "(unit SessionTailer, Event) TailerPool" where
  "ex_pool = \<lparr>tp_recent = 10, tp_max_polls = 32, tp_factory = None, tp_known = {session_key ex_session},
     tp_tailers = [(session_key ex_session, ex_tailer)], tp_paths = [session_key ex_session \<mapsto> s_transcript ex_session],
     tp_checkpoints = Map.empty, tp_pending = {}, tp_errors = [], tp_error_keys = {}, tp_closed = False,
     tp_trace = [Opened (session_key ex_session)]\<rparr>"

theorem expired_session_resumes_witness:
  "\<exists>t' q'. update_session (session_tailer_ops ex_limits ex_ops (pager_env [] None)) ex_pool_env 0 True False
        (session_key ex_session) ex_session
        (snd (drop_tailer (session_tailer_ops ex_limits ex_ops (pager_env [] None)) True (session_key ex_session) ex_pool))
      = (None, q') \<and> map_of (tp_tailers q') (session_key ex_session) = Some t'
    \<and> tailer_cursor t' = tailer_cursor ex_tailer"
proof -
  have "map_of (tp_tailers ex_pool) (session_key ex_session) = Some ex_tailer"
    "tp_paths ex_pool (session_key ex_session) = Some (s_transcript ex_session)" "tp_factory ex_pool = None"
    by (simp_all add: ex_pool_def)
  moreover have "dget (s_extra ex_session) ''transcript_kind'' \<noteq> pstr ''cursor-chat-sqlite''"
    "should_tail ex_pool_env (tp_recent ex_pool) 0 ex_session"
    by (simp_all add: ex_session_def dict_get_def should_tail_def supports_tailing_def py_def)
  moreover have "px_new ex_pool_env ex_session (False \<and> \<not> True) None = Inr (ex_tailer\<lparr>t_last_seq := None\<rparr>)"
    "same_source ex_tailer (ex_tailer\<lparr>t_last_seq := None\<rparr>)"
    by (simp_all add: ex_pool_env_def same_source_def) (simp_all add: ex_tailer_def)
  ultimately show ?thesis
    using expired_session_resumes [of ex_pool "session_key ex_session" ex_tailer ex_session ex_pool_env False True
        "ex_tailer\<lparr>t_last_seq := None\<rparr>" 0 ex_limits ex_ops "pager_env [] None"]
    by simp
qed

end
