(* ===== verification/Json_Limits.thy ===== *)
theory Json_Limits
  imports Json
begin

text \<open>
  Strict bounded JSON (\<open>sidecar/json_limits.py\<close>): \<open>parse_json\<close> decodes one value with hooks that
  refuse duplicate keys, non-finite numbers and long integers; \<open>validate_json\<close> walks a value with
  an explicit stack and refuses it as soon as a resource bound is passed.

  \<^item> \<open>id(current)\<close> is the container's place in the value, the list of child indices from the
    container up to the root: the values of the model are finite trees, so different places are
    different objects.
  \<^item> A member of a \<open>str\<close> enumeration is a \<open>str\<close> for \<open>isinstance\<close>.
\<close>

datatype json_error = JSONSyntaxError string | JSONLimitError string

record JSONLimits =
  max_bytes :: "nat option"
  max_depth :: "nat option"
  max_items :: "nat option"
  max_nodes :: "nat option"
  max_string_bytes :: "nat option"
  max_integer_bits :: "nat option"

definition exceeds :: "nat \<Rightarrow> nat option \<Rightarrow> bool" where
  "exceeds n m \<longleftrightarrow> (case m of None \<Rightarrow> False | Some b \<Rightarrow> b < n)"

text \<open>\<open>JSONLimits(...)\<close>: \<open>__post_init__\<close> accepts \<open>None\<close> and non-negative integers only.\<close>

definition limit_field :: "pyval \<Rightarrow> nat option option" where
  "limit_field v =
     (if v = PNone then Some None
      else (case strict_int v of None \<Rightarrow> None | Some i \<Rightarrow> if i < 0 then None else Some (Some (nat i))))"

definition new_limits :: "pyval \<Rightarrow> pyval \<Rightarrow> pyval \<Rightarrow> pyval \<Rightarrow> pyval \<Rightarrow> pyval \<Rightarrow> JSONLimits option" where
  "new_limits b d i n s k =
     (case (limit_field b, limit_field d, limit_field i, limit_field n, limit_field s, limit_field k) of
        (Some b', Some d', Some i', Some n', Some s', Some k') \<Rightarrow>
          Some \<lparr>max_bytes = b', max_depth = d', max_items = i', max_nodes = n', max_string_bytes = s',
            max_integer_bits = k'\<rparr>
      | _ \<Rightarrow> None)"

fun nat_bits :: "nat \<Rightarrow> nat" where
  "nat_bits n = (if n = 0 then 0 else Suc (nat_bits (n div 2)))"

declare nat_bits.simps [simp del]

definition bit_length :: "int \<Rightarrow> nat" where
  "bit_length i = nat_bits (nat \<bar>i\<bar>)"

subsection \<open>Validation\<close>

definition check_structure_counts :: "JSONLimits \<Rightarrow> nat \<Rightarrow> nat \<Rightarrow> json_error option" where
  "check_structure_counts L items nodes =
     (if exceeds items (max_items L) then Some (JSONLimitError ''items'')
      else if exceeds nodes (max_nodes L) then Some (JSONLimitError ''nodes'')
      else None)"

definition check_text :: "JSONLimits \<Rightarrow> pystr \<Rightarrow> json_error option" where
  "check_text L s =
     (case encode_strict s of
        None \<Rightarrow> Some (JSONSyntaxError ''unicode'')
      | Some b \<Rightarrow> if exceeds (length b) (max_string_bytes L) then Some (JSONLimitError ''string'') else None)"

definition check_int :: "JSONLimits \<Rightarrow> int \<Rightarrow> json_error option" where
  "check_int L i = (if exceeds (bit_length i) (max_integer_bits L) then Some (JSONLimitError ''integer'') else None)"

text \<open>The checks of a value that is no container.\<close>

fun check_atom :: "JSONLimits \<Rightarrow> pyval \<Rightarrow> json_error option" where
  "check_atom L PNone = None"
| "check_atom L (PBool b) = None"
| "check_atom L (PInt i) = check_int L i"
| "check_atom L (PFloat f) = (case f of Fin r \<Rightarrow> None | _ \<Rightarrow> Some (JSONSyntaxError ''nonfinite''))"
| "check_atom L (PStr s) = check_text L s"
| "check_atom L (PEnum (PStr s)) = check_text L s"
| "check_atom L v = Some (JSONSyntaxError ''type'')"

fun is_text :: "pyval \<Rightarrow> bool" where
  "is_text (PStr s) = True"
| "is_text (PEnum (PStr s)) = True"
| "is_text v = False"

type_synonym place = "nat list"

datatype stack_entry = Visit pyval nat place | Leave place

text \<open>A measure of the work on the stack.\<close>

fun weight :: "pyval \<Rightarrow> nat" where
  "weight (PList xs) = 2 + sum_list (map weight xs)"
| "weight (PDict d) = 2 + sum_list (map (\<lambda>kv. 1 + weight (snd kv)) d)"
| "weight v = 1"

fun entry_weight :: "stack_entry \<Rightarrow> nat" where
  "entry_weight (Visit v d p) = weight v"
| "entry_weight (Leave p) = 1"

definition visit_items :: "pyval list \<Rightarrow> nat \<Rightarrow> place \<Rightarrow> stack_entry list" where
  "visit_items xs depth p = map (\<lambda>(i, x). Visit x (Suc depth) (i # p)) (List.enumerate 0 xs)"

definition visit_pairs :: "pydict \<Rightarrow> nat \<Rightarrow> place \<Rightarrow> stack_entry list" where
  "visit_pairs d depth p =
     concat (map (\<lambda>(i, k, x). [Visit k (Suc depth) ((2 * i) # p), Visit x (Suc depth) ((2 * i + 1) # p)])
       (List.enumerate 0 d))"

definition enter_container :: "place \<Rightarrow> place set \<Rightarrow> json_error + place set" where
  "enter_container p active =
     (if p \<in> active then Inl (JSONSyntaxError ''cycle'') else Inr (insert p active))"

lemma visit_items_weight: "sum_list (map entry_weight (visit_items xs depth p)) = sum_list (map weight xs)"
proof -
  have "sum_list (map entry_weight (map (\<lambda>(i, x). Visit x (Suc depth) (i # p)) (List.enumerate n xs)))
      = sum_list (map weight xs)" for n
    by (induction xs arbitrary: n) simp_all
  then show ?thesis
    by (simp only: visit_items_def)
qed

lemma is_text_weight: "is_text k \<Longrightarrow> weight k = 1"
  by (cases k rule: is_text.cases) simp_all

lemma visit_pairs_weight:
  "list_all (\<lambda>kv. is_text (fst kv)) d \<Longrightarrow>
    sum_list (map entry_weight (visit_pairs d depth p)) = sum_list (map (\<lambda>kv. 1 + weight (snd kv)) d)"
proof -
  have "list_all (\<lambda>kv. is_text (fst kv)) d \<Longrightarrow> sum_list (map entry_weight (concat (map (\<lambda>(i, k, x).
        [Visit k (Suc depth) ((2 * i) # p), Visit x (Suc depth) ((2 * i + 1) # p)]) (List.enumerate n d))))
      = sum_list (map (\<lambda>kv. 1 + weight (snd kv)) d)" for n
    by (induction d arbitrary: n) (auto simp: is_text_weight)
  then show "list_all (\<lambda>kv. is_text (fst kv)) d \<Longrightarrow>
      sum_list (map entry_weight (visit_pairs d depth p)) = sum_list (map (\<lambda>kv. 1 + weight (snd kv)) d)"
    by (simp only: visit_pairs_def)
qed

text \<open>The loop, with the top of the stack first; \<open>Some\<close> is the exception raised.\<close>

function validate_loop ::
  "JSONLimits \<Rightarrow> stack_entry list \<Rightarrow> nat \<Rightarrow> nat \<Rightarrow> place set \<Rightarrow> json_error option" where
  "validate_loop L [] nodes items active = None"
| "validate_loop L (Leave p # st) nodes items active = validate_loop L st nodes items (active - {p})"
| "validate_loop L (Visit v depth p # st) nodes items active =
     (if exceeds depth (max_depth L) then Some (JSONLimitError ''depth'')
      else
        (case v of
           PList xs \<Rightarrow>
             (let items1 = items + length xs; nodes1 = nodes + length xs in
              case check_structure_counts L items1 nodes1 of
                Some e \<Rightarrow> Some e
              | None \<Rightarrow>
                  (case enter_container p active of
                     Inl e \<Rightarrow> Some e
                   | Inr active1 \<Rightarrow>
                       validate_loop L (visit_items xs depth p @ Leave p # st) nodes1 items1 active1))
         | PDict d \<Rightarrow>
             (let items1 = items + length d; nodes1 = nodes + length d * 2 in
              case check_structure_counts L items1 nodes1 of
                Some e \<Rightarrow> Some e
              | None \<Rightarrow>
                  (case enter_container p active of
                     Inl e \<Rightarrow> Some e
                   | Inr active1 \<Rightarrow>
                       if list_all (\<lambda>kv. is_text (fst kv)) d
                       then validate_loop L (visit_pairs d depth p @ Leave p # st) nodes1 items1 active1
                       else Some (JSONSyntaxError ''key'')))
         | _ \<Rightarrow>
             (case check_atom L v of
                Some e \<Rightarrow> Some e
              | None \<Rightarrow> validate_loop L st nodes items active)))"
  by pat_completeness auto

termination
  by (relation "measure (\<lambda>(L, st, nodes, items, active). sum_list (map entry_weight st))")
    (auto simp: visit_items_weight visit_pairs_weight)

definition validate_json :: "pyval \<Rightarrow> JSONLimits \<Rightarrow> json_error option" where
  "validate_json v L =
     (if exceeds 1 (max_nodes L) then Some (JSONLimitError ''nodes'')
      else validate_loop L [Visit v 0 []] 1 0 {})"

subsection \<open>Parsing\<close>

fun has_duplicate :: "pystr list \<Rightarrow> bool" where
  "has_duplicate [] = False"
| "has_duplicate (k # ks) = (k \<in> set ks \<or> has_duplicate ks)"

definition object_without_duplicates :: "(pystr \<times> pyval) list \<Rightarrow> json_error + pyval" where
  "object_without_duplicates ps =
     (if has_duplicate (map fst ps) then Inl (JSONSyntaxError ''duplicate_key'')
      else Inr (PDict (map (\<lambda>(k, v). (PStr k, v)) ps)))"

definition reject_constant :: "pystr \<Rightarrow> json_error + pyval" where
  "reject_constant t = Inl (JSONSyntaxError ''nonfinite'')"

definition raw_payload :: "pyval \<Rightarrow> json_error + bytes" where
  "raw_payload v =
     (case v of
        PStr s \<Rightarrow> (case encode_strict s of None \<Rightarrow> Inl (JSONSyntaxError ''unicode'') | Some b \<Rightarrow> Inr b)
      | PBytes b \<Rightarrow> Inr b
      | _ \<Rightarrow> Inl (JSONSyntaxError ''type''))"

definition parse_integer :: "py_limits \<Rightarrow> JSONLimits \<Rightarrow> pystr \<Rightarrow> json_error + pyval" where
  "parse_integer P L t =
     (if exceeds (digit_count t) (max_integer_bits L) then Inl (JSONLimitError ''integer'')
      else
        (case py_int P t of
           Inl _ \<Rightarrow> Inl (JSONLimitError ''integer'')
         | Inr i \<Rightarrow>
             if exceeds (bit_length i) (max_integer_bits L) then Inl (JSONLimitError ''integer'')
             else Inr (PInt i)))"

definition strict_hooks :: "py_limits \<Rightarrow> JSONLimits \<Rightarrow> json_error json_hooks" where
  "strict_hooks P L =
     \<lparr>hook_object = object_without_duplicates, hook_int = parse_integer P L, hook_constant = reject_constant\<rparr>"

definition loads_error :: "json_error json_fail \<Rightarrow> json_error" where
  "loads_error e =
     (case e of
        JHook x \<Rightarrow> x
      | JRecursion \<Rightarrow> JSONLimitError ''depth''
      | JDecode \<Rightarrow> JSONSyntaxError ''malformed''
      | JFuel \<Rightarrow> JSONSyntaxError ''malformed'')"

definition parse_json :: "py_limits \<Rightarrow> pyval \<Rightarrow> JSONLimits \<Rightarrow> json_error + pyval" where
  "parse_json P payload L =
     (case raw_payload payload of
        Inl e \<Rightarrow> Inl e
      | Inr raw \<Rightarrow>
          if raw = [] then Inl (JSONSyntaxError ''empty'')
          else if exceeds (length raw) (max_bytes L) then Inl (JSONLimitError ''bytes'')
          else
            (case decode_strict raw of
               None \<Rightarrow> Inl (JSONSyntaxError ''utf8'')
             | Some text \<Rightarrow>
                 (case json_loads_with (strict_hooks P L) (py_recursion P) text of
                    Inl e \<Rightarrow> Inl (loads_error e)
                  | Inr v \<Rightarrow> (case validate_json v L of Some e \<Rightarrow> Inl e | None \<Rightarrow> Inr v))))"

subsection \<open>What validation accepts\<close>

fun items_in :: "pyval \<Rightarrow> nat" where
  "items_in (PList xs) = length xs + sum_list (map items_in xs)"
| "items_in (PDict d) = length d + sum_list (map (\<lambda>kv. items_in (snd kv)) d)"
| "items_in v = 0"

fun nodes_in :: "pyval \<Rightarrow> nat" where
  "nodes_in (PList xs) = length xs + sum_list (map nodes_in xs)"
| "nodes_in (PDict d) = 2 * length d + sum_list (map (\<lambda>kv. nodes_in (snd kv)) d)"
| "nodes_in v = 0"

text \<open>The bounds on each value by itself, by recursion on the value.\<close>

fun value_ok :: "JSONLimits \<Rightarrow> nat \<Rightarrow> pyval \<Rightarrow> bool" where
  "value_ok L depth (PList xs) \<longleftrightarrow>
     \<not> exceeds depth (max_depth L) \<and> (\<forall>x \<in> set xs. value_ok L (Suc depth) x)"
| "value_ok L depth (PDict d) \<longleftrightarrow>
     \<not> exceeds depth (max_depth L)
     \<and> (\<forall>kv \<in> set d. is_text (fst kv) \<and> \<not> exceeds (Suc depth) (max_depth L)
          \<and> check_atom L (fst kv) = None \<and> value_ok L (Suc depth) (snd kv))"
| "value_ok L depth v \<longleftrightarrow> \<not> exceeds depth (max_depth L) \<and> check_atom L v = None"

definition within_counts :: "JSONLimits \<Rightarrow> nat \<Rightarrow> nat \<Rightarrow> bool" where
  "within_counts L items nodes \<longleftrightarrow> \<not> exceeds items (max_items L) \<and> \<not> exceeds nodes (max_nodes L)"

definition conforms :: "JSONLimits \<Rightarrow> pyval \<Rightarrow> bool" where
  "conforms L v \<longleftrightarrow> value_ok L 0 v \<and> within_counts L (items_in v) (1 + nodes_in v)"

lemma within_counts_mono:
  "within_counts L (i + j) (n + m) \<Longrightarrow> within_counts L i n"
  by (auto simp: within_counts_def exceeds_def split: option.splits)

lemma check_structure_counts_None: "check_structure_counts L i n = None \<longleftrightarrow> within_counts L i n"
  by (auto simp: check_structure_counts_def within_counts_def)

lemmas counts_ok = check_structure_counts_None [THEN iffD2]

text \<open>What visiting one value does to the rest of the loop.\<close>

definition visits :: "JSONLimits \<Rightarrow> pyval \<Rightarrow> bool" where
  "visits L v \<longleftrightarrow> (\<forall>depth p st n i A. (\<forall>a \<in> A. length a < length p) \<longrightarrow> within_counts L i n \<longrightarrow>
     (validate_loop L (Visit v depth p # st) n i A = None \<longleftrightarrow>
        value_ok L depth v \<and> within_counts L (i + items_in v) (n + nodes_in v)
        \<and> validate_loop L st (n + nodes_in v) (i + items_in v) A = None))"

lemma visitsD:
  assumes "visits L v" and "\<forall>a \<in> A. length a < length p" and "within_counts L i n"
  shows "validate_loop L (Visit v depth p # st) n i A = None \<longleftrightarrow>
        value_ok L depth v \<and> within_counts L (i + items_in v) (n + nodes_in v)
        \<and> validate_loop L st (n + nodes_in v) (i + items_in v) A = None"
  using assms unfolding visits_def by blast

lemma visit_items_loop:
  assumes "\<And>x. x \<in> set xs \<Longrightarrow> visits L x" and A: "\<forall>a \<in> A. length a \<le> length p" and "within_counts L i n"
  shows "validate_loop L (map (\<lambda>(j, x). Visit x depth (j # p)) (List.enumerate j xs) @ st) n i A = None \<longleftrightarrow>
    (\<forall>x \<in> set xs. value_ok L depth x)
    \<and> within_counts L (i + sum_list (map items_in xs)) (n + sum_list (map nodes_in xs))
    \<and> validate_loop L st (n + sum_list (map nodes_in xs)) (i + sum_list (map items_in xs)) A = None"
  using assms(1,3)
proof (induction xs arbitrary: j n i)
  case (Cons x xs)
  have A': "\<forall>a \<in> A. length a < length (j # p)" using A by (auto simp: le_imp_less_Suc)
  have x: "visits L x" using Cons.prems(1) by simp
  show ?case
  proof (cases "value_ok L depth x \<and> within_counts L (i + items_in x) (n + nodes_in x)")
    case True
    then have "within_counts L (i + items_in x) (n + nodes_in x)" by simp
    from Cons.IH [OF _ this, of "Suc j"] Cons.prems(1) True visitsD [OF x A' Cons.prems(2)] show ?thesis
      by (simp add: add.assoc)
  next
    case False
    then have "\<not> (value_ok L depth x \<and> within_counts L (i + (items_in x + sum_list (map items_in xs)))
        (n + (nodes_in x + sum_list (map nodes_in xs))))"
      using within_counts_mono [of L "i + items_in x" "sum_list (map items_in xs)" "n + nodes_in x"
          "sum_list (map nodes_in xs)"]
      by (auto simp: add.assoc)
    with False visitsD [OF x A' Cons.prems(2)] show ?thesis by auto
  qed
qed simp

lemma visits_atom:
  assumes "weight v = 1"
  shows "visits L v"
proof -
  have c: "items_in v = 0" "nodes_in v = 0"
    using assms by (cases v; simp)+
  have "value_ok L depth v \<longleftrightarrow> \<not> exceeds depth (max_depth L) \<and> check_atom L v = None" for depth
    using assms by (cases v) simp_all
  then show ?thesis
    using assms unfolding visits_def c by (cases v) (auto split: option.splits)
qed

lemma visits_list:
  assumes "\<And>x. x \<in> set xs \<Longrightarrow> visits L x"
  shows "visits L (PList xs)"
  unfolding visits_def
proof (intro allI impI)
  fix depth n i st and p :: place and A :: "place set"
  assume A: "\<forall>a \<in> A. length a < length p" and w: "within_counts L i n"
  have p: "p \<notin> A" "\<forall>a \<in> insert p A. length a \<le> length p" "insert p A - {p} = A"
    using A by (auto simp: less_imp_le)
  show "validate_loop L (Visit (PList xs) depth p # st) n i A = None \<longleftrightarrow>
      value_ok L depth (PList xs) \<and> within_counts L (i + items_in (PList xs)) (n + nodes_in (PList xs))
      \<and> validate_loop L st (n + nodes_in (PList xs)) (i + items_in (PList xs)) A = None"
  proof (cases "within_counts L (i + length xs) (n + length xs)")
    case True
    note l = visit_items_loop [OF assms p(2) True, where depth = "Suc depth" and j = 0 and st = "Leave p # st"]
    show ?thesis
      using p l by (auto simp: counts_ok [OF True] enter_container_def visit_items_def Let_def add.assoc)
  next
    case False
    then have "\<not> within_counts L (i + items_in (PList xs)) (n + nodes_in (PList xs))"
      using within_counts_mono [of L "i + length xs" _ "n + length xs"] by (auto simp: add.assoc)
    with check_structure_counts_None [of L "i + length xs" "n + length xs"] False show ?thesis
      by (auto simp: Let_def)
  qed
qed


text \<open>A pair is visited as its key and its value.\<close>

lemma visit_pairs_loop:
  assumes "\<And>kv. kv \<in> set d \<Longrightarrow> visits L (fst kv) \<and> visits L (snd kv)" and A: "\<forall>a \<in> A. length a \<le> length p"
    and "within_counts L i n" and "\<And>kv. kv \<in> set d \<Longrightarrow> is_text (fst kv)"
  shows "validate_loop L (concat (map (\<lambda>(j, k, x). [Visit k depth ((2 * j) # p), Visit x depth ((2 * j + 1) # p)])
        (List.enumerate j d)) @ st) n i A = None \<longleftrightarrow>
    (\<forall>kv \<in> set d. value_ok L depth (fst kv) \<and> value_ok L depth (snd kv))
    \<and> within_counts L (i + sum_list (map (\<lambda>kv. items_in (snd kv)) d)) (n + sum_list (map (\<lambda>kv. nodes_in (snd kv)) d))
    \<and> validate_loop L st (n + sum_list (map (\<lambda>kv. nodes_in (snd kv)) d)) (i + sum_list (map (\<lambda>kv. items_in (snd kv)) d)) A = None"
  using assms(1,3,4)
proof (induction d arbitrary: j n i)
  case (Cons kv d)
  obtain k x where kv: "kv = (k, x)" by fastforce
  have len: "\<forall>a \<in> A. length a < length (m # p)" for m using A by (auto simp: le_imp_less_Suc)
  have v: "visits L k" "visits L x" using Cons.prems(1) [of kv] kv by auto
  have w: "weight k = 1" using Cons.prems(3) [of kv] kv by (simp add: is_text_weight)
  have k: "items_in k = 0" "nodes_in k = 0" using w by (cases k; simp)+
  note vk = visitsD [OF v(1) len Cons.prems(2)] and vx = visitsD [OF v(2) len Cons.prems(2)]
  show ?case
  proof (cases "within_counts L (i + items_in x) (n + nodes_in x)")
    case True
    from Cons.IH [OF _ True, of "Suc j"] Cons.prems(1,2,3) vk vx show ?thesis
      by (simp add: kv k True add.assoc)
  next
    case False
    then have "\<not> within_counts L (i + (items_in x + sum_list (map (\<lambda>kv. items_in (snd kv)) d)))
        (n + (nodes_in x + sum_list (map (\<lambda>kv. nodes_in (snd kv)) d)))"
      using within_counts_mono [of L "i + items_in x" _ "n + nodes_in x"] by (auto simp: add.assoc)
    with False vk vx Cons.prems(2) show ?thesis
      by (auto simp: kv k)
  qed
qed simp

lemma visits_dict:
  assumes v: "\<And>kv. kv \<in> set d \<Longrightarrow> visits L (snd kv)"
  shows "visits L (PDict d)"
  unfolding visits_def
proof (intro allI impI)
  fix depth n i st and p :: place and A :: "place set"
  assume A: "\<forall>a \<in> A. length a < length p" and w: "within_counts L i n"
  have p: "p \<notin> A" "\<forall>a \<in> insert p A. length a \<le> length p" "insert p A - {p} = A"
    using A by (auto simp: less_imp_le)
  have key: "value_ok L m k \<longleftrightarrow> \<not> exceeds m (max_depth L) \<and> check_atom L k = None" if "is_text k" for k m
    using that by (cases k rule: is_text.cases) simp_all
  consider (counts) "\<not> within_counts L (i + length d) (n + length d * 2)"
    | (keys) "within_counts L (i + length d) (n + length d * 2)" "\<not> list_all (\<lambda>kv. is_text (fst kv)) d"
    | (ok) "within_counts L (i + length d) (n + length d * 2)" "\<And>kv. kv \<in> set d \<Longrightarrow> is_text (fst kv)"
    by (auto simp: list_all_iff)
  then show "validate_loop L (Visit (PDict d) depth p # st) n i A = None \<longleftrightarrow>
      value_ok L depth (PDict d) \<and> within_counts L (i + items_in (PDict d)) (n + nodes_in (PDict d))
      \<and> validate_loop L st (n + nodes_in (PDict d)) (i + items_in (PDict d)) A = None"
  proof cases
    case counts
    then have "\<not> within_counts L (i + items_in (PDict d)) (n + nodes_in (PDict d))"
      using within_counts_mono [of L "i + length d" _ "n + length d * 2"] by (auto simp: add.assoc mult.commute)
    with check_structure_counts_None [of L "i + length d" "n + length d * 2"] counts show ?thesis
      by (auto simp: Let_def)
  next
    case keys
    then show ?thesis
      using p by (auto simp: counts_ok [OF keys(1)] Let_def enter_container_def list_all_iff)
  next
    case ok
    have "visits L (fst kv) \<and> visits L (snd kv)" if "kv \<in> set d" for kv
      using v [OF that] visits_atom [OF is_text_weight [OF ok(2) [OF that]]] by blast
    note l = visit_pairs_loop [OF this p(2) ok, where depth = "Suc depth" and j = 0 and st = "Leave p # st"]
    have "list_all (\<lambda>kv. is_text (fst kv)) d" using ok(2) by (simp add: list_all_iff)
    then show ?thesis
      using p ok(2) l key
      by (auto simp: counts_ok [OF ok(1)] enter_container_def visit_pairs_def Let_def add.assoc mult.commute)
  qed
qed

lemma visits_all: "visits L v"
proof (induction v)
  case (PDict d)
  show ?case
  proof (rule visits_dict)
    fix kv :: "pyval \<times> pyval"
    assume "kv \<in> set d"
    from PDict [OF this] show "visits L (snd kv)"
      by (cases kv) auto
  qed
qed (auto intro: visits_list visits_atom)

lemma validate_json_iff: "validate_json v L = None \<longleftrightarrow> conforms L v"
proof (cases "exceeds 1 (max_nodes L)")
  case True
  then have "\<not> within_counts L (items_in v) (1 + nodes_in v)"
    by (auto simp: within_counts_def exceeds_def split: option.splits)
  with True show ?thesis
    by (simp add: validate_json_def conforms_def)
next
  case False
  then have w: "within_counts L 0 1"
    by (auto simp: within_counts_def exceeds_def split: option.splits)
  from False visitsD [OF visits_all [of L v] _ w, of "{}" "[]" 0 "[]"] show ?thesis
    by (simp add: validate_json_def conforms_def)
qed


subsection \<open>Strict parsing refines plain parsing\<close>

text \<open>Hooks that accept less, and give the same value where they accept.\<close>

definition refines_hooks :: "('e, 'm) json_hooks_scheme \<Rightarrow> ('f, 'n) json_hooks_scheme \<Rightarrow> bool" where
  "refines_hooks h g \<longleftrightarrow>
     (\<forall>ps v. hook_object h ps = Inr v \<longrightarrow> hook_object g ps = Inr v)
     \<and> (\<forall>t v. hook_int h t = Inr v \<longrightarrow> hook_int g t = Inr v)
     \<and> (\<forall>t v. hook_constant h t = Inr v \<longrightarrow> hook_constant g t = Inr v)"

lemma scan_atom_refines:
  "refines_hooks h g \<Longrightarrow> scan_atom h s = Inr (v, r) \<Longrightarrow> scan_atom g s = Inr (v, r)"
  by (auto simp: scan_atom_def scan_constant_def scan_number_def refines_hooks_def
      split: if_splits sum.splits option.splits prod.splits)

lemma close_object_refines:
  "refines_hooks h g \<Longrightarrow> close_object h ps s = Inr (v, r) \<Longrightarrow> close_object g ps s = Inr (v, r)"
  by (auto simp: close_object_def refines_hooks_def split: sum.splits)

lemma members_step_refines:
  assumes "refines_hooks h g" and "\<And>m s v r. scan m s = Inr (v, r) \<Longrightarrow> scan' m s = Inr (v, r)"
    and "\<And>m acc s v r. members m acc s = Inr (v, r) \<Longrightarrow> members' m acc s = Inr (v, r)"
    and "members_step h scan members m acc s = Inr (v, r)"
  shows "members_step g scan' members' m acc s = Inr (v, r)"
proof -
  obtain key r0 r1 u r2 c r3 where 1: "s \<noteq> []" "hd s = 34" "scan_string [] (tl s) = Some (key, r0)"
      "skip_ws r0 = 58 # r1" "scan m (skip_ws r1) = Inr (u, r2)" "skip_ws r2 = c # r3"
    using assms(4) by (auto simp: members_step_def split: if_splits sum.splits list.splits option.splits)
  from assms(2) [OF 1(5)] 1 assms(4) show ?thesis
    using close_object_refines [OF assms(1)] assms(3) by (auto simp: members_step_def split: if_splits)
qed

lemma scan_refines:
  assumes "refines_hooks h g"
  shows "(\<forall>m s v r. json_scan h k m s = Inr (v, r) \<longrightarrow> json_scan g k m s = Inr (v, r)) \<and>
    (\<forall>m acc s v r. json_elems h k m acc s = Inr (v, r) \<longrightarrow> json_elems g k m acc s = Inr (v, r)) \<and>
    (\<forall>m acc s v r. json_members h k m acc s = Inr (v, r) \<longrightarrow> json_members g k m acc s = Inr (v, r))"
proof (induction k)
  case (Suc k)
  have "json_scan g (Suc k) m s = Inr (v, r)" if "json_scan h (Suc k) m s = Inr (v, r)" for m s v r
  proof (cases s)
    case (Cons c s')
    consider "c = 34" | "c = 123" | "c = 91" | "c \<noteq> 34 \<and> c \<noteq> 123 \<and> c \<noteq> 91" by blast
    then show ?thesis
      using that Cons Suc scan_atom_refines [OF assms, of s v r] close_object_refines [OF assms]
      by cases (auto simp: scan_step_def Let_def split: if_splits option.splits)
  qed (use that in \<open>simp add: scan_step_def\<close>)
  moreover have "json_elems g (Suc k) m acc s = Inr (v, r)" if "json_elems h (Suc k) m acc s = Inr (v, r)" for m acc s v r
    using that Suc by (fastforce simp: elems_step_def split: if_splits sum.splits list.splits)
  moreover have "json_members g (Suc k) m acc s = Inr (v, r)" if "json_members h (Suc k) m acc s = Inr (v, r)" for m acc s v r
  proof -
    have "members_step h (json_scan h k) (json_members h k) m acc s = Inr (v, r)"
      using that by simp
    from members_step_refines [OF assms _ _ this, of "json_scan g k" "json_members g k"] show ?thesis
      using Suc by simp
  qed
  ultimately show ?case by blast
qed simp

lemma loads_with_refines:
  "refines_hooks h g \<Longrightarrow> json_loads_with h m s = Inr v \<Longrightarrow> json_loads_with g m s = Inr v"
  using scan_refines [of h g "2 * length s + 2"]
  by (cases "json_scan h (2 * length s + 2) m (skip_ws s)")
    (auto simp: json_loads_with_def split: if_splits)

lemma has_duplicate_distinct [simp]: "has_duplicate ks \<longleftrightarrow> \<not> distinct ks"
  by (induction ks) auto

lemma strict_refines_plain: "refines_hooks (strict_hooks P L) (plain_hooks P)"
proof -
  have "hook_object (plain_hooks P) ps = Inr v" if "object_without_duplicates ps = Inr v" for ps v
  proof -
    have "map fst (map (\<lambda>(k, v). (PStr k, v)) ps) = map PStr (map fst ps)"
      by auto
    moreover have "distinct (map PStr (map fst ps))"
      using that by (auto simp: object_without_duplicates_def distinct_map inj_on_def split: if_splits)
    ultimately have "distinct (map fst (map (\<lambda>(k, v). (PStr k, v)) ps))"
      by (simp only:)
    then show ?thesis
      using that by (simp add: plain_hooks_def object_without_duplicates_def dict_of_distinct split: if_splits)
  qed
  then show ?thesis
    by (auto simp: refines_hooks_def strict_hooks_def reject_constant_def parse_integer_def plain_hooks_def
        split: if_splits sum.splits)
qed

text \<open>
  C17: What the strict parser accepts, the plain parser accepts with the same value. If \<open>parse_json\<close>
  returns a value, its payload was within the byte bound and valid UTF-8, \<open>json.loads\<close> gives
  the same value for its text, and the value is within every structural bound.
\<close>

theorem parse_json_refines_loads:
  assumes "parse_json P payload L = Inr v"
  shows "\<exists>raw chars. raw_payload payload = Inr raw \<and> raw \<noteq> [] \<and> \<not> exceeds (length raw) (max_bytes L)
    \<and> decode_strict raw = Some chars \<and> json_loads P chars = Inr v \<and> conforms L v"
proof -
  obtain raw chars where 1: "raw_payload payload = Inr raw" "raw \<noteq> []" "\<not> exceeds (length raw) (max_bytes L)"
      "decode_strict raw = Some chars" "json_loads_with (strict_hooks P L) (py_recursion P) chars = Inr v"
      "validate_json v L = None"
    using assms by (auto simp: parse_json_def split: sum.splits if_splits option.splits)
  then have "json_loads P chars = Inr v" "conforms L v"
    using loads_with_refines [OF strict_refines_plain] validate_json_iff by (auto simp: json_loads_def)
  with 1 show ?thesis by blast
qed

subsection \<open>Example\<close>

definition ex_json_limits :: JSONLimits where
  "ex_json_limits = \<lparr>max_bytes = Some 64, max_depth = Some 4, max_items = Some 8, max_nodes = Some 16,
     max_string_bytes = Some 16, max_integer_bits = Some 64\<rparr>"

definition ex_py_limits :: py_limits where
  "ex_py_limits = \<lparr>py_recursion = 100, py_int_digits = 4300\<rparr>"

lemma ex_parse: "parse_json ex_py_limits (PBytes [91, 49, 93]) ex_json_limits = Inr (PList [PInt 1])"
  by (simp add: parse_json_def raw_payload_def exceeds_def ex_json_limits_def ex_py_limits_def
      decode_strict.simps utf8_step_def json_eval strict_hooks_def parse_integer_def bit_length_def nat_bits.simps
      validate_json_def check_structure_counts_def enter_container_def visit_items_def check_int_def)

theorem parse_json_refines_loads_witness:
  "\<exists>raw chars. raw_payload (PBytes [91, 49, 93]) = Inr raw \<and> decode_strict raw = Some chars
    \<and> json_loads ex_py_limits chars = Inr (PList [PInt 1]) \<and> conforms ex_json_limits (PList [PInt 1])"
  using parse_json_refines_loads [OF ex_parse] by blast

end
