(* ===== verification/Py_Float.thy ===== *)
theory Py_Float
  imports Json
begin

text \<open>
  The conversion \<open>float(v)\<close> and the order of floats, as several components use them. A finite float is
  an exact number; \<open>ft\<close> is \<open>float\<close> on texts.
\<close>

datatype float_conv = Converted pyfloat | Refused | Overflowed

text \<open>\<open>float(v)\<close>: \<open>Refused\<close> is its \<open>TypeError\<close> or \<open>ValueError\<close>, \<open>Overflowed\<close> its \<open>OverflowError\<close>.\<close>

definition float_of_int :: "int \<Rightarrow> float_conv" where
  "float_of_int i = (case float_of (of_int i) of Fin r \<Rightarrow> Converted (Fin r) | _ \<Rightarrow> Overflowed)"

definition float_of_text :: "(pystr \<Rightarrow> pyfloat option) \<Rightarrow> pystr \<Rightarrow> float_conv" where
  "float_of_text ft s = (case ft s of None \<Rightarrow> Refused | Some f \<Rightarrow> Converted f)"

fun to_float :: "(pystr \<Rightarrow> pyfloat option) \<Rightarrow> pyval \<Rightarrow> float_conv" where
  "to_float ft (PBool b) = Converted (Fin (if b then 1 else 0))"
| "to_float ft (PInt i) = float_of_int i"
| "to_float ft (PFloat f) = Converted f"
| "to_float ft (PStr s) = float_of_text ft s"
| "to_float ft (PBytes b) = float_of_text ft (map unat b)"
| "to_float ft (PEnum (PStr s)) = float_of_text ft s"
| "to_float ft v = Refused"

text \<open>\<open>a < b\<close> on floats; NaN compares false.\<close>

fun float_less :: "pyfloat \<Rightarrow> pyfloat \<Rightarrow> bool" where
  "float_less (Fin a) (Fin b) = (a < b)"
| "float_less NegInf (Fin b) = True"
| "float_less NegInf PosInf = True"
| "float_less (Fin a) PosInf = True"
| "float_less a b = False"

end
