(* ===== verification/Json_Roundtrip.thy ===== *)
theory Json_Roundtrip
  imports Json_Dump "HOL-Library.Multiset"
begin

text \<open>
  What \<open>json.dumps\<close> writes, \<open>json.loads\<close> reads back, for values whose objects have distinct text
  keys and whose numbers the interpreter can print and read: the law behind every registry and
  log the sidecar keeps on disk. Sorting keys changes the order of an object's members; a tuple
  comes back as a list.
\<close>

definition number_end :: "pystr \<Rightarrow> bool" where
  "number_end rest \<longleftrightarrow> rest = [] \<or> hd rest \<in> {44, 93, 125}"

subsection \<open>Texts\<close>

lemma hex_digit_char: "n < 16 \<Longrightarrow> hex_digit (hex_char n) = Some n"
  by (auto simp: hex_digit_def hex_char_def is_digit_def)

lemma hex4_text: "n < 256 \<Longrightarrow> hex4 48 48 (hex_char (n div 16 mod 16)) (hex_char (n mod 16)) = Some n"
  using hex_digit_char [of 0]
  by (simp add: hex4_def hex_digit_char hex_char_def [of 0] split: option.splits) 

lemma scan_u_escape: "c < 32 \<Longrightarrow> scan_escape (tl (u_escape c) @ r) = Some (c, r)"
proof -
  assume c: "c < 32"
  then have d: "c div 4096 = 0" "c div 256 = 0" by simp_all
  have "hex_char 0 = 48" by (simp add: hex_char_def)
  then have "hex4_text c = [48, 48, hex_char (c div 16 mod 16), hex_char (c mod 16)]"
    using d by (simp add: hex4_text_def)
  then show ?thesis
    using hex4_text [of c] c
    by (simp add: u_escape_def scan_escape_def scan_unicode_def is_high_def split: list.splits)
qed

lemma scan_escaped_char: "scan_string acc (escape_char False c @ r) = scan_string (c # acc) r"
proof (cases "c < 32 \<and> c \<notin> {10, 13, 9, 12, 8}")
  case True
  then have "escape_char False c = 92 # tl (u_escape c)"
    by (auto simp: escape_char_def u_escape_def)
  then show ?thesis
    using scan_u_escape [of c r] True by simp
next
  case False
  then show ?thesis
    by (auto simp: escape_char_def scan_escape_def simple_escape_def)
qed

lemma scan_dumped_chars:
  "scan_string acc (concat (map (escape_char False) s) @ 34 # rest) = Some (rev acc @ s, rest)"
  by (induction s arbitrary: acc) (simp_all add: scan_escaped_char)

lemma scan_dumped_string: "scan_string [] (tl (dump_string False s) @ rest) = Some (s, rest)"
  by (simp add: dump_string_def scan_dumped_chars)

subsection \<open>Numbers\<close>

lemma digits10_simps: "n < 10 \<Longrightarrow> digits10 n = [48 + n]" "10 \<le> n \<Longrightarrow> digits10 n = digits10 (n div 10) @ [48 + n mod 10]"
  by (simp_all add: digits10.simps)

lemma digits10_digits: "list_all is_digit (digits10 n) \<and> digits10 n \<noteq> [] \<and> digits_val (digits10 n) = n
    \<and> (0 < n \<longrightarrow> hd (digits10 n) \<noteq> 48)"
proof (induction n rule: less_induct)
  case (less n)
  show ?case
  proof (cases "n < 10")
    case True
    then show ?thesis by (simp add: digits10_simps is_digit_def digits_val_def)
  next
    case False
    then have "n div 10 < n" "0 < n div 10" by auto
    from less [OF this(1)] this(2) False show ?thesis
      by (simp add: digits10_simps is_digit_def digits_val_def)
  qed
qed

lemma takeWhile_digits:
  "list_all is_digit ds \<Longrightarrow> number_end rest \<Longrightarrow>
    takeWhile is_digit (ds @ rest) = ds \<and> dropWhile is_digit (ds @ rest) = rest"
  by (induction ds) (cases rest; auto simp: number_end_def is_digit_def)+

lemma scan_after_int: "number_end rest \<Longrightarrow> scan_frac rest = ([], rest) \<and> scan_exp rest = (None, rest)"
  by (auto simp: number_end_def scan_frac_def scan_exp_def split: list.splits)

lemma int_str_shape:
  obtains ds where "int_str i = (if i < 0 then [45] else []) @ ds" "list_all is_digit ds" "ds \<noteq> []"
    "hd ds = 48 \<Longrightarrow> ds = [48]" "digits_val ds = nat \<bar>i\<bar>"
proof -
  let ?n = "nat \<bar>i\<bar>"
  have "?n = 0 \<or> 0 < ?n" by blast
  then have "hd (digits10 ?n) = 48 \<Longrightarrow> digits10 ?n = [48]"
    using digits10_digits [of ?n] by (auto simp: digits10_simps)
  moreover have "int_str i = (if i < 0 then [45] else []) @ digits10 ?n"
    by (simp add: int_str_def)
  ultimately show thesis
    using that [of "digits10 ?n"] digits10_digits [of ?n] by blast
qed

lemma int_value_str: "int_value (int_str i) = i"
proof (rule int_str_shape [of i])
  fix ds
  assume i: "int_str i = (if i < 0 then [45] else []) @ ds" "list_all is_digit ds" "ds \<noteq> []" "digits_val ds = nat \<bar>i\<bar>"
  then obtain d ds' where "ds = d # ds'" "d \<noteq> 45"
    by (cases ds) (auto simp: is_digit_def)
  with i show ?thesis
    by (auto simp: int_value_def)
qed

lemma scan_int_str:
  assumes "number_end rest"
  shows "scan_number h (int_str i @ rest) =
    (case hook_int h (int_str i) of Inl e \<Rightarrow> Inl (JHook e) | Inr v \<Rightarrow> Inr (v, rest))"
proof (rule int_str_shape [of i])
  fix ds
  assume i: "int_str i = (if i < 0 then [45] else []) @ ds" "list_all is_digit ds" "ds \<noteq> []" "hd ds = 48 \<Longrightarrow> ds = [48]"
  obtain d ds' where ds: "ds = d # ds'" using i(3) by (cases ds) auto
  have d: "is_digit d" "d \<noteq> 45" using i(2) ds by (auto simp: is_digit_def)
  note tw = takeWhile_digits [OF i(2) assms]
  have "scan_int_part (int_str i @ rest) = Some (int_str i, rest)"
  proof (cases "d = 48")
    case True
    with i(4) ds have "ds' = []" by simp
    with True ds i(1) show ?thesis by (simp add: scan_int_part_def)
  next
    case False
    with tw d ds i(1) show ?thesis by (simp add: scan_int_part_def)
  qed
  then show ?thesis
    using scan_after_int [OF assms] by (simp add: scan_number_def)
qed

text \<open>A text that every scanner reads as the given float, up to the end of the number.\<close>

definition is_float_text :: "pystr \<Rightarrow> rat \<Rightarrow> bool" where
  "is_float_text t r \<longleftrightarrow> t \<noteq> [] \<and> (is_digit (hd t) \<or> hd t = 45 \<and> tl t \<noteq> [] \<and> is_digit (hd (tl t)))
     \<and> (\<forall>(h :: unit json_hooks) rest. number_end rest \<longrightarrow> scan_number h (t @ rest) = Inr (PFloat (Fin r), rest))"

definition number_start :: "pystr \<Rightarrow> bool" where
  "number_start t \<longleftrightarrow> t \<noteq> [] \<and> (is_digit (hd t) \<or> hd t = 45 \<and> tl t \<noteq> [] \<and> is_digit (hd (tl t)))"

lemma starts_with_Cons: "starts_with (a # p) (c # s) \<longleftrightarrow> a = c \<and> starts_with p s"
  by (auto simp: starts_with_def)

lemma literal_names:
  "py ''null'' = [110, 117, 108, 108]" "py ''true'' = [116, 114, 117, 101]" "py ''false'' = [102, 97, 108, 115, 101]"
  "py ''NaN'' = [78, 97, 78]" "py ''Infinity'' = [73, 110, 102, 105, 110, 105, 116, 121]"
  "py ''-Infinity'' = [45, 73, 110, 102, 105, 110, 105, 116, 121]"
  by (simp_all add: py_def)

lemma scan_number_atom:
  assumes "number_start t"
  shows "scan_atom h (t @ rest) = scan_number h (t @ rest)"
proof -
  obtain c t' where t: "t = c # t'" using assms by (cases t) (auto simp: number_start_def)
  consider "is_digit c" | d t'' where "c = 45" "t' = d # t''" "is_digit d"
    using assms t by (cases t') (auto simp: number_start_def)
  then show ?thesis
  proof cases
    case 1
    then have "c \<noteq> 110" "c \<noteq> 116" "c \<noteq> 102" "c \<noteq> 78" "c \<noteq> 73" "c \<noteq> 45"
      by (auto simp: is_digit_def)
    with t show ?thesis by (simp add: scan_atom_def literal_names starts_with_Cons)
  next
    case 2
    then have "d \<noteq> 73" by (auto simp: is_digit_def)
    with 2 t show ?thesis by (simp add: scan_atom_def literal_names starts_with_Cons)
  qed
qed

lemma int_str_start: "number_start (int_str i)"
  by (rule int_str_shape [of i]; cases "i < 0") (auto simp: number_start_def is_digit_def list_all_iff hd_append)

subsection \<open>Values\<close>

definition in_dump_order :: "dump_opts \<Rightarrow> (pyval \<times> 'a) list \<Rightarrow> (pyval \<times> 'a) list" where
  "in_dump_order opts d = (if sort_keys opts then sort_key (\<lambda>kv. str_key (fst kv)) d else d)"

fun loaded :: "dump_opts \<Rightarrow> pyval \<Rightarrow> pyval" where
  "loaded opts (PList xs) = PList (map (loaded opts) xs)"
| "loaded opts (PTuple xs) = PList (map (loaded opts) xs)"
| "loaded opts (PDict d) = PDict (in_dump_order opts (map (\<lambda>kv. (fst kv, loaded opts (snd kv))) d))"
| "loaded opts (PEnum v) = loaded opts v"
| "loaded opts v = v"

fun writable :: "(rat \<Rightarrow> pystr) \<Rightarrow> py_limits \<Rightarrow> pyval \<Rightarrow> bool" where
  "writable fr L PNone = True"
| "writable fr L (PBool b) = True"
| "writable fr L (PInt i) = (py_int L (int_str i) = Inr i)"
| "writable fr L (PFloat f) = (case f of Fin r \<Rightarrow> is_float_text (fr r) r | _ \<Rightarrow> False)"
| "writable fr L (PStr s) = True"
| "writable fr L (PList xs) = (\<forall>x \<in> set xs. writable fr L x)"
| "writable fr L (PTuple xs) = (\<forall>x \<in> set xs. writable fr L x)"
| "writable fr L (PDict d) = (distinct (map fst d) \<and> (\<forall>kv \<in> set d. is_str (fst kv) \<and> writable fr L (snd kv)))"
| "writable fr L (PEnum v) = writable fr L v"
| "writable fr L v = False"

fun depth_of :: "pyval \<Rightarrow> nat" where
  "depth_of (PList xs) = Suc (foldr (\<lambda>x n. max (depth_of x) n) xs 0)"
| "depth_of (PTuple xs) = Suc (foldr (\<lambda>x n. max (depth_of x) n) xs 0)"
| "depth_of (PDict d) = Suc (foldr (\<lambda>kv n. max (depth_of (snd kv)) n) d 0)"
| "depth_of (PEnum v) = depth_of v"
| "depth_of v = 0"

lemma foldr_max_le: "foldr (\<lambda>x n. max (f x) n) xs (0::nat) \<le> m \<longleftrightarrow> (\<forall>x \<in> set xs. f x \<le> m)"
  by (induction xs) auto

text \<open>Hooks that build objects with distinct keys and integers within the limit as \<open>json.loads\<close> does.\<close>

definition faithful_hooks :: "py_limits \<Rightarrow> 'e json_hooks \<Rightarrow> bool" where
  "faithful_hooks L h \<longleftrightarrow>
     (\<forall>ps. distinct (map fst ps) \<longrightarrow> hook_object h ps = Inr (PDict (map (\<lambda>(k, v). (PStr k, v)) ps)))
     \<and> (\<forall>t i. py_int L t = Inr i \<longrightarrow> hook_int h t = Inr (PInt i))"

lemma distinct_text_keys: "distinct (map fst ps) \<Longrightarrow> distinct (map fst (map (\<lambda>(k, v). (PStr k, v)) ps))"
proof -
  have "map fst (map (\<lambda>(k, v). (PStr k, v)) ps) = map PStr (map fst ps)" by auto
  then show "distinct (map fst ps) \<Longrightarrow> ?thesis" by (simp only: distinct_map) (auto simp: inj_on_def)
qed

lemma plain_faithful: "faithful_hooks L (plain_hooks L)"
  using dict_of_distinct [OF distinct_text_keys] by (auto simp: faithful_hooks_def plain_hooks_def)

lemma float_text_any:
  assumes "is_float_text t r" and "number_end rest"
  shows "scan_number (h :: 'e json_hooks) (t @ rest) = Inr (PFloat (Fin r), rest)"
proof -
  define g :: "unit json_hooks" where
    "g = \<lparr>hook_object = (\<lambda>_. Inl ()), hook_int = (\<lambda>_. Inl ()), hook_constant = (\<lambda>_. Inl ())\<rparr>"
  have "scan_number g (t @ rest) = Inr (PFloat (Fin r), rest)"
    using assms by (simp add: is_float_text_def)
  then show ?thesis
    by (auto simp: scan_number_def g_def split: option.splits prod.splits if_splits)
qed

text \<open>What the reader does with the text of one value, and of the values of an array or object.\<close>

definition reads :: "'e json_hooks \<Rightarrow> pystr \<Rightarrow> pyval \<Rightarrow> nat \<Rightarrow> bool" where
  "reads h t w n \<longleftrightarrow> (t \<noteq> [] \<and> \<not> is_ws (hd t) \<and> hd t \<noteq> 93 \<and> hd t \<noteq> 0xFEFF
     \<and> (\<forall>rest k m. number_end rest \<longrightarrow> 2 * length (t @ rest) < k \<longrightarrow> n \<le> m \<longrightarrow>
          json_scan h k m (t @ rest) = Inr (w, rest)))"

lemma readsD:
  "reads h t w n \<Longrightarrow> number_end rest \<Longrightarrow> 2 * length (t @ rest) < k \<Longrightarrow> n \<le> m \<Longrightarrow>
    json_scan h k m (t @ rest) = Inr (w, rest)"
  unfolding reads_def by blast

lemma reads_skip: "reads h t w n \<Longrightarrow> skip_ws (t @ rest) = t @ rest"
  by (cases t) (auto simp: reads_def skip_ws_def)

lemma reads_atom:
  assumes "t \<noteq> []" and "hd t \<notin> {34, 123, 91, 93, 0xFEFF}" and "\<not> is_ws (hd t)"
    and a: "\<And>rest. number_end rest \<Longrightarrow> scan_atom h (t @ rest) = Inr (w, rest)"
  shows "reads h t w n"
  unfolding reads_def
proof (intro conjI allI impI)
  fix rest k m
  assume e: "number_end rest" and "2 * length (t @ rest) < k"
  then obtain k' where "k = Suc k'" by (cases k) auto
  moreover obtain c t' where "t = c # t'" using assms(1) by (cases t) auto
  ultimately show "json_scan h k m (t @ rest) = Inr (w, rest)"
    using a [OF e] assms(2) by (simp add: scan_step_def)
qed (use assms in auto)

lemma reads_number:
  assumes "number_start t" and "\<And>rest. number_end rest \<Longrightarrow> scan_number h (t @ rest) = Inr (w, rest)"
  shows "reads h t w n"
proof (rule reads_atom)
  have "hd t = 45 \<or> is_digit (hd t)" using assms(1) by (auto simp: number_start_def)
  then show "t \<noteq> []" "hd t \<notin> {34, 123, 91, 93, 0xFEFF}" "\<not> is_ws (hd t)"
    using assms(1) by (auto simp: number_start_def is_ws_def is_digit_def)
qed (simp add: scan_number_atom [OF assms(1)] assms(2))

lemma reads_literal:
  "reads h (py ''null'') PNone n" "reads h (py ''true'') (PBool True) n" "reads h (py ''false'') (PBool False) n"
  by (rule reads_atom; simp add: scan_atom_def literal_names starts_with_Cons starts_with_def [of "[]"]
      after_prefix_def is_ws_def)+

lemma reads_string: "reads h (dump_string False s) (PStr s) n"
proof -
  have "json_scan h k m (dump_string False s @ rest) = Inr (PStr s, rest)"
    if "2 * length (dump_string False s @ rest) < k" for rest k m
    using that scan_dumped_string [of s rest] by (cases k) (auto simp: scan_step_def dump_string_def)
  moreover have "dump_string False s \<noteq> []" "hd (dump_string False s) = 34"
    by (simp_all add: dump_string_def)
  ultimately show ?thesis
    by (simp add: reads_def is_ws_def)
qed

lemma skip_punctuation:
  "skip_ws (44 # s) = 44 # s" "skip_ws (58 # s) = 58 # s" "skip_ws (93 # s) = 93 # s" "skip_ws (125 # s) = 125 # s"
  by (simp_all add: skip_ws_def is_ws_def)

lemma scan_elems:
  assumes "list_all2 (\<lambda>t w. reads h t w m) ts ws" and "ts \<noteq> []" and "2 * length (join_comma ts @ 93 # rest) + 1 < k"
  shows "json_elems h k m acc (join_comma ts @ 93 # rest) = Inr (PList (rev acc @ ws), rest)"
  using assms
proof (induction ts arbitrary: ws acc k rule: join_comma.induct)
  case (2 t)
  then obtain w where w: "ws = [w]" "reads h t w m" by (auto simp: list_all2_Cons1)
  obtain k' where k: "k = Suc k'" using 2(3) by (cases k) auto
  have "json_scan h k' m (t @ 93 # rest) = Inr (w, 93 # rest)"
    using readsD [OF w(2), of "93 # rest" k' m] 2(3) k by (simp add: number_end_def)
  then show ?case
    by (simp add: k w elems_step_def skip_punctuation)
next
  case (3 t u ts)
  then obtain w ws' where w: "ws = w # ws'" "reads h t w m" "list_all2 (\<lambda>t w. reads h t w m) (u # ts) ws'"
    by (auto simp: list_all2_Cons1)
  then have u: "reads h u (hd ws') m" by (auto simp: list_all2_Cons1)
  let ?r = "join_comma (u # ts) @ 93 # rest"
  obtain k' where k: "k = Suc k'" using 3(4) by (cases k) auto
  have "json_scan h k' m (t @ 44 # ?r) = Inr (w, 44 # ?r)"
    using readsD [OF w(2), of "44 # ?r" k' m] 3(4) k by (simp add: number_end_def)
  moreover have "skip_ws ?r = ?r"
    using reads_skip [OF u] by (cases ts) simp_all
  moreover have "json_elems h k' m (w # acc) ?r = Inr (PList (rev (w # acc) @ ws'), rest)"
    using 3(1) [OF w(3), of k' "w # acc"] 3(4) k by simp
  ultimately show ?case
    by (simp add: k w(1) elems_step_def skip_punctuation)
qed simp

definition member_text :: "pystr \<Rightarrow> pystr \<Rightarrow> pystr" where
  "member_text key t = dump_string False key @ 58 # t"

lemma scan_members:
  assumes "list_all2 (\<lambda>mt kw. \<exists>t. mt = member_text (fst kw) t \<and> reads h t (snd kw) m) ms kws" and "ms \<noteq> []"
    and "2 * length (join_comma ms @ 125 # rest) + 1 < k"
  shows "json_members h k m acc (join_comma ms @ 125 # rest)
    = close_object h (rev acc @ kws) rest"
  using assms
proof (induction ms arbitrary: kws acc k rule: join_comma.induct)
  case (2 mt)
  then obtain key w t where w: "kws = [(key, w)]" "mt = member_text key t" "reads h t w m"
    by (auto simp: list_all2_Cons1)
  obtain k' where k: "k = Suc k'" using 2(3) by (cases k) auto
  have "json_scan h k' m (t @ 125 # rest) = Inr (w, 125 # rest)"
    using readsD [OF w(3), of "125 # rest" k' m] 2(3) k w(2) by (simp add: number_end_def member_text_def)
  then show ?case
    using scan_dumped_string [of key "58 # t @ 125 # rest"] reads_skip [OF w(3), of "125 # rest"]
    by (simp add: k w members_step_def member_text_def dump_string_def skip_punctuation)
next
  case (3 mt mu ms)
  obtain kw kws' where kws: "kws = kw # kws'"
    using 3(2) by (cases kws) simp_all
  have rest: "list_all2 (\<lambda>mt kw. \<exists>t. mt = member_text (fst kw) t \<and> reads h t (snd kw) m) (mu # ms) kws'"
    and "\<exists>t. mt = member_text (fst kw) t \<and> reads h t (snd kw) m"
    using 3(2) unfolding kws list_all2_Cons by blast+
  then obtain key w t where w: "kws = (key, w) # kws'" "mt = member_text key t" "reads h t w m"
    using kws by (cases kw) auto
  let ?r = "join_comma (mu # ms) @ 125 # rest"
  obtain k' where k: "k = Suc k'" using 3(4) by (cases k) auto
  have "json_scan h k' m (t @ 44 # ?r) = Inr (w, 44 # ?r)"
    using readsD [OF w(3), of "44 # ?r" k' m] 3(4) k w(2) by (simp add: number_end_def member_text_def)
  moreover have "skip_ws ?r = ?r"
    using rest by (cases ms) (auto simp: list_all2_Cons1 member_text_def dump_string_def skip_ws_def is_ws_def)
  moreover have "json_members h k' m ((key, w) # acc) ?r =
      close_object h (rev ((key, w) # acc) @ kws') rest"
    using 3(1) [OF rest, of k' "(key, w) # acc"] 3(4) k by simp
  ultimately show ?case
    using scan_dumped_string [of key "58 # t @ 44 # ?r"] reads_skip [OF w(3), of "44 # ?r"]
    by (simp add: k w members_step_def member_text_def dump_string_def skip_punctuation)
qed simp

lemma reads_mono: "reads h t w n \<Longrightarrow> n \<le> n' \<Longrightarrow> reads h t w n'"
  by (auto simp: reads_def)

lemma collect_all:
  "(\<And>x. x \<in> set xs \<Longrightarrow> \<exists>t. f x = Inr t \<and> Q t x) \<Longrightarrow>
    \<exists>ts. collect (map f xs) = Inr ts \<and> list_all2 Q ts xs"
proof (induction xs)
  case (Cons x xs)
  obtain t where "f x = Inr t" "Q t x" using Cons.prems [of x] by auto
  moreover obtain ts where "collect (map f xs) = Inr ts" "list_all2 Q ts xs"
    using Cons by auto
  ultimately show ?case by (intro exI [of _ "t # ts"]) simp
qed simp

lemma reads_array:
  assumes "list_all2 (\<lambda>t w. reads h t w n) ts ws"
  shows "reads h (91 # join_comma ts @ [93]) (PList ws) (Suc n)"
  unfolding reads_def
proof (intro conjI allI impI)
  fix rest k m
  assume k: "2 * length ((91 # join_comma ts @ [93]) @ rest) < k" and m: "Suc n \<le> m"
  obtain k' where k': "k = Suc k'" using k by (cases k) auto
  show "json_scan h k m ((91 # join_comma ts @ [93]) @ rest) = Inr (PList ws, rest)"
  proof (cases ts)
    case Nil
    with assms m show ?thesis by (simp add: k' scan_step_def skip_punctuation)
  next
    case (Cons t ts')
    then obtain w where w: "reads h t w n" using assms by (auto simp: list_all2_Cons1)
    let ?r = "join_comma ts @ 93 # rest"
    have r: "skip_ws ?r = ?r" "?r \<noteq> []" "hd ?r \<noteq> 93"
      using reads_skip [OF w] w Cons by (cases ts'; cases t; simp add: reads_def)+
    have "list_all2 (\<lambda>t w. reads h t w (m - 1)) ts ws"
      using assms m by (auto elim!: list_all2_mono reads_mono)
    from scan_elems [OF this, of rest k' "[]"] k k' Cons
    have "json_elems h k' (m - 1) [] ?r = Inr (PList ws, rest)" by simp
    with r m show ?thesis by (simp add: k' scan_step_def Let_def)
  qed
qed (simp_all add: is_ws_def)

lemma reads_object:
  assumes "list_all2 (\<lambda>mt kw. \<exists>t. mt = member_text (fst kw) t \<and> reads h t (snd kw) n) ms kws"
    and "distinct (map fst kws)" and hooks: "faithful_hooks L h"
  shows "reads h (123 # join_comma ms @ [125]) (PDict (map (\<lambda>(k, v). (PStr k, v)) kws)) (Suc n)"
  unfolding reads_def
proof (intro conjI allI impI)
  fix rest k m
  assume k: "2 * length ((123 # join_comma ms @ [125]) @ rest) < k" and m: "Suc n \<le> m"
  obtain k' where k': "k = Suc k'" using k by (cases k) auto
  have d: "close_object h kws r = Inr (PDict (map (\<lambda>(k, v). (PStr k, v)) kws), r)" for r
    using hooks assms(2) by (simp add: close_object_def faithful_hooks_def)
  show "json_scan h k m ((123 # join_comma ms @ [125]) @ rest) =
      Inr (PDict (map (\<lambda>(k, v). (PStr k, v)) kws), rest)"
  proof (cases ms)
    case Nil
    with assms(1) m show ?thesis
      using d by (simp add: k' scan_step_def skip_punctuation)
  next
    case (Cons mt ms')
    then obtain key t where "mt = member_text key t"
      using assms(1) by (cases kws) auto
    let ?r = "join_comma ms @ 125 # rest"
    have r: "skip_ws ?r = ?r" "?r \<noteq> []" "hd ?r \<noteq> 125"
      using \<open>mt = _\<close> Cons by (cases ms'; simp add: member_text_def dump_string_def skip_ws_def is_ws_def)+
    have "n \<le> m - 1" using m by simp
    then have "reads h t w (m - 1)" if "reads h t w n" for t w
      using reads_mono that by blast
    then have "list_all2 (\<lambda>mt kw. \<exists>t. mt = member_text (fst kw) t \<and> reads h t (snd kw) (m - 1)) ms kws"
      by (intro list_all2_mono [OF assms(1)]) blast
    from scan_members [OF this, of rest k' "[]"] k k' Cons
    have "json_members h k' (m - 1) [] ?r = Inr (PDict (map (\<lambda>(k, v). (PStr k, v)) kws), rest)"
      using d by simp
    with r m show ?thesis by (simp add: k' scan_step_def Let_def)
  qed
qed (simp_all add: is_ws_def)

lemma insort_map: "insort_key f (g x) (map g xs) = map g (insort_key (\<lambda>y. f (g y)) x xs)"
  by (induction xs) auto

lemma sort_map: "sort_key f (map g xs) = map g (sort_key (\<lambda>y. f (g y)) xs)"
  by (induction xs) (simp_all add: insort_map)

lemma in_dump_order_map:
  "(\<And>kv. fst (g kv) = fst kv) \<Longrightarrow> in_dump_order opts (map g d) = map g (in_dump_order opts d)"
  by (simp add: in_dump_order_def sort_map)

lemma in_dump_order_set: "set (in_dump_order opts d) = set d"
  by (simp add: in_dump_order_def)

lemma in_dump_order_distinct: "distinct (map fst (in_dump_order opts d)) = distinct (map fst d)"
proof -
  have "mset (in_dump_order opts d) = mset d"
    by (simp add: in_dump_order_def)
  then have "mset (map fst (in_dump_order opts d)) = mset (map fst d)"
    by (metis mset_map)
  then show ?thesis
    by (rule mset_eq_imp_distinct_iff)
qed


definition dumps_reads :: "dump_opts \<Rightarrow> (rat \<Rightarrow> pystr) \<Rightarrow> 'e json_hooks \<Rightarrow> pyval \<Rightarrow> bool" where
  "dumps_reads opts fr h v \<longleftrightarrow> (\<exists>t. json_dumps opts fr v = Inr t \<and> reads h t (loaded opts v) (depth_of v))"

lemma dumps_items:
  assumes "\<And>x. x \<in> set xs \<Longrightarrow> dumps_reads opts fr h x"
  shows "\<exists>t. dump_array (map (json_dumps opts fr) xs) = Inr t
    \<and> reads h t (PList (map (loaded opts) xs)) (Suc (foldr (\<lambda>x n. max (depth_of x) n) xs 0))"
proof -
  let ?n = "foldr (\<lambda>x n. max (depth_of x) n) xs 0"
  have le: "\<And>x. x \<in> set xs \<Longrightarrow> depth_of x \<le> ?n"
    using foldr_max_le [of depth_of xs ?n] by simp
  have "\<exists>t. json_dumps opts fr x = Inr t \<and> reads h t (loaded opts x) ?n" if "x \<in> set xs" for x
    using assms [OF that] le [OF that] reads_mono unfolding dumps_reads_def by blast
  from collect_all [of xs "json_dumps opts fr" "\<lambda>t x. reads h t (loaded opts x) ?n", OF this] obtain ts where
    "collect (map (json_dumps opts fr) xs) = Inr ts" "list_all2 (\<lambda>t x. reads h t (loaded opts x) ?n) ts xs"
    by blast
  then show ?thesis
    using reads_array [of h ?n ts "map (loaded opts) xs"] by (simp add: dump_array_def list_all2_map2)
qed

lemma dumps_members:
  assumes ascii: "\<not> ensure_ascii opts"
    and v: "\<And>kv. kv \<in> set d \<Longrightarrow> is_str (fst kv) \<and> dumps_reads opts fr h (snd kv) \<and> depth_of (snd kv) \<le> n"
    and "distinct (map fst d)" and hooks: "faithful_hooks L h"
  shows "\<exists>ms. collect (map (dump_member opts fr) (map (\<lambda>kv. (fst kv, json_dumps opts fr (snd kv))) d)) = Inr ms
    \<and> reads h (123 # join_comma ms @ [125]) (PDict (map (\<lambda>kv. (fst kv, loaded opts (snd kv))) d)) (Suc n)"
proof -
  let ?kw = "\<lambda>kv. (str_key (fst kv), loaded opts (snd kv))"
  let ?Q = "\<lambda>mt kw. \<exists>t. mt = member_text (fst kw) t \<and> reads h t (snd kw) n"
  have "\<exists>mt. dump_member opts fr (fst kv, json_dumps opts fr (snd kv)) = Inr mt \<and> ?Q mt (?kw kv)"
    if kv: "kv \<in> set d" for kv
  proof -
    obtain s where s: "fst kv = PStr s" using v [OF kv] by (auto simp: is_str_def split: pyval.splits)
    obtain t where t: "json_dumps opts fr (snd kv) = Inr t" "reads h t (loaded opts (snd kv)) n"
      using v [OF kv] reads_mono unfolding dumps_reads_def by blast
    have "dump_member opts fr (fst kv, json_dumps opts fr (snd kv)) = Inr (member_text s t)"
      using ascii by (simp add: dump_member_def key_text_def s t(1) member_text_def)
    with t(2) s show ?thesis by (auto simp: str_key_def)
  qed
  from collect_all [of d "\<lambda>kv. dump_member opts fr (fst kv, json_dumps opts fr (snd kv))" "\<lambda>mt kv. ?Q mt (?kw kv)", OF this]
  obtain ms where ms: "collect (map (\<lambda>kv. dump_member opts fr (fst kv, json_dumps opts fr (snd kv))) d) = Inr ms"
    "list_all2 (\<lambda>mt kv. ?Q mt (?kw kv)) ms d" by blast
  have str: "PStr (str_key (fst kv)) = fst kv" if "kv \<in> set d" for kv
    using v [OF that] by (auto simp: is_str_def str_key_def split: pyval.splits)
  then have fst: "map PStr (map fst (map ?kw d)) = map fst d" by simp
  then have "distinct (map fst (map ?kw d))"
    using assms(3) by (metis distinct_map)
  moreover have "list_all2 ?Q ms (map ?kw d)"
    using ms(2) by (simp add: list_all2_map2)
  ultimately have "reads h (123 # join_comma ms @ [125]) (PDict (map (\<lambda>(k, v). (PStr k, v)) (map ?kw d))) (Suc n)"
    using reads_object hooks by blast
  moreover have "map (\<lambda>(k, v). (PStr k, v)) (map ?kw d) = map (\<lambda>kv. (fst kv, loaded opts (snd kv))) d"
    using str by auto
  ultimately have "reads h (123 # join_comma ms @ [125]) (PDict (map (\<lambda>kv. (fst kv, loaded opts (snd kv))) d)) (Suc n)"
    by (simp only:)
  with ms(1) show ?thesis by (simp add: comp_def)
qed

lemma dumps_object:
  assumes "\<not> ensure_ascii opts" and "writable fr L (PDict d)" and "\<And>kv. kv \<in> set d \<Longrightarrow> dumps_reads opts fr h (snd kv)"
    and hooks: "faithful_hooks L h"
  shows "dumps_reads opts fr h (PDict d)"
proof -
  let ?d = "in_dump_order opts d" and ?n = "foldr (\<lambda>kv n. max (depth_of (snd kv)) n) d 0"
  have le: "\<And>kv. kv \<in> set d \<Longrightarrow> depth_of (snd kv) \<le> ?n"
    using foldr_max_le [of "\<lambda>kv. depth_of (snd kv)" d ?n] by simp
  have keys: "list_all (\<lambda>kv. is_str (fst kv)) (map (\<lambda>kv. (fst kv, json_dumps opts fr (snd kv))) d)"
    using assms(2) by (auto simp: list_all_iff)
  have order: "dump_order opts (map (\<lambda>kv. (fst kv, json_dumps opts fr (snd kv))) d) =
      Inr (map (\<lambda>kv. (fst kv, json_dumps opts fr (snd kv))) ?d)"
    using keys by (auto simp: dump_order_def in_dump_order_def sort_map)
  have "distinct (map fst ?d)" using assms(2) by (simp add: in_dump_order_distinct)
  moreover have "is_str (fst kv) \<and> dumps_reads opts fr h (snd kv) \<and> depth_of (snd kv) \<le> ?n" if "kv \<in> set ?d" for kv
    using that assms(2,3) le by (auto simp: in_dump_order_set)
  ultimately obtain ms where
    "collect (map (dump_member opts fr) (map (\<lambda>kv. (fst kv, json_dumps opts fr (snd kv))) ?d)) = Inr ms"
    "reads h (123 # join_comma ms @ [125]) (PDict (map (\<lambda>kv. (fst kv, loaded opts (snd kv))) ?d)) (Suc ?n)"
    using dumps_members [OF assms(1) _ _ hooks, of ?d fr ?n] by blast
  then show ?thesis
    by (simp add: dumps_reads_def dump_object_def order in_dump_order_map)
qed

lemma dumps_read:
  assumes "\<not> ensure_ascii opts" and hooks: "faithful_hooks L h"
  shows "writable fr L v \<Longrightarrow> dumps_reads opts fr h v"
proof (induction v)
  case (PInt i)
  have "reads h (int_str i) (PInt i) 0"
    using PInt hooks int_str_start scan_int_str [of _ h i]
    by (intro reads_number) (simp_all add: faithful_hooks_def)
  then show ?case by (simp add: dumps_reads_def)
next
  case (PFloat f)
  then obtain r where f: "f = Fin r" "is_float_text (fr r) r" by (cases f) auto
  then have "reads h (fr r) (PFloat (Fin r)) 0"
    by (intro reads_number float_text_any) (auto simp: is_float_text_def number_start_def)
  with f show ?case by (simp add: dumps_reads_def dump_float_def)
next
  case (PList xs)
  then show ?case using dumps_items [of xs opts fr h] by (simp add: dumps_reads_def)
next
  case (PTuple xs)
  then show ?case using dumps_items [of xs opts fr h] by (simp add: dumps_reads_def)
next
  case (PDict d)
  show ?case
  proof (rule dumps_object [OF assms(1) PDict.prems _ hooks])
    fix kv
    assume kv: "kv \<in> set d"
    moreover have "snd kv \<in> Basic_BNFs.snds kv" by (cases kv) simp
    ultimately show "dumps_reads opts fr h (snd kv)"
      using PDict.IH [of kv "snd kv"] PDict.prems by simp
  qed
qed (use assms in \<open>auto simp: dumps_reads_def reads_literal reads_string\<close>)

text \<open>Loading what was dumped.\<close>

lemma loads_with_dumps:
  assumes "\<not> ensure_ascii opts" and "writable fr L v" and "depth_of v \<le> n" and "faithful_hooks L h"
  shows "\<exists>t. json_dumps opts fr v = Inr t \<and> json_loads_with h n t = Inr (loaded opts v)"
proof -
  obtain t where t: "json_dumps opts fr v = Inr t" "reads h t (loaded opts v) (depth_of v)"
    using dumps_read [OF assms(1,4,2)] by (auto simp: dumps_reads_def)
  have "json_scan h (2 * length t + 2) n t = Inr (loaded opts v, [])"
    using readsD [OF t(2), of "[]" "2 * length t + 2" n] assms(3) by (simp add: number_end_def)
  moreover have "skip_ws t = t" "t \<noteq> []" "hd t \<noteq> 0xFEFF"
    using reads_skip [OF t(2), of "[]"] t(2) by (auto simp: reads_def)
  ultimately have "json_loads_with h n t = Inr (loaded opts v)"
    by (simp add: json_loads_with_def skip_ws_def [of "[]"])
  with t(1) show ?thesis by blast
qed

lemma loads_dumps:
  assumes "\<not> ensure_ascii opts" and "writable fr L v" and "depth_of v \<le> py_recursion L"
  shows "\<exists>t. json_dumps opts fr v = Inr t \<and> json_loads L t = Inr (loaded opts v)"
  using loads_with_dumps [OF assms plain_faithful] by (simp add: json_loads_def)

text \<open>The written text can be encoded when every text in the value can.\<close>

fun scalar_texts :: "(rat \<Rightarrow> pystr) \<Rightarrow> pyval \<Rightarrow> bool" where
  "scalar_texts fr (PFloat f) = (case f of Fin r \<Rightarrow> list_all is_scalar (fr r) | _ \<Rightarrow> True)"
| "scalar_texts fr (PStr s) = list_all is_scalar s"
| "scalar_texts fr (PList xs) = (\<forall>x \<in> set xs. scalar_texts fr x)"
| "scalar_texts fr (PTuple xs) = (\<forall>x \<in> set xs. scalar_texts fr x)"
| "scalar_texts fr (PDict d) = (\<forall>kv \<in> set d. is_str (fst kv) \<and> list_all is_scalar (str_key (fst kv)) \<and> scalar_texts fr (snd kv))"
| "scalar_texts fr (PEnum v) = scalar_texts fr v"
| "scalar_texts fr v = True"

lemma ascii_scalar: "c < 128 \<Longrightarrow> is_scalar c"
  by (simp add: is_scalar_def is_surrogate_def)

lemma hex_char_ascii: "n < 16 \<Longrightarrow> is_scalar (hex_char n)"
  by (rule ascii_scalar) (simp add: hex_char_def)

lemma scalar_escape: "is_scalar c \<Longrightarrow> list_all is_scalar (escape_char False c)"
  by (auto simp: escape_char_def u_escape_def hex4_text_def hex_char_ascii intro!: ascii_scalar)

lemma scalar_string: "list_all is_scalar s \<Longrightarrow> list_all is_scalar (dump_string False s)"
  using scalar_escape by (fastforce simp: dump_string_def list_all_iff ascii_scalar)

lemma scalar_join: "(\<And>t. t \<in> set ts \<Longrightarrow> list_all is_scalar t) \<Longrightarrow> list_all is_scalar (join_comma ts)"
  by (induction ts rule: join_comma.induct) (auto simp: ascii_scalar)

lemma scalar_int: "list_all is_scalar (int_str i)"
  by (rule int_str_shape [of i]) (auto simp: list_all_iff is_digit_def intro!: ascii_scalar)

lemma collect_mem: "collect xs = Inr ys \<Longrightarrow> y \<in> set ys \<Longrightarrow> Inr y \<in> set xs"
  by (induction xs arbitrary: ys rule: collect.induct) (auto split: sum.splits)

lemma scalar_array:
  assumes "dump_array ts = Inr t" and "\<And>u. Inr u \<in> set ts \<Longrightarrow> list_all is_scalar u"
  shows "list_all is_scalar t"
proof -
  obtain us where us: "collect ts = Inr us" "t = 91 # join_comma us @ [93]"
    using assms(1) by (auto simp: dump_array_def split: sum.splits)
  have "list_all is_scalar (join_comma us)"
    using collect_mem [OF us(1)] assms(2) by (intro scalar_join) blast
  with us(2) show ?thesis by (simp add: ascii_scalar)
qed

lemma scalar_object:
  assumes "\<not> ensure_ascii opts" and "dump_object opts fr d = Inr t"
    and v: "\<And>kv u. kv \<in> set d \<Longrightarrow> is_str (fst kv) \<and> list_all is_scalar (str_key (fst kv)) \<and> (snd kv = Inr u \<longrightarrow> list_all is_scalar u)"
  shows "list_all is_scalar t"
proof -
  obtain d' us where us: "dump_order opts d = Inr d'" "collect (map (dump_member opts fr) d') = Inr us"
      "t = 123 # join_comma us @ [125]"
    using assms(2) by (auto simp: dump_object_def split: sum.splits)
  have d': "set d' = set d" using us(1) by (auto simp: dump_order_def split: if_splits)
  have "list_all is_scalar u" if u: "u \<in> set us" for u
  proof -
    obtain kv where kv: "kv \<in> set d" "dump_member opts fr kv = Inr u"
      using collect_mem [OF us(2) u] d' by auto
    have "is_str (fst kv)" using v [OF kv(1)] by blast
    then obtain s where s: "fst kv = PStr s" by (auto simp: is_str_def split: pyval.splits)
    obtain x where x: "snd kv = Inr x" "u = dump_string False s @ 58 # x"
      using kv(2) assms(1) s by (auto simp: dump_member_def key_text_def split: sum.splits)
    show ?thesis
      using v [OF kv(1), of x] x s scalar_string [of s] by (simp add: str_key_def ascii_scalar)
  qed
  then have "list_all is_scalar (join_comma us)" by (rule scalar_join)
  with us(3) show ?thesis by (simp add: ascii_scalar)
qed

lemma scalar_dumps:
  assumes "\<not> ensure_ascii opts"
  shows "scalar_texts fr v \<Longrightarrow> json_dumps opts fr v = Inr t \<Longrightarrow> list_all is_scalar t"
proof (induction v arbitrary: t)
  case (PDict d)
  show ?case
  proof (rule scalar_object [OF assms, of fr "map (\<lambda>kv. (fst kv, json_dumps opts fr (snd kv))) d"])
    show "dump_object opts fr (map (\<lambda>kv. (fst kv, json_dumps opts fr (snd kv))) d) = Inr t"
      using PDict.prems(2) by simp
    fix kv :: "pyval \<times> (dump_fail + pystr)" and u
    assume "kv \<in> set (map (\<lambda>kv. (fst kv, json_dumps opts fr (snd kv))) d)"
    then obtain kx where kx: "kx \<in> set d" "kv = (fst kx, json_dumps opts fr (snd kx))" by auto
    have "snd kx \<in> Basic_BNFs.snds kx" by (cases kx) simp
    from PDict.IH(2) [OF kx(1) this] show
      "is_str (fst kv) \<and> list_all is_scalar (str_key (fst kv)) \<and> (snd kv = Inr u \<longrightarrow> list_all is_scalar u)"
      using kx PDict.prems(1) by simp
  qed
next
  case (PFloat f)
  then show ?case
    by (auto simp: dump_float_def py_def list_all_iff intro!: ascii_scalar split: pyfloat.splits if_splits)
next
  case (PList xs)
  show ?case
    by (rule scalar_array [of "map (json_dumps opts fr) xs"]) (use PList in auto)
next
  case (PTuple xs)
  show ?case
    by (rule scalar_array [of "map (json_dumps opts fr) xs"]) (use PTuple in auto)
qed (use assms in \<open>auto simp: scalar_int scalar_string literal_names ascii_scalar\<close>)

lemma in_dump_order_get:
  "distinct (map fst d) \<Longrightarrow> dict_get (in_dump_order opts d) k = dict_get d k"
proof -
  assume d: "distinct (map fst d)"
  then have "map_of (in_dump_order opts d) = map_of d"
    using map_of_inject_set [of "in_dump_order opts d" d] by (simp add: in_dump_order_distinct in_dump_order_set)
  then show ?thesis by (simp add: dict_get_def)
qed

lemma float_text_one: "is_float_text (py ''1.0'') 1"
proof -
  have "scan_number h (49 # 46 # 48 # rest) = Inr (PFloat (Fin 1), rest)" if "number_end rest" for h :: "unit json_hooks" and rest
    using that scan_after_int [OF that] takeWhile_digits [OF _ that, of "[48]"]
    by (simp add: scan_number_def scan_int_part_def scan_frac_def is_digit_def dec_value_def digits_val_def
        float_of_def int_value_def starts_with_def scale10_def overflow_threshold_def)
  then show ?thesis
    by (simp add: is_float_text_def py_def is_digit_def)
qed

end
