(* ===== verification/Archive.thy ===== *)
theory Archive
  imports Model Py_Text Py_Float Json_Roundtrip
begin

text \<open>
  The archive registry (\<open>sidecar/archive.py\<close>): which sessions the user has put aside, when and why,
  in one JSON file that is replaced atomically.

  \<^item> The registry file is a value of the model: absent, unreadable, or its bytes. Each operation
    takes it and returns it; the directory operations of a write succeed or fail together
    (\<open>ae_write_ok\<close>), since a failed write leaves the old file in place.
  \<^item> A row is a \<open>Session\<close> object or another value; attributes of other objects are absent.
  \<^item> \<open>ae_float\<close> is \<open>float\<close> on texts, \<open>ae_digit\<close> the value of a decimal digit outside ASCII,
    \<open>ae_low\<close> the lower-case mapping outside ASCII, \<open>ae_repr\<close> is \<open>float.__repr__\<close>, and \<open>ae_nan_sort\<close>
    the order in which Python leaves a list whose keys include NaN.
\<close>

datatype archive_exc =
    ArchiveError string
  | LoadsError loads_exc
  | FloatOverflowError
  | UnicodeEncodeError
  | UnitKeyError

record ArchiveEntry =
  ar_agent :: pystr
  ar_session :: pystr
  ar_at :: pyfloat
  ar_reason :: pystr

record arch_env =
  ae_limits :: py_limits
  ae_float :: "pystr \<Rightarrow> pyfloat option"
  ae_digit :: "nat \<Rightarrow> nat option"
  ae_low :: "nat \<Rightarrow> pystr"
  ae_repr :: "rat \<Rightarrow> pystr"
  ae_nan_sort :: "ArchiveEntry list \<Rightarrow> ArchiveEntry list"
  ae_write_ok :: bool

definition ARCHIVE_SCHEMA_VERSION :: int where
  "ARCHIVE_SCHEMA_VERSION = 1"

definition MAX_ARCHIVE_ENTRIES :: nat where
  "MAX_ARCHIVE_ENTRIES = 4096"

definition MIN_THRESHOLD_SECONDS :: time where
  "MIN_THRESHOLD_SECONDS = 60"

definition MAX_THRESHOLD_SECONDS :: time where
  "MAX_THRESHOLD_SECONDS = 365 * 24 * 60 * 60"

definition ARCHIVABLE_STATUSES :: "pystr list" where
  "ARCHIVABLE_STATUSES = [py ''idle'', py ''dead'']"

definition ARCHIVE_REASONS :: "pystr list" where
  "ARCHIVE_REASONS = [py ''manual'', py ''batch'', py ''auto'']"

subsection \<open>Numbers\<close>

definition is_dec :: "arch_env \<Rightarrow> nat \<Rightarrow> bool" where
  "is_dec env c \<longleftrightarrow> is_digit c \<or> 128 \<le> c \<and> ae_digit env c \<noteq> None"

definition dec_digit :: "arch_env \<Rightarrow> nat \<Rightarrow> nat" where
  "dec_digit env c = (if is_digit c then c - 48 else (case ae_digit env c of None \<Rightarrow> 0 | Some d \<Rightarrow> d))"

definition dec_number :: "arch_env \<Rightarrow> pystr \<Rightarrow> nat" where
  "dec_number env ds = foldl (\<lambda>a c. 10 * a + dec_digit env c) 0 ds"

text \<open>
  The unit letter of a duration. Under \<open>re.IGNORECASE\<close> the class \<open>[smhd]\<close> also matches the long s
  (U+017F), which \<open>str.lower\<close> leaves alone and the table of units does not contain.
\<close>

definition unit_seconds :: "nat \<Rightarrow> (archive_exc + time) option" where
  "unit_seconds c =
     (if c = 115 \<or> c = 83 then Some (Inr 1)
      else if c = 109 \<or> c = 77 then Some (Inr 60)
      else if c = 104 \<or> c = 72 then Some (Inr 3600)
      else if c = 100 \<or> c = 68 then Some (Inr 86400)
      else if c = 0x17F then Some (Inl UnitKeyError)
      else None)"

definition parse_duration_text :: "arch_env \<Rightarrow> pystr \<Rightarrow> archive_exc + time" where
  "parse_duration_text env s =
     (let r0 = dropWhile is_space s;
          whole = takeWhile (is_dec env) r0;
          r1 = dropWhile (is_dec env) r0;
          (frac_digits, r2) =
            (case r1 of
               p # q \<Rightarrow>
                 if p = 46 \<and> takeWhile (is_dec env) q \<noteq> []
                 then (takeWhile (is_dec env) q, dropWhile (is_dec env) q) else ([], r1)
             | [] \<Rightarrow> ([], r1));
          r3 = dropWhile is_space r2;
          number = of_nat (dec_number env (whole @ frac_digits)) / 10 ^ length frac_digits
      in if whole = [] then Inl (ArchiveError ''invalid_threshold'')
         else
           (case r3 of
              [] \<Rightarrow> Inr number
            | c # r4 \<Rightarrow>
                if dropWhile is_space r4 \<noteq> [] then Inl (ArchiveError ''invalid_threshold'')
                else
                  (case unit_seconds c of
                     None \<Rightarrow> Inl (ArchiveError ''invalid_threshold'')
                   | Some (Inl e) \<Rightarrow> Inl e
                   | Some (Inr u) \<Rightarrow> Inr (number * u))))"

definition in_threshold :: "time \<Rightarrow> archive_exc + time" where
  "in_threshold seconds =
     (if MIN_THRESHOLD_SECONDS \<le> seconds \<and> seconds \<le> MAX_THRESHOLD_SECONDS then Inr seconds
      else Inl (ArchiveError ''invalid_threshold''))"

fun parse_duration :: "arch_env \<Rightarrow> pyval \<Rightarrow> archive_exc + time" where
  "parse_duration env (PInt i) =
     (case float_of_int i of
        Converted (Fin r) \<Rightarrow> in_threshold r
      | _ \<Rightarrow> Inl FloatOverflowError)"
| "parse_duration env (PFloat f) =
     (case f of Fin r \<Rightarrow> in_threshold r | _ \<Rightarrow> Inl (ArchiveError ''invalid_threshold''))"
| "parse_duration env (PStr s) =
     (case parse_duration_text env s of Inl e \<Rightarrow> Inl e | Inr r \<Rightarrow> in_threshold r)"
| "parse_duration env v = Inl (ArchiveError ''invalid_threshold'')"

subsection \<open>Rows and targets\<close>

datatype row = SessionRow Session | ValueRow pyval

definition session_attributes :: "Session \<Rightarrow> pydict" where
  "session_attributes s =
     [(pstr ''agent'', PStr (s_agent s)), (pstr ''session_id'', PStr (s_id s)),
      (pstr ''project'', PStr (s_project s)), (pstr ''transcript'', PStr (s_transcript s)),
      (pstr ''updated_at'', PFloat (Fin (s_updated_at s))), (pstr ''title'', PStr (s_title s)),
      (pstr ''status'', PEnum (PStr (status_value (s_status s)))), (pstr ''extra'', PDict (s_extra s)),
      (pstr ''parent_id'', case s_parent_id s of None \<Rightarrow> PNone | Some q \<Rightarrow> PStr q)]"

definition row_value :: "row \<Rightarrow> string \<Rightarrow> pyval \<Rightarrow> pyval" where
  "row_value r key dflt =
     (case r of
        SessionRow s \<Rightarrow> (case map_of (session_attributes s) (pstr key) of None \<Rightarrow> dflt | Some v \<Rightarrow> v)
      | ValueRow (PDict d) \<Rightarrow> (case map_of d (pstr key) of None \<Rightarrow> dflt | Some v \<Rightarrow> v)
      | ValueRow _ \<Rightarrow> dflt)"

type_synonym target = "pystr \<times> pystr"

definition target_of :: "pyval \<Rightarrow> pyval \<Rightarrow> archive_exc + target" where
  "target_of agent session_id =
     (case (text_of agent, text_of session_id) of
        (Some a, Some i) \<Rightarrow> if a = [] \<or> i = [] then Inl (ArchiveError ''invalid_target'') else Inr (a, i)
      | _ \<Rightarrow> Inl (ArchiveError ''invalid_target''))"

definition session_target :: "row \<Rightarrow> archive_exc + target" where
  "session_target r = target_of (row_value r ''agent'' (PStr [])) (row_value r ''session_id'' (PStr []))"

definition as_pair :: "pyval list \<Rightarrow> (pyval \<times> pyval) option" where
  "as_pair vs = (case vs of [a, i] \<Rightarrow> Some (a, i) | _ \<Rightarrow> None)"

fun row_pair :: "row \<Rightarrow> (pyval \<times> pyval) option" where
  "row_pair (ValueRow (PTuple vs)) = as_pair vs"
| "row_pair (ValueRow (PList vs)) = as_pair vs"
| "row_pair r = None"

definition value_target :: "row \<Rightarrow> archive_exc + target" where
  "value_target r = (case row_pair r of Some (a, i) \<Rightarrow> target_of a i | None \<Rightarrow> session_target r)"

fun targets_loop :: "target list \<Rightarrow> row list \<Rightarrow> archive_exc + target list" where
  "targets_loop acc [] = Inr acc"
| "targets_loop acc (r # rs) =
     (case value_target r of
        Inl e \<Rightarrow> Inl e
      | Inr t \<Rightarrow> targets_loop (if t \<in> set acc then acc else acc @ [t]) rs)"

definition normalize_targets :: "row list \<Rightarrow> archive_exc + target list" where
  "normalize_targets rs = targets_loop [] rs"

fun statuses_loop :: "arch_env \<Rightarrow> pystr list \<Rightarrow> pyval list \<Rightarrow> archive_exc + pystr list" where
  "statuses_loop env names [] = (if names = [] then Inl (ArchiveError ''invalid_status'') else Inr names)"
| "statuses_loop env names (v # vs) =
     (case text_of v of
        None \<Rightarrow> Inl (ArchiveError ''invalid_status'')
      | Some s \<Rightarrow>
          (let name = lower (ae_low env) (strip s) in
           if name \<notin> set ARCHIVABLE_STATUSES then Inl (ArchiveError ''invalid_status'')
           else statuses_loop env (if name \<in> set names then names else names @ [name]) vs))"

definition normalize_statuses :: "arch_env \<Rightarrow> pyval list option \<Rightarrow> archive_exc + pystr list" where
  "normalize_statuses env values =
     (case values of None \<Rightarrow> Inr ARCHIVABLE_STATUSES | Some vs \<Rightarrow> statuses_loop env [] vs)"

definition row_status :: "(pyval \<Rightarrow> pystr) \<Rightarrow> row \<Rightarrow> pystr" where
  "row_status rp r =
     (case row_value r ''status'' (PStr []) of
        PEnum (PStr s) \<Rightarrow> s
      | v \<Rightarrow> str_or_empty rp v)"

definition row_updated_at :: "arch_env \<Rightarrow> row \<Rightarrow> archive_exc + pyfloat" where
  "row_updated_at env r =
     (case to_float (ae_float env) (row_value r ''updated_at'' (PFloat (Fin 0))) of
        Converted f \<Rightarrow> Inr f
      | Refused \<Rightarrow> Inr (Fin 0)
      | Overflowed \<Rightarrow> Inl FloatOverflowError)"

text \<open>\<open>current - updated < threshold\<close> on floats; NaN compares false.\<close>

definition younger :: "time \<Rightarrow> pyfloat \<Rightarrow> time \<Rightarrow> bool" where
  "younger current updated threshold =
     (case updated of Fin u \<Rightarrow> current - u < threshold | PosInf \<Rightarrow> True | NegInf \<Rightarrow> False | NaN \<Rightarrow> False)"

fun select_loop ::
  "arch_env \<Rightarrow> (pyval \<Rightarrow> pystr) \<Rightarrow> pystr list \<Rightarrow> time \<Rightarrow> time \<Rightarrow> row list \<Rightarrow> archive_exc + row list" where
  "select_loop env rp allowed threshold current [] = Inr []"
| "select_loop env rp allowed threshold current (r # rs) =
     (if row_status rp r \<notin> set allowed then select_loop env rp allowed threshold current rs
      else
        (case row_updated_at env r of
           Inl e \<Rightarrow> Inl e
         | Inr u \<Rightarrow>
             (case select_loop env rp allowed threshold current rs of
                Inl e \<Rightarrow> Inl e
              | Inr selected \<Rightarrow> Inr (if younger current u threshold then selected else r # selected))))"

definition select_archivable ::
  "arch_env \<Rightarrow> (pyval \<Rightarrow> pystr) \<Rightarrow> row list \<Rightarrow> pyval \<Rightarrow> pyval list option \<Rightarrow> time \<Rightarrow> archive_exc + row list" where
  "select_archivable env rp rows idle_seconds statuses now =
     (case parse_duration env idle_seconds of
        Inl e \<Rightarrow> Inl e
      | Inr threshold \<Rightarrow>
          (case normalize_statuses env statuses of
             Inl e \<Rightarrow> Inl e
           | Inr allowed \<Rightarrow> select_loop env rp allowed threshold now rows))"

subsection \<open>The registry file\<close>

definition entry_target :: "ArchiveEntry \<Rightarrow> target" where
  "entry_target e = (ar_agent e, ar_session e)"

definition entry_to_dict :: "ArchiveEntry \<Rightarrow> pyval" where
  "entry_to_dict e =
     PDict [(pstr ''agent'', PStr (ar_agent e)), (pstr ''session_id'', PStr (ar_session e)),
       (pstr ''archived_at'', PFloat (ar_at e)), (pstr ''reason'', PStr (ar_reason e))]"

text \<open>The accepted \<open>archived_at\<close>: a number that is not negative; an \<open>int\<close> may be too large for \<open>float\<close>.\<close>

fun archived_at_of :: "pyval \<Rightarrow> archive_exc + pyfloat" where
  "archived_at_of (PInt i) =
     (if i < 0 then Inl (ArchiveError ''archive_corrupt'')
      else (case float_of_int i of Converted f \<Rightarrow> Inr f | _ \<Rightarrow> Inl FloatOverflowError))"
| "archived_at_of (PFloat f) =
     (if float_less f (Fin 0) then Inl (ArchiveError ''archive_corrupt'') else Inr f)"
| "archived_at_of v = Inl (ArchiveError ''archive_corrupt'')"

definition entry_from_mapping :: "pyval \<Rightarrow> archive_exc + ArchiveEntry" where
  "entry_from_mapping v =
     (case mapping_items v of
        None \<Rightarrow> Inl (ArchiveError ''archive_corrupt'')
      | Some d \<Rightarrow>
          (case (text_of (dget d ''agent''), text_of (dget d ''session_id''), text_of (dget d ''reason'')) of
             (Some a, Some i, Some reason) \<Rightarrow>
               if a = [] \<or> i = [] \<or> reason \<notin> set ARCHIVE_REASONS then Inl (ArchiveError ''archive_corrupt'')
               else
                 (case archived_at_of (dget d ''archived_at'') of
                    Inl e \<Rightarrow> Inl e
                  | Inr f \<Rightarrow> Inr \<lparr>ar_agent = a, ar_session = i, ar_at = f, ar_reason = reason\<rparr>)
           | _ \<Rightarrow> Inl (ArchiveError ''archive_corrupt'')))"

datatype archive_file = NoFile | Unreadable | Content bytes

fun entries_loop :: "target list \<Rightarrow> pyval list \<Rightarrow> archive_exc + ArchiveEntry list" where
  "entries_loop seen [] = Inr []"
| "entries_loop seen (v # vs) =
     (case entry_from_mapping v of
        Inl e \<Rightarrow> Inl e
      | Inr e \<Rightarrow>
          if entry_target e \<in> set seen then Inl (ArchiveError ''archive_corrupt'')
          else
            (case entries_loop (entry_target e # seen) vs of Inl x \<Rightarrow> Inl x | Inr es \<Rightarrow> Inr (e # es)))"

definition entries_of_document :: "pyval \<Rightarrow> archive_exc + ArchiveEntry list" where
  "entries_of_document v =
     (case mapping_items v of
        None \<Rightarrow> Inl (ArchiveError ''archive_corrupt'')
      | Some d \<Rightarrow>
          if \<not> eq_int (dget d ''schema_version'') ARCHIVE_SCHEMA_VERSION then Inl (ArchiveError ''archive_corrupt'')
          else
            (case seq_items (dget d ''entries'') of
               None \<Rightarrow> Inl (ArchiveError ''archive_corrupt'')
             | Some rows \<Rightarrow>
                 if MAX_ARCHIVE_ENTRIES < length rows then Inl (ArchiveError ''archive_corrupt'')
                 else entries_loop [] rows))"

definition load_entries :: "arch_env \<Rightarrow> archive_file \<Rightarrow> archive_exc + ArchiveEntry list" where
  "load_entries env file =
     (case file of
        NoFile \<Rightarrow> Inr []
      | Unreadable \<Rightarrow> Inl (ArchiveError ''archive_error'')
      | Content raw \<Rightarrow>
          if is_blank raw then Inr []
          else
            (case decode_strict raw of
               None \<Rightarrow> Inl (ArchiveError ''archive_corrupt'')
             | Some chars \<Rightarrow>
                 (case json_loads (ae_limits env) chars of
                    Inl JRecursion \<Rightarrow> Inl (LoadsError RecursionError)
                  | Inl (JHook _) \<Rightarrow> Inl (LoadsError IntDigitsValueError)
                  | Inl _ \<Rightarrow> Inl (ArchiveError ''archive_corrupt'')
                  | Inr v \<Rightarrow> entries_of_document v)))"

text \<open>The sort key of \<open>_store\<close> as a member of a linear order; NaN has no place in it.\<close>

definition float_key :: "pyfloat \<Rightarrow> int \<times> rat" where
  "float_key f = (case f of NegInf \<Rightarrow> (- 1, 0) | Fin r \<Rightarrow> (0, r) | PosInf \<Rightarrow> (1, 0) | NaN \<Rightarrow> (1, 0))"

definition retained_entries :: "arch_env \<Rightarrow> ArchiveEntry list \<Rightarrow> ArchiveEntry list" where
  "retained_entries env es =
     (if MAX_ARCHIVE_ENTRIES < length es then
        lastn MAX_ARCHIVE_ENTRIES
          (if list_ex (\<lambda>e. ar_at e = NaN) es then ae_nan_sort env es
           else sort_key (\<lambda>e. float_key (ar_at e)) es)
      else es)"

definition archive_opts :: dump_opts where
  "archive_opts = \<lparr>ensure_ascii = False, sort_keys = True, allow_nan = True\<rparr>"

definition archive_document :: "ArchiveEntry list \<Rightarrow> pyval" where
  "archive_document es =
     PDict [(pstr ''schema_version'', PInt ARCHIVE_SCHEMA_VERSION),
       (pstr ''entries'', PList (map entry_to_dict es))]"

definition store_entries :: "arch_env \<Rightarrow> ArchiveEntry list \<Rightarrow> archive_exc + archive_file" where
  "store_entries env es =
     (case json_dumps archive_opts (ae_repr env) (archive_document (retained_entries env es)) of
        Inl _ \<Rightarrow> Inl (ArchiveError ''archive_error'')
      | Inr chars \<Rightarrow>
          (case encode_strict chars of
             None \<Rightarrow> Inl UnicodeEncodeError
           | Some payload \<Rightarrow>
               if ae_write_ok env then Inr (Content payload) else Inl (ArchiveError ''archive_error'')))"

subsection \<open>Operations\<close>

text \<open>
  Each operation returns its result and the file it leaves; when it raises, the file is as before.
\<close>

definition is_archived :: "arch_env \<Rightarrow> archive_file \<Rightarrow> target \<Rightarrow> archive_exc + bool" where
  "is_archived env file t =
     (case load_entries env file of
        Inl e \<Rightarrow> Inl e
      | Inr es \<Rightarrow> Inr (list_ex (\<lambda>e. entry_target e = t) es))"

definition new_entries :: "ArchiveEntry list \<Rightarrow> target list \<Rightarrow> pystr \<Rightarrow> time \<Rightarrow> ArchiveEntry list" where
  "new_entries existing wanted reason now =
     map (\<lambda>(a, i). \<lparr>ar_agent = a, ar_session = i, ar_at = Fin now, ar_reason = reason\<rparr>)
       (filter (\<lambda>t. t \<notin> entry_target ` set existing) wanted)"

definition archive ::
  "arch_env \<Rightarrow> archive_file \<Rightarrow> row list \<Rightarrow> pystr \<Rightarrow> time \<Rightarrow> archive_exc + ArchiveEntry list \<times> archive_file" where
  "archive env file targets reason now =
     (if reason \<notin> set ARCHIVE_REASONS then Inl (ArchiveError ''archive_error'')
      else
        (case normalize_targets targets of
           Inl e \<Rightarrow> Inl e
         | Inr wanted \<Rightarrow>
             if wanted = [] then Inr ([], file)
             else
               (case load_entries env file of
                  Inl e \<Rightarrow> Inl e
                | Inr existing \<Rightarrow>
                    (let added = new_entries existing wanted reason now in
                     if added = [] then Inr ([], file)
                     else
                       (case store_entries env (existing @ added) of
                          Inl e \<Rightarrow> Inl e
                        | Inr file' \<Rightarrow> Inr (added, file'))))))"

definition unarchive ::
  "arch_env \<Rightarrow> archive_file \<Rightarrow> row list \<Rightarrow> archive_exc + target list \<times> archive_file" where
  "unarchive env file targets =
     (case normalize_targets targets of
        Inl e \<Rightarrow> Inl e
      | Inr wanted \<Rightarrow>
          if wanted = [] then Inr ([], file)
          else
            (case load_entries env file of
               Inl e \<Rightarrow> Inl e
             | Inr existing \<Rightarrow>
                 (let remaining = filter (\<lambda>e. entry_target e \<notin> set wanted) existing;
                      removed = map entry_target (filter (\<lambda>e. entry_target e \<in> set wanted) existing)
                  in if removed = [] then Inr ([], file)
                     else
                       (case store_entries env remaining of
                          Inl e \<Rightarrow> Inl e
                        | Inr file' \<Rightarrow> Inr (removed, file')))))"

definition unarchive_all :: "arch_env \<Rightarrow> archive_file \<Rightarrow> archive_exc + target list \<times> archive_file" where
  "unarchive_all env file =
     (case load_entries env file of
        Inl e \<Rightarrow> Inl e
      | Inr existing \<Rightarrow>
          if existing = [] then Inr ([], file)
          else
            (case store_entries env [] of
               Inl e \<Rightarrow> Inl e
             | Inr file' \<Rightarrow> Inr (map entry_target existing, file')))"

record ArchiveView =
  av_visible :: "row list"
  av_archived :: "pydict list"
  av_released :: "target list"

definition archived_row :: "(pyval \<Rightarrow> pystr) \<Rightarrow> row \<Rightarrow> ArchiveEntry \<Rightarrow> pydict" where
  "archived_row rp r e =
     (let payload = (case r of
                       SessionRow s \<Rightarrow> session_to_dict rp s
                     | ValueRow (PDict d) \<Rightarrow> d
                     | ValueRow _ \<Rightarrow> [(pstr ''agent'', PStr (ar_agent e)), (pstr ''session_id'', PStr (ar_session e))])
      in dict_set (dict_set payload (pstr ''archived_at'') (PFloat (ar_at e)))
           (pstr ''archive_reason'') (PStr (ar_reason e)))"

fun partition_loop ::
  "arch_env \<Rightarrow> (pyval \<Rightarrow> pystr) \<Rightarrow> ArchiveEntry list \<Rightarrow> row list \<Rightarrow> archive_exc + ArchiveView" where
  "partition_loop env rp es [] = Inr \<lparr>av_visible = [], av_archived = [], av_released = []\<rparr>"
| "partition_loop env rp es (r # rs) =
     (case session_target r of
        Inl _ \<Rightarrow>
          (case partition_loop env rp es rs of
             Inl x \<Rightarrow> Inl x
           | Inr v \<Rightarrow> Inr (v\<lparr>av_visible := r # av_visible v\<rparr>))
      | Inr t \<Rightarrow>
          (case map_of (map (\<lambda>e. (entry_target e, e)) es) t of
             None \<Rightarrow>
               (case partition_loop env rp es rs of
                  Inl x \<Rightarrow> Inl x
                | Inr v \<Rightarrow> Inr (v\<lparr>av_visible := r # av_visible v\<rparr>))
           | Some e \<Rightarrow>
               (case row_updated_at env r of
                  Inl x \<Rightarrow> Inl x
                | Inr u \<Rightarrow>
                    (case partition_loop env rp es rs of
                       Inl x \<Rightarrow> Inl x
                     | Inr v \<Rightarrow>
                         Inr (if float_less (ar_at e) u
                              then v\<lparr>av_released := t # av_released v, av_visible := r # av_visible v\<rparr>
                              else v\<lparr>av_archived := archived_row rp r e # av_archived v\<rparr>)))))"

definition partition_rows ::
  "arch_env \<Rightarrow> (pyval \<Rightarrow> pystr) \<Rightarrow> archive_file \<Rightarrow> row list \<Rightarrow> archive_exc + ArchiveView \<times> archive_file" where
  "partition_rows env rp file rows =
     (case load_entries env file of
        Inl e \<Rightarrow> Inl e
      | Inr es \<Rightarrow>
          if es = [] then Inr (\<lparr>av_visible = rows, av_archived = [], av_released = []\<rparr>, file)
          else
            (case partition_loop env rp es rows of
               Inl e \<Rightarrow> Inl e
             | Inr v \<Rightarrow>
                 if av_released v = [] then Inr (v, file)
                 else
                   (case store_entries env (filter (\<lambda>e. entry_target e \<notin> set (av_released v)) es) of
                      Inl e \<Rightarrow> Inl e
                    | Inr file' \<Rightarrow> Inr (v, file'))))"

subsection \<open>Storing and loading\<close>

definition valid_entry :: "arch_env \<Rightarrow> ArchiveEntry \<Rightarrow> bool" where
  "valid_entry env e \<longleftrightarrow> ar_agent e \<noteq> [] \<and> ar_session e \<noteq> [] \<and> list_all is_scalar (ar_agent e)
     \<and> list_all is_scalar (ar_session e) \<and> ar_reason e \<in> set ARCHIVE_REASONS
     \<and> (\<exists>r \<ge> 0. ar_at e = Fin r \<and> is_float_text (ae_repr env r) r \<and> list_all is_scalar (ae_repr env r))"

definition valid_registry :: "arch_env \<Rightarrow> ArchiveEntry list \<Rightarrow> bool" where
  "valid_registry env es \<longleftrightarrow> list_all (valid_entry env) es \<and> distinct (map entry_target es)"

text \<open>What a full registry keeps: the entries with the latest decisions.\<close>

definition newest_entries :: "ArchiveEntry list \<Rightarrow> ArchiveEntry list" where
  "newest_entries es =
     (if length es \<le> MAX_ARCHIVE_ENTRIES then es
      else lastn MAX_ARCHIVE_ENTRIES (sort_key (\<lambda>e. float_key (ar_at e)) es))"

lemma py_scalar [simp]: "list_all is_scalar (py s)"
proof -
  have "is_scalar (of_char c)" for c :: char
    using nat_of_char_less_256 [of c] unfolding is_scalar_def is_surrogate_def by linarith
  then show ?thesis
    by (simp add: py_def list_all_iff)
qed

lemma reasons_scalar: "r \<in> set ARCHIVE_REASONS \<Longrightarrow> list_all is_scalar r"
  by (auto simp: ARCHIVE_REASONS_def)

lemma entry_dict_keys:
  "distinct (map fst [(pstr ''agent'', a), (pstr ''session_id'', i), (pstr ''archived_at'', t), (pstr ''reason'', r)])"
  by simp

lemma document_writable:
  assumes "list_all (valid_entry env) es"
  shows "writable (ae_repr env) L (archive_document es)"
proof -
  have "writable (ae_repr env) L (entry_to_dict e)" if "valid_entry env e" for e
    using that by (auto simp: entry_to_dict_def valid_entry_def is_str_def)
  moreover have "py_int L (int_str 1) = Inr 1"
    using int_value_str [of 1] by (auto simp: py_int_def digit_count_def starts_with_def int_str_def digits10_simps)
  ultimately show ?thesis
    using assms by (auto simp: archive_document_def list_all_iff is_str_def ARCHIVE_SCHEMA_VERSION_def)
qed

lemma document_scalar:
  assumes "list_all (valid_entry env) es"
  shows "scalar_texts (ae_repr env) (archive_document es)"
proof -
  have "scalar_texts (ae_repr env) (entry_to_dict e)" if "valid_entry env e" for e
    using that reasons_scalar by (auto simp: entry_to_dict_def valid_entry_def is_str_def str_key_def)
  then show ?thesis
    using assms py_scalar by (auto simp: archive_document_def is_str_def str_key_def list_all_iff [of "valid_entry env"])
qed

lemma document_depth: "depth_of (archive_document es) \<le> 3"
proof -
  have "foldr (\<lambda>x n. max (depth_of x) n) (map entry_to_dict es) 0 \<le> 1"
    unfolding foldr_max_le by (auto simp: entry_to_dict_def)
  then show ?thesis
    by (simp add: archive_document_def)
qed

lemma entry_roundtrip:
  assumes "valid_entry env e"
  shows "entry_from_mapping (loaded archive_opts (entry_to_dict e)) = Inr e"
  using assms
  by (auto simp: entry_to_dict_def entry_from_mapping_def in_dump_order_get valid_entry_def)

lemma entries_loop_map:
  assumes "\<And>e. e \<in> set es \<Longrightarrow> entry_from_mapping (f e) = Inr e"
    and "distinct (map entry_target es)" and "set seen \<inter> entry_target ` set es = {}"
  shows "entries_loop seen (map f es) = Inr es"
  using assms
proof (induction es arbitrary: seen)
  case (Cons e es)
  then have "entries_loop (entry_target e # seen) (map f es) = Inr es"
    by (intro Cons.IH) auto
  with Cons.prems show ?case by simp
qed simp

lemma document_roundtrip:
  assumes "valid_registry env es" and "length es \<le> MAX_ARCHIVE_ENTRIES"
  shows "entries_of_document (loaded archive_opts (archive_document es)) = Inr es"
proof -
  have "entries_loop [] (map (\<lambda>e. loaded archive_opts (entry_to_dict e)) es) = Inr es"
    using assms(1) entry_roundtrip by (intro entries_loop_map) (auto simp: valid_registry_def list_all_iff)
  with assms(2) show ?thesis
    by (simp add: archive_document_def entries_of_document_def in_dump_order_get comp_def)
qed

lemma retained_newest: "list_all (valid_entry env) es \<Longrightarrow> retained_entries env es = newest_entries es"
  by (auto simp: retained_entries_def newest_entries_def list_ex_iff list_all_iff valid_entry_def)

lemma newest_entries_valid:
  assumes "valid_registry env es"
  shows "valid_registry env (newest_entries es) \<and> length (newest_entries es) \<le> MAX_ARCHIVE_ENTRIES"
proof -
  let ?s = "sort_key (\<lambda>e. float_key (ar_at e)) es"
  have "mset (map entry_target ?s) = mset (map entry_target es)"
    by (metis mset_map mset_sort)
  then have "distinct (map entry_target ?s)"
    using assms mset_eq_imp_distinct_iff unfolding valid_registry_def by blast
  then have "distinct (map entry_target (lastn MAX_ARCHIVE_ENTRIES ?s))"
    by (simp add: lastn_def flip: drop_map)
  moreover have "list_all (valid_entry env) (lastn MAX_ARCHIVE_ENTRIES ?s)"
    using assms set_lastn [of MAX_ARCHIVE_ENTRIES ?s] by (auto simp: valid_registry_def list_all_iff)
  ultimately show ?thesis
    using assms by (auto simp: newest_entries_def valid_registry_def)
qed

lemma store_load:
  assumes "valid_registry env es" and "ae_write_ok env" and "3 \<le> py_recursion (ae_limits env)"
  shows "\<exists>file. store_entries env es = Inr file \<and> load_entries env file = Inr (newest_entries es)"
proof -
  let ?es = "newest_entries es"
  have es: "list_all (valid_entry env) ?es" "retained_entries env es = ?es"
    using newest_entries_valid [OF assms(1)] assms(1) retained_newest by (auto simp: valid_registry_def)
  have ascii: "\<not> ensure_ascii archive_opts" by (simp add: archive_opts_def)
  obtain t where t: "json_dumps archive_opts (ae_repr env) (archive_document ?es) = Inr t"
    and l: "json_loads (ae_limits env) t = Inr (loaded archive_opts (archive_document ?es))"
    using loads_dumps [OF ascii document_writable [OF es(1)] order_trans [OF document_depth assms(3)]] by blast
  have sc: "list_all is_scalar t"
    using scalar_dumps [OF ascii document_scalar [OF es(1)] t] .
  have enc: "encode_strict t = Some (concat (map encode_char t))"
    using sc by (simp add: encode_strict_def)
  obtain t' where "t = 123 # t'"
    using t by (auto simp: archive_document_def dump_object_def split: sum.splits)
  then have "\<not> is_blank (concat (map encode_char t))"
    by (simp add: is_blank_def encode_char_def is_bytes_ws_def)
  moreover have "entries_of_document (loaded archive_opts (archive_document ?es)) = Inr ?es"
    using document_roundtrip newest_entries_valid [OF assms(1)] by blast
  ultimately have "load_entries env (Content (concat (map encode_char t))) = Inr ?es"
    using decode_encode [OF sc] l by (simp add: load_entries_def)
  then show ?thesis
    using t enc assms(2) by (simp add: store_entries_def es(2))
qed

text \<open>What a successful load guarantees of its entries.\<close>

lemma entries_loop_distinct:
  "entries_loop seen vs = Inr es \<Longrightarrow> distinct (map entry_target es) \<and> length es = length vs
    \<and> set seen \<inter> entry_target ` set es = {}"
proof (induction seen vs arbitrary: es rule: entries_loop.induct)
  case (2 seen v vs)
  then show ?case by (fastforce split: sum.splits if_splits)
qed simp

lemma load_distinct:
  assumes "load_entries env file = Inr es"
  shows "distinct (map entry_target es) \<and> length es \<le> MAX_ARCHIVE_ENTRIES"
proof -
  have "distinct (map entry_target es) \<and> length es \<le> MAX_ARCHIVE_ENTRIES" if "entries_of_document v = Inr es" for v
    using that entries_loop_distinct [of "[]" _ es]
    by (auto simp: entries_of_document_def split: option.splits if_splits)
  then show ?thesis
    using assms by (auto simp: load_entries_def split: archive_file.splits if_splits option.splits sum.splits json_fail.splits)
qed

lemma target_of_nonempty: "target_of x y = Inr (a, i) \<Longrightarrow> a \<noteq> [] \<and> i \<noteq> []"
  by (cases "text_of x"; cases "text_of y") (auto simp: target_of_def split: if_splits)

lemma value_target_nonempty: "value_target r = Inr (a, i) \<Longrightarrow> a \<noteq> [] \<and> i \<noteq> []"
  using target_of_nonempty by (auto simp: value_target_def session_target_def split: option.splits)

definition named :: "target \<Rightarrow> bool" where
  "named t \<longleftrightarrow> fst t \<noteq> [] \<and> snd t \<noteq> []"

lemma value_target_named: "value_target r = Inr t \<Longrightarrow> named t"
  using value_target_nonempty [of r "fst t" "snd t"] by (simp add: named_def)

lemma targets_loop_set:
  "targets_loop acc rs = Inr ts \<Longrightarrow> distinct acc \<Longrightarrow> list_all named acc \<Longrightarrow> distinct ts \<and> list_all named ts"
proof (induction rs arbitrary: acc)
  case (Cons r rs)
  obtain t where t: "value_target r = Inr t"
    and rest: "targets_loop (if t \<in> set acc then acc else acc @ [t]) rs = Inr ts"
    using Cons.prems(1) by (cases "value_target r") simp_all
  have "named t" using t by (rule value_target_named)
  then have "distinct (if t \<in> set acc then acc else acc @ [t])" "list_all named (if t \<in> set acc then acc else acc @ [t])"
    using Cons.prems(2,3) by simp_all
  with Cons.IH [OF rest] show ?case by simp
qed simp

subsection \<open>Archiving and restoring\<close>

text \<open>A decision at \<open>now\<close> on these targets can be written down.\<close>

definition recordable :: "arch_env \<Rightarrow> target list \<Rightarrow> time \<Rightarrow> bool" where
  "recordable env wanted now \<longleftrightarrow> list_all (\<lambda>t. list_all is_scalar (fst t) \<and> list_all is_scalar (snd t)) wanted
     \<and> 0 \<le> now \<and> is_float_text (ae_repr env now) now \<and> list_all is_scalar (ae_repr env now)"

definition storable :: "arch_env \<Rightarrow> bool" where
  "storable env \<longleftrightarrow> ae_write_ok env \<and> 3 \<le> py_recursion (ae_limits env)"

lemma new_entries_targets:
  "map entry_target (new_entries es wanted reason now) = filter (\<lambda>t. t \<notin> entry_target ` set es) wanted"
  by (simp add: new_entries_def entry_target_def split_beta comp_def)

lemma new_entries_valid:
  assumes "recordable env wanted now" and "list_all named wanted" and "reason \<in> set ARCHIVE_REASONS"
  shows "list_all (valid_entry env) (new_entries es wanted reason now)"
  using assms by (auto simp: recordable_def named_def new_entries_def valid_entry_def list_all_iff)

lemma extended_registry:
  assumes "valid_registry env es" and "recordable env wanted now" and "normalize_targets rows = Inr wanted"
    and "reason \<in> set ARCHIVE_REASONS"
  shows "valid_registry env (es @ new_entries es wanted reason now)"
proof -
  have w: "distinct wanted" "list_all named wanted"
    using assms(3) targets_loop_set [of "[]" rows wanted] by (simp_all add: normalize_targets_def)
  have "distinct (map entry_target (es @ new_entries es wanted reason now))"
    using assms(1) w(1) by (auto simp: new_entries_targets valid_registry_def simp flip: set_map)
  then show ?thesis
    using assms(1) new_entries_valid [OF assms(2) w(2) assms(4)] by (simp add: valid_registry_def)
qed

lemma newest_small: "length es \<le> MAX_ARCHIVE_ENTRIES \<Longrightarrow> newest_entries es = es"
  by (simp add: newest_entries_def)

lemma store_load_small:
  assumes "valid_registry env es" and "storable env" and "length es \<le> MAX_ARCHIVE_ENTRIES"
  obtains f where "store_entries env es = Inr f" and "load_entries env f = Inr es"
  using store_load [of env es] assms by (auto simp: storable_def newest_small)

lemma filter_registry: "valid_registry env es \<Longrightarrow> valid_registry env (filter P es)"
  by (auto simp: valid_registry_def list_all_iff distinct_map_filter)

text \<open>
  C8: Archiving is durable and idempotent per target: with a readable registry, a known reason and targets that
  name sessions, \<open>archive\<close> returns one new entry for exactly the wanted targets the registry did not have, in
  their order, and a later load of the file it leaves gives the old entries followed by the new ones, of which a
  registry beyond its capacity of 4096 keeps the ones with the latest decisions.
\<close>

theorem archive_persists:
  assumes "reason \<in> set ARCHIVE_REASONS" and "normalize_targets rows = Inr wanted"
    and "load_entries env file = Inr es" and "valid_registry env es"
    and "recordable env wanted now" and "storable env"
  shows "\<exists>added file'. archive env file rows reason now = Inr (added, file')
    \<and> map entry_target added = filter (\<lambda>t. t \<notin> entry_target ` set es) wanted
    \<and> (\<forall>e \<in> set added. ar_at e = Fin now \<and> ar_reason e = reason)
    \<and> load_entries env file' = Inr (newest_entries (es @ added))"
proof -
  let ?added = "new_entries es wanted reason now"
  have ex: "\<exists>file'. archive env file rows reason now = Inr (?added, file')
    \<and> load_entries env file' = Inr (newest_entries (es @ ?added))"
  proof (cases "?added = []")
    case True
    then show ?thesis
      using assms(1-3) load_distinct [OF assms(3)]
      by (auto simp: archive_def newest_small)
  next
    case False
    obtain f where "store_entries env (es @ ?added) = Inr f" "load_entries env f = Inr (newest_entries (es @ ?added))"
      using store_load [OF extended_registry [OF assms(4,5,2,1)]] assms(6) by (auto simp: storable_def)
    moreover have "wanted \<noteq> []" using False by (auto simp: new_entries_def)
    ultimately show ?thesis
      using assms(1-3) False by (simp add: archive_def Let_def)
  qed
  moreover have "\<forall>e \<in> set ?added. ar_at e = Fin now \<and> ar_reason e = reason"
    by (auto simp: new_entries_def)
  ultimately show ?thesis
    using new_entries_targets by blast
qed

lemma unarchive_persists:
  assumes "normalize_targets rows = Inr wanted" and "load_entries env file = Inr es" and "valid_registry env es"
    and "storable env"
  shows "\<exists>file'. unarchive env file rows = Inr (filter (\<lambda>t. t \<in> set wanted) (map entry_target es), file')
    \<and> load_entries env file' = Inr (filter (\<lambda>e. entry_target e \<notin> set wanted) es)"
proof -
  let ?rest = "filter (\<lambda>e. entry_target e \<notin> set wanted) es"
  have "length ?rest \<le> MAX_ARCHIVE_ENTRIES"
    using load_distinct [OF assms(2)] length_filter_le [of _ es] le_trans by blast
  then obtain f where f: "store_entries env ?rest = Inr f" "load_entries env f = Inr ?rest"
    using store_load_small [OF filter_registry [OF assms(3)] assms(4)] by blast
  have none: "?rest = es" if "filter (\<lambda>e. entry_target e \<in> set wanted) es = []"
    using that by (auto simp: filter_empty_conv)
  show ?thesis
    using assms(1,2) f none by (auto simp: unarchive_def Let_def filter_map comp_def)
qed

subsection \<open>Partitioning a snapshot\<close>

definition entry_for :: "ArchiveEntry list \<Rightarrow> row \<Rightarrow> ArchiveEntry option" where
  "entry_for es r =
     (case session_target r of Inl _ \<Rightarrow> None | Inr t \<Rightarrow> map_of (map (\<lambda>e. (entry_target e, e)) es) t)"

text \<open>The session has written since the decision to archive it.\<close>

definition revived :: "arch_env \<Rightarrow> ArchiveEntry \<Rightarrow> row \<Rightarrow> bool" where
  "revived env e r \<longleftrightarrow> (case row_updated_at env r of Inl _ \<Rightarrow> False | Inr u \<Rightarrow> float_less (ar_at e) u)"

definition held :: "arch_env \<Rightarrow> ArchiveEntry list \<Rightarrow> row \<Rightarrow> bool" where
  "held env es r \<longleftrightarrow> (case entry_for es r of None \<Rightarrow> False | Some e \<Rightarrow> \<not> revived env e r)"

definition released_by :: "arch_env \<Rightarrow> row list \<Rightarrow> ArchiveEntry \<Rightarrow> bool" where
  "released_by env rows e \<longleftrightarrow> (\<exists>r \<in> set rows. session_target r = Inr (entry_target e) \<and> revived env e r)"

definition timed :: "arch_env \<Rightarrow> row list \<Rightarrow> bool" where
  "timed env rows \<longleftrightarrow> list_all (\<lambda>r. \<exists>u. row_updated_at env r = Inr u) rows"

definition view_of :: "arch_env \<Rightarrow> (pyval \<Rightarrow> pystr) \<Rightarrow> ArchiveEntry list \<Rightarrow> row list \<Rightarrow> ArchiveView" where
  "view_of env rp es rows =
     \<lparr>av_visible = filter (\<lambda>r. \<not> held env es r) rows,
      av_archived = map (\<lambda>r. archived_row rp r (the (entry_for es r))) (filter (held env es) rows),
      av_released = map (\<lambda>r. entry_target (the (entry_for es r)))
        (filter (\<lambda>r. entry_for es r \<noteq> None \<and> \<not> held env es r) rows)\<rparr>"

lemma entry_for_target:
  assumes "entry_for es r = Some e"
  shows "session_target r = Inr (entry_target e)" and "e \<in> set es"
proof -
  obtain t where t: "session_target r = Inr t" and m: "map_of (map (\<lambda>e. (entry_target e, e)) es) t = Some e"
    using assms by (auto simp: entry_for_def split: sum.splits)
  have "(t, e) \<in> set (map (\<lambda>e. (entry_target e, e)) es)"
    using m by (rule map_of_SomeD)
  then show "session_target r = Inr (entry_target e)" and "e \<in> set es"
    using t by auto
qed

lemma entry_forI:
  assumes "session_target r = Inr (entry_target e)" and "e \<in> set es" and "distinct (map entry_target es)"
  shows "entry_for es r = Some e"
proof -
  have "map_of (map (\<lambda>e. (entry_target e, e)) es) (entry_target e) = Some e"
    using assms(2,3) by (intro map_of_is_SomeI) (auto simp: comp_def)
  then show ?thesis using assms(1) by (simp add: entry_for_def)
qed

lemma partition_loop_view:
  "timed env rows \<Longrightarrow> partition_loop env rp es rows = Inr (view_of env rp es rows)"
proof (induction rows)
  case Nil
  then show ?case by (simp add: view_of_def)
next
  case (Cons r rows)
  obtain u where u: "row_updated_at env r = Inr u"
    using Cons.prems by (auto simp: timed_def)
  have IH: "partition_loop env rp es rows = Inr (view_of env rp es rows)"
    using Cons by (simp add: timed_def)
  show ?case
  proof (cases "entry_for es r")
    case None
    then show ?thesis
      using IH by (cases "session_target r") (simp_all add: entry_for_def view_of_def held_def)
  next
    case (Some e)
    then have "session_target r = Inr (entry_target e)" by (rule entry_for_target)
    moreover from this Some have "map_of (map (\<lambda>e. (entry_target e, e)) es) (entry_target e) = Some e"
      by (simp add: entry_for_def)
    ultimately show ?thesis
      using IH u Some by (simp add: view_of_def held_def revived_def)
  qed
qed

lemma released_targets:
  assumes "distinct (map entry_target es)" and "e \<in> set es"
  shows "entry_target e \<in> set (av_released (view_of env rp es rows)) \<longleftrightarrow> released_by env rows e"
proof
  assume "entry_target e \<in> set (av_released (view_of env rp es rows))"
  then obtain r e' where r: "r \<in> set rows" "entry_for es r = Some e'" "\<not> held env es r" "entry_target e = entry_target e'"
    by (auto simp: view_of_def)
  then have "session_target r = Inr (entry_target e)" using entry_for_target by fastforce
  moreover from entry_forI [OF this assms(2,1)] r have "revived env e r" by (simp add: held_def)
  ultimately show "released_by env rows e" using r(1) by (auto simp: released_by_def)
next
  assume "released_by env rows e"
  then obtain r where r: "r \<in> set rows" "session_target r = Inr (entry_target e)" "revived env e r"
    by (auto simp: released_by_def)
  have "entry_for es r = Some e" using entry_forI [OF r(2) assms(2,1)] .
  with r show "entry_target e \<in> set (av_released (view_of env rp es rows))"
    by (force simp: view_of_def held_def)
qed

lemma partition_view:
  assumes "load_entries env file = Inr es" and "valid_registry env es" and "timed env rows" and "storable env"
  shows "\<exists>file'. partition_rows env rp file rows = Inr (view_of env rp es rows, file')
    \<and> load_entries env file' = Inr (filter (\<lambda>e. \<not> released_by env rows e) es)"
proof -
  let ?v = "view_of env rp es rows" and ?rest = "filter (\<lambda>e. \<not> released_by env rows e) es"
  have d: "distinct (map entry_target es)" using assms(2) by (simp add: valid_registry_def)
  have rest: "filter (\<lambda>e. entry_target e \<notin> set (av_released ?v)) es = ?rest"
    using released_targets [OF d] by (intro filter_cong) auto
  have "length ?rest \<le> MAX_ARCHIVE_ENTRIES"
    using load_distinct [OF assms(1)] length_filter_le [of _ es] le_trans by blast
  then obtain f where f: "store_entries env ?rest = Inr f" "load_entries env f = Inr ?rest"
    using store_load_small [OF filter_registry [OF assms(2)] assms(4)] by blast
  have none: "?rest = es" if "av_released ?v = []"
    using rest that by simp
  have empty: "?v = \<lparr>av_visible = rows, av_archived = [], av_released = []\<rparr>" if "es = []"
    using that by (auto simp: view_of_def held_def entry_for_def split: sum.splits)
  show ?thesis
    using assms(1) partition_loop_view [OF assms(3)] rest f none empty
    by (cases "es = []"; cases "av_released ?v = []") (simp_all add: partition_rows_def)
qed

text \<open>
  C10: What a snapshot is split into: a row is archived when the registry has an entry for its session and the
  session has not written since that decision, and visible otherwise, both in the order of the snapshot, so no
  row is lost or shown twice; the entries of sessions that have written since are dropped from the file, and the
  others kept.
\<close>

theorem partition_exact:
  assumes "load_entries env file = Inr es" and "valid_registry env es" and "timed env rows" and "storable env"
  shows "\<exists>v file'. partition_rows env rp file rows = Inr (v, file')
    \<and> av_visible v = filter (\<lambda>r. \<not> held env es r) rows
    \<and> av_archived v = map (\<lambda>r. archived_row rp r (the (entry_for es r))) (filter (held env es) rows)
    \<and> length (av_visible v) + length (av_archived v) = length rows
    \<and> load_entries env file' = Inr (filter (\<lambda>e. \<not> released_by env rows e) es)"
  using partition_view [OF assms] sum_length_filter_compl [of "held env es" rows]
  by (force simp: view_of_def)

subsection \<open>Thresholds\<close>

lemma in_threshold_range:
  "in_threshold r = Inr s \<Longrightarrow> s = r \<and> MIN_THRESHOLD_SECONDS \<le> s \<and> s \<le> MAX_THRESHOLD_SECONDS"
  by (auto simp: in_threshold_def split: if_splits)

lemma parse_duration_range:
  "parse_duration env v = Inr s \<Longrightarrow> MIN_THRESHOLD_SECONDS \<le> s \<and> s \<le> MAX_THRESHOLD_SECONDS"
  by (induction env v rule: parse_duration.induct)
    (auto dest: in_threshold_range split: float_conv.splits pyfloat.splits sum.splits)

lemma select_loop_filter:
  assumes "select_loop env rp allowed threshold current rows = Inr picked"
  shows "picked = filter (\<lambda>r. row_status rp r \<in> set allowed
    \<and> (\<exists>u. row_updated_at env r = Inr u \<and> \<not> younger current u threshold)) rows"
  using assms by (induction rows arbitrary: picked) (auto split: if_splits sum.splits)

text \<open>A row that \<open>select_archivable\<close> returns is idle or dead and at least a minute old.\<close>

lemma statuses_loop_subset:
  "statuses_loop env names vs = Inr allowed \<Longrightarrow> set names \<subseteq> set ARCHIVABLE_STATUSES \<Longrightarrow>
    set allowed \<subseteq> set ARCHIVABLE_STATUSES"
  by (induction env names vs rule: statuses_loop.induct) (auto simp: Let_def split: if_splits option.splits)

lemma select_archivable_sound:
  assumes "select_archivable env rp rows idle statuses now = Inr picked" and "r \<in> set picked"
  shows "r \<in> set rows \<and> row_status rp r \<in> set ARCHIVABLE_STATUSES
    \<and> (\<exists>u. row_updated_at env r = Inr u \<and> \<not> younger now u MIN_THRESHOLD_SECONDS)"
proof -
  obtain threshold allowed where t: "parse_duration env idle = Inr threshold"
    and a: "normalize_statuses env statuses = Inr allowed"
    and l: "select_loop env rp allowed threshold now rows = Inr picked"
    using assms(1) by (auto simp: select_archivable_def split: sum.splits)
  have "set allowed \<subseteq> set ARCHIVABLE_STATUSES"
    using a statuses_loop_subset by (fastforce simp: normalize_statuses_def split: option.splits)
  moreover have "\<not> younger now u MIN_THRESHOLD_SECONDS" if "\<not> younger now u threshold" for u
    using that parse_duration_range [OF t] by (auto simp: younger_def split: pyfloat.splits)
  ultimately show ?thesis
    using assms(2) unfolding select_loop_filter [OF l] by auto
qed

text \<open>
  The letter U+017F, which \<open>re.IGNORECASE\<close> lets stand for the unit s, escapes the error contract of
  \<open>parse_duration\<close>: on digits followed by it the call ends in a \<open>KeyError\<close> and not in the documented
  \<open>ArchiveError\<close>.
\<close>

lemma long_s_unit_escapes:
  assumes "ae_digit env 0x17F = None"
  shows "parse_duration env (PStr (py ''90'' @ [0x17F])) = Inl UnitKeyError"
  using assms by (simp add: parse_duration_text_def py_def is_dec_def is_digit_def is_space_def unit_seconds_def)

subsection \<open>Instances\<close>

definition ex_arch_env :: arch_env where
  "ex_arch_env = \<lparr>ae_limits = \<lparr>py_recursion = 100, py_int_digits = 4300\<rparr>, ae_float = (\<lambda>_. None), ae_digit = (\<lambda>_. None),
     ae_low = (\<lambda>c. [c]), ae_repr = (\<lambda>_. py ''1.0''), ae_nan_sort = (\<lambda>es. es), ae_write_ok = True\<rparr>"

lemma py_empty_iff: "py s = [] \<longleftrightarrow> s = []"
  by (simp add: py_def)

lemma ex_storable: "storable ex_arch_env"
  by (simp add: storable_def ex_arch_env_def)

lemma ex_recordable: "recordable ex_arch_env [(py ''codex'', py ''s1'')] 1"
  using float_text_one by (simp add: recordable_def ex_arch_env_def)

definition ex_rows :: "row list" where
  "ex_rows = [ValueRow (PTuple [pstr ''codex'', pstr ''s1''])]"

theorem archive_persists_witness:
  "\<exists>added file'. archive ex_arch_env NoFile ex_rows (py ''manual'') 1 = Inr (added, file')
    \<and> map entry_target added = [(py ''codex'', py ''s1'')]
    \<and> load_entries ex_arch_env file' = Inr (newest_entries added)"
proof -
  have "normalize_targets ex_rows = Inr [(py ''codex'', py ''s1'')]"
    by (simp add: normalize_targets_def ex_rows_def value_target_def as_pair_def target_of_def py_def)
  then show ?thesis
    using archive_persists [where reason = "py ''manual''" and rows = ex_rows and es = "[]" ,
        OF _ _ _ _ ex_recordable ex_storable, of NoFile]
    by (force simp: ARCHIVE_REASONS_def load_entries_def valid_registry_def)
qed

definition ex_arch_entry :: ArchiveEntry where
  "ex_arch_entry = \<lparr>ar_agent = py ''codex'', ar_session = py ''s1'', ar_at = Fin 1, ar_reason = py ''manual''\<rparr>"

lemma ex_registry: "valid_registry ex_arch_env [ex_arch_entry]"
  using float_text_one
  by (simp add: py_empty_iff valid_registry_def valid_entry_def ex_arch_entry_def ex_arch_env_def ARCHIVE_REASONS_def)

definition ex_snapshot :: "row list" where
  "ex_snapshot = [ValueRow (PDict [(pstr ''agent'', pstr ''codex''), (pstr ''session_id'', pstr ''s1''),
     (pstr ''updated_at'', PFloat (Fin 2))])]"

theorem partition_exact_witness:
  "\<exists>file v file'. load_entries ex_arch_env file = Inr [ex_arch_entry]
    \<and> partition_rows ex_arch_env (\<lambda>_. []) file ex_snapshot = Inr (v, file') \<and> av_visible v = ex_snapshot
    \<and> load_entries ex_arch_env file' = Inr []"
proof -
  obtain f where f: "load_entries ex_arch_env f = Inr [ex_arch_entry]"
    using store_load_small [OF ex_registry ex_storable] by (auto simp: MAX_ARCHIVE_ENTRIES_def)
  have u: "row_updated_at ex_arch_env (hd ex_snapshot) = Inr (Fin 2)"
    by (simp add: row_updated_at_def row_value_def ex_snapshot_def py_def)
  have t: "session_target (hd ex_snapshot) = Inr (entry_target ex_arch_entry)"
    by (simp add: session_target_def row_value_def ex_snapshot_def target_of_def entry_target_def ex_arch_entry_def py_def)
  have "timed ex_arch_env ex_snapshot" using u by (simp add: timed_def ex_snapshot_def)
  from partition_exact [OF f ex_registry this ex_storable, of "\<lambda>_. []"] obtain v f' where
    p: "partition_rows ex_arch_env (\<lambda>_. []) f ex_snapshot = Inr (v, f')"
      "av_visible v = filter (\<lambda>r. \<not> held ex_arch_env [ex_arch_entry] r) ex_snapshot"
      "load_entries ex_arch_env f' = Inr (filter (\<lambda>e. \<not> released_by ex_arch_env ex_snapshot e) [ex_arch_entry])"
    by blast
  obtain r where r: "ex_snapshot = [r]" by (simp add: ex_snapshot_def)
  have "revived ex_arch_env ex_arch_entry (hd ex_snapshot)"
    using u by (simp add: revived_def ex_arch_entry_def)
  then have "av_visible v = ex_snapshot" "load_entries ex_arch_env f' = Inr []"
    using p(2,3) t unfolding r by (simp_all add: held_def entry_for_def released_by_def)
  with f p(1) show ?thesis by blast
qed

end
