(* ===== verification/Text_Utils.thy ===== *)
theory Text_Utils
  imports Model Py_Text Json_Dump "HOL-Library.Sublist"
begin

text \<open>
  Text normalization, redaction and Cursor titles (\<open>sidecar/text_utils.py\<close>).

  \<^item> \<open>low\<close> is the lower-case mapping of the code points outside ASCII, and \<open>arr\<close> the order in which
    Python iterates over a set of texts.
  \<^item> Positions are those of the code: offsets into the lower-cased text, also where they cut the
    text itself.
\<close>

definition CURSOR_TITLE_LIMIT :: int where
  "CURSOR_TITLE_LIMIT = 160"

definition CURSOR_TITLE_MAX_INPUT_CHARS :: nat where
  "CURSOR_TITLE_MAX_INPUT_CHARS = 64 * 1024"

definition CURSOR_TITLE_MAX_TEXTS :: nat where
  "CURSOR_TITLE_MAX_TEXTS = 256"

definition CURSOR_METADATA_TAGS :: "pystr list" where
  "CURSOR_METADATA_TAGS = map py [''user_info'', ''open_and_recently_viewed_files'', ''attached_files'',
     ''agent_transcripts'', ''git_status'', ''rules'', ''system_reminder'', ''timestamp'']"

definition slice :: "pystr \<Rightarrow> nat \<Rightarrow> nat \<Rightarrow> pystr" where
  "slice s i j = drop i (take j s)"

subsection \<open>Scalar values\<close>

datatype text_exc = ErrorsValueError | SurrogateError nat

definition surrogate :: "nat \<Rightarrow> bool" where
  "surrogate c \<longleftrightarrow> 0xD800 \<le> c \<and> c \<le> 0xDFFF"

fun scalar_loop ::
  "bool \<Rightarrow> pystr \<Rightarrow> pystr list option \<Rightarrow> nat \<Rightarrow> nat \<Rightarrow> pystr \<Rightarrow> text_exc + pystr list option \<times> nat" where
  "scalar_loop strict s parts start i [] = Inr (parts, start)"
| "scalar_loop strict s parts start i (c # cs) =
     (if \<not> surrogate c then scalar_loop strict s parts start (Suc i) cs
      else if strict then Inl (SurrogateError i)
      else scalar_loop strict s
             (Some ((case parts of None \<Rightarrow> [] | Some ps \<Rightarrow> ps) @ [slice s start i, [0xFFFD]])) (Suc i) (Suc i) cs)"

definition normalize_scalar_text :: "pystr \<Rightarrow> pystr \<Rightarrow> text_exc + pystr" where
  "normalize_scalar_text s errors =
     (if errors \<noteq> py ''strict'' \<and> errors \<noteq> py ''replace'' then Inl ErrorsValueError
      else
        (case scalar_loop (errors = py ''strict'') s None 0 0 s of
           Inl e \<Rightarrow> Inl e
         | Inr (None, _) \<Rightarrow> Inr s
         | Inr (Some ps, start) \<Rightarrow> Inr (concat (ps @ [drop start s]))))"

subsection \<open>Redaction\<close>

text \<open>\<open>s.replace(old, new)\<close> for an \<open>old\<close> that is not empty, which is all the code calls it with.\<close>

function replace_all :: "pystr \<Rightarrow> pystr \<Rightarrow> pystr \<Rightarrow> pystr" where
  "replace_all old new s =
     (if s = [] \<or> old = [] then s
      else if starts_with old s then new @ replace_all old new (drop (length old) s)
      else hd s # replace_all old new (tl s))"
  by pat_completeness auto
termination by (relation "measure (\<lambda>(old, new, s). length s)") auto

declare replace_all.simps [simp del]

definition json_form :: "bool \<Rightarrow> pystr \<Rightarrow> pystr" where
  "json_form ascii m = butlast (tl (dump_string ascii m))"

definition message_forms :: "pystr \<Rightarrow> pystr list" where
  "message_forms message =
     (case normalize_scalar_text message (py ''replace'') of
        Inl _ \<Rightarrow> [message]
      | Inr normalized \<Rightarrow> if normalized = message then [message] else [message, normalized])"

definition form_candidates :: "pystr \<Rightarrow> pystr \<Rightarrow> pystr list" where
  "form_candidates s form =
     (if form = [] \<or> length s < length form then []
      else form # filter (\<lambda>e. length e \<le> length s) [json_form False form, json_form True form])"

definition redact_message :: "(pystr list \<Rightarrow> pystr list) \<Rightarrow> pystr \<Rightarrow> pystr \<Rightarrow> pystr \<Rightarrow> pystr" where
  "redact_message arr s message replacement =
     (if s = [] \<or> message = [] then s
      else
        (let candidates = remdups (concat (map (form_candidates s) (message_forms message)))
         in foldl (\<lambda>t c. replace_all c replacement t) s (sort_key (\<lambda>c. - int (length c)) (arr candidates))))"

definition snip_text :: "pystr \<Rightarrow> int \<Rightarrow> pystr" where
  "snip_text s n =
     (let t = join [32] (split s) in
      if n \<le> 0 then []
      else if int (length t) \<le> n then t
      else take (nat (max 0 (n - 1))) t @ [0x2026])"

definition snip :: "(pyval \<Rightarrow> pystr) \<Rightarrow> pyval \<Rightarrow> int \<Rightarrow> pystr" where
  "snip rp v n = snip_text (str_or_empty rp v) n"

subsection \<open>Wrapper tags\<close>

fun find_pos :: "pystr \<Rightarrow> pystr \<Rightarrow> nat option" where
  "find_pos p [] = (if p = [] then Some 0 else None)"
| "find_pos p (c # s) = (if starts_with p (c # s) then Some 0 else map_option Suc (find_pos p s))"

text \<open>\<open>s.find(p, i)\<close>, where \<open>None\<close> is \<open>-1\<close>.\<close>

definition find_from :: "pystr \<Rightarrow> pystr \<Rightarrow> nat \<Rightarrow> nat option" where
  "find_from p s i = (if length s < i then None else map_option (\<lambda>k. i + k) (find_pos p (drop i s)))"

definition opening_marker :: "pystr \<Rightarrow> pystr" where
  "opening_marker tag = 60 # tag @ [62]"

definition closing_marker :: "pystr \<Rightarrow> pystr" where
  "closing_marker tag = 60 # 47 # tag @ [62]"

lemma find_pos_bound: "find_pos p s = Some k \<Longrightarrow> k + length p \<le> length s"
  by (induction s arbitrary: k)
    (auto simp: starts_with_def split: if_splits dest: arg_cong [where f = length])

lemma find_from_bound: "find_from p s i = Some k \<Longrightarrow> i \<le> k \<and> k + length p \<le> length s"
  using find_pos_bound by (fastforce simp: find_from_def split: if_splits)

lemma marker_lengths [simp]:
  "length (opening_marker tag) = length tag + 2" "length (closing_marker tag) = length tag + 3"
  by (simp_all add: opening_marker_def closing_marker_def)

text \<open>The inner loop: where the section that is open at \<open>scan\<close> ends, at nesting \<open>depth\<close>.\<close>

function close_scan :: "pystr \<Rightarrow> pystr \<Rightarrow> nat \<Rightarrow> nat \<Rightarrow> nat option" where
  "close_scan lowered tag depth scan =
     (case find_from (closing_marker tag) lowered scan of
        None \<Rightarrow> None
      | Some closing \<Rightarrow>
          (case find_from (opening_marker tag) lowered scan of
             Some nested \<Rightarrow>
               if nested < closing then close_scan lowered tag (Suc depth) (nested + length (opening_marker tag))
               else if depth = 1 then Some closing
               else close_scan lowered tag (depth - 1) (closing + length (closing_marker tag))
           | None \<Rightarrow>
               if depth = 1 then Some closing
               else close_scan lowered tag (depth - 1) (closing + length (closing_marker tag))))"
  by pat_completeness auto
termination
  by (relation "measure (\<lambda>(lowered, tag, depth, scan). length lowered - scan)")
    (auto dest!: find_from_bound)

declare close_scan.simps [simp del]

lemma close_scan_bound: "close_scan lowered tag depth scan = Some closing \<Longrightarrow> scan \<le> closing"
proof (induction lowered tag depth scan rule: close_scan.induct)
  case (1 lowered tag depth scan)
  obtain c where c: "find_from (closing_marker tag) lowered scan = Some c"
    using "1.prems" by (subst (asm) close_scan.simps) (auto split: option.splits)
  show ?case
    using "1.prems" "1.IH" [OF c] c find_from_bound [OF c] find_from_bound [of "opening_marker tag" lowered scan]
    by (subst (asm) close_scan.simps) (force split: option.splits if_splits)
qed

type_synonym section_span = "nat \<times> nat \<times> nat \<times> nat"

function wrapper_loop :: "pystr \<Rightarrow> nat \<Rightarrow> pystr \<Rightarrow> nat \<Rightarrow> section_span list" where
  "wrapper_loop lowered n tag cursor =
     (if cursor < n then
        (case find_from (opening_marker tag) lowered cursor of
           None \<Rightarrow> []
         | Some opening \<Rightarrow>
             (let content_start = opening + length (opening_marker tag) in
              case close_scan lowered tag 1 content_start of
                None \<Rightarrow> [(opening, n, content_start, n)]
              | Some closing \<Rightarrow>
                  (let wrapper_end = closing + length (closing_marker tag) in
                   (opening, wrapper_end, content_start, closing) # wrapper_loop lowered n tag wrapper_end)))
      else [])"
  by pat_completeness auto
termination
  by (relation "measure (\<lambda>(lowered, n, tag, cursor). n - cursor)")
    (auto dest!: find_from_bound close_scan_bound)

declare wrapper_loop.simps [simp del]

definition wrapper_sections :: "(nat \<Rightarrow> pystr) \<Rightarrow> pystr \<Rightarrow> pystr \<Rightarrow> section_span list" where
  "wrapper_sections low s tag = wrapper_loop (lower low s) (length s) tag 0"

definition next_token :: "pystr \<Rightarrow> pystr \<Rightarrow> nat \<Rightarrow> (nat \<times> pystr) option" where
  "next_token lowered tag cursor =
     (case (find_from (opening_marker tag) lowered cursor, find_from (closing_marker tag) lowered cursor) of
        (None, None) \<Rightarrow> None
      | (Some i, None) \<Rightarrow> Some (i, opening_marker tag)
      | (None, Some j) \<Rightarrow> Some (j, closing_marker tag)
      | (Some i, Some j) \<Rightarrow> Some (if j < i then (j, closing_marker tag) else (i, opening_marker tag)))"

lemma next_token_progress:
  "next_token lowered tag cursor = Some (i, m) \<Longrightarrow> cursor < i + length m"
  by (auto simp: next_token_def split: option.splits if_splits dest!: find_from_bound)

function token_loop :: "pystr \<Rightarrow> pystr \<Rightarrow> pystr \<Rightarrow> nat \<Rightarrow> pystr" where
  "token_loop lowered s tag cursor =
     (if cursor < length s then
        (case next_token lowered tag cursor of
           None \<Rightarrow> drop cursor s
         | Some (i, m) \<Rightarrow> slice s cursor i @ token_loop lowered s tag (i + length m))
      else [])"
  by pat_completeness auto
termination
  by (relation "measure (\<lambda>(lowered, s, tag, cursor). length s - cursor)")
    (auto dest!: next_token_progress)

declare token_loop.simps [simp del]

definition remove_tag_tokens :: "(nat \<Rightarrow> pystr) \<Rightarrow> pystr \<Rightarrow> pystr \<Rightarrow> pystr" where
  "remove_tag_tokens low s tag = token_loop (lower low s) s tag 0"

fun outside_sections :: "pystr \<Rightarrow> nat \<Rightarrow> section_span list \<Rightarrow> pystr" where
  "outside_sections s cursor [] = drop cursor s"
| "outside_sections s cursor ((wrapper_start, wrapper_end, _, _) # spans) =
     slice s cursor wrapper_start @ outside_sections s wrapper_end spans"

definition remove_wrapped_sections :: "(nat \<Rightarrow> pystr) \<Rightarrow> pystr \<Rightarrow> pystr \<Rightarrow> pystr" where
  "remove_wrapped_sections low s tag =
     (let residual = outside_sections s 0 (wrapper_sections low s tag) in
      if find_pos (closing_marker tag) (lower low residual) \<noteq> None then []
      else remove_tag_tokens low residual tag)"

subsection \<open>Titles\<close>

fun query_title :: "(nat \<Rightarrow> pystr) \<Rightarrow> pystr \<Rightarrow> section_span list \<Rightarrow> pystr" where
  "query_title low s [] = []"
| "query_title low s ((_, _, content_start, content_end) # spans) =
     (let title = snip_text (remove_tag_tokens low (slice s content_start content_end) (py ''user_query''))
                    CURSOR_TITLE_LIMIT
      in if title \<noteq> [] then title else query_title low s spans)"

fun strip_metadata :: "(nat \<Rightarrow> pystr) \<Rightarrow> pystr \<Rightarrow> pystr list \<Rightarrow> pystr" where
  "strip_metadata low residual [] = residual"
| "strip_metadata low residual (tag # tags) =
     (let r = remove_wrapped_sections low residual tag in if r = [] then r else strip_metadata low r tags)"

definition plain_title :: "(nat \<Rightarrow> pystr) \<Rightarrow> pystr \<Rightarrow> pystr" where
  "plain_title low s =
     (let residual = strip_metadata low s CURSOR_METADATA_TAGS in
      snip_text (if residual \<noteq> [] then remove_wrapped_sections low residual (py ''user_query'') else residual)
        CURSOR_TITLE_LIMIT)"

text \<open>\<open>Inl\<close> is the early return of a title, \<open>Inr\<close> the \<open>fallback_user\<close> at the end of the loop.\<close>

fun title_loop :: "(nat \<Rightarrow> pystr) \<Rightarrow> nat \<Rightarrow> pystr \<Rightarrow> pyval list \<Rightarrow> pystr + pystr" where
  "title_loop low remaining fallback_user [] = Inr fallback_user"
| "title_loop low remaining fallback_user (v # vs) =
     (if remaining = 0 then Inr fallback_user
      else
        (case text_of v of
           None \<Rightarrow> title_loop low remaining fallback_user vs
         | Some s \<Rightarrow>
             (let bounded = take remaining s; remaining' = remaining - length bounded in
              if bounded = [] then title_loop low remaining' fallback_user vs
              else
                (let title = query_title low bounded (wrapper_sections low bounded (py ''user_query'')) in
                 if title \<noteq> [] then Inl title
                 else
                   (let candidate = plain_title low bounded in
                    title_loop low remaining'
                      (if candidate \<noteq> [] \<and> fallback_user = [] then candidate else fallback_user) vs)))))"

definition extract_cursor_title :: "(nat \<Rightarrow> pystr) \<Rightarrow> pyval list \<Rightarrow> pyval \<Rightarrow> pystr" where
  "extract_cursor_title low texts dflt =
     (case title_loop low CURSOR_TITLE_MAX_INPUT_CHARS [] (take CURSOR_TITLE_MAX_TEXTS texts) of
        Inl title \<Rightarrow> title
      | Inr fallback_user \<Rightarrow>
          if fallback_user \<noteq> [] then fallback_user
          else snip_text (case text_of dflt of None \<Rightarrow> [] | Some s \<Rightarrow> s) CURSOR_TITLE_LIMIT)"

subsection \<open>Normalization\<close>

definition scalar_char :: "nat \<Rightarrow> nat" where
  "scalar_char c = (if surrogate c then 0xFFFD else c)"

text \<open>What the parts and the open segment hold after the characters before \<open>i\<close>.\<close>

definition rendered :: "pystr \<Rightarrow> pystr list option \<times> nat \<Rightarrow> pystr" where
  "rendered s ps = concat (case fst ps of None \<Rightarrow> [] | Some xs \<Rightarrow> xs) @ drop (snd ps) s"

lemma scalar_loop_replace:
  assumes "start \<le> length pre" and "parts = None \<longrightarrow> start = 0"
    and "concat (case parts of None \<Rightarrow> [] | Some xs \<Rightarrow> xs) @ drop start pre = map scalar_char pre"
  shows "\<exists>parts' start'. scalar_loop False (pre @ cs) parts start (length pre) cs = Inr (parts', start')
    \<and> rendered (pre @ cs) (parts', start') = map scalar_char (pre @ cs) \<and> (parts' = None \<longrightarrow> start' = 0)"
  using assms
proof (induction cs arbitrary: pre parts start)
  case Nil
  then show ?case by (simp add: rendered_def)
next
  case (Cons c cs)
  show ?case
  proof (cases "surrogate c")
    case False
    then have "\<exists>parts' start'. scalar_loop False ((pre @ [c]) @ cs) parts start (length (pre @ [c])) cs = Inr (parts', start')
      \<and> rendered ((pre @ [c]) @ cs) (parts', start') = map scalar_char ((pre @ [c]) @ cs) \<and> (parts' = None \<longrightarrow> start' = 0)"
      using Cons.prems by (intro Cons.IH) (simp_all add: scalar_char_def flip: append_assoc)
    with False show ?thesis by simp
  next
    case True
    let ?ps = "(case parts of None \<Rightarrow> [] | Some xs \<Rightarrow> xs) @ [slice (pre @ c # cs) start (length pre), [0xFFFD]]"
    have "\<exists>parts' start'. scalar_loop False ((pre @ [c]) @ cs) (Some ?ps) (length (pre @ [c])) (length (pre @ [c])) cs = Inr (parts', start')
      \<and> rendered ((pre @ [c]) @ cs) (parts', start') = map scalar_char ((pre @ [c]) @ cs) \<and> (parts' = None \<longrightarrow> start' = 0)"
      using Cons.prems True by (intro Cons.IH) (simp_all add: slice_def scalar_char_def flip: append_assoc)
    with True show ?thesis by simp
  qed
qed

lemma scalar_loop_strict:
  "scalar_loop True s None 0 i cs =
    (if list_ex surrogate cs then Inl (SurrogateError (i + length (takeWhile (\<lambda>c. \<not> surrogate c) cs)))
     else Inr (None, 0))"
  by (induction cs arbitrary: i) auto

lemma normalize_replace: "normalize_scalar_text s (py ''replace'') = Inr (map scalar_char s)"
proof -
  obtain ps start where l: "scalar_loop False s None 0 0 s = Inr (ps, start)"
    and r: "rendered s (ps, start) = map scalar_char s" and n: "ps = None \<longrightarrow> start = 0"
    using scalar_loop_replace [of 0 "[]" None s] by auto
  have "py ''replace'' \<noteq> py ''strict''" by (simp add: py_def)
  then show ?thesis
    using l r n by (cases ps) (auto simp: normalize_scalar_text_def rendered_def)
qed

text \<open>
  \<open>normalize_scalar_text\<close>, which copies segments between surrogates, is the character-wise map: with
  \<open>replace\<close> every surrogate becomes U+FFFD and every other character is kept; with \<open>strict\<close> the text is
  unchanged when it has no surrogate, and otherwise the error carries the position of the first one.
\<close>

theorem normalize_scalar_text_exact:
  "normalize_scalar_text s (py ''replace'') = Inr (map (\<lambda>c. if surrogate c then 0xFFFD else c) s)
   \<and> normalize_scalar_text s (py ''strict'') =
      (if list_ex surrogate s then Inl (SurrogateError (length (takeWhile (\<lambda>c. \<not> surrogate c) s))) else Inr s)"
proof -
  have "scalar_char = (\<lambda>c. if surrogate c then 0xFFFD else c)"
    by (simp add: scalar_char_def fun_eq_iff)
  then show ?thesis
    using normalize_replace [of s] by (simp add: normalize_scalar_text_def scalar_loop_strict)
qed

subsection \<open>What redaction removes\<close>

lemma starts_with_prefix: "starts_with p s \<longleftrightarrow> prefix p s"
  by (auto simp: starts_with_def prefix_def) (metis append_take_drop_id)

lemma sublist_skip:
  assumes "sublist c (xs @ ys)" and "c \<noteq> []" and "set c \<inter> set xs = {}"
  shows "sublist c ys"
  using assms
proof (induction xs)
  case (Cons x xs)
  have "\<not> prefix c (x # xs @ ys)" using Cons.prems by (cases c) auto
  with Cons show ?case by (auto simp: sublist_Cons_right)
qed simp

lemma prefix_replaced:
  assumes "prefix c (replace_all old new s)" and "c \<noteq> []" and "set c \<inter> set new = {}" and "new \<noteq> []"
  shows "prefix c s"
  using assms
proof (induction old new s arbitrary: c rule: replace_all.induct)
  case (1 old new s)
  show ?case
  proof (cases "s = [] \<or> old = [] \<or> starts_with old s")
    case True
    then have "replace_all old new s = s \<or> (\<exists>r. replace_all old new s = new @ r)"
      using replace_all.simps [of old new s] by (metis (full_types))
    then show ?thesis
      using "1.prems" by (cases c; cases new) auto
  next
    case False
    then have r: "replace_all old new s = hd s # replace_all old new (tl s)" by (simp add: replace_all.simps)
    obtain d where d: "c = hd s # d" "prefix d (replace_all old new (tl s))"
      using "1.prems"(1,2) r by (cases c) auto
    have "prefix d (tl s)"
      using "1.IH"(2) [of d] False "1.prems"(3,4) d by (cases "d = []") auto
    with d(1) False show ?thesis by (cases s) auto
  qed
qed

lemma sublist_replaced:
  assumes "sublist c (replace_all old new s)" and "c \<noteq> []" and "set c \<inter> set new = {}" and "new \<noteq> []"
  shows "sublist c s \<and> (old \<noteq> [] \<longrightarrow> c \<noteq> old)"
  using assms
proof (induction old new s rule: replace_all.induct)
  case (1 old new s)
  consider "s = [] \<or> old = []" | "s \<noteq> []" "old \<noteq> []" "starts_with old s" | "s \<noteq> []" "old \<noteq> []" "\<not> starts_with old s"
    by blast
  then show ?case
  proof cases
    case 1
    then have "replace_all old new s = s" by (auto simp: replace_all.simps)
    with 1 "1.prems" show ?thesis by auto
  next
    case 2
    then have "sublist c (replace_all old new (drop (length old) s))"
      using "1.prems"(1-3) by (subst (asm) replace_all.simps) (auto dest: sublist_skip)
    with "1.IH"(1) 2 "1.prems" show ?thesis
      by (meson sublist_drop sublist_order.order_trans)
  next
    case 3
    then have r: "replace_all old new s = hd s # replace_all old new (tl s)" by (simp add: replace_all.simps)
    show ?thesis
    proof (cases "prefix c (replace_all old new s)")
      case True
      then have "prefix c s" using prefix_replaced "1.prems" by blast
      with 3 show ?thesis by (auto simp: starts_with_prefix)
    next
      case False
      then have "sublist c (replace_all old new (tl s))"
        using "1.prems"(1) r by (simp add: sublist_Cons_right)
      with "1.IH"(2) 3 "1.prems" have "sublist c (tl s) \<and> c \<noteq> old" by auto
      with 3(1) show ?thesis by (cases s) (auto simp: sublist_Cons_right)
    qed
  qed
qed

lemma sublist_redacted:
  assumes "sublist c (foldl (\<lambda>t k. replace_all k new t) s ks)" and "c \<noteq> []" and "set c \<inter> set new = {}" and "new \<noteq> []"
  shows "sublist c s \<and> c \<notin> set ks"
  using assms(1)
proof (induction ks rule: rev_induct)
  case (snoc k ks)
  then have "sublist c (foldl (\<lambda>t k. replace_all k new t) s ks) \<and> (k \<noteq> [] \<longrightarrow> c \<noteq> k)"
    using sublist_replaced assms(2-4) by simp
  with snoc.IH assms(2) show ?case by auto
qed simp

lemma json_form_eq: "json_form ascii m = concat (map (escape_char ascii) m)"
  by (simp add: json_form_def dump_string_def butlast_append)

lemma json_form_longer: "length m \<le> length (json_form ascii m)"
proof -
  have "Suc 0 \<le> length (escape_char ascii c)" for c
    by (simp add: escape_char_def u_escape_def)
  then have "Suc (length m) \<le> length (escape_char ascii c) + length (json_form ascii m)"
    if "length m \<le> length (json_form ascii m)" for c m
    using that by (metis add_mono plus_1_eq_Suc One_nat_def)
  then show ?thesis
    by (induction m) (simp_all add: json_form_eq)
qed

lemma form_candidates_mem:
  assumes "sublist c s" and "c \<in> {m, json_form False m, json_form True m}" and "m \<noteq> []"
  shows "c \<in> set (form_candidates s m)"
  using assms sublist_length_le [OF assms(1)] json_form_longer [of m False] json_form_longer [of m True]
  by (auto simp: form_candidates_def)



subsection \<open>Titles\<close>

lemma snip_text_bound: "0 \<le> n \<Longrightarrow> int (length (snip_text s n)) \<le> n"
  by (auto simp: snip_text_def Let_def)

lemma query_title_bound: "length (query_title low s spans) \<le> 160"
  by (induction low s spans rule: query_title.induct)
    (use snip_text_bound [of 160] in \<open>auto simp: Let_def CURSOR_TITLE_LIMIT_def nat_le_iff\<close>)

lemma extract_title_bound: "length (extract_cursor_title low texts dflt) \<le> 160"
proof -
  have s: "length (snip_text s CURSOR_TITLE_LIMIT) \<le> 160" for s
    using snip_text_bound [of 160 s] by (simp add: CURSOR_TITLE_LIMIT_def)
  have "case title_loop low n fb vs of Inl t \<Rightarrow> length t \<le> 160 | Inr t \<Rightarrow> length t \<le> 160"
    if "length fb \<le> 160" for n fb vs
    using that
    by (induction low n fb vs rule: title_loop.induct)
      (use s query_title_bound in \<open>auto simp: Let_def plain_title_def split: option.split sum.splits\<close>)
  from this [of "[]" CURSOR_TITLE_MAX_INPUT_CHARS "take CURSOR_TITLE_MAX_TEXTS texts"] s show ?thesis
    by (auto simp: extract_cursor_title_def split: sum.splits)
qed

lemma find_pos_first:
  assumes "p \<noteq> []" and "hd p \<notin> set xs"
  shows "find_pos p (xs @ ys) = map_option (\<lambda>k. length xs + k) (find_pos p ys)"
  using assms
proof (induction xs)
  case (Cons x xs)
  then have "\<not> starts_with p (x # xs @ ys)" by (cases p) (auto simp: starts_with_def)
  with Cons show ?case by (cases "find_pos p ys") auto
qed (cases "find_pos p ys"; simp)

lemma find_pos_here: "find_pos p (p @ ys) = Some 0"
proof (cases "p @ ys")
  case (Cons a zs)
  then have "starts_with p (a # zs)" by (metis starts_with_prefix prefix_def)
  with Cons show ?thesis by simp
qed simp

lemma find_from_after:
  assumes "p \<noteq> []" and "hd p \<notin> set xs" and "i = length pre"
  shows "find_from p (pre @ xs @ p @ ys) i = Some (length pre + length xs)"
  using assms by (simp add: find_from_def find_pos_first find_pos_here)

lemma marker_heads [simp]:
  "hd (opening_marker tag) = 60" "hd (closing_marker tag) = 60" "opening_marker tag \<noteq> []" "closing_marker tag \<noteq> []"
  by (simp_all add: opening_marker_def closing_marker_def)

lemma close_scan_flat:
  assumes "60 \<notin> set q" and "scan = length pre"
  shows "close_scan (pre @ q @ closing_marker tag @ post) tag 1 scan = Some (length pre + length q)"
proof -
  have "find_from (closing_marker tag) (pre @ q @ closing_marker tag @ post) scan = Some (length pre + length q)"
    using assms by (intro find_from_after) auto
  moreover have "length pre + length q \<le> n"
    if "find_from (opening_marker tag) (pre @ q @ closing_marker tag @ post) scan = Some n" for n
    using that assms find_pos_first [of "opening_marker tag" q "closing_marker tag @ post"]
    by (auto simp: find_from_def)
  ultimately show ?thesis
    by (subst close_scan.simps) (auto split: option.split simp: not_less)
qed

text \<open>The lower-case form keeps the positions of the text.\<close>

definition aligned :: "(nat \<Rightarrow> pystr) \<Rightarrow> pystr \<Rightarrow> bool" where
  "aligned low s \<longleftrightarrow> list_all (\<lambda>c. c < 128 \<or> length (low c) = 1) s"

lemma aligned_length: "aligned low s \<Longrightarrow> length (lower low s) = length s"
  by (induction s) (auto simp: aligned_def lower_def)

lemma lower_append: "lower low (s @ t) = lower low s @ lower low t"
  by (simp add: lower_def)

lemma lower_marker:
  "lower low (opening_marker (py ''user_query'')) = opening_marker (py ''user_query'')"
  "lower low (closing_marker (py ''user_query'')) = closing_marker (py ''user_query'')"
  by (simp_all add: opening_marker_def closing_marker_def py_def lower_def)

lemma find_pos_absent: "hd p \<notin> set s \<Longrightarrow> p \<noteq> [] \<Longrightarrow> find_pos p s = None"
  using find_pos_first [of p s "[]"] by simp

lemma remove_no_tokens:
  assumes "60 \<notin> set (lower low q)"
  shows "remove_tag_tokens low q tag = q"
  using assms
  by (auto simp: remove_tag_tokens_def token_loop.simps [of _ _ _ 0] next_token_def find_from_def find_pos_absent)

lemma wrapper_first:
  assumes "aligned low pre" and "aligned low q" and "60 \<notin> set (lower low pre)" and "60 \<notin> set (lower low q)"
  shows "\<exists>e spans. wrapper_sections low
      (pre @ opening_marker (py ''user_query'') @ q @ closing_marker (py ''user_query'') @ post) (py ''user_query'') =
    (length pre, e, length pre + 12, length pre + 12 + length q) # spans"
proof -
  let ?o = "opening_marker (py ''user_query'')" and ?c = "closing_marker (py ''user_query'')"
  let ?l = "lower low pre @ ?o @ lower low q @ ?c @ lower low post"
  have len: "length (lower low pre) = length pre" "length (lower low q) = length q" "length ?o = 12"
    using assms aligned_length by (auto simp: py_def)
  have "find_from ?o ?l 0 = Some (length pre)"
    using find_from_after [of ?o "lower low pre" 0 "[]"] assms(3) len by simp
  moreover have "close_scan ?l (py ''user_query'') 1 (length pre + 12) = Some (length pre + 12 + length q)"
    using close_scan_flat [OF assms(4), of "length pre + 12" "lower low pre @ ?o" "py ''user_query''" "lower low post"] len
    by simp
  ultimately show ?thesis
    unfolding wrapper_sections_def lower_append lower_marker
    by (subst wrapper_loop.simps) (simp add: Let_def len del: marker_lengths)
qed

lemma split_ws_pieces: "[] \<notin> set (split_ws cur s)"
  by (induction cur s rule: split_ws.induct) auto

lemma join_split: "split q \<noteq> [] \<Longrightarrow> join [32] (split q) \<noteq> []"
  using split_ws_pieces [of "[]" q] unfolding split_def
  by (cases "split_ws [] q"; cases "tl (split_ws [] q)") auto

lemma title_of_first:
  assumes "query_title low s (wrapper_sections low s (py ''user_query'')) = t" and "t \<noteq> []" and "s \<noteq> []"
    and "length s \<le> CURSOR_TITLE_MAX_INPUT_CHARS"
  shows "extract_cursor_title low (PStr s # texts) dflt = t"
proof -
  have "take CURSOR_TITLE_MAX_INPUT_CHARS s = s" using assms(4) by simp
  then show ?thesis
    using assms(1-3)
    by (simp add: extract_cursor_title_def CURSOR_TITLE_MAX_TEXTS_def Let_def) (simp add: CURSOR_TITLE_MAX_INPUT_CHARS_def)
qed

text \<open>
  The title of a Cursor session is its first query: when the first user text holds a \<open>user_query\<close> wrapper
  before which and in which no tag opens, the query is not blank, and lower-casing keeps the positions up to the
  end of the query, the title is the collapsed query cut to 160 characters, whatever follows it in that text and
  in the later ones.
\<close>

theorem title_is_first_query:
  assumes "aligned low pre" and "aligned low q" and "60 \<notin> set (lower low pre)" and "60 \<notin> set (lower low q)"
    and "split q \<noteq> []"
    and "s = pre @ py ''<user_query>'' @ q @ py ''</user_query>'' @ post" and "length s \<le> CURSOR_TITLE_MAX_INPUT_CHARS"
  shows "extract_cursor_title low (PStr s # texts) dflt = snip_text q CURSOR_TITLE_LIMIT"
proof -
  have m: "py ''<user_query>'' = opening_marker (py ''user_query'')" "py ''</user_query>'' = closing_marker (py ''user_query'')"
    by (simp_all add: py_def opening_marker_def closing_marker_def)
  obtain e spans where w: "wrapper_sections low s (py ''user_query'') = (length pre, e, length pre + 12, length pre + 12 + length q) # spans"
    using wrapper_first [OF assms(1-4)] unfolding assms(6) m by blast
  have "length (py ''<user_query>'') = 12" by (simp add: py_def)
  then have "slice s (length pre + 12) (length pre + 12 + length q) = q"
    by (simp add: slice_def assms(6))
  moreover have "snip_text q CURSOR_TITLE_LIMIT \<noteq> []"
    using join_split [OF assms(5)] by (auto simp: snip_text_def Let_def CURSOR_TITLE_LIMIT_def)
  ultimately have "query_title low s (wrapper_sections low s (py ''user_query'')) = snip_text q CURSOR_TITLE_LIMIT"
    using remove_no_tokens [OF assms(4)] by (simp add: w Let_def)
  moreover have "s \<noteq> []" by (simp add: assms(6) py_def)
  ultimately show ?thesis
    using \<open>snip_text q CURSOR_TITLE_LIMIT \<noteq> []\<close> assms(7) by (intro title_of_first)
qed

theorem title_is_first_query_witness:
  "extract_cursor_title (\<lambda>c. [c]) [PStr (py ''x<user_query> fix  it </user_query>y'')] PNone = py ''fix it''"
proof -
  have "extract_cursor_title (\<lambda>c. [c]) [PStr (py ''x<user_query> fix  it </user_query>y'')] PNone
    = snip_text (py '' fix  it '') CURSOR_TITLE_LIMIT"
    by (rule title_is_first_query [where pre = "py ''x''" and q = "py '' fix  it ''" and post = "py ''y''"])
      (simp_all add: aligned_def py_def lower_def CURSOR_TITLE_MAX_INPUT_CHARS_def split_def is_space_def)
  also have "\<dots> = py ''fix it''"
    by (simp add: snip_text_def split_def py_def is_space_def CURSOR_TITLE_LIMIT_def)
  finally show ?thesis .
qed



end
