(* ===== verification/Cluster.thy ===== *)
theory Cluster
  imports Py_Float Py_Text Json_Dump Utf8 "HOL-Library.AList" "HOL-Library.Multiset"
begin

text \<open>
  Session clustering (\<open>sidecar/cluster.py\<close>): rows are grouped by workspace, agent, model and time
  bucket, and the groups of several hosts are merged by their identifier.

  \<^item> \<open>ce_hash\<close> is the hexadecimal SHA-256 digest, \<open>ce_fold\<close> is \<open>str.casefold\<close>, \<open>ce_float\<close> is \<open>float\<close> on
    texts, and \<open>ce_odd_sort\<close> is what sorting gives when a merged group carries a time bucket that is not
    a finite number (an order, or a \<open>TypeError\<close>).
  \<^item> A dictionary of groups is an association list in insertion order.
\<close>

datatype cluster_exc = WindowNotNumber | WindowOutOfBounds | TimestampOverflow | IdEncodeError | ClusterTypeError

record Cluster =
  c_id :: pystr
  c_project :: pystr
  c_agent :: pystr
  c_model :: pystr
  c_provider :: pystr
  c_bucket :: pyval
  c_count :: int
  c_sessions :: "pystr list"
  c_hosts :: "pystr list"

record cluster_env =
  ce_hash :: "bytes \<Rightarrow> pystr"
  ce_fold :: "pystr \<Rightarrow> pystr"
  ce_float :: "pystr \<Rightarrow> pyfloat option"
  ce_odd_sort :: "Cluster list \<Rightarrow> cluster_exc + Cluster list"

definition MAX_CLUSTER_WINDOW_SECONDS :: time where
  "MAX_CLUSTER_WINDOW_SECONDS = 365 * 24 * 60 * 60"

definition MAX_CLUSTER_SESSIONS :: nat where
  "MAX_CLUSTER_SESSIONS = 4096"

definition MAX_CLUSTER_TEXT :: nat where
  "MAX_CLUSTER_TEXT = 256"

subsection \<open>Keys\<close>

definition cluster_text :: "nat \<Rightarrow> pyval \<Rightarrow> pystr" where
  "cluster_text n v = (case text_of v of None \<Rightarrow> [] | Some s \<Rightarrow> take n (strip s))"

definition or_unknown :: "pystr \<Rightarrow> pystr" where
  "or_unknown s = (if s = [] then py ''unknown'' else s)"

definition extra_value :: "pydict \<Rightarrow> string \<Rightarrow> pystr" where
  "extra_value d key =
     (case mapping_items (dget d ''extra'') of None \<Rightarrow> [] | Some e \<Rightarrow> cluster_text MAX_CLUSTER_TEXT (dget e key))"

definition cluster_timestamp :: "pydict \<Rightarrow> cluster_exc + time" where
  "cluster_timestamp d =
     (case dget d ''updated_at'' of
        PInt i \<Rightarrow>
          (case float_of_int i of
             Converted (Fin r) \<Rightarrow> Inr (if 0 \<le> r then r else 0)
           | _ \<Rightarrow> Inl TimestampOverflow)
      | PFloat (Fin r) \<Rightarrow> Inr (if 0 \<le> r then r else 0)
      | _ \<Rightarrow> Inr 0)"

definition cluster_window :: "cluster_env \<Rightarrow> pyval \<Rightarrow> cluster_exc + time" where
  "cluster_window env v =
     (if is_bool v then Inl WindowNotNumber
      else
        (case to_float (ce_float env) v of
           Converted (Fin r) \<Rightarrow>
             if 0 < r \<and> r \<le> MAX_CLUSTER_WINDOW_SECONDS then Inr r else Inl WindowOutOfBounds
         | Converted _ \<Rightarrow> Inl WindowOutOfBounds
         | _ \<Rightarrow> Inl WindowNotNumber))"

type_synonym cluster_key = "pystr \<times> pystr \<times> pystr \<times> pystr \<times> int"

definition cluster_key :: "time \<Rightarrow> pydict \<Rightarrow> cluster_exc + cluster_key" where
  "cluster_key window d =
     (case cluster_timestamp d of
        Inl e \<Rightarrow> Inl e
      | Inr ts \<Rightarrow>
          Inr (or_unknown (cluster_text MAX_CLUSTER_TEXT (dget d ''project'')),
               or_unknown (cluster_text MAX_CLUSTER_TEXT (dget d ''agent'')),
               or_unknown (extra_value d ''model''), or_unknown (extra_value d ''model_provider''),
               \<lfloor>ts / window\<rfloor>))"

definition key_value :: "cluster_key \<Rightarrow> pyval" where
  "key_value key =
     (case key of (project, agent, model, provider, bucket) \<Rightarrow>
        PTuple [PStr project, PStr agent, PStr model, PStr provider, PInt bucket])"

definition cluster_id :: "cluster_env \<Rightarrow> cluster_key \<Rightarrow> cluster_exc + pystr" where
  "cluster_id env key =
     (case json_dumps \<lparr>ensure_ascii = False, sort_keys = False, allow_nan = True\<rparr> (\<lambda>_. []) (key_value key) of
        Inl _ \<Rightarrow> Inl ClusterTypeError
      | Inr payload \<Rightarrow>
          (case encode_strict payload of
             None \<Rightarrow> Inl IdEncodeError
           | Some raw \<Rightarrow> Inr (take 16 (ce_hash env raw))))"

subsection \<open>Order\<close>

fun bucket_number :: "pyval \<Rightarrow> rat option" where
  "bucket_number (PInt i) = Some (of_int i)"
| "bucket_number (PBool b) = Some (if b then 1 else 0)"
| "bucket_number (PFloat (Fin r)) = Some r"
| "bucket_number v = None"

definition cluster_rank :: "cluster_env \<Rightarrow> Cluster \<Rightarrow> pystr \<times> pystr \<times> pystr \<times> rat \<times> pystr" where
  "cluster_rank env c =
     (ce_fold env (c_project c), ce_fold env (c_agent c), ce_fold env (c_model c),
      case bucket_number (c_bucket c) of None \<Rightarrow> 0 | Some r \<Rightarrow> r, c_id c)"

definition sort_clusters :: "cluster_env \<Rightarrow> Cluster list \<Rightarrow> cluster_exc + Cluster list" where
  "sort_clusters env cs =
     (if list_all (\<lambda>c. bucket_number (c_bucket c) \<noteq> None) cs then Inr (sort_key (cluster_rank env) cs)
      else ce_odd_sort env cs)"

definition tidy_cluster :: "cluster_env \<Rightarrow> Cluster \<Rightarrow> Cluster" where
  "tidy_cluster env c = c\<lparr>c_hosts := sort_key (ce_fold env) (c_hosts c), c_sessions := sort (c_sessions c)\<rparr>"

definition finish_clusters :: "cluster_env \<Rightarrow> Cluster list \<Rightarrow> cluster_exc + Cluster list" where
  "finish_clusters env cs =
     (case sort_clusters env cs of Inl e \<Rightarrow> Inl e | Inr sorted_cs \<Rightarrow> Inr (map (tidy_cluster env) sorted_cs))"

subsection \<open>Grouping\<close>

definition new_cluster :: "time \<Rightarrow> pystr \<Rightarrow> cluster_key \<Rightarrow> Cluster" where
  "new_cluster window i key =
     (case key of (project, agent, model, provider, bucket) \<Rightarrow>
        \<lparr>c_id = i, c_project = project, c_agent = agent, c_model = model, c_provider = provider,
         c_bucket = PFloat (Fin (of_int bucket * window)), c_count = 0, c_sessions = [], c_hosts = []\<rparr>)"

definition session_of_row :: "pydict \<Rightarrow> pystr" where
  "session_of_row d = cluster_text 4096 (dget d ''session_id'')"

definition host_of_row :: "pydict \<Rightarrow> pystr" where
  "host_of_row d = cluster_text 256 (dget d ''host'')"

definition keep_session :: "pystr \<Rightarrow> pystr list \<Rightarrow> pystr list" where
  "keep_session i ts = (if i \<noteq> [] \<and> length ts < MAX_CLUSTER_SESSIONS then ts @ [i] else ts)"

definition keep_host :: "pystr \<Rightarrow> pystr list \<Rightarrow> pystr list" where
  "keep_host h ts = (if h \<noteq> [] \<and> h \<notin> set ts then ts @ [h] else ts)"

definition add_row :: "pydict \<Rightarrow> Cluster \<Rightarrow> Cluster" where
  "add_row d c =
     c\<lparr>c_count := c_count c + 1, c_sessions := keep_session (session_of_row d) (c_sessions c),
       c_hosts := keep_host (host_of_row d) (c_hosts c)\<rparr>"

fun cluster_loop ::
  "cluster_env \<Rightarrow> time \<Rightarrow> (cluster_key \<times> Cluster) list \<Rightarrow> pyval list \<Rightarrow> cluster_exc + (cluster_key \<times> Cluster) list" where
  "cluster_loop env window groups [] = Inr groups"
| "cluster_loop env window groups (row # rows) =
     (case mapping_items row of
        None \<Rightarrow> cluster_loop env window groups rows
      | Some d \<Rightarrow>
          (case cluster_key window d of
             Inl e \<Rightarrow> Inl e
           | Inr key \<Rightarrow>
               (case map_of groups key of
                  Some c \<Rightarrow> cluster_loop env window (AList.update key (add_row d c) groups) rows
                | None \<Rightarrow>
                    (case cluster_id env key of
                       Inl e \<Rightarrow> Inl e
                     | Inr i \<Rightarrow>
                         cluster_loop env window (AList.update key (add_row d (new_cluster window i key)) groups) rows))))"

definition cluster_sessions :: "cluster_env \<Rightarrow> pyval list \<Rightarrow> pyval \<Rightarrow> cluster_exc + Cluster list" where
  "cluster_sessions env rows window_seconds =
     (case cluster_window env window_seconds of
        Inl e \<Rightarrow> Inl e
      | Inr window \<Rightarrow>
          (case cluster_loop env window [] rows of
             Inl e \<Rightarrow> Inl e
           | Inr groups \<Rightarrow> finish_clusters env (map snd groups)))"

subsection \<open>Merging\<close>

text \<open>What a \<open>for\<close> loop over the value sees; \<open>None\<close> is the \<open>TypeError\<close> of a value that is not iterable.\<close>

fun iter_items :: "pyval \<Rightarrow> pyval list option" where
  "iter_items (PList xs) = Some xs"
| "iter_items (PTuple xs) = Some xs"
| "iter_items (PSet xs) = Some xs"
| "iter_items (PDict d) = Some (map fst d)"
| "iter_items (PStr s) = Some (map (\<lambda>c. PStr [c]) s)"
| "iter_items (PEnum (PStr s)) = Some (map (\<lambda>c. PStr [c]) s)"
| "iter_items (PBytes b) = Some (map (\<lambda>w. PInt (uint w)) b)"
| "iter_items v = None"

definition dict_default :: "pydict \<Rightarrow> string \<Rightarrow> pyval \<Rightarrow> pyval" where
  "dict_default d key dflt = (case map_of d (pstr key) of None \<Rightarrow> dflt | Some v \<Rightarrow> v)"

definition merge_text :: "pystr list \<Rightarrow> pyval \<Rightarrow> pystr list" where
  "merge_text ts v =
     (case text_of v of
        None \<Rightarrow> ts
      | Some s \<Rightarrow> if s \<notin> set ts \<and> length ts < MAX_CLUSTER_SESSIONS then ts @ [s] else ts)"

definition source_id :: "pydict \<Rightarrow> pystr" where
  "source_id d = cluster_text 64 (dget d ''cluster_id'')"

definition source_count :: "pydict \<Rightarrow> int" where
  "source_count d = (case dget d ''count'' of PInt i \<Rightarrow> if 0 \<le> i then i else 0 | _ \<Rightarrow> 0)"

definition source_sessions :: "pydict \<Rightarrow> pyval list option" where
  "source_sessions d = iter_items (dict_default d ''session_ids'' (PTuple []))"

definition source_hosts :: "pydict \<Rightarrow> pyval list option" where
  "source_hosts d =
     (case iter_items (dict_default d ''hosts'' (PTuple [])) of
        None \<Rightarrow> None
      | Some hs \<Rightarrow> Some (hs @ (case text_of (dget d ''host'') of None \<Rightarrow> [] | Some _ \<Rightarrow> [dget d ''host''])))"

definition new_target :: "pydict \<Rightarrow> Cluster" where
  "new_target d =
     \<lparr>c_id = source_id d, c_project = or_unknown (cluster_text MAX_CLUSTER_TEXT (dget d ''project'')),
      c_agent = or_unknown (cluster_text MAX_CLUSTER_TEXT (dget d ''agent'')),
      c_model = or_unknown (cluster_text MAX_CLUSTER_TEXT (dget d ''model'')),
      c_provider = or_unknown (cluster_text MAX_CLUSTER_TEXT (dget d ''model_provider'')),
      c_bucket = dict_default d ''time_bucket'' (PInt 0), c_count = 0, c_sessions = [], c_hosts = []\<rparr>"

definition merge_source :: "pydict \<Rightarrow> Cluster \<Rightarrow> cluster_exc + Cluster" where
  "merge_source d c =
     (case source_sessions d of
        None \<Rightarrow> Inl ClusterTypeError
      | Some ids \<Rightarrow>
          (case source_hosts d of
             None \<Rightarrow> Inl ClusterTypeError
           | Some hs \<Rightarrow>
               Inr (c\<lparr>c_count := c_count c + source_count d, c_sessions := foldl merge_text (c_sessions c) ids,
                      c_hosts := foldl merge_text (c_hosts c) hs\<rparr>)))"

fun merge_loop :: "(pystr \<times> Cluster) list \<Rightarrow> pyval list \<Rightarrow> cluster_exc + (pystr \<times> Cluster) list" where
  "merge_loop merged [] = Inr merged"
| "merge_loop merged (source # sources) =
     (case mapping_items source of
        None \<Rightarrow> merge_loop merged sources
      | Some d \<Rightarrow>
          if source_id d = [] then merge_loop merged sources
          else
            (case merge_source d (case map_of merged (source_id d) of Some c \<Rightarrow> c | None \<Rightarrow> new_target d) of
               Inl e \<Rightarrow> Inl e
             | Inr c \<Rightarrow> merge_loop (AList.update (source_id d) c merged) sources))"

definition merge_cluster_results :: "cluster_env \<Rightarrow> pyval list \<Rightarrow> cluster_exc + Cluster list" where
  "merge_cluster_results env sources =
     (case merge_loop [] sources of
        Inl e \<Rightarrow> Inl e
      | Inr merged \<Rightarrow> finish_clusters env (map snd merged))"

subsection \<open>Groups in insertion order\<close>

text \<open>The distinct elements in the order of their first occurrence, and the items of one key.\<close>

definition firsts :: "'a list \<Rightarrow> 'a list" where
  "firsts xs = rev (remdups (rev xs))"

definition gather :: "'k \<Rightarrow> ('k \<times> 'd) list \<Rightarrow> 'd list" where
  "gather k kds = map snd (filter (\<lambda>kd. fst kd = k) kds)"

definition grouped :: "('k \<Rightarrow> 'd list \<Rightarrow> 'c) \<Rightarrow> ('k \<times> 'd) list \<Rightarrow> ('k \<times> 'c) list" where
  "grouped f kds = map (\<lambda>k. (k, f k (gather k kds))) (firsts (map fst kds))"

lemma firsts_simps [simp]:
  "firsts [] = []" "firsts (xs @ [x]) = (if x \<in> set xs then firsts xs else firsts xs @ [x])"
  "set (firsts xs) = set xs" "distinct (firsts xs)"
  by (simp_all add: firsts_def)

lemma gather_simps [simp]:
  "gather k [] = []" "gather k (kds @ [(j, d)]) = (if j = k then gather k kds @ [d] else gather k kds)"
  by (simp_all add: gather_def)

lemma update_map:
  "distinct ks \<Longrightarrow> AList.update k v (map (\<lambda>j. (j, f j)) ks) =
    (if k \<in> set ks then map (\<lambda>j. (j, if j = k then v else f j)) ks else map (\<lambda>j. (j, f j)) ks @ [(k, v)])"
  by (induction ks) auto

lemma grouped_Nil [simp]: "grouped f [] = []"
  by (simp add: grouped_def)

lemma grouped_snoc:
  "grouped f (kds @ [(k, d)]) = AList.update k (f k (gather k kds @ [d])) (grouped f kds)"
proof -
  have "gather k kds = []" if "k \<notin> fst ` set kds"
    using that by (force simp: gather_def filter_empty_conv)
  then show ?thesis
    by (auto simp: grouped_def update_map)
qed

lemma map_of_grouped:
  "map_of (grouped f kds) k = (if k \<in> fst ` set kds then Some (f k (gather k kds)) else None)"
  by (simp add: grouped_def map_of_map_restrict)

lemma grouped_length: "sum_list (map (\<lambda>k. length (gather k kds)) (firsts (map fst kds))) = length kds"
proof (induction kds rule: rev_induct)
  case (snoc kd kds)
  obtain k d where kd: "kd = (k, d)" by fastforce
  have g: "gather k kds = []" if "k \<notin> fst ` set kds"
    using that by (force simp: gather_def filter_empty_conv)
  have e: "map (\<lambda>j. length (gather j (kds @ [kd]))) (firsts (map fst kds))
    = map (\<lambda>j. length (gather j kds) + (if k = j then 1 else 0)) (firsts (map fst kds))"
    by (simp add: kd)
  have "sum_list (map (\<lambda>j. if k = j then 1 else 0) (firsts (map fst kds))) = (if k \<in> fst ` set kds then 1 else (0::nat))"
    by (simp add: sum_list_distinct_conv_sum_set)
  then have "sum_list (map (\<lambda>j. length (gather j (kds @ [kd]))) (firsts (map fst kds)))
    = length kds + (if k \<in> fst ` set kds then 1 else 0)"
    unfolding e sum_list_addf using snoc.IH by simp
  then show ?case
    using g by (auto simp: kd)
qed simp

lemma sum_list_int: "sum_list (map (\<lambda>k. int (f k)) ks) = int (sum_list (map f ks))"
  by (induction ks) simp_all

subsection \<open>What a clustering holds\<close>

definition keyed_rows :: "time \<Rightarrow> pyval list \<Rightarrow> (cluster_key \<times> pydict) list" where
  "keyed_rows window rows =
     concat (map (\<lambda>row. case mapping_items row of
        None \<Rightarrow> []
      | Some d \<Rightarrow> (case cluster_key window d of Inl _ \<Rightarrow> [] | Inr k \<Rightarrow> [(k, d)])) rows)"

definition id_of :: "cluster_env \<Rightarrow> cluster_key \<Rightarrow> pystr" where
  "id_of env key = (case cluster_id env key of Inl _ \<Rightarrow> [] | Inr i \<Rightarrow> i)"

definition rows_cluster :: "cluster_env \<Rightarrow> time \<Rightarrow> cluster_key \<Rightarrow> pydict list \<Rightarrow> Cluster" where
  "rows_cluster env window key ds = foldl (\<lambda>c d. add_row d c) (new_cluster window (id_of env key) key) ds"

lemma rows_cluster_simps [simp]:
  "rows_cluster env window key [] = new_cluster window (id_of env key) key"
  "rows_cluster env window key (ds @ [d]) = add_row d (rows_cluster env window key ds)"
  by (simp_all add: rows_cluster_def)

lemma cluster_loop_grouped:
  "cluster_loop env window (grouped (rows_cluster env window) kds) rows = Inr groups \<Longrightarrow>
    groups = grouped (rows_cluster env window) (kds @ keyed_rows window rows)
    \<and> length (keyed_rows window rows) = length (filter is_mapping rows)"
proof (induction rows arbitrary: kds)
  case Nil
  then show ?case by (simp add: keyed_rows_def)
next
  case (Cons row rows)
  let ?g = "grouped (rows_cluster env window)"
  show ?case
  proof (cases "mapping_items row")
    case None
    then have "\<not> is_mapping row" by (cases row) auto
    with None Cons show ?thesis by (simp add: keyed_rows_def)
  next
    case (Some d)
    then have m: "is_mapping row" by (cases row) auto
    obtain k where k: "cluster_key window d = Inr k"
      using Cons.prems Some by (cases "cluster_key window d") auto
    have "cluster_loop env window (?g (kds @ [(k, d)])) rows = Inr groups"
    proof (cases "k \<in> fst ` set kds")
      case True
      then show ?thesis
        using Cons.prems Some k by (simp add: map_of_grouped grouped_snoc)
    next
      case False
      then have "gather k kds = []" by (force simp: gather_def filter_empty_conv)
      with False show ?thesis
        using Cons.prems Some k rows_cluster_simps(2) [of env window k "[]" d]
        by (cases "cluster_id env k") (simp_all add: map_of_grouped grouped_snoc id_of_def)
    qed
    from Cons.IH [OF this] show ?thesis
      using Some k m by (simp add: keyed_rows_def)
  qed
qed

lemma keep_session_take:
  "keep_session i (take MAX_CLUSTER_SESSIONS (filter (\<lambda>t. t \<noteq> []) ts)) =
    take MAX_CLUSTER_SESSIONS (filter (\<lambda>t. t \<noteq> []) (ts @ [i]))"
  by (auto simp: keep_session_def)

lemma keep_host_firsts:
  "keep_host h (firsts (filter (\<lambda>t. t \<noteq> []) ts)) = firsts (filter (\<lambda>t. t \<noteq> []) (ts @ [h]))"
  by (auto simp: keep_host_def)

lemma add_rows:
  "rows_cluster env window key ds =
    (new_cluster window (id_of env key) key)\<lparr>c_count := int (length ds),
      c_sessions := take MAX_CLUSTER_SESSIONS (filter (\<lambda>t. t \<noteq> []) (map session_of_row ds)),
      c_hosts := firsts (filter (\<lambda>t. t \<noteq> []) (map host_of_row ds))\<rparr>"
proof (induction ds rule: rev_induct)
  case Nil
  then show ?case by (simp add: new_cluster_def split: prod.split)
next
  case (snoc d ds)
  then show ?case
    by (simp add: add_row_def keep_session_take keep_host_firsts del: filter_append)
qed

definition cluster_spec :: "cluster_env \<Rightarrow> time \<Rightarrow> cluster_key \<Rightarrow> pydict list \<Rightarrow> Cluster" where
  "cluster_spec env window key ds =
     (new_cluster window (id_of env key) key)\<lparr>c_count := int (length ds),
      c_sessions := sort (take MAX_CLUSTER_SESSIONS (filter (\<lambda>t. t \<noteq> []) (map session_of_row ds))),
      c_hosts := sort_key (ce_fold env) (firsts (filter (\<lambda>t. t \<noteq> []) (map host_of_row ds)))\<rparr>"

lemma tidy_rows_cluster: "tidy_cluster env (rows_cluster env window key ds) = cluster_spec env window key ds"
  by (simp add: add_rows tidy_cluster_def cluster_spec_def)

lemma tidy_rank: "cluster_rank env (tidy_cluster env c) = cluster_rank env c"
  by (simp add: cluster_rank_def tidy_cluster_def)

lemma rows_bucket: "bucket_number (c_bucket (rows_cluster env window key ds)) \<noteq> None"
  by (simp add: add_rows new_cluster_def split: prod.split)

text \<open>
  C20: A clustering is the grouping it stands for: there is exactly one cluster for every key (workspace, agent,
  model, provider and time bucket) of the rows that are mappings, it counts the rows of that key, lists the
  first 4096 of their session identifiers and their distinct hosts in order, every row is counted in one
  cluster, and the clusters come in the documented order.
\<close>

theorem clusters_exact:
  assumes "cluster_sessions env rows window_seconds = Inr cs"
  shows "\<exists>window kds. cluster_window env window_seconds = Inr window \<and> kds = keyed_rows window rows
    \<and> mset cs = mset (map (\<lambda>k. cluster_spec env window k (gather k kds)) (firsts (map fst kds)))
    \<and> sum_list (map c_count cs) = int (length (filter is_mapping rows))
    \<and> sorted (map (cluster_rank env) cs)"
proof -
  obtain window groups where w: "cluster_window env window_seconds = Inr window"
    and g: "cluster_loop env window [] rows = Inr groups" and f: "finish_clusters env (map snd groups) = Inr cs"
    using assms by (auto simp: cluster_sessions_def split: sum.splits)
  let ?kds = "keyed_rows window rows"
  have gr: "groups = grouped (rows_cluster env window) ?kds" "length ?kds = length (filter is_mapping rows)"
    using cluster_loop_grouped [of env window "[]" rows groups] g by simp_all
  have "list_all (\<lambda>c. bucket_number (c_bucket c) \<noteq> None) (map snd groups)"
    using rows_bucket by (auto simp: gr(1) grouped_def list_all_iff)
  then have cs: "cs = map (tidy_cluster env) (sort_key (cluster_rank env) (map snd groups))"
    using f by (simp add: finish_clusters_def sort_clusters_def)
  have m: "mset cs = mset (map (\<lambda>k. cluster_spec env window k (gather k ?kds)) (firsts (map fst ?kds)))"
    by (simp add: cs gr(1) grouped_def comp_def tidy_rows_cluster image_mset.compositionality)
  have "sum_list (map c_count cs) = sum_mset (image_mset c_count (mset cs))"
    by (metis mset_map sum_mset_sum_list)
  also have "\<dots> = sum_list (map (\<lambda>k. int (length (gather k ?kds))) (firsts (map fst ?kds)))"
    by (simp add: m cluster_spec_def comp_def sum_mset_sum_list flip: mset_map)
  also have "\<dots> = int (length (filter is_mapping rows))"
    using grouped_length [of ?kds] gr(2) by (simp add: sum_list_int)
  finally show ?thesis
    using w m by (auto simp: cs comp_def tidy_rank)
qed

definition ex_cluster_env :: cluster_env where
  "ex_cluster_env = \<lparr>ce_hash = map unat, ce_fold = (\<lambda>s. s), ce_float = (\<lambda>_. None), ce_odd_sort = (\<lambda>cs. Inr cs)\<rparr>"

definition ex_cluster_rows :: "pyval list" where
  "ex_cluster_rows = [PDict [(pstr ''agent'', pstr ''codex''), (pstr ''session_id'', pstr ''s1'')],
     PNone, PDict [(pstr ''agent'', pstr ''codex''), (pstr ''session_id'', pstr ''s2'')]]"

lemma ex_finish: "\<exists>cs. finish_clusters ex_cluster_env xs = Inr cs"
  by (cases "list_all (\<lambda>c. bucket_number (c_bucket c) \<noteq> None) xs")
    (simp_all add: finish_clusters_def sort_clusters_def ex_cluster_env_def)

theorem clusters_exact_witness:
  "\<exists>cs. cluster_sessions ex_cluster_env ex_cluster_rows (PInt 60) = Inr cs \<and> sum_list (map c_count cs) = 2"
proof -
  have k: "cluster_key 60 d = Inr (py ''unknown'', py ''codex'', py ''unknown'', py ''unknown'', 0)"
    if "d = [(pstr ''agent'', pstr ''codex''), (pstr ''session_id'', v)]" for d v
    unfolding that
    by (simp add: cluster_key_def cluster_timestamp_def dict_get_def or_unknown_def extra_value_def cluster_text_def
        py_def strip_def strip_by_def is_space_def MAX_CLUSTER_TEXT_def)
  obtain i where i: "cluster_id ex_cluster_env (py ''unknown'', py ''codex'', py ''unknown'', py ''unknown'', 0) = Inr i"
    by (simp add: cluster_id_def key_value_def dump_array_def dump_string_def escape_char_def py_def int_str_def
        digits10.simps encode_strict_ascii)
  have "\<exists>groups. cluster_loop ex_cluster_env 60 [] ex_cluster_rows = Inr groups"
    by (simp add: ex_cluster_rows_def k i)
  moreover have "cluster_window ex_cluster_env (PInt 60) = Inr 60"
    by (simp add: cluster_window_def float_of_int_def float_of_def overflow_threshold_def MAX_CLUSTER_WINDOW_SECONDS_def)
  ultimately obtain cs where cs: "cluster_sessions ex_cluster_env ex_cluster_rows (PInt 60) = Inr cs"
    using ex_finish by (fastforce simp: cluster_sessions_def)
  from clusters_exact [OF cs] have "sum_list (map c_count cs) = int (length (filter is_mapping ex_cluster_rows))"
    by blast
  with cs show ?thesis by (simp add: ex_cluster_rows_def)
qed

subsection \<open>What a merge holds\<close>

definition sources_of :: "pyval list \<Rightarrow> (pystr \<times> pydict) list" where
  "sources_of sources =
     concat (map (\<lambda>v. case mapping_items v of
        None \<Rightarrow> []
      | Some d \<Rightarrow> if source_id d = [] then [] else [(source_id d, d)]) sources)"

definition merge_one :: "Cluster \<Rightarrow> pydict \<Rightarrow> Cluster" where
  "merge_one c d = (case merge_source d c of Inl _ \<Rightarrow> c | Inr c' \<Rightarrow> c')"

definition merged_cluster :: "pystr \<Rightarrow> pydict list \<Rightarrow> Cluster" where
  "merged_cluster i ds = foldl merge_one (new_target (hd ds)) ds"

lemma merged_cluster_snoc:
  "merged_cluster i (ds @ [d]) = merge_one (if ds = [] then new_target d else merged_cluster i ds) d"
  by (simp add: merged_cluster_def)

lemma merge_loop_grouped:
  "merge_loop (grouped merged_cluster kds) sources = Inr merged \<Longrightarrow>
    merged = grouped merged_cluster (kds @ sources_of sources)
    \<and> (\<forall>kd \<in> set (sources_of sources). \<forall>c. \<exists>c'. merge_source (snd kd) c = Inr c')"
proof (induction sources arbitrary: kds)
  case Nil
  then show ?case by (simp add: sources_of_def)
next
  case (Cons v sources)
  show ?case
  proof (cases "\<exists>d. mapping_items v = Some d \<and> source_id d \<noteq> []")
    case False
    then have "sources_of (v # sources) = sources_of sources" "merge_loop (grouped merged_cluster kds) sources = Inr merged"
      using Cons.prems by (auto simp: sources_of_def split: option.splits)
    with Cons.IH show ?thesis by simp
  next
    case True
    then obtain d where d: "mapping_items v = Some d" "source_id d \<noteq> []" by blast
    let ?i = "source_id d"
    have g: "gather ?i kds = [] \<longleftrightarrow> ?i \<notin> fst ` set kds"
      by (force simp: gather_def filter_empty_conv)
    have c: "(case map_of (grouped merged_cluster kds) ?i of Some c \<Rightarrow> c | None \<Rightarrow> new_target d)
      = (if gather ?i kds = [] then new_target d else merged_cluster ?i (gather ?i kds))" (is "_ = ?c")
      using g by (simp add: map_of_grouped)
    obtain c' where c': "merge_source d ?c = Inr c'"
      using Cons.prems d c by (cases "merge_source d ?c") auto
    have "merge_loop (grouped merged_cluster (kds @ [(?i, d)])) sources = Inr merged"
      using Cons.prems d c c' by (simp add: grouped_snoc merged_cluster_snoc merge_one_def)
    moreover have "\<exists>c'. merge_source d x = Inr c'" for x
      using c' by (auto simp: merge_source_def split: option.splits)
    moreover have "sources_of (v # sources) = (?i, d) # sources_of sources"
      using d by (simp add: sources_of_def)
    ultimately show ?thesis
      using Cons.IH [of "kds @ [(?i, d)]"] by simp
  qed
qed

definition tidy_lists :: "Cluster \<Rightarrow> bool" where
  "tidy_lists c \<longleftrightarrow> distinct (c_sessions c) \<and> length (c_sessions c) \<le> MAX_CLUSTER_SESSIONS
     \<and> distinct (c_hosts c) \<and> length (c_hosts c) \<le> MAX_CLUSTER_SESSIONS"

lemma merge_text_tidy:
  "distinct ts \<and> length ts \<le> MAX_CLUSTER_SESSIONS \<Longrightarrow>
    distinct (foldl merge_text ts vs) \<and> length (foldl merge_text ts vs) \<le> MAX_CLUSTER_SESSIONS"
proof (induction vs arbitrary: ts)
  case (Cons v vs)
  have "distinct (merge_text ts v) \<and> length (merge_text ts v) \<le> MAX_CLUSTER_SESSIONS"
    using Cons.prems by (auto simp: merge_text_def split: option.split)
  with Cons.IH show ?case by simp
qed simp

lemma merge_source_fields:
  assumes "merge_source d c = Inr c'"
  shows "c_count c' = c_count c + source_count d" and "c_id c' = c_id c" and "tidy_lists c \<Longrightarrow> tidy_lists c'"
  using assms merge_text_tidy by (auto simp: merge_source_def tidy_lists_def split: option.splits)

lemma merged_cluster_fields:
  assumes "\<forall>d \<in> set ds. \<forall>c. \<exists>c'. merge_source d c = Inr c'" and "\<forall>d \<in> set ds. source_id d = i" and "ds \<noteq> []"
  shows "c_count (merged_cluster i ds) = sum_list (map source_count ds) \<and> c_id (merged_cluster i ds) = i
    \<and> tidy_lists (merged_cluster i ds)"
  using assms
proof (induction ds rule: rev_induct)
  case (snoc d ds)
  let ?c = "if ds = [] then new_target d else merged_cluster i ds"
  have "c_count ?c = sum_list (map source_count ds) \<and> c_id ?c = i \<and> tidy_lists ?c"
    using snoc by (auto simp: new_target_def tidy_lists_def)
  moreover obtain c' where "merge_source d ?c = Inr c'"
    using snoc.prems(1) by fastforce
  ultimately show ?case
    using merge_source_fields [of d ?c c'] by (simp add: merged_cluster_snoc merge_one_def)
qed simp

lemma finish_clusters_mset:
  assumes "finish_clusters env cs = Inr out" and "\<And>xs ys. ce_odd_sort env xs = Inr ys \<Longrightarrow> mset ys = mset xs"
  shows "mset out = mset (map (tidy_cluster env) cs)"
proof -
  obtain ys where y: "sort_clusters env cs = Inr ys" "out = map (tidy_cluster env) ys"
    using assms(1) by (auto simp: finish_clusters_def split: sum.splits)
  have "mset ys = mset cs"
    using y(1) assms(2) by (auto simp: sort_clusters_def split: if_splits)
  with y(2) show ?thesis by simp
qed

text \<open>
  Merging the clusters of several hosts loses no count: the result has exactly one cluster for every
  identifier of the sources, its count is the sum of the counts that the sources with that identifier carry, and
  its session identifiers and hosts are distinct and at most 4096.
\<close>

theorem merge_adds_counts:
  assumes "merge_cluster_results env sources = Inr cs"
    and "\<And>xs ys. ce_odd_sort env xs = Inr ys \<Longrightarrow> mset ys = mset xs"
  shows "mset (map (\<lambda>c. (c_id c, c_count c)) cs) =
      mset (map (\<lambda>i. (i, sum_list (map source_count (gather i (sources_of sources))))) (firsts (map fst (sources_of sources))))
    \<and> list_all tidy_lists cs"
proof -
  let ?kds = "sources_of sources"
  obtain merged where m: "merge_loop [] sources = Inr merged" and f: "finish_clusters env (map snd merged) = Inr cs"
    using assms(1) by (auto simp: merge_cluster_results_def split: sum.splits)
  have g: "merged = grouped merged_cluster ?kds" "\<forall>kd \<in> set ?kds. \<forall>c. \<exists>c'. merge_source (snd kd) c = Inr c'"
    using merge_loop_grouped [of "[]" sources merged] m by simp_all
  have keys: "\<forall>kd \<in> set ?kds. fst kd = source_id (snd kd)"
    by (auto simp: sources_of_def split: option.splits if_splits)
  have fields: "c_count (merged_cluster i (gather i ?kds)) = sum_list (map source_count (gather i ?kds))
      \<and> c_id (merged_cluster i (gather i ?kds)) = i \<and> tidy_lists (merged_cluster i (gather i ?kds))"
    if "i \<in> set (firsts (map fst ?kds))" for i
    using that keys g(2) by (intro merged_cluster_fields) (auto simp: gather_def filter_empty_conv)
  have tidy: "c_id (tidy_cluster env c) = c_id c" "c_count (tidy_cluster env c) = c_count c"
    "tidy_lists (tidy_cluster env c) = tidy_lists c" for c
    by (simp_all add: tidy_cluster_def tidy_lists_def)
  have cs: "mset cs = mset (map (\<lambda>i. tidy_cluster env (merged_cluster i (gather i ?kds))) (firsts (map fst ?kds)))"
    using finish_clusters_mset [OF f assms(2)] by (simp add: g(1) grouped_def comp_def)
  have "mset (map (\<lambda>c. (c_id c, c_count c)) cs)
    = mset (map (\<lambda>i. (c_id (merged_cluster i (gather i ?kds)), c_count (merged_cluster i (gather i ?kds)))) (firsts (map fst ?kds)))"
    by (simp add: cs image_mset.compositionality comp_def tidy)
  also have "\<dots> = mset (map (\<lambda>i. (i, sum_list (map source_count (gather i ?kds)))) (firsts (map fst ?kds)))"
    using fields by (intro arg_cong [where f = mset] map_cong) auto
  moreover have "set cs = (\<lambda>i. tidy_cluster env (merged_cluster i (gather i ?kds))) ` set (firsts (map fst ?kds))"
    using arg_cong [OF cs, of set_mset] by (simp del: firsts_simps)
  ultimately show ?thesis
    using fields by (auto simp: list_all_iff tidy)
qed

definition ex_sources :: "pyval list" where
  "ex_sources = [PDict [(pstr ''cluster_id'', pstr ''c1''), (pstr ''count'', PInt 2)],
     PDict [(pstr ''cluster_id'', pstr ''c1''), (pstr ''count'', PInt 3)]]"

theorem merge_adds_counts_witness:
  "\<exists>cs. merge_cluster_results ex_cluster_env ex_sources = Inr cs
    \<and> mset (map (\<lambda>c. (c_id c, c_count c)) cs) = {#(py ''c1'', 5)#}"
proof -
  have id: "source_id [(pstr ''cluster_id'', pstr ''c1''), (pstr ''count'', v)] = py ''c1''" for v
    by (simp add: source_id_def dict_get_def cluster_text_def py_def strip_def strip_by_def is_space_def)
  have ok: "\<exists>c'. merge_source [(pstr ''cluster_id'', pstr ''c1''), (pstr ''count'', v)] c = Inr c'" for v c
    by (simp add: merge_source_def source_sessions_def source_hosts_def dict_default_def dict_get_def py_def)
  have "py ''c1'' \<noteq> []" by (simp add: py_def)
  moreover obtain c1 where "merge_source [(pstr ''cluster_id'', pstr ''c1''), (pstr ''count'', PInt 2)]
      (new_target [(pstr ''cluster_id'', pstr ''c1''), (pstr ''count'', PInt 2)]) = Inr c1"
    using ok by blast
  moreover obtain c2 where "merge_source [(pstr ''cluster_id'', pstr ''c1''), (pstr ''count'', PInt 3)] c1 = Inr c2"
    using ok by blast
  ultimately obtain merged where "merge_loop [] ex_sources = Inr merged"
    by (simp add: ex_sources_def id)
  then obtain cs where cs: "merge_cluster_results ex_cluster_env ex_sources = Inr cs"
    using ex_finish by (fastforce simp: merge_cluster_results_def)
  have odd: "\<And>xs ys. ce_odd_sort ex_cluster_env xs = Inr ys \<Longrightarrow> mset ys = mset xs"
    by (simp add: ex_cluster_env_def)
  have src: "sources_of ex_sources = [(py ''c1'', [(pstr ''cluster_id'', pstr ''c1''), (pstr ''count'', PInt 2)]),
      (py ''c1'', [(pstr ''cluster_id'', pstr ''c1''), (pstr ''count'', PInt 3)])]"
    by (simp add: sources_of_def ex_sources_def id) (simp add: py_def)
  have "source_count [(pstr ''cluster_id'', pstr ''c1''), (pstr ''count'', PInt n)] = n" if "0 \<le> n" for n
    using that by (simp add: source_count_def dict_get_def py_def)
  with merge_adds_counts [OF cs odd] cs show ?thesis
    by (simp add: src gather_def firsts_def)
qed

end
