(* ===== verification/Fleet_Buffer.thy ===== *)
theory Fleet_Buffer
  imports Prelude
begin

text \<open>
  The bounded buffer between the host threads and the reader of a remote watch
  (\<open>_FleetBuffer\<close> in \<open>sidecar/remote_watch.py\<close>).

  \<^item> Every block under the condition variable is one atomic function: \<open>put_enter\<close> is the entry of \<open>put\<close>,
    \<open>put_round\<close> one turn of its loop including the \<open>finally\<close> block when the turn returns, \<open>fleet_get\<close> the
    part of \<open>get\<close> after the wait. A thread that waits is a pending put.
  \<^item> \<open>fleet_step\<close> interleaves the threads: a put enters, a pending put takes a turn, the reader takes an
    item, the session is cancelled. It logs what was admitted and what was taken.
  \<^item> The dictionaries over the hosts are functions; a host outside \<open>_order\<close> is the \<open>KeyError\<close> of \<open>put_enter\<close>.
\<close>

record 'i fleet =
  fb_order :: "pystr list"
  fb_queues :: "pystr \<Rightarrow> 'i list"
  fb_capacity :: int
  fb_size :: int
  fb_cursor :: nat
  fb_admit_cursor :: nat
  fb_waiters :: "pystr \<Rightarrow> int"
  fb_priority_waiters :: "pystr \<Rightarrow> int"

definition new_fleet :: "pystr list \<Rightarrow> int \<Rightarrow> 'i fleet" where
  "new_fleet hosts capacity =
     \<lparr>fb_order = hosts, fb_queues = (\<lambda>_. []), fb_capacity = capacity, fb_size = 0, fb_cursor = 0,
      fb_admit_cursor = 0, fb_waiters = (\<lambda>_. 0), fb_priority_waiters = (\<lambda>_. 0)\<rparr>"

text \<open>The indices \<open>(start + offset) % n\<close> in the order of the two loops.\<close>

definition ring :: "nat \<Rightarrow> nat \<Rightarrow> nat list" where
  "ring n start = map (\<lambda>offset. (start + offset) mod n) [0..<n]"

definition next_waiting_host :: "bool \<Rightarrow> ('i, 'm) fleet_scheme \<Rightarrow> pystr option" where
  "next_waiting_host priority fb =
     (let waiters = (if priority then fb_priority_waiters fb else fb_waiters fb) in
      List.find (\<lambda>host. 0 < waiters host)
        (map (\<lambda>i. fb_order fb ! i) (ring (length (fb_order fb)) (fb_admit_cursor fb))))"

definition put_enter :: "pystr \<Rightarrow> bool \<Rightarrow> 'i fleet \<Rightarrow> 'i fleet option" where
  "put_enter host priority fb =
     (if host \<notin> set (fb_order fb) then None
      else Some (fb\<lparr>fb_waiters := (fb_waiters fb)(host := fb_waiters fb host + 1),
                    fb_priority_waiters :=
                      (if priority then (fb_priority_waiters fb)(host := fb_priority_waiters fb host + 1)
                       else fb_priority_waiters fb)\<rparr>))"

definition put_exit :: "pystr \<Rightarrow> bool \<Rightarrow> 'i fleet \<Rightarrow> 'i fleet" where
  "put_exit host priority fb =
     fb\<lparr>fb_waiters := (fb_waiters fb)(host := fb_waiters fb host - 1),
        fb_priority_waiters :=
          (if priority then (fb_priority_waiters fb)(host := fb_priority_waiters fb host - 1)
           else fb_priority_waiters fb)\<rparr>"

definition eligible :: "pystr \<Rightarrow> 'i fleet \<Rightarrow> bool" where
  "eligible host fb \<longleftrightarrow>
     (case next_waiting_host True fb of
        Some priority_host \<Rightarrow> host = priority_host
      | None \<Rightarrow> next_waiting_host False fb = Some host)"

definition host_index :: "pystr \<Rightarrow> pystr list \<Rightarrow> nat" where
  "host_index host order = length (takeWhile (\<lambda>h. h \<noteq> host) order)"

definition admit_item :: "pystr \<Rightarrow> 'i \<Rightarrow> 'i fleet \<Rightarrow> 'i fleet" where
  "admit_item host item fb =
     fb\<lparr>fb_queues := (fb_queues fb)(host := fb_queues fb host @ [item]), fb_size := fb_size fb + 1,
        fb_admit_cursor := (host_index host (fb_order fb) + 1) mod length (fb_order fb)\<rparr>"

datatype 'i put_turn = Returned bool "'i fleet" | Waiting

definition put_round :: "bool \<Rightarrow> pystr \<Rightarrow> 'i \<Rightarrow> bool \<Rightarrow> 'i fleet \<Rightarrow> 'i put_turn" where
  "put_round cancelled host item priority fb =
     (if cancelled then Returned False (put_exit host priority fb)
      else if fb_size fb < fb_capacity fb \<and> int (length (fb_queues fb host)) < fb_capacity fb \<and> eligible host fb
      then Returned True (put_exit host priority (admit_item host item fb))
      else Waiting)"

definition next_ready :: "'i fleet \<Rightarrow> nat option" where
  "next_ready fb =
     List.find (\<lambda>i. fb_queues fb (fb_order fb ! i) \<noteq> []) (ring (length (fb_order fb)) (fb_cursor fb))"

definition fleet_get :: "'i fleet \<Rightarrow> ('i \<times> 'i fleet) option" where
  "fleet_get fb =
     (if fb_size fb = 0 then None
      else
        (case next_ready fb of
           None \<Rightarrow> None
         | Some i \<Rightarrow>
             (let host = fb_order fb ! i; host_queue = fb_queues fb host in
              Some (hd host_queue,
                    fb\<lparr>fb_queues := (fb_queues fb)(host := tl host_queue), fb_size := fb_size fb - 1,
                       fb_cursor := (i + 1) mod length (fb_order fb)\<rparr>))))"

definition fleet_empty :: "'i fleet \<Rightarrow> bool" where
  "fleet_empty fb \<longleftrightarrow> fb_size fb = 0"

subsection \<open>Interleavings\<close>

record 'i fleet_sys =
  fs_buf :: "'i fleet"
  fs_pending :: "(pystr \<times> 'i \<times> bool) list"
  fs_cancelled :: bool
  fs_admitted :: "(pystr \<times> 'i) list"
  fs_taken :: "(pystr \<times> 'i) list"

definition fleet_init :: "pystr list \<Rightarrow> int \<Rightarrow> 'i fleet_sys \<Rightarrow> bool" where
  "fleet_init hosts capacity s \<longleftrightarrow> distinct hosts \<and> 0 \<le> capacity \<and>
     s = \<lparr>fs_buf = new_fleet hosts capacity, fs_pending = [], fs_cancelled = False, fs_admitted = [], fs_taken = []\<rparr>"

inductive fleet_step :: "'i fleet_sys \<Rightarrow> 'i fleet_sys \<Rightarrow> bool" where
  Enter: "put_enter h p (fs_buf s) = Some b \<Longrightarrow>
     fleet_step s (s\<lparr>fs_buf := b, fs_pending := fs_pending s @ [(h, x, p)]\<rparr>)"
| Turn: "(h, x, p) \<in> set (fs_pending s) \<Longrightarrow> put_round (fs_cancelled s) h x p (fs_buf s) = Returned ok b \<Longrightarrow>
     fleet_step s (s\<lparr>fs_buf := b, fs_pending := remove1 (h, x, p) (fs_pending s),
       fs_admitted := (if ok then fs_admitted s @ [(h, x)] else fs_admitted s)\<rparr>)"
| Take: "next_ready (fs_buf s) = Some i \<Longrightarrow> fleet_get (fs_buf s) = Some (x, b) \<Longrightarrow>
     fleet_step s (s\<lparr>fs_buf := b, fs_taken := fs_taken s @ [(fb_order (fs_buf s) ! i, x)]\<rparr>)"
| Cancel: "fleet_step s (s\<lparr>fs_cancelled := True\<rparr>)"

subsection \<open>Invariant\<close>

definition of_host :: "pystr \<Rightarrow> (pystr \<times> 'a) list \<Rightarrow> 'a list" where
  "of_host h hist = map snd (filter (\<lambda>e. fst e = h) hist)"

definition waiting :: "pystr \<Rightarrow> (pystr \<times> 'i \<times> bool) list \<Rightarrow> int" where
  "waiting h ps = int (length (filter (\<lambda>q. fst q = h) ps))"

definition priority_waiting :: "pystr \<Rightarrow> (pystr \<times> 'i \<times> bool) list \<Rightarrow> int" where
  "priority_waiting h ps = int (length (filter (\<lambda>q. fst q = h \<and> snd (snd q)) ps))"

definition sizes_ok :: "'i fleet \<Rightarrow> bool" where
  "sizes_ok b \<longleftrightarrow> distinct (fb_order b) \<and> fb_size b = (\<Sum>h \<in> set (fb_order b). int (length (fb_queues b h)))
     \<and> fb_size b \<le> fb_capacity b
     \<and> (fb_order b = [] \<or> fb_cursor b < length (fb_order b) \<and> fb_admit_cursor b < length (fb_order b))"

definition waiters_ok :: "'i fleet_sys \<Rightarrow> bool" where
  "waiters_ok s \<longleftrightarrow> fb_waiters (fs_buf s) = (\<lambda>h. waiting h (fs_pending s))
     \<and> fb_priority_waiters (fs_buf s) = (\<lambda>h. priority_waiting h (fs_pending s))
     \<and> (\<forall>q \<in> set (fs_pending s). fst q \<in> set (fb_order (fs_buf s)))"

definition fifo_ok :: "'i fleet_sys \<Rightarrow> bool" where
  "fifo_ok s \<longleftrightarrow> (\<forall>h. of_host h (fs_admitted s) = of_host h (fs_taken s) @ fb_queues (fs_buf s) h)"

definition fleet_inv :: "'i fleet_sys \<Rightarrow> bool" where
  "fleet_inv s \<longleftrightarrow> sizes_ok (fs_buf s) \<and> waiters_ok s \<and> fifo_ok s"

lemmas fleet_inv_defs = fleet_inv_def sizes_ok_def waiters_ok_def fifo_ok_def

lemma of_host_simps [simp]:
  "of_host h [] = []" "of_host h (hist @ [(k, x)]) = (if k = h then of_host h hist @ [x] else of_host h hist)"
  by (simp_all add: of_host_def)

lemma waiting_simps [simp]:
  "waiting h [] = 0" "waiting h (ps @ [(k, x, p)]) = waiting h ps + (if k = h then 1 else 0)"
  "priority_waiting h [] = 0"
  "priority_waiting h (ps @ [(k, x, p)]) = priority_waiting h ps + (if k = h \<and> p then 1 else 0)"
  by (simp_all add: waiting_def priority_waiting_def)

lemma length_filter_remove1:
  "q \<in> set ps \<Longrightarrow> int (length (filter P (remove1 q ps))) = int (length (filter P ps)) - (if P q then 1 else 0)"
  by (induction ps) auto

lemma waiting_remove1:
  assumes "(k, x, p) \<in> set ps"
  shows "waiting h (remove1 (k, x, p) ps) = waiting h ps - (if k = h then 1 else 0)"
    and "priority_waiting h (remove1 (k, x, p) ps) = priority_waiting h ps - (if k = h \<and> p then 1 else 0)"
  using length_filter_remove1 [OF assms] by (simp_all add: waiting_def priority_waiting_def)

lemma sum_update:
  assumes "finite A" and "k \<in> A"
  shows "(\<Sum>h \<in> A. int (length ((q(k := v)) h))) = (\<Sum>h \<in> A. int (length (q h))) - int (length (q k)) + int (length v)"
  using assms by (simp add: sum.remove [where x = k])

lemma find_ring:
  assumes "List.find P (map f (ring n start)) = Some y" and "0 < n"
  shows "\<exists>i < n. y = f i \<and> P y"
proof -
  have "y \<in> set (map f (ring n start)) \<and> P y"
    using assms(1) by (auto simp: find_Some_iff)
  then obtain k where "y = f ((start + k) mod n)" "P y" by (auto simp: ring_def)
  moreover have "(start + k) mod n < n" using assms(2) by simp
  ultimately show ?thesis by blast
qed

lemma next_ready_some:
  assumes "next_ready b = Some i"
  shows "i < length (fb_order b) \<and> fb_queues b (fb_order b ! i) \<noteq> []"
proof -
  have n: "0 < length (fb_order b)"
    using assms by (cases "fb_order b = []") (auto simp: next_ready_def ring_def)
  then show ?thesis
    using find_ring [of _ "\<lambda>i. i" "length (fb_order b)" "fb_cursor b" i] assms by (auto simp: next_ready_def)
qed

lemma get_some:
  assumes "next_ready b = Some i" and "fleet_get b = Some (x, b')"
  shows "fb_queues b (fb_order b ! i) = x # fb_queues b' (fb_order b ! i)"
    and "b' = b\<lparr>fb_queues := (fb_queues b)(fb_order b ! i := tl (fb_queues b (fb_order b ! i))), fb_size := fb_size b - 1,
      fb_cursor := (i + 1) mod length (fb_order b)\<rparr>"
  using assms next_ready_some [OF assms(1)] by (auto simp: fleet_get_def Let_def split: if_splits)

lemma enter_inv:
  assumes "fleet_inv s" and "put_enter h p (fs_buf s) = Some b"
  shows "fleet_inv (s\<lparr>fs_buf := b, fs_pending := fs_pending s @ [(h, x, p)]\<rparr>)"
  using assms by (auto simp: fleet_inv_defs put_enter_def fun_eq_iff split: if_splits)

lemma exit_waiters:
  assumes "waiters_ok s" and "(h, x, p) \<in> set (fs_pending s)" and "fb_waiters b = fb_waiters (fs_buf s)"
    and "fb_priority_waiters b = fb_priority_waiters (fs_buf s)" and "fb_order b = fb_order (fs_buf s)"
  shows "waiters_ok (s\<lparr>fs_buf := put_exit h p b, fs_pending := remove1 (h, x, p) (fs_pending s), fs_admitted := hist\<rparr>)"
  using assms set_remove1_subset [of "(h, x, p)" "fs_pending s"]
  by (auto simp: waiters_ok_def put_exit_def fun_eq_iff waiting_remove1)

lemma sizes_exit [simp]: "sizes_ok (put_exit h p b) = sizes_ok b"
  by (simp add: sizes_ok_def put_exit_def)

lemma exit_queues [simp]: "fb_queues (put_exit h p b) = fb_queues b"
  by (simp add: put_exit_def)

lemma sizes_admit:
  assumes "sizes_ok b" and "h \<in> set (fb_order b)" and "fb_size b < fb_capacity b"
  shows "sizes_ok (admit_item h x b)"
proof -
  have "0 < length (fb_order b)" using assms(2) by (cases "fb_order b") auto
  moreover have "(\<Sum>k \<in> set (fb_order b). int (length (((fb_queues b)(h := fb_queues b h @ [x])) k)))
    = (\<Sum>k \<in> set (fb_order b). int (length (fb_queues b k))) + 1"
    using sum_update [of "set (fb_order b)" h "fb_queues b" "fb_queues b h @ [x]"] assms(2) by simp
  ultimately show ?thesis
    using assms(1,3) by (simp add: sizes_ok_def admit_item_def del: fun_upd_apply)
qed

lemma turn_inv:
  assumes "fleet_inv s" and "(h, x, p) \<in> set (fs_pending s)"
    and "put_round (fs_cancelled s) h x p (fs_buf s) = Returned ok b"
  shows "fleet_inv (s\<lparr>fs_buf := b, fs_pending := remove1 (h, x, p) (fs_pending s),
    fs_admitted := (if ok then fs_admitted s @ [(h, x)] else fs_admitted s)\<rparr>)"
proof (cases ok)
  case False
  then have b: "b = put_exit h p (fs_buf s)"
    using assms(3) by (auto simp: put_round_def split: if_splits)
  have "fifo_ok (s\<lparr>fs_buf := b, fs_pending := remove1 (h, x, p) (fs_pending s)\<rparr>)"
    using assms(1) by (simp add: fleet_inv_def fifo_ok_def b)
  moreover have "waiters_ok (s\<lparr>fs_buf := b, fs_pending := remove1 (h, x, p) (fs_pending s), fs_admitted := fs_admitted s\<rparr>)"
    using assms(1,2) unfolding b by (intro exit_waiters) (auto simp: fleet_inv_def)
  ultimately show ?thesis
    using False assms(1) by (simp add: fleet_inv_def b)
next
  case True
  then have b: "b = put_exit h p (admit_item h x (fs_buf s))" and sz: "fb_size (fs_buf s) < fb_capacity (fs_buf s)"
    using assms(3) by (auto simp: put_round_def split: if_splits)
  have h: "h \<in> set (fb_order (fs_buf s))" using assms(1,2) by (force simp: fleet_inv_def waiters_ok_def)
  have "fifo_ok (s\<lparr>fs_buf := b, fs_pending := remove1 (h, x, p) (fs_pending s), fs_admitted := fs_admitted s @ [(h, x)]\<rparr>)"
    using assms(1) by (simp add: fleet_inv_def fifo_ok_def b admit_item_def)
  moreover have "waiters_ok (s\<lparr>fs_buf := b, fs_pending := remove1 (h, x, p) (fs_pending s), fs_admitted := fs_admitted s @ [(h, x)]\<rparr>)"
    using assms(1,2) unfolding b by (intro exit_waiters) (auto simp: fleet_inv_def admit_item_def)
  moreover have "sizes_ok b"
    using assms(1) h sz by (simp add: b fleet_inv_def sizes_admit)
  ultimately show ?thesis
    using True by (simp add: fleet_inv_def)
qed

lemma take_inv:
  assumes "fleet_inv s" and "next_ready (fs_buf s) = Some i" and "fleet_get (fs_buf s) = Some (x, b)"
  shows "fleet_inv (s\<lparr>fs_buf := b, fs_taken := fs_taken s @ [(fb_order (fs_buf s) ! i, x)]\<rparr>)"
proof -
  let ?b = "fs_buf s" let ?h = "fb_order ?b ! i"
  note g = get_some [OF assms(2,3)]
  have i: "i < length (fb_order ?b)" "fb_queues ?b ?h \<noteq> []" using next_ready_some [OF assms(2)] by auto
  have "(\<Sum>k \<in> set (fb_order ?b). int (length (((fb_queues ?b)(?h := tl (fb_queues ?b ?h))) k)))
    = (\<Sum>k \<in> set (fb_order ?b). int (length (fb_queues ?b k))) - 1"
    using sum_update [of "set (fb_order ?b)" ?h "fb_queues ?b" "tl (fb_queues ?b ?h)"] i by (cases "fb_queues ?b ?h") simp_all
  moreover have "Suc i mod length (fb_order ?b) < length (fb_order ?b)"
    using i(1) by (intro mod_less_divisor) linarith
  ultimately have "sizes_ok b"
    using assms(1) i(1) unfolding g(2) by (auto simp: fleet_inv_def sizes_ok_def simp del: fun_upd_apply)
  moreover have "fifo_ok (s\<lparr>fs_buf := b, fs_taken := fs_taken s @ [(?h, x)]\<rparr>)"
    using assms(1) g(1) unfolding g(2) by (auto simp: fleet_inv_def fifo_ok_def)
  moreover have "waiters_ok (s\<lparr>fs_buf := b, fs_taken := fs_taken s @ [(?h, x)]\<rparr>)"
    using assms(1) unfolding g(2) by (simp add: fleet_inv_def waiters_ok_def)
  ultimately show ?thesis by (simp add: fleet_inv_def)
qed

lemma step_fleet_inv:
  assumes "fleet_inv s" and "fleet_step s t"
  shows "fleet_inv t"
  using assms(2)
proof cases
  case (Enter h p b x)
  then show ?thesis using enter_inv assms(1) by simp
next
  case (Turn h x p ok b)
  show ?thesis unfolding Turn(1) using turn_inv [OF assms(1) Turn(2,3)] .
next
  case (Take i x b)
  then show ?thesis using take_inv assms(1) by simp
next
  case Cancel
  then show ?thesis using assms(1) by (simp add: fleet_inv_defs)
qed

lemma init_fleet_inv: "fleet_init hosts capacity s \<Longrightarrow> fleet_inv s"
  by (auto simp: fleet_init_def new_fleet_def fleet_inv_defs)

interpretation fleet: invariant_of "\<lambda>s. \<exists>hosts capacity. fleet_init hosts capacity s" fleet_step fleet_inv
  by unfold_locales (auto intro: init_fleet_inv step_fleet_inv)

lemma step_fixed:
  "fleet_step s t \<Longrightarrow> fb_order (fs_buf t) = fb_order (fs_buf s) \<and> fb_capacity (fs_buf t) = fb_capacity (fs_buf s)"
  by (induction rule: fleet_step.induct)
    (auto simp: put_enter_def put_round_def put_exit_def admit_item_def dest: get_some(2) split: if_splits)

lemma steps_fixed:
  "fleet_step\<^sup>*\<^sup>* s t \<Longrightarrow> fb_order (fs_buf t) = fb_order (fs_buf s) \<and> fb_capacity (fs_buf t) = fb_capacity (fs_buf s)"
  by (induction rule: rtranclp_induct) (auto dest: step_fixed)

text \<open>
  C6: The buffer is bounded and loses nothing: in every state that any interleaving of host threads, the reader
  and a cancellation can reach, the items held are at most the capacity of the fleet, the counter is the number
  of items in the queues, and for every host the items admitted are those taken followed by those queued, in
  that order.
\<close>

theorem fleet_bounded_fifo:
  assumes "fleet_init hosts capacity s\<^sub>0" and "fleet_step\<^sup>*\<^sup>* s\<^sub>0 s"
  shows "fb_size (fs_buf s) = (\<Sum>h \<in> set hosts. int (length (fb_queues (fs_buf s) h))) \<and> fb_size (fs_buf s) \<le> capacity
    \<and> (\<forall>h. of_host h (fs_admitted s) = of_host h (fs_taken s) @ fb_queues (fs_buf s) h)"
proof -
  have "fleet_inv s" using fleet.reachable_inv assms by blast
  moreover have "fb_order (fs_buf s) = hosts" "fb_capacity (fs_buf s) = capacity"
    using steps_fixed [OF assms(2)] assms(1) by (auto simp: fleet_init_def new_fleet_def)
  ultimately show ?thesis by (auto simp: fleet_inv_defs)
qed

subsection \<open>Progress and fairness\<close>

lemma ring_covers:
  assumes "i < (n :: nat)"
  shows "\<exists>d < n. (start + d) mod n = i"
proof -
  let ?m = "start mod n" let ?d = "(i + n - ?m) mod n"
  have m: "?m < n" using assms by simp
  have "(start + ?d) mod n = (?m + (i + n - ?m)) mod n"
    by (metis mod_add_left_eq mod_add_right_eq)
  also have "?m + (i + n - ?m) = i + n" using m by simp
  also have "(i + n) mod n = i" using assms by simp
  finally show ?thesis using assms by (intro exI [of _ ?d]) simp
qed

lemma next_waiting_some:
  assumes "h \<in> set (fb_order b)" and "0 < (if priority then fb_priority_waiters b else fb_waiters b) h"
  shows "\<exists>k. next_waiting_host priority b = Some k"
proof -
  obtain i where i: "i < length (fb_order b)" "h = fb_order b ! i"
    using assms(1) by (metis in_set_conv_nth)
  obtain d where "d < length (fb_order b)" "(fb_admit_cursor b + d) mod length (fb_order b) = i"
    using ring_covers [OF i(1)] by blast
  then have "h \<in> set (map (\<lambda>i. fb_order b ! i) (ring (length (fb_order b)) (fb_admit_cursor b)))"
    using i by (force simp: ring_def)
  then have "next_waiting_host priority b \<noteq> None"
    using assms(2) unfolding next_waiting_host_def Let_def find_None_iff by blast
  then show ?thesis by simp
qed

lemma next_waiting_waits:
  assumes "next_waiting_host priority b = Some k"
  shows "0 < (if priority then fb_priority_waiters b else fb_waiters b) k"
  using assms by (auto simp: next_waiting_host_def Let_def find_Some_iff split: if_splits)

lemma eligible_exists:
  assumes "fleet_inv s" and "fs_pending s \<noteq> []"
  obtains h x p where "(h, x, p) \<in> set (fs_pending s)" and "eligible h (fs_buf s)"
proof -
  let ?b = "fs_buf s"
  have w: "fb_waiters ?b h = waiting h (fs_pending s)" "fb_priority_waiters ?b h = priority_waiting h (fs_pending s)" for h
    using assms(1) by (simp_all add: fleet_inv_def waiters_ok_def)
  have pend: "\<exists>x p. (h, x, p) \<in> set (fs_pending s)" if "0 < fb_waiters ?b h \<or> 0 < fb_priority_waiters ?b h" for h
    using that by (fastforce simp: w waiting_def priority_waiting_def length_greater_0_conv filter_empty_conv)
  obtain k where k: "eligible k ?b" "0 < fb_waiters ?b k \<or> 0 < fb_priority_waiters ?b k"
  proof (cases "next_waiting_host True ?b")
    case (Some k)
    then show ?thesis using that [of k] next_waiting_waits [OF Some] by (simp add: eligible_def)
  next
    case None
    obtain q where "q \<in> set (fs_pending s)" using assms(2) by (cases "fs_pending s") auto
    moreover from this have "0 < waiting (fst q) (fs_pending s)"
      by (auto simp: waiting_def filter_empty_conv)
    ultimately obtain k where k: "next_waiting_host False ?b = Some k"
      using next_waiting_some [of "fst q" ?b False] assms(1) w(1) by (auto simp: fleet_inv_def waiters_ok_def)
    with None show ?thesis using that [of k] next_waiting_waits [OF k] by (simp add: eligible_def)
  qed
  with pend that show ?thesis by blast
qed

lemma queue_le_size:
  assumes "sizes_ok b" and "h \<in> set (fb_order b)"
  shows "int (length (fb_queues b h)) \<le> fb_size b"
  using assms member_le_sum [of h "set (fb_order b)" "\<lambda>h. int (length (fb_queues b h))"] by (simp add: sizes_ok_def)

text \<open>
  Admission never blocks on its own rules: in every reachable state that is not cancelled, has room, and in
  which puts are waiting, the next turn of one of them admits its item, whatever mix of priority and ordinary
  puts is waiting.
\<close>

theorem fleet_put_progress:
  assumes "fleet_init hosts capacity s\<^sub>0" and "fleet_step\<^sup>*\<^sup>* s\<^sub>0 s" and "fs_pending s \<noteq> []"
    and "fb_size (fs_buf s) < capacity"
  shows "\<exists>h x p b. (h, x, p) \<in> set (fs_pending s) \<and> put_round False h x p (fs_buf s) = Returned True b"
proof -
  have inv: "fleet_inv s" using fleet.reachable_inv assms(1,2) by blast
  have cap: "fb_capacity (fs_buf s) = capacity"
    using steps_fixed [OF assms(2)] assms(1) by (auto simp: fleet_init_def new_fleet_def)
  obtain h x p where q: "(h, x, p) \<in> set (fs_pending s)" "eligible h (fs_buf s)"
    using eligible_exists [OF inv assms(3)] by blast
  have "int (length (fb_queues (fs_buf s) h)) \<le> fb_size (fs_buf s)"
    using inv q(1) by (intro queue_le_size) (force simp: fleet_inv_def waiters_ok_def)+
  then have "put_round False h x p (fs_buf s) = Returned True (put_exit h p (admit_item h x (fs_buf s)))"
    using q(2) assms(4) cap by (simp add: put_round_def)
  with q(1) show ?thesis by blast
qed

text \<open>The queue of the host stands \<open>d\<close> places behind the cursor.\<close>

definition behind :: "'i fleet \<Rightarrow> nat \<Rightarrow> pystr \<Rightarrow> bool" where
  "behind b d h \<longleftrightarrow> d < length (fb_order b) \<and> fb_order b ! ((fb_cursor b + d) mod length (fb_order b)) = h"

lemma next_ready_first:
  assumes "next_ready b = Some i"
  obtains k where "k < length (fb_order b)" and "i = (fb_cursor b + k) mod length (fb_order b)"
    and "\<And>k'. k' < k \<Longrightarrow> fb_queues b (fb_order b ! ((fb_cursor b + k') mod length (fb_order b))) = []"
proof -
  let ?n = "length (fb_order b)"
  obtain k where "k < ?n" "i = ring ?n (fb_cursor b) ! k"
    "\<And>k'. k' < k \<Longrightarrow> fb_queues b (fb_order b ! (ring ?n (fb_cursor b) ! k')) = []"
    using assms by (auto simp: next_ready_def find_Some_iff ring_def)
  then show ?thesis using that [of k] by (simp add: ring_def)
qed

lemma get_nearer:
  assumes "behind b d h" and "fb_queues b h \<noteq> []" and "next_ready b = Some i" and "fleet_get b = Some (x, b')"
  shows "fb_order b ! i = h \<or> (\<exists>d' < d. behind b' d' h)"
proof -
  let ?n = "length (fb_order b)"
  obtain k where k: "k < ?n" "i = (fb_cursor b + k) mod ?n"
    and empty: "\<And>k'. k' < k \<Longrightarrow> fb_queues b (fb_order b ! ((fb_cursor b + k') mod ?n)) = []"
    using next_ready_first [OF assms(3)] by blast
  have d: "d < ?n" "fb_order b ! ((fb_cursor b + d) mod ?n) = h" using assms(1) by (auto simp: behind_def)
  have "k \<le> d" using empty [of d] assms(2) d(2) by (metis not_less)
  show ?thesis
  proof (cases "k = d")
    case True
    then show ?thesis using k d by simp
  next
    case False
    have "((i + 1) mod ?n + (d - k - 1)) mod ?n = (fb_cursor b + k + 1 + (d - k - 1)) mod ?n"
      unfolding k(2) by (metis (no_types, lifting) mod_add_left_eq)
    also have "\<dots> = (fb_cursor b + d) mod ?n" using False \<open>k \<le> d\<close> by simp
    finally have "behind b' (d - k - 1) h"
      using d get_some(2) [OF assms(3,4)] by (simp add: behind_def)
    then show ?thesis using False \<open>k \<le> d\<close> by (intro disjI2 exI [of _ "d - k - 1"]) simp
  qed
qed

definition due :: "'i fleet_sys \<Rightarrow> pystr \<Rightarrow> 'i \<Rightarrow> nat \<Rightarrow> 'i fleet_sys \<Rightarrow> bool" where
  "due s h x n t \<longleftrightarrow> (\<exists>new. fs_taken t = fs_taken s @ new
     \<and> ((h, x) \<in> set new \<or> (\<exists>d q. behind (fs_buf t) d h \<and> fb_queues (fs_buf t) h = x # q \<and> d + length new \<le> n)))"

lemma due_same:
  assumes "due s h x n t" and "fs_taken u = fs_taken t" and "fb_order (fs_buf u) = fb_order (fs_buf t)"
    and "fb_cursor (fs_buf u) = fb_cursor (fs_buf t)"
    and "\<exists>r. fb_queues (fs_buf u) h = fb_queues (fs_buf t) h @ r"
  shows "due s h x n u"
  using assms unfolding due_def behind_def by fastforce

lemma due_take:
  assumes "due s h x n t" and "next_ready (fs_buf t) = Some i" and "fleet_get (fs_buf t) = Some (y, b)"
  shows "due s h x n (t\<lparr>fs_buf := b, fs_taken := fs_taken t @ [(fb_order (fs_buf t) ! i, y)]\<rparr>)"
proof -
  let ?h = "fb_order (fs_buf t) ! i"
  obtain new where new: "fs_taken t = fs_taken s @ new"
    and d: "(h, x) \<in> set new \<or> (\<exists>d q. behind (fs_buf t) d h \<and> fb_queues (fs_buf t) h = x # q \<and> d + length new \<le> n)"
    using assms(1) by (auto simp: due_def)
  have "(h, x) \<in> set (new @ [(?h, y)]) \<or> (\<exists>d q. behind b d h \<and> fb_queues b h = x # q \<and> d + length (new @ [(?h, y)]) \<le> n)"
  proof (cases "(h, x) \<in> set new")
    case False
    then obtain d q where q: "behind (fs_buf t) d h" "fb_queues (fs_buf t) h = x # q" "d + length new \<le> n"
      using d by blast
    show ?thesis
    proof (cases "?h = h")
      case True
      then show ?thesis using q(2) get_some(1) [OF assms(2,3)] by simp
    next
      case False
      then obtain d' where "d' < d" "behind b d' h"
        using get_nearer [OF q(1) _ assms(2,3)] q(2) by auto
      moreover have "fb_queues b h = x # q"
        using False q(2) get_some(2) [OF assms(2,3)] by simp
      ultimately show ?thesis using q(3) by (intro disjI2 exI [of _ d'] exI [of _ q]) simp
    qed
  qed simp
  then show ?thesis
    unfolding due_def by (intro exI [of _ "new @ [(?h, y)]"]) (simp add: new)
qed

lemma due_step:
  assumes "due s h x n t" and "fleet_step t u"
  shows "due s h x n u"
  using assms(2)
proof cases
  case (Enter k p b y)
  then show ?thesis
    using assms(1) by (intro due_same [OF assms(1)]) (auto simp: put_enter_def split: if_splits)
next
  case (Turn k y p ok b)
  have b: "b = put_exit k p (fs_buf t) \<or> b = put_exit k p (admit_item k y (fs_buf t))"
    using Turn(3) by (auto simp: put_round_def split: if_splits)
  then show ?thesis
    unfolding Turn(1) by (intro due_same [OF assms(1)]) (auto simp: put_exit_def admit_item_def)
next
  case (Take i y b)
  then show ?thesis using due_take [OF assms(1)] by blast
next
  case Cancel
  then show ?thesis by (intro due_same [OF assms(1)]) auto
qed

lemma due_steps: "fleet_step\<^sup>*\<^sup>* s t \<Longrightarrow> due r h x n s \<Longrightarrow> due r h x n t"
  by (induction rule: rtranclp_induct) (auto intro: due_step)

text \<open>
  C9: Draining is fair: an item at the front of a host's queue is delivered at the latest by the time the reader
  has taken as many items as there are hosts, whatever the host threads put meanwhile.
\<close>

theorem fleet_fair_drain:
  assumes "fleet_init hosts capacity s\<^sub>0" and "fleet_step\<^sup>*\<^sup>* s\<^sub>0 s" and "fleet_step\<^sup>*\<^sup>* s t"
    and "h \<in> set hosts" and "fb_queues (fs_buf s) h = x # q"
    and "length (fs_taken s) + length hosts \<le> length (fs_taken t)"
  shows "\<exists>new. fs_taken t = fs_taken s @ new \<and> (h, x) \<in> set new"
proof -
  have order: "fb_order (fs_buf s) = hosts"
    using steps_fixed [OF assms(2)] assms(1) by (auto simp: fleet_init_def new_fleet_def)
  obtain i where i: "i < length hosts" "h = hosts ! i" using assms(4) by (metis in_set_conv_nth)
  obtain d where d: "d < length hosts" "(fb_cursor (fs_buf s) + d) mod length hosts = i"
    using ring_covers [OF i(1)] by blast
  have "behind (fs_buf s) d h" using d i by (simp add: behind_def order)
  with assms(5) have "due s h x d s" by (simp add: due_def) blast
  then have "due s h x d t" using due_steps [OF assms(3)] by blast
  then obtain new where "fs_taken t = fs_taken s @ new" "(h, x) \<in> set new \<or> length new \<le> d"
    by (auto simp: due_def)
  with assms(6) d(1) show ?thesis by auto
qed

subsection \<open>A run\<close>

definition ex_fleet :: "nat fleet_sys" where
  "ex_fleet = \<lparr>fs_buf = new_fleet [py ''b''] 2, fs_pending = [], fs_cancelled = False, fs_admitted = [], fs_taken = []\<rparr>"

definition ex_entered :: "nat fleet_sys" where
  "ex_entered = ex_fleet\<lparr>fs_buf := (fs_buf ex_fleet)\<lparr>fb_waiters := (\<lambda>_. 0)(py ''b'' := 1)\<rparr>, fs_pending := [(py ''b'', 7, False)]\<rparr>"

definition ex_admitted :: "nat fleet_sys" where
  "ex_admitted = ex_entered\<lparr>fs_buf := put_exit (py ''b'') False (admit_item (py ''b'') 7 (fs_buf ex_entered)), fs_pending := [],
     fs_admitted := [(py ''b'', 7)]\<rparr>"

definition ex_taken :: "nat fleet_sys" where
  "ex_taken = ex_admitted\<lparr>fs_buf := (fs_buf ex_admitted)\<lparr>fb_queues := (\<lambda>_. []), fb_size := 0, fb_cursor := 0\<rparr>,
     fs_taken := [(py ''b'', 7)]\<rparr>"

lemmas ex_fleet_defs = ex_fleet_def ex_entered_def ex_admitted_def ex_taken_def new_fleet_def

lemma ex_init: "fleet_init [py ''b''] 2 ex_fleet"
  by (simp add: fleet_init_def ex_fleet_def py_def)

lemma ex_enter: "fleet_step ex_fleet ex_entered"
proof -
  have "put_enter (py ''b'') False (fs_buf ex_fleet) = Some (fs_buf ex_entered)"
    by (simp add: put_enter_def ex_fleet_defs)
  from fleet_step.Enter [OF this, of 7] show ?thesis by (simp add: ex_entered_def ex_fleet_def)
qed

lemma ex_turn: "fleet_step ex_entered ex_admitted"
proof -
  have "put_round (fs_cancelled ex_entered) (py ''b'') 7 False (fs_buf ex_entered) = Returned True (fs_buf ex_admitted)"
    by (simp add: put_round_def eligible_def next_waiting_host_def ring_def ex_fleet_defs upt_rec py_def)
  moreover have "(py ''b'', 7, False) \<in> set (fs_pending ex_entered)" by (simp add: ex_entered_def)
  ultimately show ?thesis
    using fleet_step.Turn [of "py ''b''" 7 False ex_entered True] by (simp add: ex_admitted_def ex_entered_def ex_fleet_def)
qed

lemma ex_take: "fleet_step ex_admitted ex_taken"
proof -
  have i: "next_ready (fs_buf ex_admitted) = Some 0"
    by (simp add: next_ready_def ring_def ex_fleet_defs put_exit_def admit_item_def upt_rec py_def)
  moreover have "fleet_get (fs_buf ex_admitted) = Some (7, fs_buf ex_taken)"
    unfolding fleet_get_def i by (simp add: ex_fleet_defs put_exit_def admit_item_def Let_def py_def) (simp add: fun_eq_iff)
  ultimately have "fleet_step ex_admitted (ex_admitted\<lparr>fs_buf := fs_buf ex_taken,
      fs_taken := fs_taken ex_admitted @ [(fb_order (fs_buf ex_admitted) ! 0, 7)]\<rparr>)"
    by (rule fleet_step.Take)
  then show ?thesis by (simp add: ex_fleet_defs put_exit_def admit_item_def)
qed

theorem fleet_bounded_fifo_witness:
  "fb_size (fs_buf ex_taken) \<le> 2
    \<and> of_host (py ''b'') (fs_admitted ex_taken) = of_host (py ''b'') (fs_taken ex_taken) @ fb_queues (fs_buf ex_taken) (py ''b'')"
proof -
  have "fleet_step\<^sup>*\<^sup>* ex_fleet ex_taken"
    using ex_enter ex_turn ex_take by (meson rtranclp.rtrancl_into_rtrancl rtranclp.rtrancl_refl)
  from fleet_bounded_fifo [OF ex_init this] show ?thesis by blast
qed

theorem fleet_put_progress_witness:
  "\<exists>h x p b. (h, x, p) \<in> set (fs_pending ex_entered) \<and> put_round False h x p (fs_buf ex_entered) = Returned True b"
  by (rule fleet_put_progress [OF ex_init r_into_rtranclp [of fleet_step, OF ex_enter]])
    (simp_all add: ex_entered_def ex_fleet_def new_fleet_def)

theorem fleet_fair_drain_witness:
  "\<exists>new. fs_taken ex_taken = fs_taken ex_admitted @ new \<and> (py ''b'', 7) \<in> set new"
proof -
  have "fleet_step\<^sup>*\<^sup>* ex_fleet ex_admitted"
    using ex_enter ex_turn by (meson rtranclp.rtrancl_into_rtrancl rtranclp.rtrancl_refl)
  moreover have "fb_queues (fs_buf ex_admitted) (py ''b'') = 7 # []"
    by (simp add: ex_fleet_defs put_exit_def admit_item_def)
  ultimately show ?thesis
    using fleet_fair_drain [OF ex_init _ r_into_rtranclp [of fleet_step, OF ex_take], of "py ''b''" 7 "[]"]
    by (simp add: ex_taken_def ex_admitted_def ex_entered_def ex_fleet_def)
qed

end
