(* ===== verification/Json_Ascii.thy ===== *)
theory Json_Ascii
  imports Json_Roundtrip Lines
begin

text \<open>
  Records that are written as one line of printable ASCII: flat objects whose values are short
  atoms. Their text does not depend on \<open>ensure_ascii\<close> or \<open>allow_nan\<close>, contains no line break, and is
  read back with its keys in sorted order. The daemon's log and the audit ledger store such records.
\<close>

definition encode_ascii :: "pystr \<Rightarrow> bytes option" where
  "encode_ascii s = (if list_all (\<lambda>c. c < 128) s then Some (map of_nat s) else None)"

definition decode_ascii :: "bytes \<Rightarrow> pystr option" where
  "decode_ascii b = (if list_all (\<lambda>w. unat w < 128) b then Some (map unat b) else None)"

definition printable_char :: "nat \<Rightarrow> bool" where
  "printable_char c \<longleftrightarrow> 32 \<le> c \<and> c < 127"

definition ascii_text :: "pystr \<Rightarrow> bool" where
  "ascii_text s \<longleftrightarrow> list_all (\<lambda>c. c < 127) s"

definition sorted_opts :: dump_opts where
  "sorted_opts = \<lparr>ensure_ascii = False, sort_keys = True, allow_nan = True\<rparr>"

text \<open>A value of a record: its JSON form is printable ASCII and is read back as it is.\<close>

fun atom_ok :: "(rat \<Rightarrow> pystr) \<Rightarrow> py_limits \<Rightarrow> pyval \<Rightarrow> bool" where
  "atom_ok fr L PNone = True"
| "atom_ok fr L (PBool b) = True"
| "atom_ok fr L (PInt i) = (py_int L (int_str i) = Inr i)"
| "atom_ok fr L (PFloat (Fin r)) = (list_all printable_char (fr r) \<and> is_float_text (fr r) r)"
| "atom_ok fr L (PStr s) = ascii_text s"
| "atom_ok fr L v = False"

lemma escape_printable:
  assumes "c < 127"
  shows "escape_char True c = escape_char False c" and "list_all printable_char (escape_char False c)"
proof -
  have h: "printable_char (hex_char n)" if "n < 16" for n
    using that unfolding hex_char_def printable_char_def by (simp only: split: if_split) linarith
  have "list_all printable_char (u_escape c)"
    using h by (simp add: u_escape_def hex4_text_def printable_char_def)
  then show "list_all printable_char (escape_char False c)"
    using assms by (simp add: escape_char_def printable_char_def)
qed (use assms in \<open>simp add: escape_char_def\<close>)

lemma string_printable:
  assumes "ascii_text s"
  shows "dump_string True s = dump_string False s" and "list_all printable_char (dump_string False s)"
  using assms escape_printable
  by (induction s) (auto simp: ascii_text_def dump_string_def printable_char_def)

lemma int_printable: "list_all printable_char (int_str i)"
proof -
  have "printable_char c" if "is_digit c" for c
    using that by (simp add: is_digit_def printable_char_def)
  then show ?thesis
    using digits10_digits by (auto simp: int_str_def list_all_iff printable_char_def)
qed

lemma atom_dumps:
  assumes "atom_ok fr L v"
  shows "\<exists>t. (\<forall>opts. json_dumps opts fr v = Inr t) \<and> list_all printable_char t"
  using assms
proof (induction fr L v rule: atom_ok.induct)
  case (3 fr L i)
  then show ?case by (simp add: int_printable)
next
  case (4 fr L r)
  then show ?case by (simp add: dump_float_def)
next
  case (5 fr L s)
  have "dump_string b s = dump_string False s" for b
    using string_printable(1) 5 by (cases b) simp_all
  then have "\<forall>opts. json_dumps opts fr (PStr s) = Inr (dump_string False s)" by simp
  with string_printable(2) [of s] 5 show ?case by auto
qed (simp_all add: py_def printable_char_def)

lemma join_printable: "list_all (list_all printable_char) ts \<Longrightarrow> list_all printable_char (join_comma ts)"
  by (induction ts rule: join_comma.induct) (auto simp: printable_char_def)

lemma collect_Inr: "list_all (\<lambda>x. \<exists>y. f x = Inr y \<and> P y) xs \<Longrightarrow> \<exists>ys. collect (map f xs) = Inr ys \<and> list_all P ys"
  by (induction xs) auto

lemma digits10_length: "n < 10 ^ k \<Longrightarrow> 0 < k \<Longrightarrow> length (digits10 n) \<le> k"
proof (induction n arbitrary: k rule: digits10.induct)
  case (1 n)
  show ?case
  proof (cases "n < 10")
    case True
    then show ?thesis using "1.prems" by (simp add: digits10.simps)
  next
    case False
    then obtain j where j: "k = Suc j" "0 < j"
      using "1.prems" by (cases k; cases "k - 1") auto
    then have "n div 10 < 10 ^ j" using "1.prems" by (simp add: less_mult_imp_div_less mult.commute)
    with "1.IH" [OF False this j(2)] False j show ?thesis by (simp add: digits10.simps [of n])
  qed
qed

lemma short_int:
  assumes "py_int_digits L = 0 \<or> k \<le> py_int_digits L" and "\<bar>i\<bar> < 10 ^ k" and "0 < k"
  shows "py_int L (int_str i) = Inr i"
proof -
  have "nat \<bar>i\<bar> < 10 ^ k" using assms(2) by (simp add: nat_less_iff)
  then have "length (digits10 (nat \<bar>i\<bar>)) \<le> k" using assms(3) by (rule digits10_length)
  moreover have "\<not> starts_with [45] (digits10 n)" for n
    using digits10_digits [of n] by (cases "digits10 n") (auto simp: starts_with_def is_digit_def)
  ultimately have "digit_count (int_str i) \<le> k"
    by (auto simp: digit_count_def int_str_def starts_with_def)
  with assms(1) show ?thesis
    using int_value_str [of i] by (auto simp: py_int_def)
qed

definition atom_record :: "(rat \<Rightarrow> pystr) \<Rightarrow> py_limits \<Rightarrow> pydict \<Rightarrow> bool" where
  "atom_record fr L d \<longleftrightarrow> list_all (\<lambda>kv. \<exists>k. fst kv = PStr k \<and> ascii_text k \<and> atom_ok fr L (snd kv)) d"

lemma atom_member:
  assumes "ascii_text k" and "atom_ok fr L v"
  shows "\<exists>u. (\<forall>opts. dump_member opts fr (PStr k, json_dumps opts fr v) = Inr u) \<and> list_all printable_char u"
proof -
  obtain t where t: "\<And>opts. json_dumps opts fr v = Inr t" "list_all printable_char t"
    using atom_dumps [OF assms(2)] by blast
  have k: "dump_string b k = dump_string False k" for b
    using string_printable(1) [OF assms(1)] by (cases b) simp_all
  have "dump_member opts fr (PStr k, json_dumps opts fr v) = Inr (dump_string False k @ 58 # t)" for opts
    using k [of "ensure_ascii opts"] by (simp add: dump_member_def key_text_def t(1))
  moreover have "list_all printable_char (dump_string False k @ 58 # t)"
    using t(2) string_printable(2) [OF assms(1)] by (simp add: printable_char_def)
  ultimately show ?thesis by blast
qed

lemma record_dumps:
  assumes "atom_record fr L d"
  shows "\<exists>t. (\<forall>opts. sort_keys opts \<longrightarrow> json_dumps opts fr (PDict d) = Inr t) \<and> list_all printable_char t"
proof -
  let ?d = "sort_key (\<lambda>kv. str_key (fst kv)) d"
  let ?m = "\<lambda>opts kv. dump_member opts fr (fst kv, json_dumps opts fr (snd kv))"
  have m: "\<exists>u. (\<forall>opts. ?m opts kv = Inr u) \<and> list_all printable_char u" if "kv \<in> set ?d" for kv
  proof -
    have "kv \<in> set d" using that by simp
    then obtain k where "fst kv = PStr k" "ascii_text k" "atom_ok fr L (snd kv)"
      using assms unfolding atom_record_def list_all_iff by blast
    then show ?thesis using atom_member by simp
  qed
  then obtain f where f: "\<And>kv opts. kv \<in> set ?d \<Longrightarrow> ?m opts kv = Inr (f kv)"
    "\<And>kv. kv \<in> set ?d \<Longrightarrow> list_all printable_char (f kv)"
    by metis
  let ?ys = "map f ?d"
  have ys: "collect (map (?m opts) ?d) = Inr ?ys" for opts
  proof -
    have "map (?m opts) ?d = map (\<lambda>kv. Inr (f kv)) ?d"
      using f(1) by (intro map_cong [OF refl]) blast
    moreover have "collect (map (\<lambda>kv. Inr (f kv)) xs) = Inr (map f xs)" for xs
      by (induction xs) simp_all
    ultimately show ?thesis by (simp only:)
  qed
  have "json_dumps opts fr (PDict d) = Inr (123 # join_comma ?ys @ [125])" if "sort_keys opts" for opts
  proof -
    have "list_all (\<lambda>kv. is_str (fst kv)) (map (\<lambda>kv. (fst kv, json_dumps opts fr (snd kv))) d)"
      using assms by (auto simp: atom_record_def list_all_iff is_str_def)
    then have o: "dump_order opts (map (\<lambda>kv. (fst kv, json_dumps opts fr (snd kv))) d) =
        Inr (map (\<lambda>kv. (fst kv, json_dumps opts fr (snd kv))) ?d)"
      using that by (simp add: dump_order_def sort_map)
    have "map (dump_member opts fr) (map (\<lambda>kv. (fst kv, json_dumps opts fr (snd kv))) ?d) = map (?m opts) ?d"
      by (simp only: map_map comp_def)
    then show ?thesis
      unfolding json_dumps.simps dump_object_def o sum.case by (simp only: ys sum.case)
  qed
  moreover have "list_all printable_char (123 # join_comma ?ys @ [125])"
    using join_printable [of ?ys] f(2) by (simp add: printable_char_def list_all_iff)
  ultimately show ?thesis by blast
qed

lemma atom_loaded: "atom_ok fr L v \<Longrightarrow> loaded opts v = v \<and> writable fr L v"
  by (induction fr L v rule: atom_ok.induct) auto

lemma atom_depth: "atom_ok fr L v \<Longrightarrow> depth_of v = 0"
  by (induction fr L v rule: atom_ok.induct) auto

text \<open>Reading the text of a record gives its entries in the order of their keys.\<close>

lemma record_loads:
  assumes "atom_record fr L d" and "distinct (map fst d)" and "faithful_hooks L h" and "1 \<le> n"
  shows "\<exists>t. (\<forall>opts. sort_keys opts \<longrightarrow> json_dumps opts fr (PDict d) = Inr t) \<and> list_all printable_char t
    \<and> json_loads_with h n t = Inr (PDict (in_dump_order sorted_opts d))"
proof -
  obtain t where t: "\<And>opts. sort_keys opts \<Longrightarrow> json_dumps opts fr (PDict d) = Inr t" "list_all printable_char t"
    using record_dumps [OF assms(1)] by blast
  have id: "map (\<lambda>kv. (fst kv, loaded sorted_opts (snd kv))) d = d"
    using assms(1) atom_loaded by (intro map_idI) (fastforce simp: list_all_iff atom_record_def)
  have w: "writable fr L (PDict d)"
    using assms(1,2) atom_loaded by (fastforce simp: list_all_iff atom_record_def is_str_def)
  have "\<forall>kv \<in> set d. depth_of (snd kv) \<le> 0"
    using assms(1) atom_depth by (fastforce simp: list_all_iff atom_record_def)
  then have "foldr (\<lambda>kv n. max (depth_of (snd kv)) n) d 0 \<le> 0"
    unfolding foldr_max_le .
  then have dep: "depth_of (PDict d) \<le> n"
    using assms(4) by simp
  have "json_loads_with h n t = Inr (loaded sorted_opts (PDict d))"
    using loads_with_dumps [OF _ w dep assms(3), of sorted_opts] t(1) [of sorted_opts]
    by (simp add: sorted_opts_def del: loaded.simps)
  with t id show ?thesis by auto
qed

lemma decode_encode_ascii:
  assumes "list_all (\<lambda>c. c < 128) t"
  shows "decode_ascii (map of_nat t) = Some t"
proof -
  have "unat (of_nat c :: 8 word) = c" if "c < 128" for c
    using that by (simp add: unat_of_nat take_bit_nat_eq_self)
  then have "map (\<lambda>c. unat (of_nat c :: 8 word)) t = t" using assms by (induction t) auto
  moreover have "list_all (\<lambda>w. unat w < 128) (map (of_nat :: nat \<Rightarrow> 8 word) t)"
    using assms \<open>\<And>c. c < 128 \<Longrightarrow> unat (of_nat c :: 8 word) = c\<close> by (auto simp: list_all_iff)
  ultimately show ?thesis by (simp add: decode_ascii_def comp_def)
qed

lemma printable_ascii: "list_all printable_char t \<Longrightarrow> list_all (\<lambda>c. c < 128) t"
  by (auto simp: list_all_iff printable_char_def)

text \<open>The bytes of printable text contain no line break.\<close>

lemma printable_no_break:
  assumes "list_all printable_char t"
  shows "NL \<notin> set (map of_nat t :: bytes)" and "13 \<notin> set (map of_nat t :: bytes)"
proof -
  have "(of_nat c :: 8 word) \<noteq> w" if "c \<in> set t" "unat w < 32" for c and w :: "8 word"
  proof
    assume "(of_nat c :: 8 word) = w"
    moreover have "32 \<le> c" "c < 127" using assms that(1) by (auto simp: list_all_iff printable_char_def)
    ultimately have "unat w = c" by (auto simp: unat_of_nat take_bit_nat_eq_self)
    with \<open>32 \<le> c\<close> that(2) show False by simp
  qed
  then show "NL \<notin> set (map of_nat t :: bytes)" "13 \<notin> set (map of_nat t :: bytes)"
    by fastforce+
qed

end
