(* ===== verification/Daemon_Log.thy ===== *)
theory Daemon_Log
  imports Model Py_Text Py_Float Json_Ascii
begin

text \<open>
  The private JSONL log of the daemon (\<open>sidecar/daemon_log.py\<close>): one current file and up to three
  rotated ones, each bounded in size, with a crash suffix removed when the log is opened.

  \<^item> The directory is a map from an index to the bytes of a file: 0 is \<open>daemon.jsonl\<close>, \<open>i\<close> is
    \<open>daemon.jsonl.i\<close>.
  \<^item> What the operating system answers is the argument \<open>io\<close> of each call: whether the entries are the
    private regular files they were (owner, mode, link count and identity), how many of the file
    operations of a rotation succeed, how many bytes a failing write leaves, whether \<open>fsync\<close> succeeds,
    and whether a truncation succeeds with its \<open>fsync\<close> (\<open>li_truncate_ok\<close>) or only itself (\<open>li_cut\<close>); the opens, reads and unlinks of \<open>open\<close> succeed. Descriptors are represented by whether they are open.
  \<^item> \<open>le_hash\<close> is the hexadecimal SHA-256 digest, \<open>le_repr\<close> is \<open>float.__repr__\<close>; time and process
    identifier are given with each record.
\<close>

datatype log_exc = DaemonLogError string | LogRaised

definition MAX_CURRENT_BYTES :: nat where
  "MAX_CURRENT_BYTES = 2 * 1024 * 1024"

definition MAX_LINE_BYTES :: nat where
  "MAX_LINE_BYTES = 4 * 1024"

definition MAX_BACKUPS :: nat where
  "MAX_BACKUPS = 3"

definition SCHEMA_VERSION :: int where
  "SCHEMA_VERSION = 1"

definition LEVELS :: "pystr list" where
  "LEVELS = map py [''debug'', ''info'', ''warning'', ''error'', ''critical'']"

definition STRING_LIMITS :: "(pystr \<times> nat) list" where
  "STRING_LIMITS = [(py ''component'', 48), (py ''event'', 64), (py ''level'', 16), (py ''version'', 64),
     (py ''adapter'', 64), (py ''agent'', 64), (py ''code'', 128), (py ''stage'', 64)]"

definition OPTIONAL_FIELDS :: "pystr list" where
  "OPTIONAL_FIELDS = map py [''component'', ''level'', ''http_enabled'', ''http_port'', ''count'', ''adapter'', ''agent'',
     ''session_id'', ''code'', ''stage'', ''timed_out'']"

definition REQUIRED_FIELDS :: "pystr list" where
  "REQUIRED_FIELDS = map py [''schema_version'', ''ts'', ''ts_epoch'', ''component'', ''event'', ''level'', ''version'', ''pid'']"

definition ALLOWED_FIELDS :: "pystr list" where
  "ALLOWED_FIELDS = REQUIRED_FIELDS @ OPTIONAL_FIELDS"

subsection \<open>Identifiers\<close>

definition is_alnum :: "nat \<Rightarrow> bool" where
  "is_alnum c \<longleftrightarrow> 48 \<le> c \<and> c \<le> 57 \<or> 65 \<le> c \<and> c \<le> 90 \<or> 97 \<le> c \<and> c \<le> 122"

definition is_identifier :: "pystr \<Rightarrow> bool" where
  "is_identifier s \<longleftrightarrow> s \<noteq> [] \<and> is_alnum (hd s) \<and> list_all (\<lambda>c. is_alnum c \<or> c \<in> {95, 46, 58, 45}) (tl s)"

definition safe_code :: "string \<Rightarrow> string \<Rightarrow> string" where
  "safe_code v dflt = (if length v \<le> 128 \<and> is_identifier (py v) then v else dflt)"

definition safe_identifier :: "pyval \<Rightarrow> nat \<Rightarrow> pystr \<Rightarrow> pystr" where
  "safe_identifier v n dflt =
     (case text_of v of
        None \<Rightarrow> dflt
      | Some s \<Rightarrow> if s = [] \<or> n < length s \<or> \<not> is_identifier s then dflt else s)"

subsection \<open>Records\<close>

record log_env =
  le_limits :: py_limits
  le_hash :: "bytes \<Rightarrow> pystr"
  le_repr :: "rat \<Rightarrow> pystr"

record log_now =
  ln_iso :: pystr
  ln_epoch :: rat
  ln_pid :: int

definition session_identifier :: "log_env \<Rightarrow> pyval \<Rightarrow> pystr" where
  "session_identifier env v =
     (case text_of v of
        None \<Rightarrow> py ''unknown''
      | Some s \<Rightarrow>
          if s = [] then py ''unknown''
          else py ''sha256:'' @ take 16 (le_hash env (concat (map encode_char s))))"

text \<open>The normalized value of an optional field; \<open>None\<close> when it is left out.\<close>

definition field_value :: "log_env \<Rightarrow> pystr \<Rightarrow> pyval \<Rightarrow> pyval option" where
  "field_value env name v =
     (case map_of STRING_LIMITS name of
        Some n \<Rightarrow>
          (let normalized = safe_identifier v n (py ''unknown'') in
           Some (PStr (if name = py ''level'' \<and> normalized \<notin> set LEVELS then py ''info'' else normalized)))
      | None \<Rightarrow>
          if name = py ''session_id'' then Some (PStr (session_identifier env v))
          else if name = py ''http_enabled'' \<or> name = py ''timed_out'' then (if is_bool v then Some v else None)
          else if name = py ''http_port'' then map_option (\<lambda>i. PInt (min 65535 (max 0 i))) (strict_int v)
          else if name = py ''count'' then map_option (\<lambda>i. PInt (min 1000000000 (max 0 i))) (strict_int v)
          else None)"

definition add_field :: "log_env \<Rightarrow> pydict \<Rightarrow> pydict \<Rightarrow> pystr \<Rightarrow> pydict" where
  "add_field env flds rec name =
     (case map_of flds (PStr name) of
        None \<Rightarrow> rec
      | Some v \<Rightarrow> (case field_value env name v of None \<Rightarrow> rec | Some w \<Rightarrow> dict_set rec (PStr name) w))"

definition base_record :: "pystr \<Rightarrow> log_now \<Rightarrow> pyval \<Rightarrow> pydict" where
  "base_record version now event =
     [(pstr ''schema_version'', PInt SCHEMA_VERSION), (pstr ''ts'', PStr (ln_iso now)),
      (pstr ''ts_epoch'', PFloat (Fin (ln_epoch now))), (pstr ''component'', pstr ''daemon''),
      (pstr ''event'', PStr (safe_identifier event 64 (py ''unknown''))), (pstr ''level'', pstr ''info''),
      (pstr ''version'', PStr version), (pstr ''pid'', PInt (ln_pid now))]"

definition log_record :: "log_env \<Rightarrow> pystr \<Rightarrow> log_now \<Rightarrow> pyval \<Rightarrow> pydict \<Rightarrow> pydict" where
  "log_record env version now event flds =
     foldl (add_field env flds) (base_record version now event) OPTIONAL_FIELDS"

definition log_opts :: dump_opts where
  "log_opts = \<lparr>ensure_ascii = True, sort_keys = True, allow_nan = True\<rparr>"

definition encode_record :: "log_env \<Rightarrow> nat \<Rightarrow> nat \<Rightarrow> pydict \<Rightarrow> log_exc + bytes" where
  "encode_record env line_bytes max_bytes rec =
     (case json_dumps log_opts (le_repr env) (PDict rec) of
        Inl _ \<Rightarrow> Inl LogRaised
      | Inr t \<Rightarrow>
          (case encode_ascii t of
             None \<Rightarrow> Inl LogRaised
           | Some raw \<Rightarrow>
               (let payload = raw @ [10] in
                if min line_bytes max_bytes < length payload then Inl (DaemonLogError ''log_line_too_large'')
                else Inr payload)))"

subsection \<open>Validation and repair\<close>

definition finite_number :: "pyval \<Rightarrow> (log_exc + bool)" where
  "finite_number v =
     (case v of
        PInt i \<Rightarrow> (case float_of_int i of Converted _ \<Rightarrow> Inr True | _ \<Rightarrow> Inl LogRaised)
      | PFloat (Fin _) \<Rightarrow> Inr True
      | _ \<Rightarrow> Inr False)"

definition header_ok :: "pydict \<Rightarrow> bool" where
  "header_ok d \<longleftrightarrow> list_all (\<lambda>k. PStr k \<in> fst ` set d) REQUIRED_FIELDS
     \<and> list_all (\<lambda>kv. fst kv \<in> PStr ` set ALLOWED_FIELDS) d
     \<and> strict_int (dget d ''schema_version'') = Some SCHEMA_VERSION
     \<and> (case strict_int (dget d ''pid'') of None \<Rightarrow> False | Some i \<Rightarrow> 0 < i)
     \<and> is_str (dget d ''ts'')"

definition optional_ok :: "pyval \<times> pyval \<Rightarrow> bool" where
  "optional_ok kv =
     (if fst kv \<in> PStr ` set REQUIRED_FIELDS then True
      else if fst kv \<in> {pstr ''http_enabled'', pstr ''timed_out''} then is_bool (snd kv)
      else if fst kv \<in> {pstr ''http_port'', pstr ''count''} then strict_int (snd kv) \<noteq> None
      else is_str (snd kv))"

definition validate_record :: "pydict \<Rightarrow> log_exc + unit" where
  "validate_record d =
     (if \<not> header_ok d then Inl (DaemonLogError ''invalid_log'')
      else
        (case finite_number (dget d ''ts_epoch'') of
           Inl e \<Rightarrow> Inl e
         | Inr finite_ts \<Rightarrow>
             if finite_ts \<and> list_all (\<lambda>k. is_str (dget d k)) [''component'', ''event'', ''level'', ''version'']
                \<and> list_all optional_ok d
             then Inr () else Inl (DaemonLogError ''invalid_log'')))"

definition validate_record_line :: "log_env \<Rightarrow> nat \<Rightarrow> bytes \<Rightarrow> log_exc + unit" where
  "validate_record_line env line_bytes raw =
     (if raw = [] \<or> line_bytes < length raw + 1 then Inl (DaemonLogError ''invalid_log'')
      else
        (case decode_ascii raw of
           None \<Rightarrow> Inl (DaemonLogError ''invalid_log'')
         | Some t \<Rightarrow>
             (case json_loads (le_limits env) t of
                Inl JRecursion \<Rightarrow> Inl LogRaised
              | Inl _ \<Rightarrow> Inl (DaemonLogError ''invalid_log'')
              | Inr (PDict d) \<Rightarrow> validate_record d
              | Inr _ \<Rightarrow> Inl (DaemonLogError ''invalid_log''))))"

fun validate_lines :: "log_env \<Rightarrow> nat \<Rightarrow> bytes list \<Rightarrow> log_exc + unit" where
  "validate_lines env n [] = Inr ()"
| "validate_lines env n (l # ls) =
     (case validate_record_line env n l of Inl e \<Rightarrow> Inl e | Inr _ \<Rightarrow> validate_lines env n ls)"

text \<open>The lines that a newline ends, and what follows the last newline.\<close>

definition repair_current :: "log_env \<Rightarrow> nat \<Rightarrow> bool \<Rightarrow> bytes \<Rightarrow> log_exc + bytes" where
  "repair_current env line_bytes truncate_ok content =
     (let suffix = trailing content; complete = take (length content - length suffix) content in
      case validate_lines env line_bytes (complete_lines content) of
        Inl e \<Rightarrow> Inl e
      | Inr _ \<Rightarrow>
          if suffix = [] then Inr content
          else if line_bytes \<le> length suffix then Inl (DaemonLogError ''invalid_log'')
          else if truncate_ok then Inr complete
          else Inl (DaemonLogError ''log_repair_failed''))"

subsection \<open>The log and its operations\<close>

type_synonym log_files = "nat \<Rightarrow> bytes option"

record DaemonLog =
  dl_version :: pystr
  dl_max_bytes :: nat
  dl_backups :: nat
  dl_line_bytes :: nat
  dl_opened :: bool
  dl_disabled :: bool
  dl_closed :: bool
  dl_error :: "string option"
  dl_log_open :: bool

definition new_log :: "pyval \<Rightarrow> int \<Rightarrow> int \<Rightarrow> int \<Rightarrow> DaemonLog option" where
  "new_log version max_bytes backups line_bytes =
     (if max_bytes \<le> 0 \<or> line_bytes \<le> 0 \<or> int MAX_LINE_BYTES < line_bytes \<or> \<not> (0 \<le> backups \<and> backups \<le> int MAX_BACKUPS)
      then None
      else Some \<lparr>dl_version = safe_identifier version 64 [], dl_max_bytes = nat max_bytes, dl_backups = nat backups,
        dl_line_bytes = nat line_bytes, dl_opened = False, dl_disabled = False, dl_closed = False, dl_error = None,
        dl_log_open = False\<rparr>)"

record log_io =
  li_safe :: bool
  li_lock_ok :: bool
  li_steps :: "nat option"
  li_written :: "nat option"
  li_size_ok :: bool
  li_sync_ok :: bool
  li_truncate_ok :: bool
  li_cut :: bool

text \<open>One more file operation: \<open>None\<close> when the operating system refuses it.\<close>

fun spend :: "nat option \<Rightarrow> nat option option" where
  "spend None = Some None"
| "spend (Some 0) = None"
| "spend (Some (Suc n)) = Some (Some n)"

definition validate_entry :: "log_io \<Rightarrow> nat \<Rightarrow> log_files \<Rightarrow> nat \<Rightarrow> log_exc + bytes option" where
  "validate_entry io maximum files i =
     (case files i of
        None \<Rightarrow> Inr None
      | Some c \<Rightarrow>
          if \<not> li_safe io then Inl (DaemonLogError ''unsafe_log'')
          else if maximum < length c then Inl (DaemonLogError ''unsafe_log_size'')
          else Inr (Some c))"

fun validate_entries :: "log_io \<Rightarrow> nat \<Rightarrow> log_files \<Rightarrow> nat list \<Rightarrow> log_exc + unit" where
  "validate_entries io maximum files [] = Inr ()"
| "validate_entries io maximum files (i # is) =
     (case validate_entry io maximum files i of Inl e \<Rightarrow> Inl e | Inr _ \<Rightarrow> validate_entries io maximum files is)"

definition validate_current :: "log_io \<Rightarrow> DaemonLog \<Rightarrow> log_files \<Rightarrow> log_exc + bytes" where
  "validate_current io dl files =
     (if \<not> dl_log_open dl then Inl (DaemonLogError ''log_closed'')
      else
        (case validate_entry io (dl_max_bytes dl) files 0 of
           Inl e \<Rightarrow> Inl e
         | Inr None \<Rightarrow> Inl (DaemonLogError ''unsafe_log'')
         | Inr (Some c) \<Rightarrow> Inr c))"

text \<open>The backups move up one place, the oldest first; the second component tells whether all went well.\<close>

fun shift_backups :: "nat option \<Rightarrow> log_files \<Rightarrow> nat \<Rightarrow> nat option \<times> bool \<times> log_files" where
  "shift_backups steps files 0 = (steps, True, files)"
| "shift_backups steps files (Suc 0) = (steps, True, files)"
| "shift_backups steps files (Suc (Suc i)) =
     (case files (Suc i) of
        None \<Rightarrow>
          (case files (Suc (Suc i)) of
             None \<Rightarrow> shift_backups steps files (Suc i)
           | Some _ \<Rightarrow>
               (case spend steps of
                  None \<Rightarrow> (steps, False, files)
                | Some st \<Rightarrow> shift_backups st (files(Suc (Suc i) := None)) (Suc i)))
      | Some c \<Rightarrow>
          (case spend steps of
             None \<Rightarrow> (steps, False, files)
           | Some st \<Rightarrow> shift_backups st (files(Suc (Suc i) := Some c, Suc i := None)) (Suc i)))"

text \<open>
  \<open>_rotate\<close> after its checks: the moves, \<open>fsync\<close> of the directory, a new current file, \<open>fsync\<close> again. An
  \<open>OSError\<close> leaves the files as far as they were moved.
\<close>

definition new_current :: "nat option \<Rightarrow> log_files \<Rightarrow> bool \<times> log_files" where
  "new_current steps files =
     (case spend steps of
        None \<Rightarrow> (False, files)
      | Some steps1 \<Rightarrow>
          (case spend steps1 of
             None \<Rightarrow> (False, files)
           | Some steps2 \<Rightarrow> (spend steps2 \<noteq> None, files(0 := Some []))))"

definition move_files :: "log_io \<Rightarrow> nat \<Rightarrow> log_files \<Rightarrow> bool \<times> log_files" where
  "move_files io backups files =
     (case shift_backups (li_steps io) files backups of
        (steps, ok, files1) \<Rightarrow>
          if \<not> ok then (False, files1)
          else
            (case spend steps of
               None \<Rightarrow> (False, files1)
             | Some steps1 \<Rightarrow>
                 new_current steps1 (if backups = 0 then files1(0 := None) else files1(1 := files1 0, 0 := None))))"

definition rotate_log :: "log_io \<Rightarrow> DaemonLog \<Rightarrow> log_files \<Rightarrow> (log_exc + unit) \<times> log_files" where
  "rotate_log io dl files =
     (case validate_current io dl files of
        Inl e \<Rightarrow> (Inl e, files)
      | Inr _ \<Rightarrow>
          if \<not> li_sync_ok io then (Inl LogRaised, files)
          else
            (case validate_entries io (dl_max_bytes dl) files [1..<dl_backups dl + 1] of
               Inl e \<Rightarrow> (Inl e, files)
             | Inr _ \<Rightarrow>
                 (case move_files io (dl_backups dl) files of
                    (True, files') \<Rightarrow> (Inr (), files')
                  | (False, files') \<Rightarrow> (Inl LogRaised, files'))))"

definition disable_log :: "string \<Rightarrow> DaemonLog \<Rightarrow> DaemonLog" where
  "disable_log code dl =
     (if dl_disabled dl then dl
      else dl\<lparr>dl_disabled := True, dl_error := Some (safe_code code ''log_write_failed''), dl_log_open := False\<rparr>)"

definition exc_code :: "log_exc \<Rightarrow> string" where
  "exc_code e = (case e of DaemonLogError c \<Rightarrow> c | LogRaised \<Rightarrow> ''log_write_failed'')"

text \<open>
  The write itself, from a current file that holds \<open>before\<close>: on any failure the file is truncated to
  what it was, when the operating system allows that.
\<close>

definition write_payload :: "log_io \<Rightarrow> bool \<Rightarrow> DaemonLog \<Rightarrow> log_files \<Rightarrow> bytes \<Rightarrow> bytes \<Rightarrow> bool \<times> DaemonLog \<times> log_files" where
  "write_payload io durable dl files before payload =
     (let done_bytes = (case li_written io of None \<Rightarrow> payload | Some k \<Rightarrow> take k payload);
          failed = (li_written io \<noteq> None \<or> \<not> li_size_ok io \<or> durable \<and> \<not> li_sync_ok io)
      in if \<not> failed then (True, dl, files(0 := Some (before @ done_bytes)))
         else (False, disable_log (if li_truncate_ok io then ''log_write_failed'' else ''log_repair_failed'') dl,
               files(0 := Some (if li_truncate_ok io \<or> li_cut io then before else before @ done_bytes))))"

definition append_payload :: "log_io \<Rightarrow> bool \<Rightarrow> bytes \<Rightarrow> DaemonLog \<Rightarrow> log_files \<Rightarrow> bool \<times> DaemonLog \<times> log_files" where
  "append_payload io durable payload dl files =
     (case validate_current io dl files of
        Inl e \<Rightarrow> (False, disable_log (exc_code e) dl, files)
      | Inr c \<Rightarrow>
          if dl_max_bytes dl < length c + length payload then
            (case rotate_log io dl files of
               (Inl e, files') \<Rightarrow> (False, disable_log (exc_code e) dl, files')
             | (Inr _, files') \<Rightarrow>
                 (case validate_current io dl files' of
                    Inl e \<Rightarrow> (False, disable_log (exc_code e) dl, files')
                  | Inr c' \<Rightarrow> write_payload io durable dl files' c' payload))
          else write_payload io durable dl files c payload)"

definition append_log ::
  "log_env \<Rightarrow> log_io \<Rightarrow> log_now \<Rightarrow> pyval \<Rightarrow> bool \<Rightarrow> pydict \<Rightarrow> DaemonLog \<Rightarrow> log_files \<Rightarrow> bool \<times> DaemonLog \<times> log_files" where
  "append_log env io now event durable flds dl files =
     (if \<not> dl_opened dl \<or> dl_closed dl \<or> dl_disabled dl then (False, dl, files)
      else
        (case encode_record env (dl_line_bytes dl) (dl_max_bytes dl) (log_record env (dl_version dl) now event flds) of
           Inl e \<Rightarrow> (False, disable_log (exc_code e) dl, files)
         | Inr payload \<Rightarrow>
             append_payload io (durable \<or> text_of (dget flds ''level'') \<in> {Some (py ''error''), Some (py ''critical'')}) payload dl files))"

definition open_files :: "log_env \<Rightarrow> log_io \<Rightarrow> DaemonLog \<Rightarrow> log_files \<Rightarrow> (log_exc + unit) \<times> log_files" where
  "open_files env io dl files =
     (if \<not> li_safe io then (Inl (DaemonLogError ''unsafe_runtime''), files)
      else
        (case validate_entries io (dl_max_bytes dl) files [0..<MAX_BACKUPS + 1] of
           Inl e \<Rightarrow> (Inl e, files)
         | Inr _ \<Rightarrow>
             if \<not> li_lock_ok io then (Inl (DaemonLogError ''log_locked''), files)
             else
               (let kept = (\<lambda>i. if dl_backups dl < i \<and> i \<le> MAX_BACKUPS then None else files i);
                    current = (case kept 0 of None \<Rightarrow> [] | Some c \<Rightarrow> c)
                in case repair_current env (dl_line_bytes dl) (li_truncate_ok io) current of
                     Inl (DaemonLogError c) \<Rightarrow>
                       (Inl (DaemonLogError c),
                        kept(0 := Some (if c = ''log_repair_failed'' \<and> li_cut io
                                        then take (length current - length (trailing current)) current else current)))
                   | Inl LogRaised \<Rightarrow> (Inl (DaemonLogError ''log_open_failed''), kept(0 := Some current))
                   | Inr c \<Rightarrow> (Inr (), kept(0 := Some c)))))"

definition open_log :: "log_env \<Rightarrow> log_io \<Rightarrow> DaemonLog \<Rightarrow> log_files \<Rightarrow> (log_exc + DaemonLog) \<times> log_files" where
  "open_log env io dl files =
     (if dl_opened dl \<and> \<not> dl_closed dl then (Inr dl, files)
      else if dl_closed dl then (Inl (DaemonLogError ''log_closed''), files)
      else
        (case open_files env io dl files of
           (Inl e, files') \<Rightarrow> (Inl e, files')
         | (Inr _, files') \<Rightarrow> (Inr (dl\<lparr>dl_opened := True, dl_log_open := True\<rparr>), files')))"

definition close_log :: "DaemonLog \<Rightarrow> DaemonLog" where
  "close_log dl = (if dl_closed dl then dl else dl\<lparr>dl_closed := True, dl_log_open := False\<rparr>)"

subsection \<open>Records are valid\<close>

text \<open>What the interpreter and the clock give is what they are documented to give.\<close>

definition sound_env :: "log_env \<Rightarrow> bool" where
  "sound_env env \<longleftrightarrow> (py_int_digits (le_limits env) = 0 \<or> 10 \<le> py_int_digits (le_limits env))
     \<and> 1 \<le> py_recursion (le_limits env) \<and> (\<forall>b. ascii_text (le_hash env b))"

definition sound_now :: "log_env \<Rightarrow> log_now \<Rightarrow> bool" where
  "sound_now env now \<longleftrightarrow> ascii_text (ln_iso now) \<and> 0 < ln_pid now \<and> ln_pid now < 10 ^ 10
     \<and> list_all printable_char (le_repr env (ln_epoch now)) \<and> is_float_text (le_repr env (ln_epoch now)) (ln_epoch now)"

definition typed_field :: "pyval \<times> pyval \<Rightarrow> bool" where
  "typed_field kv \<longleftrightarrow>
     (if fst kv = pstr ''schema_version'' then snd kv = PInt SCHEMA_VERSION
      else if fst kv = pstr ''pid'' then (\<exists>i > 0. snd kv = PInt i)
      else if fst kv = pstr ''ts_epoch'' then (\<exists>r. snd kv = PFloat (Fin r))
      else if fst kv \<in> {pstr ''http_enabled'', pstr ''timed_out''} then is_bool (snd kv)
      else if fst kv \<in> {pstr ''http_port'', pstr ''count''} then strict_int (snd kv) \<noteq> None
      else is_str (snd kv))"

definition good_field :: "log_env \<Rightarrow> pyval \<times> pyval \<Rightarrow> bool" where
  "good_field env kv \<longleftrightarrow> fst kv \<in> PStr ` set ALLOWED_FIELDS \<and> typed_field kv \<and> atom_ok (le_repr env) (le_limits env) (snd kv)"

definition good_record :: "log_env \<Rightarrow> pydict \<Rightarrow> bool" where
  "good_record env d \<longleftrightarrow> distinct (map fst d) \<and> list_all (good_field env) d
     \<and> list_all (\<lambda>k. PStr k \<in> fst ` set d) REQUIRED_FIELDS"

lemma small_int:
  assumes "sound_env env" and "0 \<le> i" and "i < 10 ^ 10"
  shows "py_int (le_limits env) (int_str i) = Inr i"
  using short_int [of "le_limits env" 10 i] assms by (simp add: sound_env_def)

lemma ascii_py:
  "ascii_text (py ''unknown'')" "ascii_text (py ''info'')" "ascii_text (py ''daemon'')" "ascii_text (py ''sha256:'')"
  by (simp_all add: ascii_text_def py_def)

lemma identifier_ascii: "ascii_text dflt \<Longrightarrow> ascii_text (safe_identifier v n dflt)"
proof -
  have "c < 127" if "is_alnum c \<or> c \<in> {95, 46, 58, 45}" for c
    using that by (auto simp: is_alnum_def)
  then have "ascii_text s" if "is_identifier s" for s
    using that by (cases s) (auto simp: is_identifier_def ascii_text_def list_all_iff)
  then show "ascii_text dflt \<Longrightarrow> ascii_text (safe_identifier v n dflt)"
    by (auto simp: safe_identifier_def split: option.split)
qed

lemma session_ascii: "sound_env env \<Longrightarrow> ascii_text (session_identifier env v)"
  using ascii_py by (auto simp: session_identifier_def sound_env_def ascii_text_def list_all_iff split: option.split
      dest: in_set_takeD)

lemma field_atom:
  assumes "sound_env env" and "field_value env name v = Some w"
  shows "atom_ok (le_repr env) (le_limits env) w"
proof (cases "map_of STRING_LIMITS name")
  case (Some n)
  then show ?thesis
    using assms(2) identifier_ascii ascii_py by (auto simp: field_value_def Let_def split: if_splits)
next
  case None
  then consider s where "w = PStr (session_identifier env s)" | "is_bool w" | i where "w = PInt i" "0 \<le> i" "i \<le> 1000000000"
    using assms(2) by (fastforce simp: field_value_def split: if_splits)
  then show ?thesis
  proof cases
    case 1
    then show ?thesis using session_ascii [OF assms(1)] by simp
  next
    case 2
    then show ?thesis by (cases w) auto
  next
    case 3
    then show ?thesis using small_int [OF assms(1)] by simp
  qed
qed

lemma field_typed:
  assumes "field_value env name v = Some w" and "name \<in> set OPTIONAL_FIELDS"
  shows "typed_field (PStr name, w)"
proof -
  have "\<forall>name \<in> set OPTIONAL_FIELDS. \<forall>w. field_value env name v = Some w \<longrightarrow> typed_field (PStr name, w)"
    by (simp add: OPTIONAL_FIELDS_def field_value_def typed_field_def STRING_LIMITS_def Let_def is_str_def py_def) auto
  with assms show ?thesis by blast
qed

lemma add_field_good:
  assumes "sound_env env" and "name \<in> set OPTIONAL_FIELDS" and "good_record env d"
  shows "good_record env (add_field env flds d name)"
proof (cases "\<exists>v w. map_of flds (PStr name) = Some v \<and> field_value env name v = Some w")
  case True
  then obtain v w where w: "map_of flds (PStr name) = Some v" "field_value env name v = Some w" by blast
  have "good_field env (PStr name, w)"
    using field_atom [OF assms(1) w(2)] field_typed [OF w(2) assms(2)] assms(2) by (simp add: good_field_def ALLOWED_FIELDS_def)
  then show ?thesis
    using assms(3) w list_all_dict_set [of "good_field env" d "PStr name" w]
    by (simp add: good_record_def add_field_def dict_set_fst list_all_iff [of _ REQUIRED_FIELDS] dict_set_keys)
next
  case False
  then have "add_field env flds d name = d" by (auto simp: add_field_def split: option.split)
  with assms(3) show ?thesis by simp
qed

lemma base_record_good:
  assumes "sound_env env" and "sound_now env now" and "ascii_text version"
  shows "good_record env (base_record version now event)"
proof -
  have "atom_ok (le_repr env) (le_limits env) (snd kv)" if "kv \<in> set (base_record version now event)" for kv
    using that assms small_int [OF assms(1)] identifier_ascii [OF ascii_py(1)] ascii_py
    by (auto simp: base_record_def sound_now_def SCHEMA_VERSION_def)
  moreover have "typed_field kv \<and> fst kv \<in> PStr ` set ALLOWED_FIELDS" if "kv \<in> set (base_record version now event)" for kv
    using that assms(2)
    by (auto simp: base_record_def typed_field_def sound_now_def is_str_def ALLOWED_FIELDS_def REQUIRED_FIELDS_def py_def)
  ultimately have "list_all (good_field env) (base_record version now event)"
    by (simp add: list_all_iff good_field_def)
  moreover have "list_all (\<lambda>k. PStr k \<in> fst ` set (base_record version now event)) REQUIRED_FIELDS"
    by (simp add: base_record_def REQUIRED_FIELDS_def)
  moreover have "distinct (map fst (base_record version now event))"
    by (simp add: base_record_def py_def)
  ultimately show ?thesis by (simp add: good_record_def)
qed

lemma log_record_good:
  assumes "sound_env env" and "sound_now env now" and "ascii_text version"
  shows "good_record env (log_record env version now event flds)"
proof -
  have "good_record env (foldl (add_field env flds) d names)" if "good_record env d" "set names \<subseteq> set OPTIONAL_FIELDS" for d names
    using that by (induction names arbitrary: d) (auto intro: add_field_good [OF assms(1)])
  then show ?thesis
    using base_record_good [OF assms] by (simp add: log_record_def)
qed

lemma typed_get:
  assumes "good_record env d" and "k \<in> set REQUIRED_FIELDS"
  shows "typed_field (PStr k, dict_get d k)"
proof -
  obtain v where "(PStr k, v) \<in> set d"
    using assms by (auto simp: good_record_def list_all_iff)
  moreover from this have "dict_get d k = v"
    using assms(1) by (simp add: good_record_def dict_get_def)
  ultimately show ?thesis
    using assms(1) by (auto simp: good_record_def list_all_iff good_field_def)
qed

lemma good_record_order: "good_record env (in_dump_order opts d) = good_record env d"
  using in_dump_order_set [of opts d] by (simp add: good_record_def in_dump_order_distinct list_all_iff)

lemma validate_good:
  assumes "good_record env d"
  shows "validate_record d = Inr ()"
proof -
  have t: "typed_field (PStr k, dict_get d k)" if "k \<in> set REQUIRED_FIELDS" for k
    using typed_get [OF assms that] .
  have s: "strict_int (dget d ''schema_version'') = Some SCHEMA_VERSION" "is_str (dget d ''ts'')"
    "\<exists>i > 0. dget d ''pid'' = PInt i" "\<exists>r. dget d ''ts_epoch'' = PFloat (Fin r)"
    "list_all (\<lambda>k. is_str (dget d k)) [''component'', ''event'', ''level'', ''version'']"
    using t [of "py ''schema_version''"] t [of "py ''ts''"] t [of "py ''pid''"] t [of "py ''ts_epoch''"]
      t [of "py ''component''"] t [of "py ''event''"] t [of "py ''level''"] t [of "py ''version''"]
    by (simp_all add: typed_field_def REQUIRED_FIELDS_def py_def)
  have "header_ok d"
    using assms s(1-3) by (auto simp: header_ok_def good_record_def good_field_def list_all_iff)
  moreover have "optional_ok kv" if "kv \<in> set d" for kv
  proof -
    have "fst kv \<in> PStr ` set REQUIRED_FIELDS \<or> fst kv \<notin> {pstr ''schema_version'', pstr ''pid'', pstr ''ts_epoch''}"
      by (auto simp: REQUIRED_FIELDS_def)
    moreover have "typed_field kv" using assms that by (simp add: good_record_def good_field_def list_all_iff)
    ultimately show ?thesis by (auto simp: optional_ok_def typed_field_def)
  qed
  ultimately show ?thesis
    using s(4,5) by (auto simp: validate_record_def finite_number_def list_all_iff [of _ d])
qed

lemma good_keys: "good_record env d \<Longrightarrow> atom_record (le_repr env) (le_limits env) d"
proof -
  have "list_all ascii_text ALLOWED_FIELDS"
    by (simp add: ALLOWED_FIELDS_def REQUIRED_FIELDS_def OPTIONAL_FIELDS_def ascii_text_def py_def)
  then show "good_record env d \<Longrightarrow> ?thesis"
    by (auto simp: good_record_def good_field_def atom_record_def list_all_iff)
qed

lemma good_loads:
  assumes "sound_env env" and "good_record env d"
  shows "\<exists>t. json_dumps log_opts (le_repr env) (PDict d) = Inr t \<and> list_all printable_char t
    \<and> json_loads (le_limits env) t = Inr (PDict (in_dump_order sorted_opts d))"
proof -
  have "distinct (map fst d)" "1 \<le> py_recursion (le_limits env)" "sort_keys log_opts"
    using assms by (simp_all add: good_record_def sound_env_def log_opts_def)
  with record_loads [OF good_keys [OF assms(2)] _ plain_faithful] show ?thesis
    unfolding json_loads_def by blast
qed

lemma encoded_line:
  assumes "sound_env env" and "good_record env d" and "encode_record env n m d = Inr payload"
  shows "\<exists>raw. payload = raw @ [NL] \<and> NL \<notin> set raw \<and> length payload \<le> min n m \<and> validate_record_line env n raw = Inr ()"
proof -
  obtain t where t: "json_dumps log_opts (le_repr env) (PDict d) = Inr t" "list_all printable_char t"
    "json_loads (le_limits env) t = Inr (PDict (in_dump_order sorted_opts d))"
    using good_loads [OF assms(1,2)] by blast
  have ascii: "list_all (\<lambda>c. c < 128) t" by (rule printable_ascii [OF t(2)])
  let ?raw = "map of_nat t :: bytes"
  have p: "payload = ?raw @ [NL]" "length payload \<le> min n m"
    using assms(3) t(1) ascii by (auto simp: encode_record_def encode_ascii_def Let_def split: if_splits)
  have "NL \<notin> set ?raw"
    by (rule printable_no_break(1) [OF t(2)])
  moreover have "?raw \<noteq> []"
    using t(3) by (auto simp: json_eval)
  moreover have "validate_record (in_dump_order sorted_opts d) = Inr ()"
    using assms(2) by (intro validate_good) (simp add: good_record_order)
  ultimately have "validate_record_line env n ?raw = Inr ()"
    using p t(3) decode_encode_ascii [OF ascii] by (simp add: validate_record_line_def)
  with p \<open>NL \<notin> set ?raw\<close> show ?thesis by blast
qed

subsection \<open>The files stay recoverable\<close>

definition clean :: "log_env \<Rightarrow> nat \<Rightarrow> bytes \<Rightarrow> bool" where
  "clean env n c \<longleftrightarrow> validate_lines env n (complete_lines c) = Inr () \<and> trailing c = []"

definition recoverable :: "log_env \<Rightarrow> nat \<Rightarrow> bytes \<Rightarrow> bool" where
  "recoverable env n c \<longleftrightarrow> validate_lines env n (complete_lines c) = Inr () \<and> length (trailing c) < n"

definition complete_part :: "bytes \<Rightarrow> bytes" where
  "complete_part c = take (length c - length (trailing c)) c"

text \<open>What \<open>append\<close> writes: one valid line.\<close>

definition line_payload :: "log_env \<Rightarrow> nat \<Rightarrow> bytes \<Rightarrow> bool" where
  "line_payload env n p \<longleftrightarrow> (\<exists>raw. p = raw @ [NL] \<and> NL \<notin> set raw \<and> length p \<le> n \<and> validate_record_line env n raw = Inr ())"

lemma validate_lines_append:
  "validate_lines env n (xs @ ys) = Inr () \<longleftrightarrow> validate_lines env n xs = Inr () \<and> validate_lines env n ys = Inr ()"
  by (induction xs) (auto split: sum.splits)

lemma clean_recoverable: "clean env n c \<Longrightarrow> 0 < n \<Longrightarrow> recoverable env n c"
  by (simp add: clean_def recoverable_def)

lemma clean_append:
  assumes "clean env n c" and "line_payload env n p"
  shows "clean env n (c @ p)"
proof -
  obtain raw where raw: "p = raw @ [NL]" "NL \<notin> set raw" "validate_record_line env n raw = Inr ()"
    using assms(2) by (auto simp: line_payload_def)
  have "complete_lines (c @ p) = complete_lines c @ [raw]" "trailing (c @ p) = []"
    using assms(1) raw(1) complete_lines_NL [OF raw(2), of "[]"]
    by (simp_all add: clean_def complete_lines_append [of c] trailing_append)
  with assms(1) raw(3) show ?thesis by (simp add: clean_def validate_lines_append)
qed

lemma partial_append:
  assumes "clean env n c" and "line_payload env n p" and "0 < n"
  shows "recoverable env n (c @ take k p)"
proof -
  obtain raw where raw: "p = raw @ [NL]" "NL \<notin> set raw" "length p \<le> n"
    using assms(2) by (auto simp: line_payload_def)
  show ?thesis
  proof (cases "length p \<le> k")
    case True
    then show ?thesis using clean_recoverable [OF clean_append [OF assms(1,2)] assms(3)] by simp
  next
    case False
    then have t: "take k p = take k raw" using raw(1) by simp
    have nl: "NL \<notin> set (take k raw)" using raw(2) by (auto dest: in_set_takeD)
    have "complete_lines (c @ take k p) = complete_lines c" "trailing (c @ take k p) = take k raw"
      using assms(1) nl by (simp_all add: t clean_def complete_lines_append [of c] trailing_append no_NL)
    with assms(1) raw(1,3) show ?thesis by (simp add: clean_def recoverable_def)
  qed
qed

lemma repair_recovers:
  assumes "recoverable env n c"
  shows "repair_current env n True c = Inr (complete_part c)"
  using assms by (auto simp: repair_current_def recoverable_def complete_part_def Let_def)

lemma complete_part_lines: "complete_lines (complete_part c) = complete_lines c \<and> trailing (complete_part c) = []"
proof (induction c rule: line_induct)
  case (part s)
  then show ?case by (simp add: complete_part_def no_NL)
next
  case (line l r)
  have "Suc (length r) - length (trailing r) = Suc (length r - length (trailing r))"
    using length_trailing [of r] by simp
  then have "complete_part (l @ NL # r) = l @ NL # complete_part r"
    using line(1) length_trailing [of r] by (simp add: complete_part_def complete_lines_NL)
  with line show ?case by (simp add: complete_lines_NL)
qed

lemma complete_part_clean: "recoverable env n c \<Longrightarrow> clean env n (complete_part c)"
  using complete_part_lines [of c] by (simp add: clean_def recoverable_def)

definition active :: "DaemonLog \<Rightarrow> bool" where
  "active dl \<longleftrightarrow> dl_opened dl \<and> \<not> dl_closed dl \<and> \<not> dl_disabled dl"

definition sized :: "nat \<Rightarrow> log_files \<Rightarrow> bool" where
  "sized m files \<longleftrightarrow> (\<forall>i c. i \<le> MAX_BACKUPS \<longrightarrow> files i = Some c \<longrightarrow> length c \<le> m)"

definition trimmed :: "nat \<Rightarrow> log_files \<Rightarrow> bool" where
  "trimmed backups files \<longleftrightarrow> (\<forall>i. backups < i \<longrightarrow> i \<le> MAX_BACKUPS \<longrightarrow> files i = None)"

definition log_inv :: "log_env \<Rightarrow> DaemonLog \<Rightarrow> log_files \<Rightarrow> bool" where
  "log_inv env dl files \<longleftrightarrow> 0 < dl_line_bytes dl \<and> sized (dl_max_bytes dl) files \<and> trimmed (dl_backups dl) files
     \<and> (\<forall>c. files 0 = Some c \<longrightarrow> recoverable env (dl_line_bytes dl) c)
     \<and> (active dl \<longrightarrow> (\<exists>c. files 0 = Some c \<and> clean env (dl_line_bytes dl) c))"

lemma moved_keeps:
  assumes "sized m files" and "trimmed b files" and "Suc j \<le> b" and "files j = Some c"
  shows "sized m (files(Suc j := Some c, j := None)) \<and> trimmed b (files(Suc j := Some c, j := None))"
proof -
  have "length c \<le> m" if "Suc j \<le> MAX_BACKUPS"
    using assms(1,4) Suc_leD [OF that] by (simp add: sized_def)
  with assms show ?thesis by (simp add: sized_def trimmed_def)
qed

lemma shift_backups_keeps:
  assumes "shift_backups steps files i = (steps', ok, files')" and "sized m files" and "i \<le> b" and "trimmed b files"
  shows "sized m files' \<and> trimmed b files' \<and> files' 0 = files 0"
  using assms
proof (induction steps files i rule: shift_backups.induct)
  case (3 steps files i)
  show ?case
  proof (cases "files (Suc i)")
    case None
    show ?thesis
    proof (cases "files (Suc (Suc i))")
      case (Some c)
      show ?thesis
      proof (cases "spend steps")
        case (Some st)
        have "sized m (files(Suc (Suc i) := None))" "trimmed b (files(Suc (Suc i) := None))"
          using "3.prems" by (auto simp: sized_def trimmed_def)
        moreover have "shift_backups st (files(Suc (Suc i) := None)) (Suc i) = (steps', ok, files')"
          using "3.prems"(1) None Some \<open>files (Suc (Suc i)) = Some c\<close> by simp
        ultimately have "sized m files' \<and> trimmed b files' \<and> files' 0 = (files(Suc (Suc i) := None)) 0"
          using "3.IH"(2) [OF None \<open>files (Suc (Suc i)) = Some c\<close> Some] "3.prems"(3) by (meson Suc_leD)
        then show ?thesis by simp
      qed (use "3.prems" None Some in auto)
    qed (use "3.prems" "3.IH"(1) None in auto)
  next
    case c: (Some c)
    show ?thesis
    proof (cases "spend steps")
      case (Some st)
      have "sized m (files(Suc (Suc i) := Some c, Suc i := None))" "trimmed b (files(Suc (Suc i) := Some c, Suc i := None))"
        using moved_keeps [OF "3.prems"(2,4) "3.prems"(3) c] by blast+
      moreover have "shift_backups st (files(Suc (Suc i) := Some c, Suc i := None)) (Suc i) = (steps', ok, files')"
        using "3.prems"(1) c Some by simp
      ultimately have "sized m files' \<and> trimmed b files' \<and> files' 0 = (files(Suc (Suc i) := Some c, Suc i := None)) 0"
        using "3.IH"(3) [OF c Some] "3.prems"(3) by (meson Suc_leD)
      then show ?thesis by simp
    qed (use "3.prems" c in auto)
  qed
qed auto

lemma new_current_keeps:
  assumes "new_current steps files = (ok, files')" and "sized m files" and "trimmed b files" and "files 0 = None"
  shows "sized m files' \<and> trimmed b files' \<and> files' 0 \<in> {None, Some []} \<and> (ok \<longrightarrow> files' 0 = Some [])"
  using assms by (auto simp: new_current_def sized_def trimmed_def split: option.splits if_splits)

lemma move_files_keeps:
  assumes "move_files io b files = (ok, files')" and "sized m files" and "trimmed b files"
  shows "sized m files' \<and> trimmed b files' \<and> files' 0 \<in> {files 0, None, Some []} \<and> (ok \<longrightarrow> files' 0 = Some [])"
proof -
  obtain steps ok1 files1 where f1: "shift_backups (li_steps io) files b = (steps, ok1, files1)"
    by (metis prod_cases3)
  have k1: "sized m files1" "trimmed b files1" "files1 0 = files 0"
    using shift_backups_keeps [OF f1 assms(2) order_refl assms(3)] by auto
  show ?thesis
  proof (cases "ok1 \<and> spend steps \<noteq> None")
    case False
    then show ?thesis using assms(1) f1 k1 by (auto simp: move_files_def split: if_splits option.splits)
  next
    case True
    then obtain st where st: "spend steps = Some st" by auto
    let ?f = "if b = 0 then files1(0 := None) else files1(1 := files1 0, 0 := None)"
    have n: "new_current st ?f = (ok, files')"
      using assms(1) f1 True st by (simp add: move_files_def)
    have "sized m ?f" "trimmed b ?f" "?f 0 = None"
      using k1 by (auto simp: sized_def trimmed_def)
    from new_current_keeps [OF n this] show ?thesis by auto
  qed
qed

lemma rotate_keeps:
  assumes "rotate_log io dl files = (r, files')" and "sized m files" and "trimmed (dl_backups dl) files"
  shows "sized m files' \<and> trimmed (dl_backups dl) files' \<and> files' 0 \<in> {files 0, None, Some []} \<and> (r = Inr () \<longrightarrow> files' 0 = Some [])"
proof -
  obtain ok f where m: "move_files io (dl_backups dl) files = (ok, f)" by fastforce
  from assms(1) have "files' = files \<and> r \<noteq> Inr () \<or> files' = f \<and> (r = Inr () \<longrightarrow> ok)"
    by (auto simp: rotate_log_def m split: sum.splits if_splits bool.splits)
  with move_files_keeps [OF m assms(2,3)] assms(2,3) show ?thesis by auto
qed

lemma disable_fields [simp]:
  "dl_line_bytes (disable_log code dl) = dl_line_bytes dl" "dl_max_bytes (disable_log code dl) = dl_max_bytes dl"
  "dl_backups (disable_log code dl) = dl_backups dl" "dl_version (disable_log code dl) = dl_version dl"
  "active (disable_log code dl) = False"
  by (simp_all add: disable_log_def active_def)

lemma inv_disabled:
  assumes "log_inv env dl files" and "sized (dl_max_bytes dl) files'" and "trimmed (dl_backups dl) files'"
    and "files' 0 \<in> {files 0, None, Some []}"
  shows "log_inv env (disable_log code dl) files'"
  using assms by (auto simp: log_inv_def recoverable_def)

lemma write_inv:
  assumes "write_payload io durable dl files c p = (ok, dl', files')" and "clean env (dl_line_bytes dl) c"
    and "line_payload env (dl_line_bytes dl) p" and "0 < dl_line_bytes dl" and "length c + length p \<le> dl_max_bytes dl"
    and "sized (dl_max_bytes dl) files" and "trimmed (dl_backups dl) files"
  shows "log_inv env dl' files' \<and> dl_line_bytes dl' = dl_line_bytes dl \<and> dl_max_bytes dl' = dl_max_bytes dl
    \<and> dl_backups dl' = dl_backups dl \<and> dl_version dl' = dl_version dl"
proof -
  let ?n = "dl_line_bytes dl"
  let ?d = "case li_written io of None \<Rightarrow> p | Some k \<Rightarrow> take k p"
  have rec: "recoverable env ?n (c @ ?d)" "recoverable env ?n c" "length (c @ ?d) \<le> dl_max_bytes dl"
    using partial_append [OF assms(2,3,4)] clean_recoverable [OF clean_append [OF assms(2,3)] assms(4)]
      clean_recoverable [OF assms(2,4)] assms(5) by (auto split: option.split)
  have cl: "clean env ?n (c @ ?d)" if "li_written io = None"
    using that clean_append [OF assms(2,3)] by simp
  have set0: "log_inv env d (files(0 := Some x))"
    if "length x \<le> dl_max_bytes dl" "recoverable env ?n x" "active d \<longrightarrow> clean env ?n x" "d = dl \<or> (\<exists>code. d = disable_log code dl)" for x d
    using that assms(4,6,7) by (auto simp: log_inv_def sized_def trimmed_def)
  have len: "length c \<le> dl_max_bytes dl" using assms(5) by simp
  consider "li_written io = None" "dl' = dl" "files' = files(0 := Some (c @ ?d))"
    | code where "dl' = disable_log code dl" "files' = files(0 := Some c) \<or> files' = files(0 := Some (c @ ?d))"
    using assms(1) by (auto simp: write_payload_def Let_def split: if_splits)
  then show ?thesis
  proof cases
    case 1
    then show ?thesis using set0 [OF rec(3,1)] cl by simp
  next
    case 2
    then have "log_inv env dl' files'"
      using set0 [OF rec(3,1), of dl'] set0 [OF len rec(2), of dl'] by auto
    with 2 show ?thesis by simp
  qed
qed

definition same_config :: "DaemonLog \<Rightarrow> DaemonLog \<Rightarrow> bool" where
  "same_config dl dl' \<longleftrightarrow> dl_line_bytes dl' = dl_line_bytes dl \<and> dl_max_bytes dl' = dl_max_bytes dl
     \<and> dl_backups dl' = dl_backups dl \<and> dl_version dl' = dl_version dl"

lemma validate_current_file: "validate_current io dl files = Inr c \<Longrightarrow> files 0 = Some c"
  by (auto simp: validate_current_def validate_entry_def split: if_splits sum.splits option.splits)

lemma append_payload_inv:
  assumes "append_payload io durable p dl files = (ok, dl', files')" and "log_inv env dl files" and "active dl"
    and "line_payload env (dl_line_bytes dl) p" and "length p \<le> dl_max_bytes dl"
  shows "log_inv env dl' files' \<and> same_config dl dl'"
proof -
  have inv: "sized (dl_max_bytes dl) files" "trimmed (dl_backups dl) files" "0 < dl_line_bytes dl"
    using assms(2) by (auto simp: log_inv_def)
  have dis: "log_inv env (disable_log code dl) f \<and> same_config dl (disable_log code dl)"
    if "sized (dl_max_bytes dl) f" "trimmed (dl_backups dl) f" "f 0 \<in> {files 0, None, Some []}" for code f
    using inv_disabled [OF assms(2) that] by (simp add: same_config_def)
  show ?thesis
  proof (cases "validate_current io dl files")
    case (Inl e)
    then show ?thesis using assms(1) dis [of files] inv by (auto simp: append_payload_def)
  next
    case (Inr c)
    then have c: "clean env (dl_line_bytes dl) c"
      using validate_current_file [OF Inr] assms(2,3) by (auto simp: log_inv_def)
    show ?thesis
    proof (cases "dl_max_bytes dl < length c + length p")
      case False
      then have "write_payload io durable dl files c p = (ok, dl', files')"
        using assms(1) Inr by (simp add: append_payload_def)
      from write_inv [OF this c assms(4) inv(3) _ inv(1,2)] False show ?thesis by (simp add: same_config_def)
    next
      case True
      obtain r f where r: "rotate_log io dl files = (r, f)" by fastforce
      have k: "sized (dl_max_bytes dl) f" "trimmed (dl_backups dl) f" "f 0 \<in> {files 0, None, Some []}" "r = Inr () \<longrightarrow> f 0 = Some []"
        using rotate_keeps [OF r inv(1,2)] by auto
      show ?thesis
      proof (cases "\<exists>x c'. r = Inr x \<and> validate_current io dl f = Inr c'")
        case False
        then obtain code where "dl' = disable_log code dl" "files' = f"
          using assms(1) Inr True r by (fastforce simp: append_payload_def split: sum.splits)
        then show ?thesis using dis [OF k(1-3)] by simp
      next
        case True
        then obtain x c' where x: "r = Inr x" "validate_current io dl f = Inr c'" by blast
        then have "c' = []" using validate_current_file k(4) by fastforce
        moreover have "write_payload io durable dl f c' p = (ok, dl', files')"
          using assms(1) Inr \<open>dl_max_bytes dl < length c + length p\<close> r x by (simp add: append_payload_def)
        ultimately show ?thesis
          using write_inv [of io durable dl f "[]" p ok dl' files' env] assms(4,5) inv(3) k(1,2)
          by (simp add: same_config_def clean_def)
      qed
    qed
  qed
qed

lemma append_inv:
  assumes "append_log env io now event durable flds dl files = (ok, dl', files')" and "log_inv env dl files"
    and "sound_env env" and "sound_now env now" and "ascii_text (dl_version dl)"
  shows "log_inv env dl' files' \<and> same_config dl dl'"
proof (cases "active dl")
  case False
  then show ?thesis using assms(1,2) by (auto simp: append_log_def active_def same_config_def)
next
  case True
  let ?e = "encode_record env (dl_line_bytes dl) (dl_max_bytes dl) (log_record env (dl_version dl) now event flds)"
  show ?thesis
  proof (cases ?e)
    case (Inl e)
    then have "dl' = disable_log (exc_code e) dl" "files' = files"
      using assms(1) True by (auto simp: append_log_def active_def)
    then show ?thesis
      using inv_disabled [OF assms(2), of files] assms(2) by (simp add: log_inv_def same_config_def)
  next
    case (Inr p)
    have "\<exists>durable. append_payload io durable p dl files = (ok, dl', files')"
      using assms(1) True Inr by (auto simp: append_log_def active_def)
    moreover have "line_payload env (dl_line_bytes dl) p" "length p \<le> dl_max_bytes dl"
      using encoded_line [OF assms(3) log_record_good [OF assms(3-5)] Inr] by (auto simp: line_payload_def)
    ultimately show ?thesis
      using append_payload_inv assms(2) True by blast
  qed
qed

record log_call =
  lc_io :: log_io
  lc_now :: log_now
  lc_event :: pyval
  lc_durable :: bool
  lc_fields :: pydict

fun run_appends :: "log_env \<Rightarrow> log_call list \<Rightarrow> DaemonLog \<Rightarrow> log_files \<Rightarrow> DaemonLog \<times> log_files" where
  "run_appends env [] dl files = (dl, files)"
| "run_appends env (c # cs) dl files =
     (case append_log env (lc_io c) (lc_now c) (lc_event c) (lc_durable c) (lc_fields c) dl files of
        (_, dl', files') \<Rightarrow> run_appends env cs dl' files')"

lemma run_appends_inv:
  assumes "run_appends env cs dl files = (dl', files')" and "log_inv env dl files" and "sound_env env"
    and "list_all (\<lambda>c. sound_now env (lc_now c)) cs" and "ascii_text (dl_version dl)"
  shows "log_inv env dl' files' \<and> same_config dl dl'"
  using assms
proof (induction cs arbitrary: dl files)
  case (Cons c cs)
  obtain ok d f where a: "append_log env (lc_io c) (lc_now c) (lc_event c) (lc_durable c) (lc_fields c) dl files = (ok, d, f)"
    by (metis prod_cases3)
  have "log_inv env d f \<and> same_config dl d"
    using append_inv [OF a] Cons.prems by simp
  with Cons.IH [of d f] Cons.prems a show ?case by (simp add: same_config_def)
qed (simp add: same_config_def)

lemma validate_entries_iff:
  assumes "li_safe io"
  shows "validate_entries io m files is = Inr () \<longleftrightarrow> (\<forall>i \<in> set is. \<forall>c. files i = Some c \<longrightarrow> length c \<le> m)"
  using assms by (induction "is") (auto simp: validate_entry_def split: option.splits)

lemma open_files_inv:
  assumes "open_files env io dl files = (Inr (), files')" and "0 < dl_line_bytes dl"
  shows "sized (dl_max_bytes dl) files' \<and> trimmed (dl_backups dl) files' \<and> (\<exists>c. files' 0 = Some c \<and> clean env (dl_line_bytes dl) c)"
proof -
  let ?kept = "\<lambda>i. if dl_backups dl < i \<and> i \<le> MAX_BACKUPS then None else files i"
  let ?cur = "case ?kept 0 of None \<Rightarrow> [] | Some c \<Rightarrow> c"
  obtain c where io: "li_safe io" "validate_entries io (dl_max_bytes dl) files [0..<MAX_BACKUPS + 1] = Inr ()"
    and rep: "repair_current env (dl_line_bytes dl) (li_truncate_ok io) ?cur = Inr c" "files' = ?kept(0 := Some c)"
    using assms(1) by (auto simp: open_files_def Let_def split: if_splits sum.splits log_exc.splits)
  have sz: "\<forall>i \<le> MAX_BACKUPS. \<forall>c. files i = Some c \<longrightarrow> length c \<le> dl_max_bytes dl"
    using io validate_entries_iff [OF io(1), of "dl_max_bytes dl" files "[0..<MAX_BACKUPS + 1]"] by auto
  then have "length ?cur \<le> dl_max_bytes dl" by (auto split: option.split)
  moreover have "c = ?cur \<or> c = complete_part ?cur" "clean env (dl_line_bytes dl) c"
    using rep(1) complete_part_lines [of ?cur]
    by (auto simp: repair_current_def complete_part_def clean_def Let_def split: if_splits sum.splits)
  ultimately have "length c \<le> dl_max_bytes dl" by (auto simp: complete_part_def)
  with sz rep(2) \<open>clean env (dl_line_bytes dl) c\<close> show ?thesis by (auto simp: sized_def trimmed_def)
qed

text \<open>
  C21: The log accepts what it writes: the line of every record that \<open>append\<close> encodes, whatever event and fields
  the caller gives, is one line of printable ASCII within the bound that passes the validation of \<open>open\<close>.
\<close>

theorem logged_record_validates:
  assumes "sound_env env" and "sound_now env now" and "ascii_text version"
    and "encode_record env n m (log_record env version now event flds) = Inr payload"
  shows "\<exists>raw. payload = raw @ [NL] \<and> NL \<notin> set raw \<and> length payload \<le> min n m \<and> validate_record_line env n raw = Inr ()"
  using encoded_line [OF assms(1) log_record_good [OF assms(1-3)] assms(4)] .

text \<open>
  C5: Whatever happens while the daemon logs, its log can be opened again: after a successful \<open>open\<close> and any
  sequence of appends, in which any write may fail after any number of bytes, any rotation stop half-way and any
  \<open>fsync\<close> or \<open>ftruncate\<close> fail, a later \<open>open\<close> of the same directory succeeds, keeps every complete line of the
  current file and cuts only the unfinished last one, and leaves the rotated files as they are; no file is larger
  than the bound.
\<close>

theorem log_survives_crash:
  assumes "open_log env io\<^sub>0 dl files\<^sub>0 = (Inr dl\<^sub>1, files\<^sub>1)" and "\<not> dl_opened dl" and "\<not> dl_closed dl" and "\<not> dl_disabled dl"
    and "0 < dl_line_bytes dl" and "ascii_text (dl_version dl)" and "sound_env env"
    and "list_all (\<lambda>c. sound_now env (lc_now c)) calls" and "run_appends env calls dl\<^sub>1 files\<^sub>1 = (dl\<^sub>2, files\<^sub>2)"
    and "li_safe io" and "li_lock_ok io" and "li_truncate_ok io"
  shows "open_log env io dl files\<^sub>2 =
      (Inr dl\<^sub>1, files\<^sub>2(0 := Some (complete_part (case files\<^sub>2 0 of None \<Rightarrow> [] | Some c \<Rightarrow> c))))
    \<and> sized (dl_max_bytes dl) files\<^sub>2"
proof -
  obtain r where r: "open_files env io\<^sub>0 dl files\<^sub>0 = (Inr (), files\<^sub>1)" and dl1: "dl\<^sub>1 = dl\<lparr>dl_opened := True, dl_log_open := True\<rparr>"
    using assms(1-3) by (auto simp: open_log_def split: prod.splits sum.splits)
  have "log_inv env dl\<^sub>1 files\<^sub>1"
    using open_files_inv [OF r assms(5)] assms(5) clean_recoverable by (auto simp: dl1 log_inv_def)
  then have inv: "log_inv env dl\<^sub>2 files\<^sub>2" "same_config dl dl\<^sub>2"
    using run_appends_inv [OF assms(9) _ assms(7,8)] assms(6) by (auto simp: dl1 same_config_def)
  then have sz: "sized (dl_max_bytes dl) files\<^sub>2" and tr: "trimmed (dl_backups dl) files\<^sub>2"
    by (auto simp: log_inv_def same_config_def)
  have kept: "(\<lambda>i. if dl_backups dl < i \<and> i \<le> MAX_BACKUPS then None else files\<^sub>2 i) = files\<^sub>2"
    using tr by (auto simp: trimmed_def)
  let ?cur = "case files\<^sub>2 0 of None \<Rightarrow> [] | Some c \<Rightarrow> c"
  have "recoverable env (dl_line_bytes dl) ?cur"
    using inv assms(5) by (auto simp: log_inv_def same_config_def recoverable_def split: option.split)
  then have rep: "repair_current env (dl_line_bytes dl) True ?cur = Inr (complete_part ?cur)"
    by (rule repair_recovers)
  have "i \<le> MAX_BACKUPS" if "i \<in> set [0..<MAX_BACKUPS + 1]" for i
    using that unfolding set_upt atLeastLessThan_iff by linarith
  then have val: "validate_entries io (dl_max_bytes dl) files\<^sub>2 [0..<MAX_BACKUPS + 1] = Inr ()"
    using sz unfolding validate_entries_iff [OF assms(10)] sized_def by blast
  have "open_files env io dl files\<^sub>2 = (Inr (), files\<^sub>2(0 := Some (complete_part ?cur)))"
    unfolding open_files_def kept val Let_def using rep assms(10-12) by simp
  with sz show ?thesis
    using assms(2,3) by (simp add: open_log_def dl1)
qed

subsection \<open>Instances\<close>

definition ex_log_env :: log_env where
  "ex_log_env = \<lparr>le_limits = \<lparr>py_recursion = 100, py_int_digits = 4300\<rparr>, le_hash = (\<lambda>_. []), le_repr = (\<lambda>_. py ''1.0'')\<rparr>"

definition ex_log_now :: log_now where
  "ex_log_now = \<lparr>ln_iso = py ''1970-01-01T00:00:01.000Z'', ln_epoch = 1, ln_pid = 7\<rparr>"

definition ex_log :: DaemonLog where
  "ex_log = \<lparr>dl_version = py ''0.1'', dl_max_bytes = 4096, dl_backups = 1, dl_line_bytes = 1024, dl_opened = False,
     dl_disabled = False, dl_closed = False, dl_error = None, dl_log_open = False\<rparr>"

definition ex_log_io :: log_io where
  "ex_log_io = \<lparr>li_safe = True, li_lock_ok = True, li_steps = None, li_written = None, li_size_ok = True, li_sync_ok = True,
     li_truncate_ok = True, li_cut = True\<rparr>"

definition ex_log_call :: log_call where
  "ex_log_call = \<lparr>lc_io = ex_log_io\<lparr>li_written := Some 3, li_truncate_ok := False, li_cut := False\<rparr>, lc_now = ex_log_now,
     lc_event = pstr ''started'', lc_durable = True, lc_fields = []\<rparr>"

lemma ex_sound: "sound_env ex_log_env" "sound_now ex_log_env ex_log_now" "ascii_text (py ''0.1'')"
  using float_text_one
  by (simp_all add: sound_env_def sound_now_def ex_log_env_def ex_log_now_def ascii_text_def printable_char_def py_def)

theorem logged_record_validates_witness:
  "\<exists>n payload raw. encode_record ex_log_env n n (log_record ex_log_env (py ''0.1'') ex_log_now (pstr ''started'') []) = Inr payload
    \<and> payload = raw @ [NL] \<and> validate_record_line ex_log_env n raw = Inr ()"
proof -
  let ?d = "log_record ex_log_env (py ''0.1'') ex_log_now (pstr ''started'') []"
  obtain t where t: "json_dumps log_opts (le_repr ex_log_env) (PDict ?d) = Inr t" "list_all printable_char t"
    using good_loads [OF ex_sound(1) log_record_good [OF ex_sound]] by blast
  then have "list_all (\<lambda>c. c < 128) t" by (auto simp: list_all_iff printable_char_def)
  with t have "encode_record ex_log_env (length t + 1) (length t + 1) ?d = Inr (map of_nat t @ [NL])"
    by (simp add: encode_record_def encode_ascii_def Let_def)
  from logged_record_validates [OF ex_sound this] this show ?thesis by blast
qed

theorem log_survives_crash_witness:
  "\<exists>dl\<^sub>1 files\<^sub>1 dl\<^sub>2 files\<^sub>2 files\<^sub>3. open_log ex_log_env ex_log_io ex_log (\<lambda>_. None) = (Inr dl\<^sub>1, files\<^sub>1)
    \<and> run_appends ex_log_env [ex_log_call] dl\<^sub>1 files\<^sub>1 = (dl\<^sub>2, files\<^sub>2)
    \<and> open_log ex_log_env ex_log_io ex_log files\<^sub>2 = (Inr dl\<^sub>1, files\<^sub>3)"
proof -
  have v: "validate_entries ex_log_io m (\<lambda>_. None) is = Inr ()" for m "is"
    by (induction "is") (simp_all add: validate_entry_def)
  obtain dl\<^sub>1 files\<^sub>1 where o: "open_log ex_log_env ex_log_io ex_log (\<lambda>_. None) = (Inr dl\<^sub>1, files\<^sub>1)"
    using v by (simp add: open_log_def open_files_def Let_def repair_current_def ex_log_def ex_log_io_def)
  obtain dl\<^sub>2 files\<^sub>2 where r: "run_appends ex_log_env [ex_log_call] dl\<^sub>1 files\<^sub>1 = (dl\<^sub>2, files\<^sub>2)" by fastforce
  have "open_log ex_log_env ex_log_io ex_log files\<^sub>2 =
      (Inr dl\<^sub>1, files\<^sub>2(0 := Some (complete_part (case files\<^sub>2 0 of None \<Rightarrow> [] | Some c \<Rightarrow> c))))"
    using log_survives_crash [OF o _ _ _ _ _ ex_sound(1) _ r, of ex_log_io] ex_sound
    by (simp add: ex_log_def ex_log_io_def ex_log_call_def)
  with o r show ?thesis by blast
qed

end
