(* ===== verification/Content.thy ===== *)
theory Content
  imports Readers Text_Utils Session_Tailer Py_Float
begin

text \<open>
  The rest of \<open>sidecar/adapters/base.py\<close>: signatures of files, local time stamps, the printers of
  content, and the interface the adapters share when they turn records into events.

  \<^item> \<open>json.dumps(..., ensure_ascii=False, default=str)\<close> is \<open>dumps_default\<close>, with both separators
    as arguments. Its only error is the \<open>TypeError\<close> of a key that has no text.
  \<^item> \<open>local_env\<close> is what the clock and the time zone answer: the current time, whether
    \<open>datetime.fromtimestamp\<close> accepts a time, and the local ISO text of a time it accepts.
  \<^item> Values nest less deeply than the interpreter's stack allows; the records come from
    \<open>json.loads\<close>, which has a bound of its own.
  \<^item> \<open>one_line_normalizer\<close> is the contract of an adapter's \<open>normalize\<close>: events belong to the
    session they are made for, and their text is one bounded line. The events a tailer delivers
    inherit it.
\<close>

subsection \<open>Files\<close>

record stat_result =
  sr_regular :: bool
  sr_mtime_ns :: int
  sr_size :: nat

text \<open>\<open>abspath\<close> is \<open>os.path.abspath(path)\<close>; no \<open>stat_result\<close> is an \<open>OSError\<close>.\<close>

definition file_signature :: "pystr \<Rightarrow> stat_result option \<Rightarrow> (pystr \<times> int \<times> nat) option" where
  "file_signature abspath st =
     (case st of
        None \<Rightarrow> None
      | Some r \<Rightarrow> if sr_regular r then Some (abspath, sr_mtime_ns r, sr_size r) else None)"

subsection \<open>Time\<close>

record local_env =
  le_clock :: clock_env
  le_now :: time
  le_utc :: "time \<Rightarrow> bool"
  le_iso :: "time \<Rightarrow> pystr option"

text \<open>\<open>epoch_seconds\<close>; \<open>Inl\<close> is the \<open>OverflowError\<close> of an integer that no float can hold.\<close>

definition epoch_seconds :: "pyval \<Rightarrow> unit + pyfloat option" where
  "epoch_seconds v =
     (let scale = (\<lambda>f. case f of Fin r \<Rightarrow> Fin (scale_epoch r) | _ \<Rightarrow> f) in
      case v of
        PInt i \<Rightarrow>
          (case float_of_int i of
             Converted f \<Rightarrow> Inr (Some (scale f))
           | _ \<Rightarrow> Inl ())
      | PFloat f \<Rightarrow> Inr (Some (scale f))
      | _ \<Rightarrow> Inr None)"

text \<open>\<open>local_timestamp\<close>; \<open>None\<close> is the exception of a fallback or a local time out of range.\<close>

definition local_timestamp :: "local_env \<Rightarrow> pyval \<Rightarrow> time option \<Rightarrow> pystr option" where
  "local_timestamp le v fallback =
     (let moment =
        (case timestamp_epoch (le_clock le) v of
           None \<Rightarrow> None
         | Some e \<Rightarrow> if le_utc le e then Some e else None)
      in case moment of
           Some e \<Rightarrow> le_iso le e
         | None \<Rightarrow>
             (let e = (case fallback of None \<Rightarrow> le_now le | Some f \<Rightarrow> f) in
              if le_utc le e then le_iso le e else None))"

subsection \<open>Printers\<close>

definition default_opts :: dump_opts where
  "default_opts = \<lparr>ensure_ascii = False, sort_keys = False, allow_nan = True\<rparr>"

definition sep_member ::
  "(rat \<Rightarrow> pystr) \<Rightarrow> pystr \<Rightarrow> pyval \<times> (dump_fail + pystr) \<Rightarrow> dump_fail + pystr" where
  "sep_member fr ksep kv =
     (case key_text default_opts fr (fst kv) of
        Inl e \<Rightarrow> Inl e
      | Inr k \<Rightarrow>
          (case snd kv of
             Inl e \<Rightarrow> Inl e
           | Inr t \<Rightarrow> Inr (dump_string False k @ ksep @ t)))"

definition enclose :: "nat \<Rightarrow> pystr \<Rightarrow> (dump_fail + pystr) list \<Rightarrow> nat \<Rightarrow> dump_fail + pystr" where
  "enclose opening isep ts closing =
     (case collect ts of Inl e \<Rightarrow> Inl e | Inr xs \<Rightarrow> Inr (opening # join isep xs @ [closing]))"

fun dumps_default ::
  "(pyval \<Rightarrow> pystr) \<Rightarrow> (rat \<Rightarrow> pystr) \<Rightarrow> pystr \<Rightarrow> pystr \<Rightarrow> pyval \<Rightarrow> dump_fail + pystr" where
  "dumps_default rp fr isep ksep PNone = Inr (py ''null'')"
| "dumps_default rp fr isep ksep (PBool b) = Inr (if b then py ''true'' else py ''false'')"
| "dumps_default rp fr isep ksep (PInt i) = Inr (int_str i)"
| "dumps_default rp fr isep ksep (PFloat f) = dump_float default_opts fr f"
| "dumps_default rp fr isep ksep (PStr s) = Inr (dump_string False s)"
| "dumps_default rp fr isep ksep (PList xs) =
     enclose 91 isep (map (dumps_default rp fr isep ksep) xs) 93"
| "dumps_default rp fr isep ksep (PTuple xs) =
     enclose 91 isep (map (dumps_default rp fr isep ksep) xs) 93"
| "dumps_default rp fr isep ksep (PDict d) =
     enclose 123 isep
       (map (sep_member fr ksep) (map (\<lambda>kv. (fst kv, dumps_default rp fr isep ksep (snd kv))) d)) 125"
| "dumps_default rp fr isep ksep (PEnum v) = dumps_default rp fr isep ksep v"
| "dumps_default rp fr isep ksep v = Inr (dump_string False (py_str rp v))"

definition compact_json :: "(pyval \<Rightarrow> pystr) \<Rightarrow> (rat \<Rightarrow> pystr) \<Rightarrow> pyval \<Rightarrow> dump_fail + pystr" where
  "compact_json rp fr v = dumps_default rp fr (py '','') (py '':'') v"

text \<open>The loop over the four keys of a mapping; \<open>m\<close> has the text of every value.\<close>

fun keyed_text ::
  "string list \<Rightarrow> (pyval \<times> (dump_fail + pystr)) list \<Rightarrow> dump_fail + pystr option" where
  "keyed_text [] m = Inr None"
| "keyed_text (k # ks) m =
     (case map_of m (pstr k) of
        None \<Rightarrow> keyed_text ks m
      | Some (Inl e) \<Rightarrow> Inl e
      | Some (Inr t) \<Rightarrow> if t \<noteq> [] then Inr (Some t) else keyed_text ks m)"

definition text_keys :: "string list" where
  "text_keys = [''text'', ''content'', ''message'', ''output'']"

definition joined_text :: "(dump_fail + pystr) list \<Rightarrow> dump_fail + pystr" where
  "joined_text ts =
     (case collect ts of Inl e \<Rightarrow> Inl e | Inr xs \<Rightarrow> Inr (join (py '' '') (filter (\<lambda>t. t \<noteq> []) xs)))"

fun text_content :: "(pyval \<Rightarrow> pystr) \<Rightarrow> (rat \<Rightarrow> pystr) \<Rightarrow> pyval \<Rightarrow> dump_fail + pystr" where
  "text_content rp fr PNone = Inr []"
| "text_content rp fr (PStr s) = Inr s"
| "text_content rp fr (PDict d) =
     (case keyed_text text_keys (map (\<lambda>kv. (fst kv, text_content rp fr (snd kv))) d) of
        Inl e \<Rightarrow> Inl e
      | Inr (Some t) \<Rightarrow> Inr t
      | Inr None \<Rightarrow> dumps_default rp fr (py '', '') (py '': '') (PDict d))"
| "text_content rp fr (PList xs) = joined_text (map (text_content rp fr) xs)"
| "text_content rp fr (PTuple xs) = joined_text (map (text_content rp fr) xs)"
| "text_content rp fr (PEnum v) =
     (case text_of (PEnum v) of Some s \<Rightarrow> Inr s | None \<Rightarrow> Inr (py_str rp (PEnum v)))"
| "text_content rp fr v = Inr (py_str rp v)"

subsection \<open>Events of content blocks\<close>

definition event_for :: "pystr \<Rightarrow> Session \<Rightarrow> pystr \<Rightarrow> pystr \<Rightarrow> pydict \<Rightarrow> Event" where
  "event_for ts s kind txt' extra =
     \<lparr>ev_ts = ts, ev_agent = s_agent s, ev_session_id = s_id s, ev_kind = kind, ev_text = txt',
      ev_extra = extra\<rparr>"

text \<open>One block of \<open>content_block_events\<close>; the renderer may raise or leave the block out.\<close>

definition block_event ::
  "(pyval \<Rightarrow> pystr) \<Rightarrow> Session \<Rightarrow> pystr \<Rightarrow> pystr \<Rightarrow> pydict
   \<Rightarrow> (pydict \<Rightarrow> pystr \<Rightarrow> 'e + (pystr \<times> pyval \<times> int) option) \<Rightarrow> pyval \<Rightarrow> 'e + Event list" where
  "block_event rp s ts default_kind extra renderer block =
     (case mapping_items block of
        None \<Rightarrow> Inr []
      | Some b \<Rightarrow>
          (case renderer b default_kind of
             Inl e \<Rightarrow> Inl e
           | Inr None \<Rightarrow> Inr []
           | Inr (Some (kind, v, limit)) \<Rightarrow>
               Inr (if snip rp v limit \<noteq> [] then [event_for ts s kind (snip rp v limit) extra] else [])))"

definition content_block_events ::
  "(pyval \<Rightarrow> pystr) \<Rightarrow> pyval \<Rightarrow> Session \<Rightarrow> pystr \<Rightarrow> pystr \<Rightarrow> pydict
   \<Rightarrow> (pydict \<Rightarrow> pystr \<Rightarrow> 'e + (pystr \<times> pyval \<times> int) option) \<Rightarrow> 'e + Event list" where
  "content_block_events rp content s ts default_kind extra renderer =
     (case (case text_of content of
              Some t \<Rightarrow> Some [PDict [(pstr ''type'', pstr ''text''), (pstr ''text'', PStr t)]]
            | None \<Rightarrow> seq_items content) of
        None \<Rightarrow> Inr []
      | Some blocks \<Rightarrow>
          map_sum id concat (collect (map (block_event rp s ts default_kind extra renderer) blocks)))"

text \<open>
  What an adapter's \<open>normalize\<close> needs from outside: \<open>str\<close> on containers, \<open>repr\<close> on floats and the
  clock; and how it can fail.
\<close>

record norm_env =
  ne_str :: "pyval \<Rightarrow> pystr"
  ne_repr :: "rat \<Rightarrow> pystr"
  ne_local :: local_env

datatype norm_exc = PrintError dump_fail | ClockError | FloatOverflow

text \<open>The first non-blank text among \<open>keys\<close>, stripped.\<close>

fun first_string :: "pydict \<Rightarrow> string list \<Rightarrow> pystr" where
  "first_string d [] = []"
| "first_string d (k # ks) =
     (case text_of (dget d k) of
        Some s \<Rightarrow> if strip s \<noteq> [] then strip s else first_string d ks
      | None \<Rightarrow> first_string d ks)"

text \<open>The spellings under which records name the model and its provider.\<close>

definition MODEL_KEYS :: "string list" where
  "MODEL_KEYS = [''model'', ''model_name'', ''modelName'', ''model_id'', ''modelId'']"

definition PROVIDER_KEYS :: "string list" where
  "PROVIDER_KEYS = [''model_provider'', ''modelProvider'', ''provider'']"

subsection \<open>One line of text\<close>

definition one_line :: "pystr \<Rightarrow> bool" where
  "one_line t \<longleftrightarrow> (\<forall>c \<in> set t. is_space c \<longrightarrow> c = 32)"

lemma split_ws_no_space:
  "w \<in> set (split_ws cur s) \<Longrightarrow> \<forall>c \<in> set cur. \<not> is_space c \<Longrightarrow> c \<in> set w \<Longrightarrow> \<not> is_space c"
  by (induction cur s rule: split_ws.induct) (auto split: if_splits)

lemma set_join: "set (join sep xs) \<subseteq> set sep \<union> \<Union> (set ` set xs)"
  by (induction sep xs rule: join.induct) auto

lemma snip_text_one_line: "one_line (snip_text s n)"
proof -
  have *: "one_line (join [32] (split s))"
    using set_join [of "[32]" "split s"] split_ws_no_space [of _ "[]" s]
    by (fastforce simp: one_line_def split_def)
  moreover have "\<not> is_space 0x2026"
    by (simp add: is_space_def)
  ultimately show ?thesis
    by (auto simp: snip_text_def Let_def one_line_def dest: in_set_takeD)
qed

lemma snip_bounds:
  "one_line (snip rp v n)" "0 \<le> n \<Longrightarrow> int (length (snip rp v n)) \<le> n"
  by (simp_all add: snip_def snip_text_one_line snip_text_bound)

lemma collect_InrD: "collect ts = Inr xs \<Longrightarrow> ts = map Inr xs"
  by (induction ts arbitrary: xs rule: collect.induct) (auto split: sum.splits)

lemma collect_memberD:
  assumes "collect (map f ys) = Inr xs" and "x \<in> set xs"
  shows "\<exists>y \<in> set ys. f y = Inr x"
proof -
  have "map f ys = map Inr xs"
    by (rule collect_InrD) (rule assms(1))
  then have "Inr x \<in> f ` set ys"
    using assms(2) by (metis image_eqI list.set_map)
  then show ?thesis by force
qed

lemma block_event_owned:
  "block_event rp s ts k extra f b = Inr es \<Longrightarrow> e \<in> set es \<Longrightarrow>
    ev_agent e = s_agent s \<and> ev_session_id e = s_id s \<and> ev_text e \<noteq> [] \<and> one_line (ev_text e)"
  by (auto simp: block_event_def event_for_def snip_bounds split: option.splits sum.splits if_splits)

lemma content_block_events_owned:
  assumes "content_block_events rp content s ts k extra f = Inr es" and "e \<in> set es"
  shows "ev_agent e = s_agent s \<and> ev_session_id e = s_id s \<and> ev_text e \<noteq> [] \<and> one_line (ev_text e)"
proof -
  obtain blocks where "map_sum id concat (collect (map (block_event rp s ts k extra f) blocks)) = Inr es"
    using assms by (auto simp: content_block_events_def split: option.splits)
  then obtain ess where c: "collect (map (block_event rp s ts k extra f) blocks) = Inr ess" "es = concat ess"
    by (cases "collect (map (block_event rp s ts k extra f) blocks)") auto
  then obtain es1 where "es1 \<in> set ess" "e \<in> set es1"
    using assms(2) by auto
  with collect_memberD [OF c(1)] block_event_owned show ?thesis
    by blast
qed

subsection \<open>The contract of normalizers\<close>

text \<open>
  An event is proper for a session when it carries the session's agent and identifier and its text
  is one line of at most \<open>limit\<close> characters.
\<close>

definition proper_event :: "nat \<Rightarrow> Session \<Rightarrow> Event \<Rightarrow> bool" where
  "proper_event limit s e \<longleftrightarrow> ev_agent e = s_agent s \<and> ev_session_id e = s_id s
     \<and> one_line (ev_text e) \<and> length (ev_text e) \<le> limit"

lemma proper_snip:
  "0 \<le> n \<Longrightarrow> n \<le> int limit \<Longrightarrow> proper_event limit s (event_for ts s k (snip rp v n) x)"
  using snip_bounds(2) [of n rp v]
  by (simp add: proper_event_def event_for_def snip_bounds(1))

text \<open>
  An adapter object as the tailer calls it: the events of \<open>nrm\<close>, the text of its exception,
  and whether it has a \<open>replay\<close> method.
\<close>

definition adapter_of :: "pystr \<Rightarrow> bool \<Rightarrow> ('e \<Rightarrow> pystr) \<Rightarrow> (pydict \<Rightarrow> Session \<Rightarrow> 'e + Event list) \<Rightarrow> adapter" where
  "adapter_of name replays shown nrm =
     \<lparr>ad_name = name, ad_normalize = (\<lambda>r s. map_sum shown (map Some) (nrm r s)), ad_can_replay = replays\<rparr>"

text \<open>Every event of a poll comes from one record, normalized for the tailer's session.\<close>

lemma tailer_poll_events:
  assumes "tailer_poll L ops t env = (Inr es, t')" and "e \<in> set es"
  shows "\<exists>r. e \<in> set (adapter_events t r)"
proof (cases "t_is_dsh t")
  case True
  then obtain es1 t1 where "poll_dsh t env = (es1, t1)" "es = es1"
    using assms(1) by (auto simp: tailer_poll_def split: prod.splits)
  with poll_dsh_spec [of t env es1 t1] assms(2) show ?thesis
    by (auto split: if_splits)
next
  case False
  have part: "\<exists>r. e \<in> set (adapter_events t r)"
    if "fst (normalize_all u rs) = es" "t_adapter u = t_adapter t" "t_session u = t_session t" for u rs
  proof -
    have "adapter_events u = adapter_events t"
      using that(2,3) by (simp add: adapter_events_def fun_eq_iff)
    with that(1) assms(2) normalize_all_spec [of u rs] show ?thesis by auto
  qed
  show ?thesis
  proof (cases "t_follower t")
    case None
    with False assms show ?thesis by (simp add: tailer_poll_def)
  next
    case (Some fl)
    show ?thesis
    proof (cases fl)
      case (JsonlFollower f)
      obtain rs f' where "poll L f (pe_file env) = (Inr rs, f')"
        and "fst (normalize_all (t\<lparr>t_follower := Some (JsonlFollower f')\<rparr>) rs) = es"
        using False Some JsonlFollower assms(1)
        by (auto simp: tailer_poll_def split: prod.splits sum.splits)
      then show ?thesis by (intro part [of "t\<lparr>t_follower := Some (JsonlFollower f')\<rparr>" rs]) simp_all
    next
      case (ChatFollower c)
      obtain rs t1 where p: "poll_cursor_records ops t = (rs, t1)" by fastforce
      then have "t_adapter t1 = t_adapter t \<and> t_session t1 = t_session t"
        by (auto simp: poll_cursor_records_def record_cursor_error_def append_diagnostic_def Let_def
            split: option.splits any_follower.splits prod.splits sum.splits if_splits)
      moreover have "fst (normalize_all t1 rs) = es"
        using False Some ChatFollower assms(1) p
        by (auto simp: tailer_poll_def split: prod.splits)
      ultimately show ?thesis using part by blast
    qed
  qed
qed

text \<open>Every adapter makes events for the session it was given.\<close>

locale session_normalizer =
  fixes nrm :: "pydict \<Rightarrow> Session \<Rightarrow> 'e + Event list"
  assumes owned: "nrm r s = Inr es \<Longrightarrow> e \<in> set es \<Longrightarrow> ev_agent e = s_agent s \<and> ev_session_id e = s_id s"
begin

lemma tailer_event_origin:
  assumes "t_adapter t = adapter_of name replays shown nrm"
    and "tailer_poll L ops t env = (Inr es, t')" and "e \<in> set es"
  shows "\<exists>r es1. nrm r (t_session t) = Inr es1 \<and> e \<in> set es1"
proof -
  obtain r where r: "e \<in> set (adapter_events t r)"
    using tailer_poll_events [OF assms(2,3)] by blast
  show ?thesis
  proof (cases "nrm r (t_session t)")
    case (Inl x)
    with r assms(1) show ?thesis
      by (simp add: adapter_events_def adapter_of_def)
  next
    case (Inr es1)
    with r assms(1) have "e \<in> set es1"
      by (auto simp: adapter_events_def adapter_of_def map_filter_def)
    with Inr show ?thesis by blast
  qed
qed

end

text \<open>Most of them also keep the text of every event to one bounded line.\<close>

locale one_line_normalizer = session_normalizer nrm
  for nrm :: "pydict \<Rightarrow> Session \<Rightarrow> 'e + Event list" +
  fixes limit :: nat
  assumes bounded_line: "nrm r s = Inr es \<Longrightarrow> e \<in> set es \<Longrightarrow> one_line (ev_text e) \<and> length (ev_text e) \<le> limit"
begin

lemma tailer_events_proper:
  assumes "t_adapter t = adapter_of name replays shown nrm"
    and "tailer_poll L ops t env = (Inr es, t')" and "e \<in> set es"
  shows "proper_event limit (t_session t) e"
  using tailer_event_origin [OF assms] owned bounded_line by (fastforce simp: proper_event_def)

end

end
