(* ===== verification/Claude.thy ===== *)
theory Claude
  imports Content
begin

text \<open>
  The Claude Code adapter (\<open>sidecar/adapters/claude.py\<close>): discovery of transcripts with their
  metadata and parents, and the normalization of transcript records.

  \<^item> A \<open>claude_project\<close> is one entry of \<open>~/.claude/projects\<close>: its name, whether it is a directory,
    and the transcripts that \<open>rglob\<close> finds below it. A transcript is its path, the parts of the
    path below the project, the answer of \<open>stat\<close>, and the file that is read on a cache miss.
  \<^item> The metadata cache is the one of \<open>adapters/base.py\<close>. \<open>discover\<close> returns the sessions or the
    exception of the JSON parser, and the adapter's cache after the call.
\<close>

subsection \<open>Metadata\<close>

definition bad_identifier_char :: "nat \<Rightarrow> bool" where
  "bad_identifier_char c \<longleftrightarrow> c = 47 \<or> c = 92 \<or> c < 0x20 \<or> 0x7F \<le> c \<and> c \<le> 0x9F"

definition claude_identifier :: "pyval \<Rightarrow> pystr option" where
  "claude_identifier v =
     (case text_of v of
        None \<Rightarrow> None
      | Some s \<Rightarrow>
          (let i = strip s in
           if i = [] \<or> 512 < length i \<or> list_ex bad_identifier_char i then None else Some i))"

fun first_nonempty :: "pystr list \<Rightarrow> pystr" where
  "first_nonempty [] = []"
| "first_nonempty (s # ss) = (if s \<noteq> [] then s else first_nonempty ss)"

definition record_string :: "pydict \<Rightarrow> string list \<Rightarrow> pystr" where
  "record_string r ks =
     first_nonempty (map (\<lambda>d. first_string d ks)
       (r # List.map_filter (\<lambda>k. mapping_items (dget r k)) [''message'', ''metadata'', ''model'']))"

definition PARENT_SESSION_KEYS :: "string list" where
  "PARENT_SESSION_KEYS = [''parentSessionId'', ''parentSessionID'', ''parent_session_id'', ''parentSession'']"

fun claude_first_identifier :: "pydict \<Rightarrow> string list \<Rightarrow> pystr option" where
  "claude_first_identifier r [] = None"
| "claude_first_identifier r (k # ks) =
     (case claude_identifier (dget r k) of None \<Rightarrow> claude_first_identifier r ks | Some i \<Rightarrow> Some i)"

definition type_is :: "pydict \<Rightarrow> string \<Rightarrow> bool" where
  "type_is d k \<longleftrightarrow> text_of (dget d ''type'') = Some (py k)"

text \<open>The local variables of \<open>_claude_metadata\<close>.\<close>

record claude_vars =
  cv_cwd :: pystr
  cv_session_id :: pystr
  cv_ai_title :: pystr
  cv_first_user :: pystr
  cv_sidechain :: bool
  cv_parent :: "pystr option"
  cv_model :: pystr
  cv_provider :: pystr
  cv_created :: pyval

definition claude_vars0 :: claude_vars where
  "claude_vars0 = \<lparr>cv_cwd = [], cv_session_id = [], cv_ai_title = [], cv_first_user = [],
     cv_sidechain = False, cv_parent = None, cv_model = [], cv_provider = [], cv_created = PNone\<rparr>"

definition ai_title_of :: "pydict \<Rightarrow> pystr option" where
  "ai_title_of r =
     (if type_is r ''ai-title'' then
        (case text_of (if truthy (dget r ''aiTitle'') then dget r ''aiTitle'' else dget r ''title'') of
           Some s \<Rightarrow> if strip s \<noteq> [] then Some s else None
         | None \<Rightarrow> None)
      else None)"

definition first_prompt :: "(pyval \<Rightarrow> pystr) \<Rightarrow> pydict \<Rightarrow> pystr option" where
  "first_prompt rp r =
     (if type_is r ''user'' then
        map_option (\<lambda>item. py_str rp (dget item ''text''))
          (find (\<lambda>item. type_is item ''text'' \<and> truthy (dget item ''text''))
            (content_items (dget (as_mapping (dget r ''message'')) ''content'')))
      else None)"

definition metadata_step :: "(pyval \<Rightarrow> pystr) \<Rightarrow> claude_vars \<Rightarrow> pydict \<Rightarrow> claude_vars" where
  "metadata_step rp v r =
     \<lparr>cv_cwd = (if cv_cwd v = [] then case text_of (dget r ''cwd'') of Some s \<Rightarrow> s | None \<Rightarrow> [] else cv_cwd v),
      cv_session_id =
        (if cv_session_id v = [] then case claude_identifier (dget r ''sessionId'') of Some i \<Rightarrow> i | None \<Rightarrow> []
         else cv_session_id v),
      cv_ai_title = (case ai_title_of r of Some s \<Rightarrow> s | None \<Rightarrow> cv_ai_title v),
      cv_first_user =
        (if cv_first_user v = [] then case first_prompt rp r of Some s \<Rightarrow> s | None \<Rightarrow> [] else cv_first_user v),
      cv_sidechain = (cv_sidechain v \<or> dget r ''isSidechain'' = PBool True),
      cv_parent = (case cv_parent v of None \<Rightarrow> claude_first_identifier r PARENT_SESSION_KEYS | Some p \<Rightarrow> Some p),
      cv_model = (if cv_model v \<noteq> [] then cv_model v else record_string r MODEL_KEYS),
      cv_provider = (if cv_provider v \<noteq> [] then cv_provider v else record_string r PROVIDER_KEYS),
      cv_created = (if cv_created v = PNone then dget r ''timestamp'' else cv_created v)\<rparr>"

record claude_meta =
  cm_cwd :: pystr
  cm_session_id :: pystr
  cm_title :: pystr
  cm_sidechain :: bool
  cm_parent :: "pystr option"
  cm_model :: pystr
  cm_provider :: pystr
  cm_created :: pyval

definition metadata_result :: "claude_vars \<Rightarrow> claude_meta" where
  "metadata_result v =
     \<lparr>cm_cwd = cv_cwd v, cm_session_id = cv_session_id v,
      cm_title = snip_text (if cv_ai_title v \<noteq> [] then cv_ai_title v else cv_first_user v) 160,
      cm_sidechain = cv_sidechain v, cm_parent = cv_parent v, cm_model = cv_model v,
      cm_provider = cv_provider v, cm_created = cv_created v\<rparr>"

definition claude_metadata :: "py_limits \<Rightarrow> (pyval \<Rightarrow> pystr) \<Rightarrow> sized_file \<Rightarrow> loads_exc + claude_meta" where
  "claude_metadata L rp file =
     map_sum id (\<lambda>rs. metadata_result (foldl (metadata_step rp) claude_vars0 rs))
       (read_jsonl_prefix L file (256 * 1024) None)"

subsection \<open>Discovery\<close>

type_synonym claude_sig = "pystr \<times> int \<times> nat"

record claude_file =
  cf_path :: pystr
  cf_abspath :: pystr
  cf_parts :: "pystr list"
  cf_stat :: "stat_result option"
  cf_file :: sized_file

record claude_project =
  cp_name :: pystr
  cp_is_dir :: bool
  cp_files :: "claude_file list"

record discover_env =
  de_limits :: py_limits
  de_str :: "pyval \<Rightarrow> pystr"
  de_clock :: clock_env

definition cf_signature :: "claude_file \<Rightarrow> claude_sig option" where
  "cf_signature f = file_signature (cf_abspath f) (cf_stat f)"

text \<open>\<open>Path.stem\<close> of a file name: without the last suffix, if there is one.\<close>

definition path_stem :: "pystr \<Rightarrow> pystr" where
  "path_stem name =
     (let tail = takeWhile (\<lambda>c. c \<noteq> 46) (rev name); n = length name - length tail - 1 in
      if 46 \<in> set name \<and> 0 < n \<and> tail \<noteq> [] then take n name else name)"

definition child_id :: "claude_file \<Rightarrow> pystr" where
  "child_id f = (case rev (cf_parts f) of [] \<Rightarrow> [] | name # _ \<Rightarrow> path_stem name)"

definition path_parent :: "claude_file \<Rightarrow> pystr option" where
  "path_parent f =
     (let parts = cf_parts f; n = length parts in
      if 3 \<le> n \<and> parts ! (n - 2) = py ''subagents'' then claude_identifier (PStr (parts ! (n - 3)))
      else None)"

definition parent_of :: "claude_file \<Rightarrow> claude_meta \<Rightarrow> pystr option" where
  "parent_of f m =
     (let p0 = (case path_parent f of Some p \<Rightarrow> Some p | None \<Rightarrow> cm_parent m);
          p1 = (if p0 = None \<and> cm_sidechain m \<and> cm_session_id m \<noteq> [] \<and> cm_session_id m \<noteq> child_id f
                then Some (cm_session_id m) else p0)
      in if p1 = Some (child_id f) then None else p1)"

definition claude_extra :: "discover_env \<Rightarrow> claude_meta \<Rightarrow> pydict" where
  "claude_extra env m =
     [(pstr ''source'', pstr ''transcript''), (pstr ''sidechain'', PBool (cm_sidechain m))]
     @ created_at_extra (de_clock env) [cm_created m]
     @ (if cm_model m \<noteq> [] then [(pstr ''model'', PStr (cm_model m))] else [])
     @ (if cm_provider m \<noteq> [] then [(pstr ''model_provider'', PStr (cm_provider m))] else [])"

definition claude_session ::
  "discover_env \<Rightarrow> pystr \<Rightarrow> claude_file \<Rightarrow> claude_sig \<Rightarrow> claude_meta \<Rightarrow> Session" where
  "claude_session env pname f sig m =
     (let parent = parent_of f m in
      \<lparr>s_agent = py ''claude'',
       s_id = (if cm_sidechain m \<or> parent \<noteq> None then child_id f
               else if cm_session_id m \<noteq> [] then cm_session_id m else child_id f),
       s_project = (if cm_cwd m \<noteq> [] then cm_cwd m else pname),
       s_transcript = cf_path f,
       s_updated_at = of_int (fst (snd sig)) / 1000000000,
       s_title = cm_title m,
       s_status = IDLE,
       s_extra = claude_extra env m,
       s_parent_id = parent\<rparr>)"

type_synonym claude_cache = "(claude_sig, claude_meta) MetadataCache"

definition claude_listing :: "claude_project list \<Rightarrow> (pystr \<times> claude_file) list" where
  "claude_listing ps = concat (map (\<lambda>p. map (Pair (cp_name p)) (cp_files p)) (filter cp_is_dir ps))"

fun discover_loop ::
  "discover_env \<Rightarrow> claude_cache \<Rightarrow> (pystr \<times> claude_file) list
   \<Rightarrow> (loads_exc + Session list \<times> claude_sig list) \<times> claude_cache" where
  "discover_loop env c [] = (Inr ([], []), c)"
| "discover_loop env c ((pname, f) # fs) =
     (case cf_signature f of
        None \<Rightarrow> discover_loop env c fs
      | Some sig \<Rightarrow>
          (case get_or_load c sig (claude_metadata (de_limits env) (de_str env) (cf_file f)) of
             (Inl e, c1) \<Rightarrow> (Inl e, c1)
           | (Inr m, c1) \<Rightarrow>
               (case discover_loop env c1 fs of
                  (Inl e, c2) \<Rightarrow> (Inl e, c2)
                | (Inr (ss, sigs), c2) \<Rightarrow> (Inr (claude_session env pname f sig m # ss, sig # sigs), c2))))"

definition claude_discover ::
  "discover_env \<Rightarrow> claude_cache \<Rightarrow> claude_project list \<Rightarrow> (loads_exc + Session list) \<times> claude_cache" where
  "claude_discover env c ps =
     (case discover_loop env c (claude_listing ps) of
        (Inl e, c1) \<Rightarrow> (Inl e, c1)
      | (Inr (ss, sigs), c1) \<Rightarrow> (Inr ss, prune_cache c1 (set sigs)))"

subsection \<open>Normalization\<close>

text \<open>One item of the content; \<open>rt\<close> is the type of the record.\<close>

definition claude_item ::
  "norm_env \<Rightarrow> pystr \<Rightarrow> Session \<Rightarrow> pystr \<Rightarrow> pydict \<Rightarrow> norm_exc + Event list" where
  "claude_item env ts s rt item =
     (let emit = (\<lambda>kind t. event_for ts s kind t []) in
      if type_is item ''text'' then
        (let t = snip (ne_str env) (dget item ''text'') 120 in
         Inr (if t \<noteq> [] then [emit rt t] else []))
      else if type_is item ''thinking'' then
        (let t = snip (ne_str env) (dget item ''thinking'') 80 in
         Inr (if t \<noteq> [] then [emit (py ''thinking'') t] else []))
      else if type_is item ''tool_use'' then
        (let name = (if truthy (dget item ''name'') then py_str (ne_str env) (dget item ''name'') else py ''tool'') in
         case compact_json (ne_str env) (ne_repr env)
                (if truthy (dget item ''input'') then dget item ''input'' else PDict []) of
           Inl e \<Rightarrow> Inl (PrintError e)
         | Inr j \<Rightarrow>
             Inr [emit (py ''tool_call'')
               (snip (ne_str env) (PStr (name @ py '' '' @ snip (ne_str env) (PStr j) 80)) 120)])
      else if type_is item ''tool_result'' then
        (case text_content (ne_str env) (ne_repr env) (dget item ''content'') of
           Inl e \<Rightarrow> Inl (PrintError e)
         | Inr t \<Rightarrow> Inr [emit (py ''tool_result'') (snip (ne_str env) (PStr t) 80)])
      else Inr [])"

definition claude_content :: "pystr \<Rightarrow> pydict \<Rightarrow> pyval option" where
  "claude_content rt r =
     (if rt \<in> {py ''thinking'', py ''tool_use'', py ''tool_result''} then Some (PDict r)
      else if rt \<in> {py ''user'', py ''assistant''} then
        Some (dget (as_mapping (dget r ''message'')) ''content'')
      else None)"

definition claude_normalize :: "norm_env \<Rightarrow> pydict \<Rightarrow> Session \<Rightarrow> norm_exc + Event list" where
  "claude_normalize env r s =
     (let rt = str_or_empty (ne_str env) (dget r ''type'') in
      case local_timestamp (ne_local env) (dget r ''timestamp'') None of
        None \<Rightarrow> Inl ClockError
      | Some ts \<Rightarrow>
          (case claude_content rt r of
             None \<Rightarrow> Inr []
           | Some content \<Rightarrow>
               map_sum id concat (collect (map (claude_item env ts s rt) (content_items content)))))"

subsection \<open>Identifiers and parents\<close>

definition valid_identifier :: "pystr \<Rightarrow> bool" where
  "valid_identifier i \<longleftrightarrow> i \<noteq> [] \<and> length i \<le> 512 \<and> (\<forall>c \<in> set i. \<not> bad_identifier_char c)"

lemma claude_identifier_valid: "claude_identifier v = Some i \<Longrightarrow> valid_identifier i"
  by (auto simp: claude_identifier_def valid_identifier_def Let_def list_ex_iff split: option.splits if_splits)

lemma claude_first_identifier_valid: "claude_first_identifier r ks = Some i \<Longrightarrow> valid_identifier i"
  by (induction ks) (auto split: option.splits intro: claude_identifier_valid)

definition vars_ok :: "claude_vars \<Rightarrow> bool" where
  "vars_ok v \<longleftrightarrow> (cv_session_id v = [] \<or> valid_identifier (cv_session_id v))
     \<and> (\<forall>p. cv_parent v = Some p \<longrightarrow> valid_identifier p)"

lemma metadata_step_ok: "vars_ok v \<Longrightarrow> vars_ok (metadata_step rp v r)"
  by (auto simp: vars_ok_def metadata_step_def split: option.splits
      intro: claude_identifier_valid claude_first_identifier_valid)

lemma metadata_fold_ok: "vars_ok v \<Longrightarrow> vars_ok (foldl (metadata_step rp) v rs)"
  by (induction rs arbitrary: v) (simp_all add: metadata_step_ok)

definition meta_ok :: "claude_meta \<Rightarrow> bool" where
  "meta_ok m \<longleftrightarrow> (cm_session_id m = [] \<or> valid_identifier (cm_session_id m))
     \<and> (\<forall>p. cm_parent m = Some p \<longrightarrow> valid_identifier p)
     \<and> one_line (cm_title m) \<and> length (cm_title m) \<le> 160"

lemma claude_metadata_ok:
  assumes "claude_metadata L rp file = Inr m"
  shows "meta_ok m"
proof -
  obtain rs where "m = metadata_result (foldl (metadata_step rp) claude_vars0 rs)"
    using assms by (cases "read_jsonl_prefix L file (256 * 1024) None") (auto simp: claude_metadata_def)
  moreover have "vars_ok (foldl (metadata_step rp) claude_vars0 rs)"
    by (rule metadata_fold_ok) (simp add: vars_ok_def claude_vars0_def)
  ultimately show ?thesis
    using snip_text_bound [of 160]
    by (auto simp: meta_ok_def metadata_result_def vars_ok_def snip_text_one_line nat_le_iff)
qed

lemma parent_of_valid:
  assumes "meta_ok m" and "parent_of f m = Some p"
  shows "valid_identifier p \<and> p \<noteq> child_id f"
proof -
  have "valid_identifier q" if "path_parent f = Some q" for q
    using that by (auto simp: path_parent_def Let_def split: if_splits intro: claude_identifier_valid)
  with assms show ?thesis
    by (auto simp: parent_of_def meta_ok_def Let_def split: option.splits if_splits)
qed

text \<open>What holds of a discovered session, whatever the metadata.\<close>

definition session_ok :: "claude_file \<Rightarrow> Session \<Rightarrow> bool" where
  "session_ok f s \<longleftrightarrow> s_agent s = py ''claude'' \<and> s_transcript s = cf_path f
     \<and> one_line (s_title s) \<and> length (s_title s) \<le> 160
     \<and> (\<forall>p. s_parent_id s = Some p \<longrightarrow> valid_identifier p \<and> p \<noteq> s_id s \<and> s_id s = child_id f)"

lemma claude_session_fields [simp]:
  "s_agent (claude_session env pname f sig m) = py ''claude''"
  "s_transcript (claude_session env pname f sig m) = cf_path f"
  "s_title (claude_session env pname f sig m) = cm_title m"
  "s_parent_id (claude_session env pname f sig m) = parent_of f m"
  "parent_of f m \<noteq> None \<Longrightarrow> s_id (claude_session env pname f sig m) = child_id f"
  by (simp_all add: claude_session_def Let_def)

lemma claude_session_ok:
  assumes "meta_ok m"
  shows "session_ok f (claude_session env pname f sig m)"
proof -
  have "valid_identifier p \<and> p \<noteq> child_id f" if "parent_of f m = Some p" for p
    using parent_of_valid [OF assms that] .
  with assms show ?thesis
    by (simp add: session_ok_def meta_ok_def)
qed

subsection \<open>The cache during discovery\<close>

text \<open>
  The shape of every cache fact: all entries satisfy \<open>P\<close>, and the cache is within its bound.
\<close>

definition cache_all :: "('k \<Rightarrow> 'v \<Rightarrow> bool) \<Rightarrow> ('k, 'v) MetadataCache \<Rightarrow> bool" where
  "cache_all P c \<longleftrightarrow> (\<forall>(k, v) \<in> set (mc_entries c). P k v) \<and> length (mc_entries c) \<le> mc_max c"

lemma get_or_load_all:
  assumes "get_or_load c sig loader = (r, c')" and "cache_all P c"
    and "\<And>v. loader = Inr v \<Longrightarrow> P sig v"
  shows "cache_all P c' \<and> mc_max c' = mc_max c \<and> (\<forall>v. r = Inr v \<longrightarrow> P sig v)
    \<and> (\<forall>e. r = Inl e \<longrightarrow> loader = Inl e)"
proof -
  let ?keep = "\<lambda>v. c\<lparr>mc_entries := lastn (mc_max c) (filter (\<lambda>kv. fst kv \<noteq> sig) (mc_entries c) @ [(sig, v)])\<rparr>"
  have keep: "cache_all P (?keep v)" if "P sig v" for v
    using assms(2) that set_lastn [of "mc_max c" "filter (\<lambda>kv. fst kv \<noteq> sig) (mc_entries c) @ [(sig, v)]"]
    by (auto simp: cache_all_def)
  show ?thesis
  proof (cases "map_of (mc_entries c) sig")
    case (Some v)
    then have "P sig v"
      using assms(2) map_of_SomeD by (fastforce simp: cache_all_def)
    with Some assms(1) keep show ?thesis
      by (auto simp: get_or_load_def Let_def)
  next
    case None
    with assms keep show ?thesis
      by (cases loader) (auto simp: get_or_load_def Let_def)
  qed
qed

lemma prune_cache_all:
  "cache_all P c \<Longrightarrow> cache_all P (prune_cache c A) \<and> mc_max (prune_cache c A) = mc_max c
    \<and> fst ` set (mc_entries (prune_cache c A)) \<subseteq> A"
  by (auto simp: cache_all_def prune_cache_def intro: le_trans [OF length_filter_le])

lemma new_cache_all: "new_cache n = Some c \<Longrightarrow> cache_all P c \<and> mc_max c = nat n"
  by (auto simp: new_cache_def cache_all_def split: if_splits)

definition claude_listed :: "(pystr \<times> claude_file) list \<Rightarrow> (pystr \<times> claude_file) list" where
  "claude_listed fs = filter (\<lambda>nf. cf_signature (snd nf) \<noteq> None) fs"

definition loads_as ::
  "discover_env \<Rightarrow> (claude_sig \<Rightarrow> claude_meta \<Rightarrow> bool) \<Rightarrow> pystr \<times> claude_file \<Rightarrow> Session \<Rightarrow> bool" where
  "loads_as env P nf s \<longleftrightarrow>
     (\<exists>sig m. cf_signature (snd nf) = Some sig \<and> P sig m \<and> s = claude_session env (fst nf) (snd nf) sig m)"

text \<open>Reading the transcript gives metadata that satisfy \<open>P\<close> for its signature.\<close>

definition gives ::
  "discover_env \<Rightarrow> (claude_sig \<Rightarrow> claude_meta \<Rightarrow> bool) \<Rightarrow> pystr \<times> claude_file \<Rightarrow> bool" where
  "gives env P nf \<longleftrightarrow>
     (\<forall>sig m. cf_signature (snd nf) = Some sig \<longrightarrow>
        claude_metadata (de_limits env) (de_str env) (cf_file (snd nf)) = Inr m \<longrightarrow> P sig m)"

lemma givesD:
  "gives env P (n, f) \<Longrightarrow> cf_signature f = Some sig \<Longrightarrow>
    claude_metadata (de_limits env) (de_str env) (cf_file f) = Inr m \<Longrightarrow> P sig m"
  unfolding gives_def snd_conv by blast

lemma discover_loop_skip:
  "cf_signature f = None \<Longrightarrow> discover_loop env c ((n, f) # fs) = discover_loop env c fs"
  by simp

lemma discover_loop_fail:
  "cf_signature f = Some sig \<Longrightarrow>
    get_or_load c sig (claude_metadata (de_limits env) (de_str env) (cf_file f)) = (Inl e, c1) \<Longrightarrow>
    discover_loop env c ((n, f) # fs) = (Inl e, c1)"
  by simp

lemma discover_loop_next:
  "cf_signature f = Some sig \<Longrightarrow>
    get_or_load c sig (claude_metadata (de_limits env) (de_str env) (cf_file f)) = (Inr m, c1) \<Longrightarrow>
    discover_loop env c1 fs = (r, c2) \<Longrightarrow>
    discover_loop env c ((n, f) # fs) =
      (map_sum id (\<lambda>p. (claude_session env n f sig m # fst p, sig # snd p)) r, c2)"
  by (cases r) (auto split: prod.splits)

definition loop_result ::
  "discover_env \<Rightarrow> (claude_sig \<Rightarrow> claude_meta \<Rightarrow> bool) \<Rightarrow> (pystr \<times> claude_file) list
   \<Rightarrow> loads_exc + Session list \<times> claude_sig list \<Rightarrow> bool" where
  "loop_result env P fs r \<longleftrightarrow>
     (case r of
        Inl _ \<Rightarrow> True
      | Inr (ss, sigs) \<Rightarrow> list_all2 (loads_as env P) (claude_listed fs) ss
          \<and> sigs = List.map_filter (\<lambda>nf. cf_signature (snd nf)) fs)"

lemma loop_result_skip:
  "cf_signature f = None \<Longrightarrow> loop_result env P fs r \<Longrightarrow> loop_result env P ((n, f) # fs) r"
  by (simp add: loop_result_def claude_listed_def split: sum.splits prod.splits)

lemma loop_result_next:
  assumes "cf_signature f = Some sig" and "P sig m" and "loop_result env P fs r"
  shows "loop_result env P ((n, f) # fs)
    (map_sum id (\<lambda>p. (claude_session env n f sig m # fst p, sig # snd p)) r)"
proof -
  have "loads_as env P (n, f) (claude_session env n f sig m)"
    unfolding loads_as_def fst_conv snd_conv using assms(1,2) by blast
  moreover have "claude_listed ((n, f) # fs) = (n, f) # claude_listed fs"
    unfolding claude_listed_def filter.simps snd_conv assms(1) by simp
  ultimately show ?thesis
    using assms(1,3) by (cases r) (simp_all add: loop_result_def split: prod.splits)
qed

lemma discover_loop_all:
  assumes "cache_all P c" and "\<forall>nf \<in> set fs. gives env P nf"
  shows "cache_all P (snd (discover_loop env c fs)) \<and> mc_max (snd (discover_loop env c fs)) = mc_max c
    \<and> loop_result env P fs (fst (discover_loop env c fs))"
  using assms
proof (induction fs arbitrary: c)
  case Nil
  then show ?case by (simp add: loop_result_def claude_listed_def)
next
  case (Cons nf fs)
  obtain n f where nf: "nf = (n, f)" by (cases nf)
  let ?load = "claude_metadata (de_limits env) (de_str env) (cf_file f)"
  have fs: "\<forall>nf \<in> set fs. gives env P nf" and f: "gives env P (n, f)"
    using Cons.prems(2) nf by simp_all
  show ?case
  proof (cases "cf_signature f")
    case None
    show ?thesis
      unfolding nf discover_loop_skip [OF None]
      using Cons.IH [OF Cons.prems(1) fs] loop_result_skip [OF None] by blast
  next
    case (Some sig)
    obtain r1 c1 where g: "get_or_load c sig ?load = (r1, c1)" by fastforce
    have c1: "cache_all P c1" "mc_max c1 = mc_max c" "\<And>v. r1 = Inr v \<Longrightarrow> P sig v"
      using get_or_load_all [OF g Cons.prems(1)] givesD [OF f Some] by blast+
    show ?thesis
    proof (cases r1)
      case (Inl e)
      then show ?thesis
        unfolding nf using discover_loop_fail [OF Some] g c1 by (simp add: loop_result_def)
    next
      case (Inr m)
      obtain r2 c2 where l: "discover_loop env c1 fs = (r2, c2)" by fastforce
      show ?thesis
        unfolding nf discover_loop_next [OF Some g [unfolded Inr] l] fst_conv snd_conv
        using Cons.IH [OF c1(1) fs] l c1(2) loop_result_next [of f sig P m env fs r2 n] Some
          c1(3) [OF Inr] by simp
    qed
  qed
qed

text \<open>Discovery without a cache: every transcript is read.\<close>

fun fresh_loop :: "discover_env \<Rightarrow> (pystr \<times> claude_file) list \<Rightarrow> loads_exc + Session list" where
  "fresh_loop env [] = Inr []"
| "fresh_loop env ((pname, f) # fs) =
     (case cf_signature f of
        None \<Rightarrow> fresh_loop env fs
      | Some sig \<Rightarrow>
          (case claude_metadata (de_limits env) (de_str env) (cf_file f) of
             Inl e \<Rightarrow> Inl e
           | Inr m \<Rightarrow> map_sum id (Cons (claude_session env pname f sig m)) (fresh_loop env fs)))"

definition fresh_discover :: "discover_env \<Rightarrow> claude_project list \<Rightarrow> loads_exc + Session list" where
  "fresh_discover env ps = fresh_loop env (claude_listing ps)"

text \<open>The contents of a transcript are determined by its signature.\<close>

definition stable :: "(claude_sig \<Rightarrow> sized_file) \<Rightarrow> claude_file \<Rightarrow> bool" where
  "stable content f \<longleftrightarrow>
     (case cf_signature f of None \<Rightarrow> True | Some sig \<Rightarrow> cf_file f = content sig)"

definition read_as :: "discover_env \<Rightarrow> (claude_sig \<Rightarrow> sized_file) \<Rightarrow> claude_sig \<Rightarrow> claude_meta \<Rightarrow> bool" where
  "read_as env content sig m \<longleftrightarrow> claude_metadata (de_limits env) (de_str env) (content sig) = Inr m"

lemma discover_loop_fresh:
  assumes "cache_all (read_as env content) c" and "\<forall>nf \<in> set fs. stable content (snd nf)"
  shows "map_sum id fst (fst (discover_loop env c fs)) = fresh_loop env fs"
  using assms
proof (induction fs arbitrary: c)
  case (Cons nf fs)
  obtain n f where nf: "nf = (n, f)" by (cases nf)
  let ?load = "claude_metadata (de_limits env) (de_str env) (cf_file f)"
  have fs: "\<forall>nf \<in> set fs. stable content (snd nf)" and f: "stable content f"
    using Cons.prems(2) nf by simp_all
  show ?case
  proof (cases "cf_signature f")
    case None
    then show ?thesis
      unfolding nf using Cons.IH [OF Cons.prems(1) fs] by simp
  next
    case (Some sig)
    then have load: "?load = Inr m \<longleftrightarrow> read_as env content sig m" for m
      using f by (simp add: stable_def read_as_def)
    obtain r1 c1 where g: "get_or_load c sig ?load = (r1, c1)" by fastforce
    have c1: "cache_all (read_as env content) c1" "\<And>v. r1 = Inr v \<Longrightarrow> ?load = Inr v"
      "\<And>e. r1 = Inl e \<Longrightarrow> ?load = Inl e"
      using get_or_load_all [OF g Cons.prems(1)] load by blast+
    show ?thesis
    proof (cases r1)
      case (Inl e)
      then show ?thesis
        unfolding nf using discover_loop_fail [OF Some] g c1(3) Some by simp
    next
      case (Inr m)
      obtain r2 c2 where l: "discover_loop env c1 fs = (r2, c2)" by fastforce
      have "fresh_loop env fs = map_sum id fst r2"
        using Cons.IH [OF c1(1) fs] by (simp only: l fst_conv)
      then show ?thesis
        unfolding nf discover_loop_next [OF Some g [unfolded Inr] l]
        using c1(2) [OF Inr] Some by (cases r2) auto
    qed
  qed
qed simp

text \<open>Discoveries one after the other on the adapter's cache.\<close>

fun claude_runs ::
  "discover_env \<Rightarrow> claude_cache \<Rightarrow> claude_project list list
   \<Rightarrow> (loads_exc + Session list) list \<times> claude_cache" where
  "claude_runs env c [] = ([], c)"
| "claude_runs env c (ps # pss) =
     (case claude_discover env c ps of
        (r, c1) \<Rightarrow> (case claude_runs env c1 pss of (rs, c2) \<Rightarrow> (r # rs, c2)))"

lemma claude_discover_all:
  assumes "cache_all P c" and "\<forall>nf \<in> set (claude_listing ps). gives env P nf"
  shows "cache_all P (snd (claude_discover env c ps)) \<and> mc_max (snd (claude_discover env c ps)) = mc_max c
    \<and> (\<forall>ss. fst (claude_discover env c ps) = Inr ss \<longrightarrow>
        list_all2 (loads_as env P) (claude_listed (claude_listing ps)) ss
        \<and> fst ` set (mc_entries (snd (claude_discover env c ps)))
          \<subseteq> set (List.map_filter (\<lambda>nf. cf_signature (snd nf)) (claude_listing ps)))"
proof -
  obtain r c1 where l: "discover_loop env c (claude_listing ps) = (r, c1)" by fastforce
  have a: "cache_all P c1" "mc_max c1 = mc_max c" "loop_result env P (claude_listing ps) r"
    using discover_loop_all [OF assms] by (simp_all add: l)
  show ?thesis
  proof (cases r)
    case (Inl e)
    with a l show ?thesis by (simp add: claude_discover_def)
  next
    case (Inr p)
    then have d: "claude_discover env c ps = (Inr (fst p), prune_cache c1 (set (snd p)))"
      using l by (cases p) (simp add: claude_discover_def)
    from a(3) Inr show ?thesis
      unfolding d fst_conv snd_conv using prune_cache_all [OF a(1), of "set (snd p)"] a(2)
      by (cases p) (simp add: loop_result_def)
  qed
qed

lemma claude_discover_fresh:
  assumes "cache_all (read_as env content) c" and "\<forall>nf \<in> set (claude_listing ps). stable content (snd nf)"
  shows "fst (claude_discover env c ps) = fresh_discover env ps"
proof -
  obtain r c1 where l: "discover_loop env c (claude_listing ps) = (r, c1)" by fastforce
  have "fresh_discover env ps = map_sum id fst r"
    using discover_loop_fresh [OF assms] by (simp only: l fst_conv fresh_discover_def)
  then show ?thesis
    by (cases r) (auto simp: claude_discover_def l split: prod.splits)
qed

lemma claude_runs_all:
  assumes "cache_all P c" and "\<forall>ps \<in> set pss. \<forall>nf \<in> set (claude_listing ps). gives env P nf"
  shows "cache_all P (snd (claude_runs env c pss)) \<and> mc_max (snd (claude_runs env c pss)) = mc_max c
    \<and> list_all2 (\<lambda>ps r. \<forall>ss. r = Inr ss \<longrightarrow> list_all2 (loads_as env P) (claude_listed (claude_listing ps)) ss)
        pss (fst (claude_runs env c pss))"
  using assms
proof (induction pss arbitrary: c)
  case (Cons ps pss)
  obtain r c1 where d: "claude_discover env c ps = (r, c1)" by fastforce
  obtain rs c2 where rest: "claude_runs env c1 pss = (rs, c2)" by fastforce
  have run: "claude_runs env c (ps # pss) = (r # rs, c2)"
    by (simp add: d rest)
  have one: "cache_all P c1" "mc_max c1 = mc_max c"
    "\<forall>ss. r = Inr ss \<longrightarrow> list_all2 (loads_as env P) (claude_listed (claude_listing ps)) ss"
    using claude_discover_all [OF Cons.prems(1), of ps env] Cons.prems(2) by (simp_all add: d)
  have "\<forall>ps \<in> set pss. \<forall>nf \<in> set (claude_listing ps). gives env P nf"
    using Cons.prems(2) by simp
  from Cons.IH [OF one(1) this] one(2,3) show ?case
    unfolding run fst_conv snd_conv by (simp add: rest)
qed simp

lemma gives_stable: "stable content (snd nf) \<Longrightarrow> gives env (read_as env content) nf"
  by (auto simp: gives_def stable_def read_as_def split: option.splits)

text \<open>
  C35: Claude discovery is independent of its metadata cache. When the contents of a transcript are
  determined by its signature (path, modification time, size), any sequence of discoveries over
  changing directories gives each time what reading every transcript afresh would give, the same
  exception included, and the cache never exceeds its bound.
\<close>

theorem claude_discover_cached:
  assumes "new_cache n = Some c"
    and "\<forall>ps \<in> set pss. \<forall>nf \<in> set (claude_listing ps). stable content (snd nf)"
  shows "\<exists>c'. claude_runs env c pss = (map (fresh_discover env) pss, c')
    \<and> length (mc_entries c') \<le> nat n"
proof -
  have c: "cache_all (read_as env content) c" "mc_max c = nat n"
    using new_cache_all [OF assms(1)] by auto
  have *: "fst (claude_runs env d pss) = map (fresh_discover env) pss"
    if "cache_all (read_as env content) d" for d
    using that assms(2)
  proof (induction pss arbitrary: d)
    case (Cons ps pss)
    have st: "\<forall>nf \<in> set (claude_listing ps). stable content (snd nf)"
      using Cons.prems(2) by simp
    have d1: "cache_all (read_as env content) (snd (claude_discover env d ps))"
      using claude_discover_all [OF Cons.prems(1)] st gives_stable by blast
    have "fst (claude_discover env d ps) = fresh_discover env ps"
      by (rule claude_discover_fresh [OF Cons.prems(1) st])
    with Cons.IH [OF d1] Cons.prems(2) show ?case
      by (auto split: prod.splits)
  qed simp
  have "cache_all (read_as env content) (snd (claude_runs env c pss)) \<and> mc_max (snd (claude_runs env c pss)) = nat n"
    using claude_runs_all [OF c(1)] assms(2) gives_stable c(2) by metis
  with * [OF c(1)] show ?thesis
    by (cases "claude_runs env c pss") (simp add: cache_all_def)
qed

text \<open>
  C36: Discovered Claude sessions are sound. In any sequence of discoveries from an empty cache, a
  discovery that does not raise reports exactly one session for every regular transcript, in
  order. Its title is one line of at most 160 characters. When it has a parent, the parent's
  identifier is well-formed (not empty, at most 512 characters, no separator and no control
  character), differs from the session's own, and the session goes by its file name.
\<close>

theorem claude_sessions_sound:
  assumes "new_cache n = Some c"
  shows "list_all2 (\<lambda>ps r. \<forall>ss. r = Inr ss \<longrightarrow>
      list_all2 (\<lambda>nf s. session_ok (snd nf) s) (claude_listed (claude_listing ps)) ss)
    pss (fst (claude_runs env c pss))"
proof -
  have g: "gives env (\<lambda>_. meta_ok) nf" for nf
    using claude_metadata_ok by (auto simp: gives_def)
  have "session_ok (snd nf) s" if "loads_as env (\<lambda>_. meta_ok) nf s" for nf s
    using that claude_session_ok unfolding loads_as_def by blast
  then have ok: "list_all2 (\<lambda>nf s. session_ok (snd nf) s) xs ys"
    if "list_all2 (loads_as env (\<lambda>_. meta_ok)) xs ys" for xs ys
    using that by (rule list_all2_mono [rotated])
  have "list_all2 (\<lambda>ps r. \<forall>ss. r = Inr ss \<longrightarrow>
      list_all2 (loads_as env (\<lambda>_. meta_ok)) (claude_listed (claude_listing ps)) ss) pss (fst (claude_runs env c pss))"
    using claude_runs_all [of "\<lambda>_. meta_ok" c pss env] new_cache_all [OF assms] g by blast
  then show ?thesis
    by (rule list_all2_mono) (blast intro: ok)
qed

subsection \<open>Events\<close>

lemma claude_item_proper:
  assumes "claude_item env ts s rt item = Inr es" and "e \<in> set es"
  shows "proper_event 120 s e"
  using assms
  by (auto simp: claude_item_def Let_def proper_snip split: if_splits sum.splits)

lemma claude_normalize_proper:
  assumes "claude_normalize env r s = Inr es" and "e \<in> set es"
  shows "proper_event 120 s e"
proof -
  obtain ts rt items where "map_sum id concat (collect (map (claude_item env ts s rt) items)) = Inr es"
    using assms by (auto simp: claude_normalize_def Let_def split: option.splits)
  then obtain ess where c: "collect (map (claude_item env ts s rt) items) = Inr ess" "es = concat ess"
    by (cases "collect (map (claude_item env ts s rt) items)") auto
  then obtain es1 where "es1 \<in> set ess" "e \<in> set es1"
    using assms(2) by auto
  with collect_memberD [OF c(1)] claude_item_proper show ?thesis
    by blast
qed

interpretation claude: one_line_normalizer "claude_normalize env" 120
  by unfold_locales (use claude_normalize_proper in \<open>auto simp: proper_event_def\<close>)

text \<open>
  C37: Whatever a Claude transcript holds, every event that a session tailer with the Claude adapter
  delivers carries the agent and the identifier of the tailer's session, and its text is a single
  line of at most 120 characters.
\<close>

theorem claude_tailer_events:
  assumes "t_adapter t = adapter_of (py ''claude'') True shown (claude_normalize env)"
    and "tailer_poll L ops t penv = (Inr es, t')" and "e \<in> set es"
  shows "ev_agent e = s_agent (t_session t) \<and> ev_session_id e = s_id (t_session t)
    \<and> one_line (ev_text e) \<and> length (ev_text e) \<le> 120"
  using claude.tailer_events_proper [OF assms] by (simp add: proper_event_def)

subsection \<open>Examples\<close>

definition ex_claude_file :: claude_file where
  "ex_claude_file = \<lparr>cf_path = py ''p/s1/subagents/x.jsonl'', cf_abspath = py ''/p/s1/subagents/x.jsonl'',
     cf_parts = [py ''s1'', py ''subagents'', py ''x.jsonl''],
     cf_stat = Some \<lparr>sr_regular = True, sr_mtime_ns = 5000000000, sr_size = 3\<rparr>,
     cf_file = Some (3, [123, 125, 10])\<rparr>"

definition ex_claude_project :: claude_project where
  "ex_claude_project = \<lparr>cp_name = py ''p'', cp_is_dir = True, cp_files = [ex_claude_file]\<rparr>"

definition ex_discover_env :: discover_env where
  "ex_discover_env = \<lparr>de_limits = ex_limits, de_str = (\<lambda>_. []),
     de_clock = \<lparr>ck_float = (\<lambda>_. None), ck_iso = (\<lambda>_. None)\<rparr>\<rparr>"

definition ex_claude_session :: Session where
  "ex_claude_session = \<lparr>s_agent = py ''claude'', s_id = py ''x'', s_project = py ''p'',
     s_transcript = py ''p/s1/subagents/x.jsonl'', s_updated_at = 5, s_title = [], s_status = IDLE,
     s_extra = [(pstr ''source'', pstr ''transcript''), (pstr ''sidechain'', PBool False)],
     s_parent_id = Some (py ''s1'')\<rparr>"

lemma ex_listing: "claude_listing [ex_claude_project] = [(py ''p'', ex_claude_file)]"
  by (simp add: claude_listing_def ex_claude_project_def)

lemma ex_signature: "cf_signature ex_claude_file = Some (py ''/p/s1/subagents/x.jsonl'', 5000000000, 3)"
  by (simp add: cf_signature_def file_signature_def ex_claude_file_def)

lemma ex_metadata:
  "claude_metadata ex_limits (\<lambda>_. []) (Some (3, [123, 125, 10])) =
    Inr \<lparr>cm_cwd = [], cm_session_id = [], cm_title = [], cm_sidechain = False, cm_parent = None,
      cm_model = [], cm_provider = [], cm_created = PNone\<rparr>"
  by (simp add: claude_metadata_def read_jsonl_prefix_def jsonl_records_def bytes_splitlines_def ex_object
      metadata_step_def claude_vars0_def metadata_result_def ai_title_of_def first_prompt_def type_is_def
      claude_identifier_def PARENT_SESSION_KEYS_def record_string_def MODEL_KEYS_def PROVIDER_KEYS_def
      List.map_filter_def snip_text_def split_def)

lemma ex_discovered: "fresh_discover ex_discover_env [ex_claude_project] = Inr [ex_claude_session]"
  by (simp add: fresh_discover_def ex_listing ex_signature) (simp add: ex_claude_file_def ex_discover_env_def
      ex_metadata claude_session_def parent_of_def path_parent_def child_id_def path_stem_def
      claude_identifier_def strip_def strip_by_def is_space_def bad_identifier_char_def claude_extra_def
      created_at_extra_def timestamp_epoch_def List.map_filter_def ex_claude_session_def Let_def py_def)

definition ex_claude_cache :: claude_cache where
  "ex_claude_cache = \<lparr>mc_max = 1, mc_entries = []\<rparr>"

lemma ex_new_cache: "new_cache 1 = Some ex_claude_cache"
  by (simp add: new_cache_def ex_claude_cache_def)

theorem claude_discover_cached_witness:
  "fst (claude_runs ex_discover_env ex_claude_cache [[ex_claude_project], [], [ex_claude_project]]) =
    [Inr [ex_claude_session], Inr [], Inr [ex_claude_session]]"
proof -
  have "stable (\<lambda>_. Some (3, [123, 125, 10])) ex_claude_file"
    by (simp add: stable_def ex_signature) (simp add: ex_claude_file_def)
  then have "\<forall>ps \<in> set [[ex_claude_project], [], [ex_claude_project]]. \<forall>nf \<in> set (claude_listing ps).
      stable (\<lambda>_. Some (3, [123, 125, 10])) (snd nf)"
    by (simp add: ex_listing) (simp add: claude_listing_def)
  from claude_discover_cached [OF ex_new_cache this, of ex_discover_env] show ?thesis
    by (auto simp: ex_discovered) (simp add: fresh_discover_def claude_listing_def)
qed

theorem claude_sessions_sound_witness:
  "session_ok ex_claude_file ex_claude_session \<and> s_parent_id ex_claude_session = Some (py ''s1'')"
proof -
  have c: "cache_all (read_as ex_discover_env (\<lambda>_. cf_file ex_claude_file)) ex_claude_cache"
    by (simp add: cache_all_def ex_claude_cache_def)
  have "fst (claude_runs ex_discover_env ex_claude_cache [[ex_claude_project]]) = [Inr [ex_claude_session]]"
    using claude_discover_fresh [OF c, of "[ex_claude_project]"] ex_discovered
    by (cases "claude_discover ex_discover_env ex_claude_cache [ex_claude_project]")
      (simp add: ex_listing stable_def ex_signature)
  then have "session_ok ex_claude_file ex_claude_session"
    using claude_sessions_sound [OF ex_new_cache, of "[[ex_claude_project]]" ex_discover_env]
    by (simp add: ex_listing claude_listed_def ex_signature)
  then show ?thesis by (simp add: ex_claude_session_def)
qed

definition ex_norm_env :: norm_env where
  "ex_norm_env = \<lparr>ne_str = (\<lambda>_. []), ne_repr = (\<lambda>_. []),
     ne_local = \<lparr>le_clock = \<lparr>ck_float = (\<lambda>_. None), ck_iso = (\<lambda>_. None)\<rparr>, le_now = 0,
       le_utc = (\<lambda>_. True), le_iso = (\<lambda>_. Some (py ''now''))\<rparr>\<rparr>"

definition ex_claude_record :: pydict where
  "ex_claude_record = [(pstr ''type'', pstr ''user''),
     (pstr ''message'', PDict [(pstr ''content'', PStr [32, 104, 10, 105])])]"

definition ex_claude_tailer :: "unit SessionTailer" where
  "ex_claude_tailer = ex_tailer\<lparr>t_session := ex_claude_session, t_is_dsh := False,
     t_adapter := adapter_of (py ''claude'') True (\<lambda>_. []) (claude_normalize ex_norm_env),
     t_follower := Some (JsonlFollower (ex_follower\<lparr>f_records := [ex_claude_record]\<rparr>))\<rparr>"

definition ex_claude_event :: Event where
  "ex_claude_event = event_for (py ''now'') ex_claude_session (py ''user'') (py ''h i'') []"

lemma ex_normalized:
  "claude_normalize ex_norm_env ex_claude_record ex_claude_session = Inr [ex_claude_event]"
  by (simp add: claude_normalize_def ex_norm_env_def ex_claude_record_def local_timestamp_def
      timestamp_epoch_def claude_content_def str_or_empty_def as_mapping_def content_items_def
      claude_item_def type_is_def ex_claude_event_def snip_def snip_text_def split_def is_space_def Let_def
      py_def)

lemma ex_claude_poll:
  "\<exists>t'. tailer_poll ex_limits ex_ops ex_claude_tailer (pager_env [] None) = (Inr [ex_claude_event], t')"
  by (simp add: tailer_poll_def ex_claude_tailer_def poll_def pop_records_def ex_follower_def ex_tailer_def
      normalize_record_def adapter_of_def ex_normalized List.map_filter_def)

theorem claude_tailer_events_witness:
  "ev_session_id ex_claude_event = py ''x'' \<and> one_line (ev_text ex_claude_event)
    \<and> (\<exists>t'. tailer_poll ex_limits ex_ops ex_claude_tailer (pager_env [] None) = (Inr [ex_claude_event], t'))"
proof -
  obtain t' where p: "tailer_poll ex_limits ex_ops ex_claude_tailer (pager_env [] None) = (Inr [ex_claude_event], t')"
    using ex_claude_poll by blast
  have a: "t_adapter ex_claude_tailer = adapter_of (py ''claude'') True (\<lambda>_. []) (claude_normalize ex_norm_env)"
    by (simp add: ex_claude_tailer_def)
  have "t_session ex_claude_tailer = ex_claude_session"
    by (simp add: ex_claude_tailer_def)
  with claude_tailer_events [OF a p, of ex_claude_event] p show ?thesis
    by (simp add: ex_claude_session_def)
qed

end
