(* ===== verification/Copilot.thy ===== *)
theory Copilot
  imports Content Json_Roundtrip
begin

text \<open>
  The GitHub Copilot adapter (\<open>sidecar/adapters/copilot.py\<close>): sessions are described by the
  top-level scalars of a \<open>workspace.yaml\<close>, which the adapter reads without a YAML parser.

  \<^item> A \<open>copilot_file\<close> is one \<open>workspace.yaml\<close>: its path, the name of its directory, the
    modification time (\<open>None\<close> for an \<open>OSError\<close>), and its bytes (\<open>None\<close> for an \<open>OSError\<close>).
  \<^item> \<open>yaml_env\<close> holds the interpreter's limits and its character database: lower case outside ASCII
    and the values of the other decimal digits that \<open>int\<close> accepts.
\<close>

subsection \<open>Scalars\<close>

definition rstrip :: "pystr \<Rightarrow> pystr" where
  "rstrip s = rev (dropWhile is_space (rev s))"

text \<open>
  \<open>_strip_scalar_comment\<close>: \<open>quote\<close> is the open quote or 0, \<open>pre\<close> the characters before the index,
  last first. The result is the value before a comment, \<open>None\<close> when there is no comment.
\<close>

function comment_scan :: "nat \<Rightarrow> pystr \<Rightarrow> pystr \<Rightarrow> pystr option" where
  "comment_scan quote pre [] = None"
| "comment_scan quote pre (c # s) =
     (if quote = 34 then
        (if c = 92 then comment_scan quote (rev (take 1 s) @ c # pre) (drop 1 s)
         else comment_scan (if c = 34 then 0 else quote) (c # pre) s)
      else if quote = 39 then
        (if c = 39 \<and> s \<noteq> [] \<and> hd s = 39 then comment_scan quote (39 # c # pre) (drop 1 s)
         else comment_scan (if c = 39 then 0 else quote) (c # pre) s)
      else if c = 39 \<or> c = 34 then comment_scan c (c # pre) s
      else if c = 35 \<and> (pre = [] \<or> is_space (hd pre)) then Some (rstrip (rev pre))
      else comment_scan 0 (c # pre) s)"
  by pat_completeness auto
termination by (relation "measure (\<lambda>(quote, pre, s). length s)") auto

definition strip_scalar_comment :: "pystr \<Rightarrow> pystr" where
  "strip_scalar_comment v = (case comment_scan 0 [] v of None \<Rightarrow> v | Some t \<Rightarrow> t)"

record yaml_env =
  ye_limits :: py_limits
  ye_lower :: "nat \<Rightarrow> pystr"
  ye_digit :: "nat \<Rightarrow> nat option"

text \<open>\<open>int(text)\<close>: a sign and decimal digits with single underscores between them.\<close>

definition decimal_value :: "yaml_env \<Rightarrow> nat \<Rightarrow> nat option" where
  "decimal_value ye c = (if c < 128 then (if is_digit c then Some (c - 48) else None) else ye_digit ye c)"

fun digit_run :: "yaml_env \<Rightarrow> bool \<Rightarrow> pystr \<Rightarrow> nat list option" where
  "digit_run ye after_digit [] = (if after_digit then Some [] else None)"
| "digit_run ye after_digit (c # s) =
     (if c = 95 then (if after_digit then digit_run ye False s else None)
      else
        (case decimal_value ye c of
           None \<Rightarrow> None
         | Some d \<Rightarrow> map_option (Cons d) (digit_run ye True s)))"

definition int_of_text :: "yaml_env \<Rightarrow> pystr \<Rightarrow> int option" where
  "int_of_text ye t =
     (let s = strip t;
          negative = (s \<noteq> [] \<and> hd s = 45);
          body = (if s \<noteq> [] \<and> (hd s = 45 \<or> hd s = 43) then tl s else s);
          bound = py_int_digits (ye_limits ye)
      in case digit_run ye False body of
           None \<Rightarrow> None
         | Some ds \<Rightarrow>
             if bound \<noteq> 0 \<and> bound < length ds then None
             else
               (let n = foldl (\<lambda>n d. 10 * n + int d) 0 ds in Some (if negative then - n else n)))"

definition yaml_scalar :: "yaml_env \<Rightarrow> pystr \<Rightarrow> loads_exc + pyval" where
  "yaml_scalar ye v =
     (let t = strip_scalar_comment (strip v); lowered = lower (ye_lower ye) t in
      if t = [] then Inr (PStr [])
      else if starts_with [34] t \<and> ends_with t [34] then
        (case json_loads (ye_limits ye) t of
           Inr w \<Rightarrow> Inr w
         | Inl JRecursion \<Rightarrow> Inl RecursionError
         | Inl (JHook _) \<Rightarrow> Inl IntDigitsValueError
         | Inl _ \<Rightarrow> Inr (PStr (butlast (tl t))))
      else if starts_with [39] t \<and> ends_with t [39] then
        Inr (PStr (replace_all [39, 39] [39] (butlast (tl t))))
      else if lowered = py ''null'' \<or> lowered = py ''~'' then Inr PNone
      else if lowered = py ''true'' then Inr (PBool True)
      else if lowered = py ''false'' then Inr (PBool False)
      else Inr (case int_of_text ye t of Some i \<Rightarrow> PInt i | None \<Rightarrow> PStr t))"

subsection \<open>Metadata\<close>

definition WORKSPACE_BYTES :: nat where
  "WORKSPACE_BYTES = 64 * 1024"

text \<open>The key and the value of one line, if the line sets one.\<close>

definition yaml_line :: "pystr \<Rightarrow> (pystr \<times> pystr) option" where
  "yaml_line raw =
     (let line = strip raw in
      if line = [] \<or> hd line = 35 \<or> 58 \<notin> set line then None
      else
        (case partition_at 58 line of
           (k, _, v) \<Rightarrow>
             (let key = strip k in
              if key = [] \<or> hd key = 45 \<or> is_space (hd raw) then None else Some (key, v))))"

fun yaml_lines :: "yaml_env \<Rightarrow> pydict \<Rightarrow> pystr list \<Rightarrow> loads_exc + pydict" where
  "yaml_lines ye d [] = Inr d"
| "yaml_lines ye d (raw # ls) =
     (case yaml_line raw of
        None \<Rightarrow> yaml_lines ye d ls
      | Some (key, v) \<Rightarrow>
          (case yaml_scalar ye v of
             Inl e \<Rightarrow> Inl e
           | Inr w \<Rightarrow> yaml_lines ye (dict_set d (PStr key) w) ls))"

definition workspace_metadata :: "yaml_env \<Rightarrow> bytes option \<Rightarrow> loads_exc + pydict" where
  "workspace_metadata ye file =
     (case file of
        None \<Rightarrow> Inr []
      | Some content \<Rightarrow>
          (let data = take (WORKSPACE_BYTES + 1) content;
               data' =
                 (if WORKSPACE_BYTES < length data then
                    (let cut = take WORKSPACE_BYTES data in
                     if ends_with cut [10] \<or> ends_with cut [13] then cut else through_last_newline cut)
                  else data)
           in yaml_lines ye [] (splitlines (decode_replace data'))))"

definition metadata_string :: "pydict \<Rightarrow> string list \<Rightarrow> pystr" where
  "metadata_string d ks = first_string d ks"

fun metadata_timestamp :: "clock_env \<Rightarrow> pydict \<Rightarrow> string list \<Rightarrow> time option" where
  "metadata_timestamp ck d [] = None"
| "metadata_timestamp ck d (k # ks) =
     (case timestamp_epoch ck (dget d k) of None \<Rightarrow> metadata_timestamp ck d ks | Some e \<Rightarrow> Some e)"

subsection \<open>The adapter\<close>

record copilot_file =
  wf_path :: pystr
  wf_parent_name :: pystr
  wf_mtime :: "time option"
  wf_content :: "bytes option"

definition dict_update :: "pydict \<Rightarrow> pydict \<Rightarrow> pydict" where
  "dict_update d e = foldl (\<lambda>d (k, v). dict_set d k v) d e"

definition copilot_extra :: "clock_env \<Rightarrow> copilot_file \<Rightarrow> pydict \<Rightarrow> pydict" where
  "copilot_extra ck w d =
     (let x1 = dict_set d (pstr ''source'') (pstr ''workspace'');
          x2 = dict_set x1 (pstr ''workspace'') (PStr (wf_path w));
          x3 = dict_update x2 (created_at_extra ck [dget d ''created_at'', dget d ''createdAt'']);
          model = metadata_string d MODEL_KEYS;
          provider = metadata_string d PROVIDER_KEYS;
          x4 = (if model \<noteq> [] then dict_set x3 (pstr ''model'') (PStr model) else x3)
      in if provider \<noteq> [] then dict_set x4 (pstr ''model_provider'') (PStr provider) else x4)"

definition copilot_session :: "clock_env \<Rightarrow> copilot_file \<Rightarrow> time \<Rightarrow> pydict \<Rightarrow> Session" where
  "copilot_session ck w file_updated_at d =
     (let stored = metadata_string d [''id'', ''session_id''] in
      \<lparr>s_agent = py ''copilot'',
       s_id = (if stored \<noteq> [] then stored else wf_parent_name w),
       s_project = metadata_string d [''cwd'', ''git_root'', ''workspace''],
       s_transcript = [],
       s_updated_at =
         (case metadata_timestamp ck d [''updated_at'', ''updatedAt'', ''created_at'', ''createdAt''] of
            None \<Rightarrow> file_updated_at
          | Some e \<Rightarrow> e),
       s_title = snip_text (metadata_string d [''title'', ''name'', ''summary'']) 160,
       s_status = IDLE,
       s_extra = copilot_extra ck w d,
       s_parent_id = None\<rparr>)"

fun copilot_discover :: "yaml_env \<Rightarrow> clock_env \<Rightarrow> copilot_file list \<Rightarrow> loads_exc + Session list" where
  "copilot_discover ye ck [] = Inr []"
| "copilot_discover ye ck (w # ws) =
     (case wf_mtime w of
        None \<Rightarrow> copilot_discover ye ck ws
      | Some mtime \<Rightarrow>
          (case workspace_metadata ye (wf_content w) of
             Inl e \<Rightarrow> Inl e
           | Inr d \<Rightarrow> map_sum id (Cons (copilot_session ck w mtime d)) (copilot_discover ye ck ws)))"

definition copilot_normalize :: "pydict \<Rightarrow> Session \<Rightarrow> norm_exc + Event list" where
  "copilot_normalize r s = Inr []"

definition copilot_infer_status :: "Session \<Rightarrow> time option \<Rightarrow> Status option" where
  "copilot_infer_status s now = Some IDLE"

interpretation copilot: one_line_normalizer copilot_normalize 0
  by unfold_locales (simp_all add: copilot_normalize_def)

subsection \<open>Discovered sessions\<close>

text \<open>
  The adapter's own entries win over a file that sets the same keys, and every workspace whose
  status can be read gives one session.
\<close>

lemma dict_get_update:
  "\<forall>kv \<in> set e. fst kv \<noteq> PStr k \<Longrightarrow> dict_get (dict_update d e) k = dict_get d k"
  by (induction e arbitrary: d) (auto simp: dict_update_def dict_get_def map_of_dict_set)

lemma created_at_keys: "kv \<in> set (created_at_extra ck vs) \<Longrightarrow> fst kv = pstr ''created_at_epoch''"
  by (auto simp: created_at_extra_def split: list.splits)

lemma copilot_extra_own:
  "dget (copilot_extra ck w d) ''source'' = pstr ''workspace''"
  "dget (copilot_extra ck w d) ''workspace'' = PStr (wf_path w)"
proof -
  have skip: "dget (dict_update x (created_at_extra ck vs)) k = dget x k"
    if "k \<noteq> ''created_at_epoch''" for x vs k
    using that created_at_keys by (intro dict_get_update) fastforce
  show "dget (copilot_extra ck w d) ''source'' = pstr ''workspace''"
    "dget (copilot_extra ck w d) ''workspace'' = PStr (wf_path w)"
    by (simp_all add: copilot_extra_def Let_def dict_get_set skip)
qed

lemma copilot_discover_sound:
  assumes "copilot_discover ye ck ws = Inr ss"
  shows "list_all2 (\<lambda>w s. s_agent s = py ''copilot'' \<and> s_parent_id s = None \<and> length (s_title s) \<le> 160
      \<and> dget (s_extra s) ''source'' = pstr ''workspace'' \<and> dget (s_extra s) ''workspace'' = PStr (wf_path w))
    (filter (\<lambda>w. wf_mtime w \<noteq> None) ws) ss"
  using assms
proof (induction ws arbitrary: ss)
  case (Cons w ws)
  have title: "length (snip_text x 160) \<le> 160" for x
    using snip_text_bound [of 160 x] by simp
  show ?case
  proof (cases "wf_mtime w")
    case None
    with Cons show ?thesis by simp
  next
    case (Some m)
    then obtain d ss' where "workspace_metadata ye (wf_content w) = Inr d" "copilot_discover ye ck ws = Inr ss'"
      "ss = copilot_session ck w m d # ss'"
      using Cons.prems by (cases "copilot_discover ye ck ws") (auto split: sum.splits)
    with Some Cons.IH [of ss'] title show ?thesis
      by (simp add: copilot_session_def Let_def copilot_extra_own)
  qed
qed simp

subsection \<open>Quoted scalars\<close>

text \<open>What may follow a scalar: white space, and a comment after white space.\<close>

definition scalar_tail :: "pystr \<Rightarrow> bool" where
  "scalar_tail t \<longleftrightarrow> list_all is_space t
     \<or> (\<exists>sp c. t = sp @ 35 # c \<and> sp \<noteq> [] \<and> list_all is_space sp)"

lemma dropWhile_all_prefix: "list_all P xs \<Longrightarrow> ys \<noteq> [] \<Longrightarrow> \<not> P (hd ys) \<Longrightarrow> dropWhile P (xs @ ys) = ys"
  by (induction xs) (cases ys; auto)+

lemma strip_around:
  assumes "list_all is_space sp" and "q \<noteq> []" and "\<not> is_space (hd q)" and "\<not> is_space (last q)"
  shows "strip (sp @ q @ t) = q @ rstrip t"
proof -
  have "dropWhile is_space (sp @ q @ t) = q @ t"
    using assms by (intro dropWhile_all_prefix) auto
  moreover have "dropWhile is_space (rev t @ rev q) = dropWhile is_space (rev t) @ rev q"
  proof (cases "list_all is_space (rev t)")
    case True
    then have "dropWhile is_space (rev t) = []"
      by (simp add: list_all_iff)
    with True assms(2,4) show ?thesis
      by (simp add: dropWhile_all_prefix hd_rev)
  next
    case False
    then show ?thesis
      by (auto simp: list_all_iff dropWhile_append1)
  qed
  ultimately show ?thesis
    by (simp add: strip_def strip_by_def rstrip_def)
qed

lemma rstrip_spaces: "list_all is_space t \<Longrightarrow> rstrip t = []"
  by (simp add: rstrip_def list_all_iff)

lemma rstrip_tail: "scalar_tail t \<Longrightarrow> rstrip t = [] \<or> (\<exists>sp c. rstrip t = sp @ 35 # c \<and> sp \<noteq> [] \<and> list_all is_space sp)"
proof -
  assume "scalar_tail t"
  then consider "list_all is_space t" | sp c where "t = sp @ 35 # c" "sp \<noteq> []" "list_all is_space sp"
    by (auto simp: scalar_tail_def)
  then show ?thesis
  proof cases
    case 2
    have "rstrip (sp @ 35 # c) = sp @ 35 # rstrip c"
      using strip_around [of "[]" "[35]" c] 
      by (auto simp: rstrip_def is_space_def dropWhile_append)
    with 2 show ?thesis by blast
  qed (simp add: rstrip_spaces)
qed

text \<open>Behind the closing quote the comment is found, and nothing else is cut.\<close>

lemma comment_after:
  assumes "list_all is_space sp" and "sp \<noteq> []" and "pre \<noteq> []" and "\<not> is_space (hd pre)"
  shows "comment_scan 0 pre (sp @ 35 # c) = Some (rev pre)"
proof -
  have *: "comment_scan 0 p (xs @ 35 # c) = Some (rstrip (rev p @ xs))"
    if "list_all is_space xs" "xs \<noteq> [] \<or> is_space (hd p)" for p xs
    using that
  proof (induction xs arbitrary: p)
    case (Cons x xs)
    then have "x \<noteq> 39" "x \<noteq> 34" "x \<noteq> 35"
      by (auto simp: is_space_def)
    with Cons show ?case by auto
  qed simp
  have "rstrip (rev pre @ sp) = rev pre"
    using strip_around [of "[]" "rev pre" sp] assms
    by (simp add: rstrip_def list_all_iff dropWhile_append hd_rev) (cases pre; simp)
  with * [OF assms(1), of pre] assms(2) show ?thesis by simp
qed

lemma quoted_then_tail:
  assumes scan: "\<And>r. r = [] \<or> is_space (hd r) \<Longrightarrow> comment_scan 0 [] (q @ r) = comment_scan 0 (rev q) r"
    and q: "q \<noteq> []" "\<not> is_space (hd q)" "\<not> is_space (last q)"
    and sp: "list_all is_space sp" and t: "scalar_tail t"
  shows "strip_scalar_comment (strip (sp @ q @ t)) = q"
proof -
  have v: "strip (sp @ q @ t) = q @ rstrip t"
    by (rule strip_around) (use sp q in auto)
  from rstrip_tail [OF t] show ?thesis
  proof (elim disjE exE conjE)
    assume "rstrip t = []"
    with v scan [of "[]"] show ?thesis by (simp add: strip_scalar_comment_def)
  next
    fix sp' c assume r: "rstrip t = sp' @ 35 # c" "sp' \<noteq> []" "list_all is_space sp'"
    then have "is_space (hd (rstrip t))"
      by (cases sp') auto
    then have "comment_scan 0 [] (q @ rstrip t) = Some q"
      using scan [of "rstrip t"] comment_after [of sp' "rev q" c] r q by (simp add: hd_rev)
    then show ?thesis
      unfolding v by (simp add: strip_scalar_comment_def)
  qed
qed

lemma quote_not_space: "\<not> is_space 34" "\<not> is_space 39"
  by (simp_all add: is_space_def)

subsubsection \<open>Double quotes\<close>

lemma hex_char_plain: "n < 16 \<Longrightarrow> hex_char n \<noteq> 34 \<and> hex_char n \<noteq> 92"
  by (auto simp: hex_char_def)

lemma scan_plain: "c \<noteq> 34 \<Longrightarrow> c \<noteq> 92 \<Longrightarrow> comment_scan 34 pre (c # r) = comment_scan 34 (c # pre) r"
  by simp

lemma comment_scan_escaped: "comment_scan 34 pre (escape_char False c @ r) = comment_scan 34 (rev (escape_char False c) @ pre) r"
proof (cases "c < 32 \<and> c \<notin> {10, 13, 9, 12, 8}")
  case True
  then have "escape_char False c = 92 # 117 # hex4_text c"
    by (auto simp: escape_char_def u_escape_def)
  then show ?thesis
    by (simp add: hex4_text_def hex_char_plain)
next
  case False
  then show ?thesis
    by (auto simp: escape_char_def)
qed

lemma comment_scan_body:
  "comment_scan 34 pre (concat (map (escape_char False) s) @ r) =
    comment_scan 34 (rev (concat (map (escape_char False) s)) @ pre) r"
  by (induction s arbitrary: pre) (simp_all add: comment_scan_escaped)

lemma comment_scan_double: "comment_scan 0 [] (dump_string False s @ r) = comment_scan 0 (rev (dump_string False s)) r"
  by (simp add: dump_string_def comment_scan_body)

lemma loads_dumped_string: "json_loads L (dump_string False s) = Inr (PStr s)"
  using loads_dumps [of default_opts "\<lambda>_. []" L "PStr s"] by (simp add: default_opts_def)

subsubsection \<open>Single quotes\<close>

definition single_body :: "pystr \<Rightarrow> pystr" where
  "single_body s = concat (map (\<lambda>c. if c = 39 then [39, 39] else [c]) s)"

definition single_quoted :: "pystr \<Rightarrow> pystr" where
  "single_quoted s = 39 # single_body s @ [39]"

lemma comment_scan_single_body:
  "r = [] \<or> hd r \<noteq> 39 \<Longrightarrow> comment_scan 39 pre (single_body s @ 39 # r) = comment_scan 0 (39 # rev (single_body s) @ pre) r"
  by (induction s arbitrary: pre) (auto simp: single_body_def)

lemma comment_scan_single:
  assumes "r = [] \<or> is_space (hd r)"
  shows "comment_scan 0 [] (single_quoted s @ r) = comment_scan 0 (rev (single_quoted s)) r"
proof -
  have "r = [] \<or> hd r \<noteq> 39"
    using assms quote_not_space by auto
  then show ?thesis
    by (simp add: single_quoted_def comment_scan_single_body)
qed

lemma unquote_single: "replace_all [39, 39] [39] (single_body s) = s"
  by (induction s) (auto simp: single_body_def replace_all.simps [of _ _ "_ # _"] replace_all.simps [of _ _ "[]"]
      starts_with_def)

text \<open>
  C38: The Copilot reader understands quoted scalars. A text written in double quotes with JSON
  escapes, or in single quotes with quotes doubled, is read back exactly, whatever characters it
  contains (\<open>#\<close>, quotes and backslashes included), with any white space around it and with or
  without a trailing comment.
\<close>

theorem yaml_scalar_roundtrip:
  assumes "list_all is_space sp" and "scalar_tail t"
  shows "yaml_scalar ye (sp @ dump_string False s @ t) = Inr (PStr s)
    \<and> yaml_scalar ye (sp @ single_quoted s @ t) = Inr (PStr s)"
proof
  have "strip_scalar_comment (strip (sp @ dump_string False s @ t)) = dump_string False s"
    by (rule quoted_then_tail [OF comment_scan_double])
      (use assms in \<open>simp_all add: dump_string_def quote_not_space\<close>)
  moreover have "starts_with [34] (dump_string False s)" "ends_with (dump_string False s) [34]"
    "dump_string False s \<noteq> []"
    by (simp_all add: dump_string_def starts_with_def ends_with_def)
  ultimately show "yaml_scalar ye (sp @ dump_string False s @ t) = Inr (PStr s)"
    by (simp add: yaml_scalar_def loads_dumped_string)
  have "strip_scalar_comment (strip (sp @ single_quoted s @ t)) = single_quoted s"
    by (rule quoted_then_tail [OF comment_scan_single])
      (use assms in \<open>simp_all add: single_quoted_def quote_not_space\<close>)
  moreover have "\<not> starts_with [34] (single_quoted s)" "starts_with [39] (single_quoted s)"
    "ends_with (single_quoted s) [39]" "single_quoted s \<noteq> []" "butlast (tl (single_quoted s)) = single_body s"
    by (simp_all add: single_quoted_def starts_with_def ends_with_def)
  ultimately show "yaml_scalar ye (sp @ single_quoted s @ t) = Inr (PStr s)"
    by (simp add: yaml_scalar_def unquote_single)
qed

theorem yaml_scalar_roundtrip_witness:
  "yaml_scalar \<lparr>ye_limits = \<lparr>py_recursion = 1, py_int_digits = 0\<rparr>, ye_lower = (\<lambda>_. []), ye_digit = (\<lambda>_. None)\<rparr>
    (py '' '' @ single_quoted (py ''it's # 1'') @ py ''  # note'') = Inr (PStr (py ''it's # 1''))"
proof -
  have "list_all is_space (py '' '')"
    by (simp add: py_def is_space_def)
  moreover have "scalar_tail (py ''  # note'')"
    unfolding scalar_tail_def by (rule disjI2, rule exI [of _ "[32, 32]"]) (simp add: py_def is_space_def)
  ultimately show ?thesis
    using yaml_scalar_roundtrip by blast
qed

end
