(* ===== verification/Kimi.thy ===== *)
theory Kimi
  imports Content
begin

text \<open>
  Normalization in the Kimi adapter (\<open>sidecar/adapters/kimi.py\<close>). Kimi writes the same message
  more than once, as a prompt, as a context message and as a loop event; the adapter remembers
  the last message of every session and kind and drops a mirror that follows closely.

  \<^item> \<open>kimi_recent\<close> is the dictionary \<open>_recent_content\<close> in insertion order.
  \<^item> \<open>kimi_events\<close> are the events a record stands for and whether they pass through the
    deduplication; \<open>kimi_normalize\<close> is \<open>normalize\<close> with that memory.
\<close>

subsection \<open>Identifiers\<close>

definition child_session_id :: "pystr \<Rightarrow> pystr \<Rightarrow> pystr" where
  "child_session_id session_id agent_id = session_id @ py '':'' @ agent_id"

fun first_truthy :: "pyval list \<Rightarrow> pyval" where
  "first_truthy [] = PNone"
| "first_truthy [v] = v"
| "first_truthy (v # w # vs) = (if truthy v then v else first_truthy (w # vs))"

definition parent_session_id :: "pystr \<Rightarrow> pystr \<Rightarrow> pydict \<Rightarrow> pystr" where
  "parent_session_id session_id agent_id d =
     (case text_of (first_truthy
              [dget d ''parent_id'', dget d ''parentId'', dget d ''parentAgentId'', dget d ''parent'']) of
        Some p \<Rightarrow>
          if p \<noteq> [] \<and> p \<noteq> py ''main'' \<and> p \<noteq> agent_id then child_session_id session_id p else session_id
      | None \<Rightarrow> session_id)"

subsection \<open>Events of a record\<close>

text \<open>\<open>_event_extra(record, **values)\<close>: values that are \<open>None\<close> are left out.\<close>

definition event_extra :: "(pyval \<Rightarrow> pystr) \<Rightarrow> pydict \<Rightarrow> pydict \<Rightarrow> pydict" where
  "event_extra rp r vs =
     foldl (\<lambda>d (k, v). if v = PNone then d else dict_set d k v)
       [(pstr ''native_type'', PStr (str_or_empty rp (dget r ''type''))),
        (pstr ''agent_id'', PStr (str_or_empty rp (dget r ''agentId'')))] vs"

text \<open>\<open>d.get(key, default)\<close>.\<close>

definition get_default :: "pydict \<Rightarrow> string \<Rightarrow> pyval \<Rightarrow> pyval" where
  "get_default d k v = (case map_of d (pstr k) of None \<Rightarrow> v | Some w \<Rightarrow> w)"

text \<open>The arguments of a call as text.\<close>

definition arguments_text :: "norm_env \<Rightarrow> pyval \<Rightarrow> norm_exc + pystr" where
  "arguments_text env v =
     (case text_of v of
        Some s \<Rightarrow> Inr s
      | None \<Rightarrow> map_sum PrintError id (compact_json (ne_str env) (ne_repr env) v))"

definition call_text :: "norm_env \<Rightarrow> pyval \<Rightarrow> pyval \<Rightarrow> norm_exc + pystr" where
  "call_text env name arguments =
     map_sum id (\<lambda>a. py_str (ne_str env) name @ py '' '' @ a) (arguments_text env arguments)"

definition render_content_block ::
  "norm_env \<Rightarrow> pydict \<Rightarrow> pystr \<Rightarrow> norm_exc + (pystr \<times> pyval \<times> int) option" where
  "render_content_block env item role =
     (let item_type = str_or_empty (ne_str env) (dget item ''type'') in
      if item_type = py ''text'' then
        Inr (Some (if role = py ''tool'' \<or> role = py ''tool_result'' then py ''tool_result'' else role,
                   dget item ''text'', 120))
      else if item_type = py ''reasoning'' \<or> item_type = py ''thinking'' then
        Inr (Some (py ''thinking'', first_truthy [dget item ''text'', dget item ''thinking''], 80))
      else if item_type = py ''tool-call'' \<or> item_type = py ''tool_call'' \<or> item_type = py ''tool_use'' then
        map_sum id (\<lambda>t. Some (py ''tool_call'', PStr t, 120))
          (call_text env (first_truthy [dget item ''name'', dget item ''toolName'', pstr ''tool''])
             (get_default item ''arguments'' (get_default item ''input'' (PDict []))))
      else if item_type = py ''tool-result'' \<or> item_type = py ''tool_result'' then
        map_sum PrintError (\<lambda>t. Some (py ''tool_result'', PStr t, 80))
          (text_content (ne_str env) (ne_repr env) (dget item ''content''))
      else Inr None)"

definition kimi_timestamp :: "norm_env \<Rightarrow> pydict \<Rightarrow> Session \<Rightarrow> norm_exc + pystr" where
  "kimi_timestamp env r s =
     (case local_timestamp (ne_local env) (dget r ''time'') (Some (s_updated_at s)) of
        None \<Rightarrow> Inl ClockError
      | Some ts \<Rightarrow> Inr ts)"

definition tool_call_event :: "norm_env \<Rightarrow> pystr \<Rightarrow> Session \<Rightarrow> pydict \<Rightarrow> pyval \<Rightarrow> norm_exc + Event list" where
  "tool_call_event env ts s r call =
     (case mapping_items call of
        None \<Rightarrow> Inr []
      | Some c \<Rightarrow>
          (let f = as_mapping (dget c ''function'') in
           map_sum id
             (\<lambda>t. [event_for ts s (py ''tool_call'') (snip (ne_str env) (PStr t) 120)
                     (event_extra (ne_str env) r [(pstr ''call_id'', dget c ''id'')])])
             (call_text env
                (first_truthy [dget c ''name'', dget c ''toolName'', dget f ''name'', pstr ''tool''])
                (get_default c ''arguments'' (get_default c ''input'' (get_default f ''arguments'' (PDict [])))))))"

definition tool_call_events :: "norm_env \<Rightarrow> pydict \<Rightarrow> Session \<Rightarrow> pyval \<Rightarrow> norm_exc + Event list" where
  "tool_call_events env r s calls =
     (case seq_items calls of
        None \<Rightarrow> Inr []
      | Some cs \<Rightarrow>
          (case kimi_timestamp env r s of
             Inl e \<Rightarrow> Inl e
           | Inr ts \<Rightarrow> map_sum id concat (collect (map (tool_call_event env ts s r) cs))))"

definition loop_event_extra :: "(pyval \<Rightarrow> pystr) \<Rightarrow> pydict \<Rightarrow> pydict \<Rightarrow> pydict \<Rightarrow> pydict" where
  "loop_event_extra rp r ev vs =
     event_extra rp r
       (foldl (\<lambda>d (k, v). dict_set d k v)
          [(pstr ''loop_event_type'', dget ev ''type''), (pstr ''event_uuid'', dget ev ''uuid''),
           (pstr ''parent_uuid'', dget ev ''parentUuid''), (pstr ''turn_id'', dget ev ''turnId''),
           (pstr ''step'', dget ev ''step''), (pstr ''step_uuid'', dget ev ''stepUuid''),
           (pstr ''call_id'', dget ev ''toolCallId'')] vs)"

text \<open>The kind and the text of a content part.\<close>

definition part_content :: "norm_env \<Rightarrow> pydict \<Rightarrow> (pystr \<times> pystr) option" where
  "part_content env part =
     (let part_type = str_or_empty (ne_str env) (dget part ''type'') in
      if part_type = py ''text'' then Some (py ''assistant'', snip (ne_str env) (dget part ''text'') 120)
      else if part_type = py ''think'' \<or> part_type = py ''thinking'' \<or> part_type = py ''reasoning'' then
        Some (py ''thinking'',
          snip (ne_str env) (first_truthy [dget part ''think'', dget part ''thinking'', dget part ''text'']) 80)
      else None)"

definition loop_events :: "norm_env \<Rightarrow> pydict \<Rightarrow> Session \<Rightarrow> norm_exc + Event list" where
  "loop_events env r s =
     (let ev = as_mapping (dget r ''event'');
          loop_type = str_or_empty (ne_str env) (dget ev ''type'')
      in case kimi_timestamp env r s of
           Inl e \<Rightarrow> Inl e
         | Inr ts \<Rightarrow>
             if loop_type = py ''content.part'' then
               (let part = as_mapping (dget ev ''part'') in
                case part_content env part of
                  None \<Rightarrow> Inr []
                | Some (kind, t) \<Rightarrow>
                    Inr (if t = [] then []
                         else [event_for ts s kind t
                                (loop_event_extra (ne_str env) r ev
                                   [(pstr ''part_type'', PStr (str_or_empty (ne_str env) (dget part ''type'')))])]))
             else if loop_type = py ''tool.call'' then
               (let name = first_truthy [dget ev ''name'', dget ev ''toolName'', pstr ''tool''] in
                map_sum id
                  (\<lambda>t. [event_for ts s (py ''tool_call'') (snip (ne_str env) (PStr t) 120)
                          (loop_event_extra (ne_str env) r ev [(pstr ''tool_name'', name)])])
                  (call_text env name
                     (get_default ev ''args'' (get_default ev ''arguments'' (get_default ev ''input'' (PDict []))))))
             else if loop_type = py ''tool.result'' then
               map_sum PrintError
                 (\<lambda>t. [event_for ts s (py ''tool_result'') (snip (ne_str env) (PStr t) 80)
                         (loop_event_extra (ne_str env) r ev [])])
                 (text_content (ne_str env) (ne_repr env) (dget ev ''result''))
             else Inr [])"

text \<open>A prompt: every event also gets the kind of the prompt's origin.\<close>

definition prompt_events :: "norm_env \<Rightarrow> pystr \<Rightarrow> pydict \<Rightarrow> Session \<Rightarrow> norm_exc + Event list" where
  "prompt_events env ts r s =
     (let origin = as_mapping (dget r ''origin'') in
      map_sum id (map (\<lambda>e. e\<lparr>ev_extra := dict_set (ev_extra e) (pstr ''origin'') (dget origin ''kind'')\<rparr>))
        (content_block_events (ne_str env) (dget r ''input'') s ts (py ''user'')
           (event_extra (ne_str env) r []) (render_content_block env)))"

definition message_events :: "norm_env \<Rightarrow> pystr \<Rightarrow> pydict \<Rightarrow> Session \<Rightarrow> norm_exc + Event list" where
  "message_events env ts r s =
     (let message = as_mapping (dget r ''message'');
          role = (if truthy (dget message ''role'') then py_str (ne_str env) (dget message ''role'')
                  else py ''message'')
      in case content_block_events (ne_str env) (dget message ''content'') s ts role
                (event_extra (ne_str env) r []) (render_content_block env) of
           Inl e \<Rightarrow> Inl e
         | Inr es \<Rightarrow> map_sum id (\<lambda>calls. es @ calls) (tool_call_events env r s (dget message ''toolCalls'')))"

definition usage_event :: "norm_env \<Rightarrow> pystr \<Rightarrow> pydict \<Rightarrow> Session \<Rightarrow> norm_exc + Event list" where
  "usage_event env ts r s =
     (let usage = PDict (as_mapping (dget r ''usage''));
          model = str_or_empty (ne_str env) (dget r ''model'')
      in map_sum PrintError
           (\<lambda>j. [event_for ts s (py ''token'') (snip (ne_str env) (PStr (strip (model @ py '' '' @ j))) 160)
                   (event_extra (ne_str env) r
                      [(pstr ''model'', PStr model), (pstr ''usage'', usage),
                       (pstr ''scope'', dget r ''usageScope'')])])
           (compact_json (ne_str env) (ne_repr env) usage))"

definition turn_end_event :: "norm_env \<Rightarrow> pystr \<Rightarrow> pydict \<Rightarrow> Session \<Rightarrow> Event" where
  "turn_end_event env ts r s =
     (let reason = (if truthy (dget r ''reason'') then py_str (ne_str env) (dget r ''reason'') else py ''ended'') in
      event_for ts s (py ''turn_end'') reason
        (event_extra (ne_str env) r
           [(pstr ''turn_id'', dget r ''turnId''), (pstr ''duration_ms'', dget r ''durationMs''),
            (pstr ''reason'', PStr reason)]))"

definition kimi_events :: "norm_env \<Rightarrow> pydict \<Rightarrow> Session \<Rightarrow> norm_exc + Event list \<times> bool" where
  "kimi_events env r s =
     (let native_type = str_or_empty (ne_str env) (dget r ''type'') in
      case kimi_timestamp env r s of
        Inl e \<Rightarrow> Inl e
      | Inr ts \<Rightarrow>
          if native_type = py ''turn.prompt'' then map_sum id (\<lambda>es. (es, True)) (prompt_events env ts r s)
          else if native_type = py ''context.append_message'' then
            map_sum id (\<lambda>es. (es, True)) (message_events env ts r s)
          else if native_type = py ''context.append_loop_event'' then
            map_sum id (\<lambda>es. (es, True)) (loop_events env r s)
          else if native_type = py ''usage.record'' then
            map_sum id (\<lambda>es. (es, False)) (usage_event env ts r s)
          else if native_type = py ''turn.ended'' then Inr ([turn_end_event env ts r s], False)
          else Inr ([], False))"

subsection \<open>Deduplication\<close>

type_synonym kimi_recent = "((pystr \<times> pystr) \<times> (pystr \<times> pystr \<times> pyfloat)) list"

definition CONTENT_DEDUP_WINDOW_S :: rat where
  "CONTENT_DEDUP_WINDOW_S = 1"

definition CONTENT_DEDUP_KEYS :: nat where
  "CONTENT_DEDUP_KEYS = 512"

text \<open>\<open>abs(a - b) <= window\<close> on floats.\<close>

fun in_window :: "pyfloat \<Rightarrow> pyfloat \<Rightarrow> bool" where
  "in_window (Fin a) (Fin b) = (\<bar>a - b\<bar> \<le> CONTENT_DEDUP_WINDOW_S)"
| "in_window _ _ = False"

definition is_message :: "Event \<Rightarrow> bool" where
  "is_message e \<longleftrightarrow> ev_kind e = py ''user'' \<or> ev_kind e = py ''assistant''"

definition mirrors :: "(pystr \<times> pystr \<times> pyfloat) option \<Rightarrow> pystr \<Rightarrow> pystr \<Rightarrow> pyfloat \<Rightarrow> bool" where
  "mirrors previous t source tm =
     (case previous of
        None \<Rightarrow> False
      | Some (pt, psource, pat) \<Rightarrow>
          pt = t \<and> psource \<noteq> source
          \<and> (psource = py ''context.append_message'' \<or> source = py ''context.append_message'')
          \<and> in_window pat tm)"

fun dedup_loop ::
  "pystr \<Rightarrow> pyfloat \<Rightarrow> pystr \<Rightarrow> kimi_recent \<Rightarrow> Event list \<Rightarrow> Event list \<times> kimi_recent" where
  "dedup_loop source tm sid recent [] = ([], recent)"
| "dedup_loop source tm sid recent (e # es) =
     (if \<not> is_message e \<or> \<not> truthy (PFloat tm) then
        (case dedup_loop source tm sid recent es of (out, recent') \<Rightarrow> (e # out, recent'))
      else
        (let key = (sid, ev_kind e);
             duplicate = mirrors (map_of recent key) (ev_text e) source tm;
             recent1 = filter (\<lambda>kv. fst kv \<noteq> key) recent @ [(key, (ev_text e, source, tm))]
         in case dedup_loop source tm sid recent1 es of
              (out, recent') \<Rightarrow> (if duplicate then out else e # out, recent')))"

definition deduplicate_content ::
  "(pyval \<Rightarrow> pystr) \<Rightarrow> kimi_recent \<Rightarrow> pydict \<Rightarrow> Session \<Rightarrow> Event list
   \<Rightarrow> (norm_exc + Event list) \<times> kimi_recent" where
  "deduplicate_content rp recent r s es =
     (case epoch_seconds (dget r ''time'') of
        Inl _ \<Rightarrow> (Inl FloatOverflow, recent)
      | Inr t \<Rightarrow>
          (case dedup_loop (str_or_empty rp (dget r ''type''))
                  (case t of Some f \<Rightarrow> f | None \<Rightarrow> Fin 0) (s_id s) recent es of
             (out, recent') \<Rightarrow> (Inr out, lastn CONTENT_DEDUP_KEYS recent')))"

definition kimi_normalize ::
  "norm_env \<Rightarrow> kimi_recent \<Rightarrow> pydict \<Rightarrow> Session \<Rightarrow> (norm_exc + Event list) \<times> kimi_recent" where
  "kimi_normalize env recent r s =
     (case kimi_events env r s of
        Inl e \<Rightarrow> (Inl e, recent)
      | Inr (es, dedup) \<Rightarrow>
          if dedup then deduplicate_content (ne_str env) recent r s es else (Inr es, recent))"

subsection \<open>Status\<close>

definition ACTIVE_WINDOW_S :: rat where
  "ACTIVE_WINDOW_S = 120"

definition kimi_infer_status :: "Session \<Rightarrow> time \<Rightarrow> Status option" where
  "kimi_infer_status s current =
     Some (if truthy (dget (s_extra s) ''archived'') \<or> ACTIVE_WINDOW_S \<le> current - s_updated_at s then IDLE
           else if \<not> truthy (dget (s_extra s) ''last_turn_reason_present'') then WORKING
           else WAITING)"

subsection \<open>Whose events\<close>

definition owned_by :: "Session \<Rightarrow> Event \<Rightarrow> bool" where
  "owned_by s e \<longleftrightarrow> ev_agent e = s_agent s \<and> ev_session_id e = s_id s"

lemma owned_event_for [simp]: "owned_by s (event_for ts s k t x)"
  by (simp add: owned_by_def event_for_def)

lemma map_sum_InrD: "map_sum f g x = Inr y \<Longrightarrow> \<exists>z. x = Inr z \<and> y = g z"
  by (cases x) auto

lemma blocks_owned:
  "content_block_events rp c s ts k x f = Inr es \<Longrightarrow> e \<in> set es \<Longrightarrow> owned_by s e"
  using content_block_events_owned by (fastforce simp: owned_by_def)

lemma owned_by_extra [simp]: "owned_by s (e\<lparr>ev_extra := x\<rparr>) = owned_by s e"
  by (simp add: owned_by_def)

lemma prompt_events_owned:
  assumes "prompt_events env ts r s = Inr es" and "e \<in> set es"
  shows "owned_by s e"
proof -
  obtain zs where zs: "content_block_events (ne_str env) (dget r ''input'') s ts (py ''user'')
        (event_extra (ne_str env) r []) (render_content_block env) = Inr zs"
    and es: "es = map (\<lambda>e. e\<lparr>ev_extra := dict_set (ev_extra e) (pstr ''origin'')
        (dget (as_mapping (dget r ''origin'')) ''kind'')\<rparr>) zs"
    using map_sum_InrD [OF assms(1) [unfolded prompt_events_def Let_def]] by blast
  obtain z where "z \<in> set zs" "e = z\<lparr>ev_extra := dict_set (ev_extra z) (pstr ''origin'')
        (dget (as_mapping (dget r ''origin'')) ''kind'')\<rparr>"
    using assms(2) unfolding es by auto
  with blocks_owned [OF zs] show ?thesis by (simp only: owned_by_extra)
qed

lemma tool_call_event_owned: "tool_call_event env ts s r c = Inr es \<Longrightarrow> e \<in> set es \<Longrightarrow> owned_by s e"
  by (auto simp: tool_call_event_def Let_def split: option.splits dest!: map_sum_InrD)

lemma tool_call_events_owned:
  assumes "tool_call_events env r s cs = Inr es" and "e \<in> set es"
  shows "owned_by s e"
proof -
  obtain ts calls ess where c: "collect (map (tool_call_event env ts s r) calls) = Inr ess" "es = concat ess"
    using assms by (auto simp: tool_call_events_def split: option.splits sum.splits dest!: map_sum_InrD)
  then obtain es1 where "es1 \<in> set ess" "e \<in> set es1" using assms(2) by auto
  with collect_memberD [OF c(1)] tool_call_event_owned show "owned_by s e" by blast
qed

lemma message_events_owned: "message_events env ts r s = Inr es \<Longrightarrow> e \<in> set es \<Longrightarrow> owned_by s e"
  by (auto simp: message_events_def Let_def split: sum.splits dest!: map_sum_InrD
      dest: blocks_owned tool_call_events_owned)

lemma loop_events_owned: "loop_events env r s = Inr es \<Longrightarrow> e \<in> set es \<Longrightarrow> owned_by s e"
  by (auto simp: loop_events_def Let_def split: sum.splits if_splits option.splits prod.splits dest!: map_sum_InrD)

lemma usage_event_owned: "usage_event env ts r s = Inr es \<Longrightarrow> e \<in> set es \<Longrightarrow> owned_by s e"
  by (auto simp: usage_event_def Let_def dest!: map_sum_InrD)

lemma kimi_events_owned: "kimi_events env r s = Inr (es, b) \<Longrightarrow> e \<in> set es \<Longrightarrow> owned_by s e"
  by (auto simp: kimi_events_def turn_end_event_def Let_def split: sum.splits if_splits
      dest!: map_sum_InrD dest: prompt_events_owned message_events_owned loop_events_owned usage_event_owned)

subsection \<open>What the deduplication keeps\<close>

text \<open>Two events say the same thing: same session, kind and text.\<close>

definition same_message :: "Event \<Rightarrow> Event \<Rightarrow> bool" where
  "same_message a b \<longleftrightarrow> ev_session_id a = ev_session_id b \<and> ev_kind a = ev_kind b \<and> ev_text a = ev_text b"

text \<open>Everything remembered was delivered: \<open>D\<close> are the events delivered so far.\<close>

definition remembers :: "Event set \<Rightarrow> kimi_recent \<Rightarrow> bool" where
  "remembers D recent \<longleftrightarrow>
     (\<forall>kv \<in> set recent. \<exists>e \<in> D. (ev_session_id e, ev_kind e) = fst kv \<and> ev_text e = fst (snd kv))"

lemma remembers_mono: "remembers D recent \<Longrightarrow> D \<subseteq> D' \<Longrightarrow> set recent' \<subseteq> set recent \<Longrightarrow> remembers D' recent'"
  unfolding remembers_def by blast

lemma remembers_duplicate:
  assumes "remembers D recent" and "mirrors (map_of recent (sid, k)) t source tm"
  shows "\<exists>e \<in> D. ev_session_id e = sid \<and> ev_kind e = k \<and> ev_text e = t"
proof -
  obtain v where "map_of recent (sid, k) = Some v" "fst v = t"
    using assms(2) by (auto simp: mirrors_def split: option.splits)
  then have "((sid, k), v) \<in> set recent" by (simp add: map_of_SomeD)
  with assms(1) \<open>fst v = t\<close> show ?thesis
    by (fastforce simp: remembers_def)
qed

definition kept :: "Event set \<Rightarrow> Event list \<Rightarrow> Event list \<Rightarrow> kimi_recent \<Rightarrow> bool" where
  "kept D es out recent \<longleftrightarrow> remembers (D \<union> set out) recent \<and> set out \<subseteq> set es
     \<and> filter (\<lambda>e. \<not> is_message e) out = filter (\<lambda>e. \<not> is_message e) es
     \<and> (\<forall>e \<in> set es. \<exists>e' \<in> D \<union> set out. same_message e e')"

lemma kept_Cons:
  assumes "kept (insert e D) es out recent"
  shows "kept D (e # es) (e # out) recent"
proof -
  have "D \<union> set (e # out) = insert e D \<union> set out" by simp
  moreover have "same_message e e" by (simp add: same_message_def)
  ultimately show ?thesis
    using assms unfolding kept_def by auto
qed

lemma kept_drop:
  assumes "kept D es out recent" and "is_message e" and "e' \<in> D" and "same_message e e'"
  shows "kept D (e # es) out recent"
  using assms unfolding kept_def by auto

lemma remembers_snoc:
  assumes "remembers D recent" and "e \<in> D" and "(ev_session_id e, ev_kind e) = key" and "ev_text e = t"
  shows "remembers D (filter P recent @ [(key, t, x)])"
  using assms unfolding remembers_def by auto

lemma dedup_loop_kept:
  assumes "remembers D recent" and "\<forall>e \<in> set es. ev_session_id e = sid"
  shows "kept D es (fst (dedup_loop source tm sid recent es)) (snd (dedup_loop source tm sid recent es))"
  using assms
proof (induction es arbitrary: recent D)
  case Nil
  then show ?case by (simp add: kept_def)
next
  case (Cons e es)
  have es: "\<forall>e \<in> set es. ev_session_id e = sid" and sid: "ev_session_id e = sid"
    using Cons.prems(2) by simp_all
  have more: "remembers (insert e D) recent"
    by (rule remembers_mono [OF Cons.prems(1)]) auto
  show ?case
  proof (cases "\<not> is_message e \<or> \<not> truthy (PFloat tm)")
    case True
    then have "dedup_loop source tm sid recent (e # es) =
        (e # fst (dedup_loop source tm sid recent es), snd (dedup_loop source tm sid recent es))"
      by (simp split: prod.splits)
    then show ?thesis
      using kept_Cons [OF Cons.IH [OF more es]] by simp
  next
    case False
    let ?dup = "mirrors (map_of recent (sid, ev_kind e)) (ev_text e) source tm"
    let ?recent1 = "filter (\<lambda>kv. fst kv \<noteq> (sid, ev_kind e)) recent @ [((sid, ev_kind e), (ev_text e, source, tm))]"
    have step: "dedup_loop source tm sid recent (e # es) =
        ((if ?dup then id else Cons e) (fst (dedup_loop source tm sid ?recent1 es)),
         snd (dedup_loop source tm sid ?recent1 es))"
      using False by (simp add: Let_def split: prod.splits)
    show ?thesis
    proof (cases ?dup)
      case True
      obtain e' where e': "e' \<in> D" "ev_session_id e' = sid" "ev_kind e' = ev_kind e" "ev_text e' = ev_text e"
        using remembers_duplicate [OF Cons.prems(1) True] by blast
      have "remembers D ?recent1"
        by (rule remembers_snoc [OF Cons.prems(1) e'(1)]) (simp_all add: e')
      from Cons.IH [OF this es] have "kept D (e # es) (fst (dedup_loop source tm sid ?recent1 es))
          (snd (dedup_loop source tm sid ?recent1 es))"
        by (rule kept_drop [where e' = e']) (use False e' sid in \<open>auto simp: same_message_def\<close>)
      with True show ?thesis by (simp only: step if_True id_apply fst_conv snd_conv)
    next
      case dup: False
      have "remembers (insert e D) ?recent1"
        by (rule remembers_snoc [OF more, of e]) (simp_all add: sid)
      from kept_Cons [OF Cons.IH [OF this es]] dup show ?thesis
        by (simp only: step if_False fst_conv snd_conv)
    qed
  qed
qed

text \<open>The records an adapter normalizes one after the other, with their sessions.\<close>

fun kimi_runs ::
  "norm_env \<Rightarrow> kimi_recent \<Rightarrow> (pydict \<times> Session) list \<Rightarrow> (norm_exc + Event list) list \<times> kimi_recent" where
  "kimi_runs env recent [] = ([], recent)"
| "kimi_runs env recent ((r, s) # xs) =
     (case kimi_normalize env recent r s of
        (res, recent1) \<Rightarrow> (case kimi_runs env recent1 xs of (rs, recent2) \<Rightarrow> (res # rs, recent2)))"

definition delivered :: "(norm_exc + Event list) list \<Rightarrow> Event list" where
  "delivered rs = concat (map (\<lambda>r. case r of Inl _ \<Rightarrow> [] | Inr es \<Rightarrow> es) rs)"

definition memory_ok :: "Event set \<Rightarrow> kimi_recent \<Rightarrow> bool" where
  "memory_ok D recent \<longleftrightarrow> remembers D recent \<and> length recent \<le> CONTENT_DEDUP_KEYS"

lemma kimi_normalize_kept:
  assumes "memory_ok D recent" and "kimi_normalize env recent r s = (res, recent')"
  shows "memory_ok (D \<union> set (delivered [res])) recent'
    \<and> (\<forall>out. res = Inr out \<longrightarrow> (\<exists>es b. kimi_events env r s = Inr (es, b) \<and> kept D es out recent'))"
proof (cases "kimi_events env r s")
  case (Inl e)
  with assms show ?thesis by (auto simp: kimi_normalize_def delivered_def)
next
  case (Inr p)
  obtain es b where p: "p = (es, b)" by (cases p)
  have D: "remembers D recent" "length recent \<le> CONTENT_DEDUP_KEYS"
    using assms(1) by (simp_all add: memory_ok_def)
  show ?thesis
  proof (cases b)
    case False
    then have "res = Inr es" "recent' = recent"
      using assms(2) Inr p by (simp_all add: kimi_normalize_def)
    moreover have "remembers (D \<union> set es) recent"
      by (rule remembers_mono [OF D(1)]) auto
    moreover have "same_message e e" for e
      by (simp add: same_message_def)
    ultimately show ?thesis
      using Inr p D by (auto simp: memory_ok_def delivered_def kept_def)
  next
    case True
    then have n: "deduplicate_content (ne_str env) recent r s es = (res, recent')"
      using assms(2) Inr p by (simp add: kimi_normalize_def)
    show ?thesis
    proof (cases "epoch_seconds (dget r ''time'')")
      case (Inl u)
      with n assms(1) show ?thesis by (auto simp: deduplicate_content_def delivered_def)
    next
      case (Inr t)
      obtain out recent1 where l: "dedup_loop (str_or_empty (ne_str env) (dget r ''type''))
          (case t of Some f \<Rightarrow> f | None \<Rightarrow> Fin 0) (s_id s) recent es = (out, recent1)"
        by fastforce
      have res: "res = Inr out" "recent' = lastn CONTENT_DEDUP_KEYS recent1"
        using n Inr l by (simp_all add: deduplicate_content_def)
      have "\<forall>e \<in> set es. ev_session_id e = s_id s"
        using kimi_events_owned \<open>kimi_events env r s = Inr p\<close> p by (fastforce simp: owned_by_def)
      from dedup_loop_kept [OF D(1) this] have k: "kept D es out recent1"
        by (metis l fst_conv snd_conv)
      then have rem: "remembers (D \<union> set out) recent'"
        using set_lastn [of CONTENT_DEDUP_KEYS recent1] remembers_mono
        unfolding kept_def res by blast
      then have "kept D es out recent'"
        using k by (simp add: kept_def)
      moreover have "memory_ok (D \<union> set (delivered [res])) recent'"
        using rem by (simp add: memory_ok_def delivered_def res)
      ultimately show ?thesis
        using \<open>kimi_events env r s = Inr p\<close> p res by blast
    qed
  qed
qed

lemma delivered_Cons: "set (delivered (r # rs)) = set (delivered [r]) \<union> set (delivered rs)"
  by (simp add: delivered_def)

lemma kimi_runs_memory:
  "memory_ok D recent \<Longrightarrow> kimi_runs env recent xs = (rs, recent') \<Longrightarrow> memory_ok (D \<union> set (delivered rs)) recent'"
proof (induction xs arbitrary: D recent rs)
  case (Cons x xs)
  obtain r s where x: "x = (r, s)" by (cases x)
  obtain res recent1 where n: "kimi_normalize env recent r s = (res, recent1)" by fastforce
  obtain rs1 where l: "kimi_runs env recent1 xs = (rs1, recent')" "rs = res # rs1"
    using Cons.prems(2) n by (auto simp: x split: prod.splits)
  have "memory_ok (D \<union> set (delivered [res])) recent1"
    using kimi_normalize_kept [OF Cons.prems(1) n] by blast
  from Cons.IH [OF this l(1)] show ?case
    unfolding l(2) delivered_Cons [of res rs1] by (simp only: Un_assoc)
qed (simp add: delivered_def)

lemma memory_ok_Nil: "memory_ok D []"
  by (simp add: memory_ok_def remembers_def)

text \<open>
  C39: Deduplication of Kimi transcripts loses nothing and stays small. After any sequence of
  records of any sessions, normalizing one more record delivers all its events that are not
  user or assistant messages, in order; every message that is left out was delivered before or is
  delivered now, for the same session, with the same kind and text; and the memory never holds
  more than 512 entries.
\<close>

theorem kimi_dedup_safe:
  assumes "kimi_runs env [] xs = (rs, recent)" and "kimi_normalize env recent r s = (Inr out, recent')"
    and "kimi_events env r s = Inr (es, b)"
  shows "set out \<subseteq> set es \<and> filter (\<lambda>e. \<not> is_message e) out = filter (\<lambda>e. \<not> is_message e) es
    \<and> (\<forall>e \<in> set es. \<exists>e' \<in> set (delivered rs @ out). same_message e e')
    \<and> length recent' \<le> 512"
proof -
  have m: "memory_ok (set (delivered rs)) recent"
    using kimi_runs_memory [OF memory_ok_Nil assms(1), of "{}"] by simp
  obtain es' b' where k: "kimi_events env r s = Inr (es', b')" "kept (set (delivered rs)) es' out recent'"
    using kimi_normalize_kept [OF m assms(2)] by blast
  have "es' = es"
    using k(1) assms(3) by simp
  moreover have "length recent' \<le> CONTENT_DEDUP_KEYS"
    using kimi_normalize_kept [OF m assms(2)] unfolding memory_ok_def by blast
  ultimately show ?thesis
    using k(2) unfolding kept_def CONTENT_DEDUP_KEYS_def set_append by blast
qed

subsection \<open>The contract of normalizers\<close>

lemma dedup_loop_subset: "set (fst (dedup_loop source tm sid rc es)) \<subseteq> set es"
proof (induction es arbitrary: rc)
  case (Cons e es)
  have *: "set out \<subseteq> insert e (set es)" if "dedup_loop source tm sid rc1 es = (out, rc2)" for rc1 rc2 out
    using Cons.IH [of rc1] that by auto
  show ?case
    by (simp only: dedup_loop.simps Let_def) (auto split: prod.splits if_splits dest: * [THEN subsetD])
qed simp

lemma kimi_normalize_from:
  assumes "fst (kimi_normalize env recent r s) = Inr out"
  shows "\<exists>es b. kimi_events env r s = Inr (es, b) \<and> set out \<subseteq> set es"
proof (cases "kimi_events env r s")
  case (Inl e)
  with assms show ?thesis by (simp add: kimi_normalize_def)
next
  case (Inr p)
  obtain es b where p: "p = (es, b)" by (cases p)
  have "set out \<subseteq> set es"
  proof (cases b)
    case True
    with assms Inr p obtain source tm where "out = fst (dedup_loop source tm (s_id s) recent es)"
      by (auto simp: kimi_normalize_def deduplicate_content_def split: sum.splits prod.splits)
        (metis fst_conv)
    with dedup_loop_subset show ?thesis by simp
  next
    case False
    with assms Inr p show ?thesis by (simp add: kimi_normalize_def)
  qed
  with Inr p show ?thesis by blast
qed

interpretation kimi: session_normalizer "\<lambda>r s. fst (kimi_normalize env recent r s)"
  by unfold_locales (use kimi_normalize_from kimi_events_owned in \<open>fastforce simp: owned_by_def\<close>)+

subsection \<open>Examples\<close>

definition ex_kimi_env :: norm_env where
  "ex_kimi_env = \<lparr>ne_str = (\<lambda>_. []), ne_repr = (\<lambda>_. []),
     ne_local = \<lparr>le_clock = \<lparr>ck_float = (\<lambda>_. None), ck_iso = (\<lambda>_. None)\<rparr>, le_now = 0,
       le_utc = (\<lambda>_. True), le_iso = (\<lambda>_. Some (py ''now''))\<rparr>\<rparr>"

definition ex_prompt :: "int \<Rightarrow> pydict" where
  "ex_prompt t = [(pstr ''type'', pstr ''turn.prompt''), (pstr ''time'', PInt t), (pstr ''input'', pstr ''hi'')]"

definition ex_mirror :: pydict where
  "ex_mirror = [(pstr ''type'', pstr ''context.append_message''), (pstr ''time'', PInt 100),
     (pstr ''message'', PDict [(pstr ''role'', pstr ''user''), (pstr ''content'', pstr ''hi'')])]"

definition ex_message :: "pystr \<Rightarrow> pydict \<Rightarrow> Event" where
  "ex_message native x = event_for (py ''now'') ex_session (py ''user'') (py ''hi'')
     ([(pstr ''native_type'', PStr native), (pstr ''agent_id'', PStr [])] @ x)"

lemma ex_timestamp: "kimi_timestamp ex_kimi_env r ex_session = Inr (py ''now'')"
  by (simp add: kimi_timestamp_def local_timestamp_def ex_kimi_env_def Let_def split: option.splits)

lemma ex_snip: "snip rp (pstr ''hi'') 120 = py ''hi''"
  by (simp add: snip_def str_or_empty_def snip_text_def split_def py_def is_space_def)

lemma ex_prompt_events:
  "kimi_events ex_kimi_env (ex_prompt t) ex_session =
    Inr ([ex_message (py ''turn.prompt'') [(pstr ''origin'', PNone)]], True)"
  by (simp add: kimi_events_def ex_timestamp ex_prompt_def str_or_empty_def prompt_events_def
      content_block_events_def block_event_def render_content_block_def ex_snip event_extra_def as_mapping_def
      ex_message_def event_for_def Let_def) (simp add: py_def)

lemma ex_mirror_events:
  "kimi_events ex_kimi_env ex_mirror ex_session =
    Inr ([ex_message (py ''context.append_message'') []], True)"
  by (simp add: kimi_events_def ex_timestamp ex_mirror_def str_or_empty_def message_events_def
      content_block_events_def block_event_def render_content_block_def ex_snip event_extra_def as_mapping_def
      ex_message_def event_for_def tool_call_events_def Let_def) (simp add: py_def)

definition ex_memory :: "pystr \<Rightarrow> kimi_recent" where
  "ex_memory native = [((py ''s1'', py ''user''), (py ''hi'', native, Fin 100))]"

lemma ex_epoch: "epoch_seconds (PInt 100) = Inr (Some (Fin 100))"
  by (simp add: epoch_seconds_def float_of_int_def float_of_def overflow_threshold_def scale_epoch_def)

lemma ex_prompt_run:
  "kimi_normalize ex_kimi_env [] (ex_prompt 100) ex_session =
    (Inr [ex_message (py ''turn.prompt'') [(pstr ''origin'', PNone)]], ex_memory (py ''turn.prompt''))"
  by (simp add: kimi_normalize_def ex_prompt_events deduplicate_content_def) (simp add: ex_prompt_def ex_epoch
      ex_message_def event_for_def is_message_def mirrors_def str_or_empty_def ex_session_def ex_memory_def
      CONTENT_DEDUP_KEYS_def lastn_def)

lemma ex_mirror_run:
  "kimi_normalize ex_kimi_env (ex_memory (py ''turn.prompt'')) ex_mirror ex_session =
    (Inr [], ex_memory (py ''context.append_message''))"
  by (simp add: kimi_normalize_def ex_mirror_events deduplicate_content_def)
    (simp add: ex_mirror_def ex_epoch
      ex_message_def event_for_def is_message_def mirrors_def str_or_empty_def ex_session_def ex_memory_def
      CONTENT_DEDUP_KEYS_def lastn_def CONTENT_DEDUP_WINDOW_S_def, simp add: py_def)

theorem kimi_dedup_safe_witness:
  "\<exists>e' \<in> {ex_message (py ''turn.prompt'') [(pstr ''origin'', PNone)]}.
    same_message (ex_message (py ''context.append_message'') []) e'"
proof -
  have "kimi_runs ex_kimi_env [] [(ex_prompt 100, ex_session)] =
      ([Inr [ex_message (py ''turn.prompt'') [(pstr ''origin'', PNone)]]], ex_memory (py ''turn.prompt''))"
    by (simp add: ex_prompt_run)
  from kimi_dedup_safe [OF this ex_mirror_run ex_mirror_events] show ?thesis
    by (simp add: delivered_def)
qed

text \<open>
  A record whose integer time no float can hold is lost: its local time falls back to the
  session's, but the deduplication converts the time again without a guard.
\<close>

lemma kimi_overflow_loses_prompt:
  "fst (kimi_normalize ex_kimi_env [] (ex_prompt (10 ^ 400)) ex_session) = Inl FloatOverflow"
  by (simp add: kimi_normalize_def ex_prompt_events deduplicate_content_def) (simp add: ex_prompt_def
      epoch_seconds_def float_of_int_def float_of_def overflow_threshold_def)

end
