(* ===== verification/Registry.thy ===== *)
theory Registry
  imports Scan
begin

text \<open>
  The adapter registry (\<open>sidecar/adapters/__init__.py\<close>): a dictionary from agent names to adapters,
  in insertion order. An adapter is the scanner's view of it; \<open>is\<close> compares identities.
\<close>

type_synonym registry = "(pystr \<times> scan_adapter) list"

definition adapter_names :: "scan_adapter \<Rightarrow> pystr list" where
  "adapter_names a = rev (remdups (rev (sa_name a # sa_agent_names a)))"

definition same_adapter :: "scan_adapter \<Rightarrow> scan_adapter \<Rightarrow> bool" where
  "same_adapter a b \<longleftrightarrow> sa_identity a = sa_identity b"

definition conflicts :: "registry \<Rightarrow> scan_adapter \<Rightarrow> (pystr \<times> scan_adapter) list" where
  "conflicts reg a =
     List.map_filter (\<lambda>n. case map_of reg n of
        None \<Rightarrow> None
      | Some b \<Rightarrow> if same_adapter b a then None else Some (n, b)) (adapter_names a)"

fun reg_set :: "registry \<Rightarrow> pystr \<Rightarrow> scan_adapter \<Rightarrow> registry" where
  "reg_set [] n a = [(n, a)]"
| "reg_set ((m, b) # reg) n a = (if m = n then (m, a) # reg else (m, b) # reg_set reg n a)"

definition without_replaced :: "registry \<Rightarrow> (pystr \<times> scan_adapter) list \<Rightarrow> registry" where
  "without_replaced reg cs = filter (\<lambda>nb. sa_identity (snd nb) \<notin> (sa_identity \<circ> snd) ` set cs) reg"

text \<open>\<open>register_adapter\<close>; \<open>Inl\<close> is the \<open>ValueError\<close> with the name it reports.\<close>

definition register_adapter :: "registry \<Rightarrow> scan_adapter \<Rightarrow> bool \<Rightarrow> pystr + registry" where
  "register_adapter reg a replace =
     (let cs = conflicts reg a in
      if cs \<noteq> [] \<and> \<not> replace then Inl (hd (sort (map fst cs)))
      else
        (let reg1 = (if replace then without_replaced reg cs else reg)
         in Inr (foldl (\<lambda>r n. reg_set r n a) reg1 (adapter_names a))))"

text \<open>\<open>get_adapter\<close>; \<open>None\<close> is the \<open>KeyError\<close>.\<close>

definition get_adapter :: "registry \<Rightarrow> pystr \<Rightarrow> scan_adapter option" where
  "get_adapter reg n = map_of reg n"

definition iter_adapters :: "registry \<Rightarrow> scan_adapter list" where
  "iter_adapters reg = unique_adapters [] (map snd reg)"

fun register_all :: "registry \<Rightarrow> scan_adapter list \<Rightarrow> pystr + registry" where
  "register_all reg [] = Inr reg"
| "register_all reg (a # as) =
     (case register_adapter reg a False of Inl e \<Rightarrow> Inl e | Inr reg' \<Rightarrow> register_all reg' as)"

subsection \<open>Lookups after a registration\<close>

lemma map_of_reg_set: "map_of (reg_set reg n a) = (map_of reg)(n \<mapsto> a)"
  by (induction reg n a rule: reg_set.induct) (auto simp: fun_eq_iff)

lemma map_of_reg_sets:
  "map_of (foldl (\<lambda>r n. reg_set r n a) reg ns) m = (if m \<in> set ns then Some a else map_of reg m)"
  by (induction ns arbitrary: reg) (auto simp: map_of_reg_set)

lemma reg_set_fst: "map fst (reg_set reg n a) = (if n \<in> fst ` set reg then map fst reg else map fst reg @ [n])"
  by (induction reg n a rule: reg_set.induct) auto

lemma reg_sets_distinct:
  "distinct (map fst reg) \<Longrightarrow> distinct (map fst (foldl (\<lambda>r n. reg_set r n a) reg ns))"
  by (induction ns arbitrary: reg) (simp_all add: reg_set_fst)

lemma map_of_filter_snd:
  "distinct (map fst reg) \<Longrightarrow> map_of (filter (\<lambda>nb. P (snd nb)) reg) n =
    (case map_of reg n of Some b \<Rightarrow> if P b then Some b else None | None \<Rightarrow> None)"
proof (induction reg)
  case (Cons nb reg)
  have "fst nb \<notin> fst ` set reg" using Cons.prems by simp
  then have "map_of reg (fst nb) = None" by (simp add: map_of_eq_None_iff)
  with Cons show ?case by (cases nb) auto
qed simp

lemma set_conflicts:
  "(n, b) \<in> set (conflicts reg a) \<longleftrightarrow> n \<in> set (adapter_names a) \<and> map_of reg n = Some b \<and> \<not> same_adapter b a"
  by (force simp: conflicts_def List.map_filter_def split: option.splits if_splits)

text \<open>
  Registration is all or nothing. It fails exactly when replacement was not asked for and another
  adapter holds one of the names, and reports the least such name. Otherwise every name of the
  adapter leads to it; every other name keeps its adapter, except that an adapter which lost a
  name to the new one is gone under all its names.
\<close>

lemma register_adapter_exact:
  assumes "distinct (map fst reg)"
  shows "case register_adapter reg a replace of
      Inl n \<Rightarrow> \<not> replace \<and> n \<in> fst ` set (conflicts reg a) \<and> (\<forall>c \<in> set (conflicts reg a). n \<le> fst c)
    | Inr reg' \<Rightarrow> (replace \<or> conflicts reg a = []) \<and> distinct (map fst reg')
        \<and> (\<forall>n. get_adapter reg' n =
            (if n \<in> set (adapter_names a) then Some a
             else case get_adapter reg n of
                    None \<Rightarrow> None
                  | Some b \<Rightarrow> if \<exists>c \<in> set (conflicts reg a). same_adapter b (snd c) then None else Some b))"
proof (cases "conflicts reg a \<noteq> [] \<and> \<not> replace")
  case True
  let ?ns = "sort (map fst (conflicts reg a))"
  obtain n ns where ns: "?ns = n # ns"
  proof (cases ?ns)
    case Nil
    then have "set ?ns = {}" by simp
    with True show ?thesis by simp
  qed
  have "set (n # ns) = fst ` set (conflicts reg a)"
    unfolding ns [symmetric] by simp
  moreover have "\<forall>m \<in> set (n # ns). n \<le> m"
    using sorted_sort [of "map fst (conflicts reg a)"] unfolding ns by simp
  moreover have "register_adapter reg a replace = Inl n"
    using True ns by (simp add: register_adapter_def)
  ultimately show ?thesis
    using True by auto
next
  case False
  let ?reg1 = "if replace then without_replaced reg (conflicts reg a) else reg"
  have d: "distinct (map fst ?reg1)"
    using assms by (auto simp: without_replaced_def distinct_map_filter)
  have "map_of ?reg1 n = (case map_of reg n of None \<Rightarrow> None
      | Some b \<Rightarrow> if \<exists>c \<in> set (conflicts reg a). same_adapter b (snd c) then None else Some b)" for n
  proof (cases replace)
    case True
    then show ?thesis
      using map_of_filter_snd [OF assms, of "\<lambda>b. sa_identity b \<notin> (sa_identity \<circ> snd) ` set (conflicts reg a)" n]
      by (auto simp: without_replaced_def same_adapter_def image_iff split: option.splits)
  next
    case False
    with \<open>\<not> (conflicts reg a \<noteq> [] \<and> \<not> replace)\<close> show ?thesis
      by (auto split: option.splits)
  qed
  with False d show ?thesis
    by (auto simp: register_adapter_def get_adapter_def map_of_reg_sets reg_sets_distinct)
qed

lemma unique_adapters_spec:
  "distinct (map sa_identity (unique_adapters seen as))
    \<and> set (map sa_identity (unique_adapters seen as)) = sa_identity ` set as - set seen"
  by (induction seen as rule: unique_adapters.induct) auto

text \<open>Each registered adapter is iterated once, however many names it has.\<close>

lemma iter_adapters_once:
  "distinct (map sa_identity (iter_adapters reg))
    \<and> set (map sa_identity (iter_adapters reg)) = sa_identity ` snd ` set reg"
  using unique_adapters_spec [of "[]" "map snd reg"] by (simp add: iter_adapters_def)

end
