(* ===== verification/Send_Audit.thy ===== *)
theory Send_Audit
  imports Json_Ascii Py_Text Py_Float
begin

text \<open>
  Records of the send audit (\<open>sidecar/send_audit.py\<close>): request identities, the validation of a record,
  its encoding as one line, the parsing of a log file and the histories of its requests.

  \<^item> A validated record is a typed \<open>audit_record\<close>: the keys of the dictionary are fixed by its outcome, and
    \<open>schema_version\<close> and \<open>confirmation_mode\<close> by the validation. \<open>audit_items\<close> is the dictionary.
  \<^item> \<open>au_hmac key stream\<close> is the hexadecimal HMAC-SHA256 of everything \<open>update\<close> was given, \<open>au_repr\<close> is
    \<open>float.__repr__\<close> and \<open>au_hex\<close> is \<open>float.hex\<close>.
\<close>

datatype audit_code =
    AuditCorrupt
  | AuditFailed
  | AuditBusy
  | InvalidRequestId
  | RequestConflict
  | UnsafeAudit
  | AuditArchiveFull

text \<open>\<open>AuditValueError\<close> is the \<open>ValueError\<close> of an integer literal beyond the interpreter's limit.\<close>

datatype audit_exc = AuditError audit_code | AuditValueError

definition MAX_AUDIT_BYTES :: nat where
  "MAX_AUDIT_BYTES = 8 * 1024 * 1024"

definition MAX_AUDIT_LINE_BYTES :: nat where
  "MAX_AUDIT_LINE_BYTES = 4096"

definition MAX_AUDIT_RECORD_DEPTH :: nat where
  "MAX_AUDIT_RECORD_DEPTH = 3"

definition MAX_ACTIVE_PENDING_RECORDS :: nat where
  "MAX_ACTIVE_PENDING_RECORDS = 4096"

definition MAX_ACTIVE_PENDING_BYTES :: nat where
  "MAX_ACTIVE_PENDING_BYTES = 4 * 1024 * 1024"

definition MAX_REQUEST_ID_BYTES :: nat where
  "MAX_REQUEST_ID_BYTES = 128"

record audit_env =
  au_limits :: py_limits
  au_repr :: "rat \<Rightarrow> pystr"
  au_hex :: "pyfloat \<Rightarrow> pystr"
  au_hmac :: "bytes \<Rightarrow> bytes \<Rightarrow> pystr"

subsection \<open>Patterns\<close>

definition lower_char :: "nat \<Rightarrow> bool" where
  "lower_char c \<longleftrightarrow> 97 \<le> c \<and> c \<le> 122"

definition alnum_char :: "nat \<Rightarrow> bool" where
  "alnum_char c \<longleftrightarrow> 48 \<le> c \<and> c \<le> 57 \<or> 65 \<le> c \<and> c \<le> 90 \<or> lower_char c"

text \<open>\<open>^[first][rest]{0,n}$\<close> on the whole text.\<close>

definition full_match :: "(nat \<Rightarrow> bool) \<Rightarrow> (nat \<Rightarrow> bool) \<Rightarrow> nat \<Rightarrow> pystr \<Rightarrow> bool" where
  "full_match first rest n s \<longleftrightarrow> s \<noteq> [] \<and> first (hd s) \<and> list_all rest (tl s) \<and> length (tl s) \<le> n"

definition REQUEST_ID_RE :: "pystr \<Rightarrow> bool" where
  "REQUEST_ID_RE = full_match alnum_char (\<lambda>c. alnum_char c \<or> c \<in> {46, 95, 58, 45}) 127"

definition HASH_RE :: "pystr \<Rightarrow> bool" where
  "HASH_RE s \<longleftrightarrow> length s = 64 \<and> list_all (\<lambda>c. is_digit c \<or> 97 \<le> c \<and> c \<le> 102) s"

definition AGENT_RE :: "pystr \<Rightarrow> bool" where
  "AGENT_RE = full_match lower_char (\<lambda>c. lower_char c \<or> is_digit c \<or> c = 45) 31"

definition BASENAME_RE :: "pystr \<Rightarrow> bool" where
  "BASENAME_RE = full_match alnum_char (\<lambda>c. alnum_char c \<or> c \<in> {46, 95, 43, 45}) 127"

definition ERROR_RE :: "pystr \<Rightarrow> bool" where
  "ERROR_RE = full_match lower_char (\<lambda>c. lower_char c \<or> is_digit c \<or> c = 95) 63"

definition EPOCH_RE :: "pystr \<Rightarrow> bool" where
  "EPOCH_RE s \<longleftrightarrow> starts_with (py ''e_'') s \<and> 34 \<le> length s \<and> length s \<le> 66
     \<and> list_all (\<lambda>c. alnum_char c \<or> c = 95 \<or> c = 45) (drop 2 s)"

definition validate_request_id :: "pyval \<Rightarrow> audit_exc + pystr" where
  "validate_request_id v =
     (case text_of v of
        None \<Rightarrow> Inl (AuditError InvalidRequestId)
      | Some s \<Rightarrow>
          (case encode_ascii s of
             None \<Rightarrow> Inl (AuditError InvalidRequestId)
           | Some encoded \<Rightarrow>
               if encoded = [] \<or> MAX_REQUEST_ID_BYTES < length encoded \<or> \<not> REQUEST_ID_RE s
               then Inl (AuditError InvalidRequestId)
               else Inr s))"

subsection \<open>Identities\<close>

text \<open>The classes of values \<open>_hash_value\<close> tells apart; \<open>HOther\<close> is everything else.\<close>

datatype hashed =
    HNone
  | HBool bool
  | HInt int
  | HFloat pyfloat
  | HStr pystr
  | HBytes bytes
  | HSeq "hashed list"
  | HOther

definition decimal :: "int \<Rightarrow> bytes" where
  "decimal i = map of_nat (int_str i)"

text \<open>What \<open>_hash_value\<close> gives to the digest.\<close>

fun hash_value :: "(pyfloat \<Rightarrow> pystr) \<Rightarrow> nat \<Rightarrow> hashed \<Rightarrow> audit_exc + bytes" where
  "hash_value hx depth v =
     (if 8 < depth then Inl (AuditError AuditFailed)
      else
        (case v of
           HNone \<Rightarrow> Inr (bs ''n;'')
         | HBool b \<Rightarrow> Inr (if b then bs ''b1;'' else bs ''b0;'')
         | HInt i \<Rightarrow> Inr (bs ''i'' @ decimal i @ bs '';'')
         | HFloat f \<Rightarrow> Inr (bs ''f'' @ map of_nat (hx f) @ bs '';'')
         | HStr s \<Rightarrow>
             (case encode_strict s of
                None \<Rightarrow> Inl (AuditError AuditFailed)
              | Some raw \<Rightarrow> Inr (bs ''s'' @ decimal (int (length raw)) @ bs '':'' @ raw @ bs '';''))
         | HBytes b \<Rightarrow> Inr (bs ''y'' @ decimal (int (length b)) @ bs '':'' @ b @ bs '';'')
         | HSeq vs \<Rightarrow>
             (case collect (map (hash_value hx (Suc depth)) vs) of
                Inl e \<Rightarrow> Inl e
              | Inr ps \<Rightarrow> Inr (bs ''['' @ concat ps @ bs ''];''))
         | HOther \<Rightarrow> Inl (AuditError AuditFailed)))"

declare hash_value.simps [simp del]

definition hash_stream :: "(pyfloat \<Rightarrow> pystr) \<Rightarrow> pystr \<Rightarrow> hashed list \<Rightarrow> audit_exc + bytes" where
  "hash_stream hx label vs =
     (case collect (map (hash_value hx 0) (HStr label # vs)) of Inl e \<Rightarrow> Inl e | Inr ps \<Rightarrow> Inr (concat ps))"

definition hmac_identity :: "audit_env \<Rightarrow> bytes \<Rightarrow> pystr \<Rightarrow> hashed list \<Rightarrow> audit_exc + pystr" where
  "hmac_identity env key label vs =
     (case hash_stream (au_hex env) label vs of Inl e \<Rightarrow> Inl e | Inr b \<Rightarrow> Inr (au_hmac env key b))"

record AuditIdentity =
  ai_agent :: pystr
  ai_session_id :: pystr
  ai_project :: pystr
  ai_executable :: pystr
  ai_mode :: pystr
  ai_message :: bytes

definition make_audit_identity ::
  "pyval \<Rightarrow> pyval \<Rightarrow> pyval \<Rightarrow> pyval \<Rightarrow> pyval \<Rightarrow> pyval \<Rightarrow> audit_exc + AuditIdentity" where
  "make_audit_identity agent session project executable mode message =
     (case (text_of agent, text_of session, text_of project, text_of executable, text_of mode, message) of
        (Some a, Some s, Some p, Some x, Some m, PBytes b) \<Rightarrow>
          if \<not> AGENT_RE a \<or> s = [] \<or> p = [] \<or> \<not> BASENAME_RE x \<or> m \<noteq> py ''allow_write''
          then Inl (AuditError AuditFailed)
          else Inr \<lparr>ai_agent = a, ai_session_id = s, ai_project = p, ai_executable = x, ai_mode = m, ai_message = b\<rparr>
      | _ \<Rightarrow> Inl (AuditError AuditFailed))"

definition identity_tuple :: "audit_env \<Rightarrow> AuditIdentity \<Rightarrow> bytes \<Rightarrow> audit_exc + pystr \<times> pystr \<times> pystr \<times> pystr" where
  "identity_tuple env i key =
     (case hmac_identity env key (py ''target'') [HStr (ai_agent i), HStr (ai_session_id i), HStr (ai_project i)] of
        Inl e \<Rightarrow> Inl e
      | Inr target \<Rightarrow>
          (case hmac_identity env key (py ''request'')
                  [HStr (ai_agent i), HStr (ai_session_id i), HStr (ai_project i), HBytes (ai_message i)] of
             Inl e \<Rightarrow> Inl e
           | Inr request \<Rightarrow> Inr (ai_agent i, target, request, ai_mode i)))"

subsection \<open>Records\<close>

datatype stamp = IntStamp int | FloatStamp rat

record audit_end =
  en_outcome :: pystr
  en_delivery :: pystr
  en_error :: "pystr option"
  en_returncode :: "int option"

text \<open>\<open>sr_end\<close> is \<open>None\<close> when the outcome is \<open>pending\<close>.\<close>

record audit_record =
  sr_timestamp :: stamp
  sr_request_id :: pystr
  sr_epoch :: pystr
  sr_agent :: pystr
  sr_target :: pystr
  sr_request :: pystr
  sr_executable :: pystr
  sr_end :: "audit_end option"

definition COMMON_KEYS :: "pystr list" where
  "COMMON_KEYS = map py [''schema_version'', ''timestamp'', ''request_id'', ''namespace_epoch'', ''agent'',
     ''target_hmac'', ''request_hmac'', ''executable_basename'', ''confirmation_mode'', ''outcome'']"

definition TERMINAL_KEYS :: "pystr list" where
  "TERMINAL_KEYS = map py [''delivery'', ''error'', ''returncode'']"

definition TERMINAL_OUTCOMES :: "pystr list" where
  "TERMINAL_OUTCOMES = map py [''completed'', ''failed'', ''timed_out'', ''overflow'']"

definition DELIVERY_STATES :: "pystr list" where
  "DELIVERY_STATES = map py [''delivered'', ''unknown'']"

text \<open>Whether \<open>_record_depth\<close> returns: keys are texts and nesting is at most three levels.\<close>

fun record_depth :: "nat \<Rightarrow> pyval \<Rightarrow> bool" where
  "record_depth depth v =
     (depth \<le> MAX_AUDIT_RECORD_DEPTH \<and>
      (case v of
         PDict d \<Rightarrow> list_all (\<lambda>kv. text_of (fst kv) \<noteq> None \<and> record_depth (Suc depth) (snd kv)) d
       | PList vs \<Rightarrow> list_all (record_depth (Suc depth)) vs
       | PTuple vs \<Rightarrow> list_all (record_depth (Suc depth)) vs
       | _ \<Rightarrow> True))"

declare record_depth.simps [simp del]

text \<open>A finite number that is not negative; an \<open>int\<close> that no float can hold makes \<open>isfinite\<close> raise.\<close>

definition stamp_of :: "pyval \<Rightarrow> stamp option" where
  "stamp_of v =
     (case v of
        PInt i \<Rightarrow> (case float_of_int i of Converted _ \<Rightarrow> if 0 \<le> i then Some (IntStamp i) else None | _ \<Rightarrow> None)
      | PFloat (Fin r) \<Rightarrow> if 0 \<le> r then Some (FloatStamp r) else None
      | _ \<Rightarrow> None)"

text \<open>\<open>type(v) is str\<close> and a condition on the text.\<close>

definition str_with :: "(pystr \<Rightarrow> bool) \<Rightarrow> pyval \<Rightarrow> bool" where
  "str_with P v = (case v of PStr s \<Rightarrow> P s | _ \<Rightarrow> False)"

definition valid_returncode :: "pyval \<Rightarrow> bool" where
  "valid_returncode v =
     (case v of PNone \<Rightarrow> True | PInt i \<Rightarrow> - (2 ^ 31) \<le> i \<and> i \<le> 2 ^ 31 - 1 | _ \<Rightarrow> False)"

definition valid_common :: "pydict \<Rightarrow> bool" where
  "valid_common d \<longleftrightarrow> dget d ''schema_version'' = PInt 1 \<and> stamp_of (dget d ''timestamp'') \<noteq> None
     \<and> str_with (\<lambda>s. validate_request_id (PStr s) = Inr s) (dget d ''request_id'')
     \<and> str_with EPOCH_RE (dget d ''namespace_epoch'') \<and> str_with AGENT_RE (dget d ''agent'')
     \<and> str_with HASH_RE (dget d ''target_hmac'') \<and> str_with HASH_RE (dget d ''request_hmac'')
     \<and> str_with BASENAME_RE (dget d ''executable_basename'') \<and> dget d ''confirmation_mode'' = pstr ''allow_write''"

definition valid_terminal :: "pydict \<Rightarrow> bool" where
  "valid_terminal d \<longleftrightarrow> str_with (\<lambda>s. s \<in> set TERMINAL_OUTCOMES) (dget d ''outcome'')
     \<and> str_with (\<lambda>s. s \<in> set DELIVERY_STATES) (dget d ''delivery'')
     \<and> valid_returncode (dget d ''returncode'')
     \<and> (dget d ''error'' = PNone \<or> str_with ERROR_RE (dget d ''error''))
     \<and> (if dget d ''outcome'' = pstr ''completed''
        then dget d ''delivery'' = pstr ''delivered'' \<and> dget d ''returncode'' = PInt 0 \<and> dget d ''error'' = PNone
          \<or> dget d ''delivery'' = pstr ''unknown'' \<and> dget d ''returncode'' = PInt 0
            \<and> dget d ''error'' = pstr ''cleanup_incomplete''
        else dget d ''delivery'' = pstr ''unknown'')"

definition end_of :: "pydict \<Rightarrow> audit_end" where
  "end_of d =
     \<lparr>en_outcome = str_key (dget d ''outcome''), en_delivery = str_key (dget d ''delivery''),
      en_error = text_of (dget d ''error''), en_returncode = strict_int (dget d ''returncode'')\<rparr>"

definition record_of :: "pydict \<Rightarrow> audit_record" where
  "record_of d =
     \<lparr>sr_timestamp = (case stamp_of (dget d ''timestamp'') of Some t \<Rightarrow> t | None \<Rightarrow> IntStamp 0),
      sr_request_id = str_key (dget d ''request_id''), sr_epoch = str_key (dget d ''namespace_epoch''),
      sr_agent = str_key (dget d ''agent''), sr_target = str_key (dget d ''target_hmac''),
      sr_request = str_key (dget d ''request_hmac''), sr_executable = str_key (dget d ''executable_basename''),
      sr_end = (if dget d ''outcome'' = pstr ''pending'' then None else Some (end_of d))\<rparr>"

definition validate_audit_record :: "pyval \<Rightarrow> audit_exc + audit_record" where
  "validate_audit_record v =
     (case v of
        PDict d \<Rightarrow>
          (let pending = (dget d ''outcome'' = pstr ''pending'');
               expected = (if pending then COMMON_KEYS else COMMON_KEYS @ TERMINAL_KEYS)
           in if record_depth 0 v \<and> fst ` set d = PStr ` set expected \<and> valid_common d \<and> (pending \<or> valid_terminal d)
              then Inr (record_of d)
              else Inl (AuditError AuditCorrupt))
      | _ \<Rightarrow> Inl (AuditError AuditCorrupt))"

definition stamp_value :: "stamp \<Rightarrow> pyval" where
  "stamp_value t = (case t of IntStamp i \<Rightarrow> PInt i | FloatStamp r \<Rightarrow> PFloat (Fin r))"

definition opt_value :: "('a \<Rightarrow> pyval) \<Rightarrow> 'a option \<Rightarrow> pyval" where
  "opt_value f x = (case x of None \<Rightarrow> PNone | Some a \<Rightarrow> f a)"

definition end_items :: "audit_end option \<Rightarrow> pydict" where
  "end_items e =
     (case e of
        None \<Rightarrow> [(pstr ''outcome'', pstr ''pending'')]
      | Some t \<Rightarrow>
          [(pstr ''outcome'', PStr (en_outcome t)), (pstr ''delivery'', PStr (en_delivery t)),
           (pstr ''error'', opt_value PStr (en_error t)), (pstr ''returncode'', opt_value PInt (en_returncode t))])"

definition audit_items :: "audit_record \<Rightarrow> pydict" where
  "audit_items r =
     [(pstr ''schema_version'', PInt 1), (pstr ''timestamp'', stamp_value (sr_timestamp r)),
      (pstr ''request_id'', PStr (sr_request_id r)), (pstr ''namespace_epoch'', PStr (sr_epoch r)),
      (pstr ''agent'', PStr (sr_agent r)), (pstr ''target_hmac'', PStr (sr_target r)),
      (pstr ''request_hmac'', PStr (sr_request r)), (pstr ''executable_basename'', PStr (sr_executable r)),
      (pstr ''confirmation_mode'', pstr ''allow_write'')] @ end_items (sr_end r)"

definition record_identity :: "audit_record \<Rightarrow> pystr \<times> pystr \<times> pystr \<times> pystr" where
  "record_identity r = (sr_agent r, sr_target r, sr_request r, py ''allow_write'')"

subsection \<open>Lines and files\<close>

definition audit_opts :: dump_opts where
  "audit_opts = \<lparr>ensure_ascii = True, sort_keys = True, allow_nan = False\<rparr>"

definition encoded_record :: "audit_env \<Rightarrow> audit_record \<Rightarrow> audit_exc + bytes" where
  "encoded_record env r =
     (case json_dumps audit_opts (au_repr env) (PDict (audit_items r)) of
        Inl _ \<Rightarrow> Inl (AuditError AuditFailed)
      | Inr t \<Rightarrow>
          (case encode_ascii t of
             None \<Rightarrow> Inl (AuditError AuditFailed)
           | Some b \<Rightarrow>
               if MAX_AUDIT_LINE_BYTES < length (b @ [NL]) then Inl (AuditError AuditFailed) else Inr (b @ [NL])))"

definition unique_object :: "(pystr \<times> pyval) list \<Rightarrow> audit_exc + pyval" where
  "unique_object ps =
     (if distinct (map fst ps) then Inr (PDict (map (\<lambda>(k, v). (PStr k, v)) ps)) else Inl (AuditError AuditCorrupt))"

definition audit_hooks :: "py_limits \<Rightarrow> audit_exc json_hooks" where
  "audit_hooks L =
     \<lparr>hook_object = unique_object,
      hook_int = (\<lambda>t. case py_int L t of Inl _ \<Rightarrow> Inl AuditValueError | Inr i \<Rightarrow> Inr (PInt i)),
      hook_constant = (\<lambda>n. Inr (constant_value n))\<rparr>"

definition parse_audit_line :: "audit_env \<Rightarrow> bytes \<Rightarrow> audit_exc + audit_record" where
  "parse_audit_line env line =
     (if line = [] \<or> MAX_AUDIT_LINE_BYTES < length line then Inl (AuditError AuditCorrupt)
      else
        (case decode_strict line of
           None \<Rightarrow> Inl (AuditError AuditCorrupt)
         | Some t \<Rightarrow>
             (case json_loads_with (audit_hooks (au_limits env)) (py_recursion (au_limits env)) t of
                Inl (JHook AuditValueError) \<Rightarrow> Inl AuditValueError
              | Inl _ \<Rightarrow> Inl (AuditError AuditCorrupt)
              | Inr v \<Rightarrow> validate_audit_record v)))"

definition parse_audit_file :: "audit_env \<Rightarrow> bytes \<Rightarrow> audit_exc + audit_record list" where
  "parse_audit_file env payload =
     (if payload = [] then Inr []
      else if last payload \<noteq> NL then Inl (AuditError AuditCorrupt)
      else collect (map (parse_audit_line env) (bytes_splitlines payload)))"

subsection \<open>Histories\<close>

type_synonym histories = "(pystr \<times> audit_record list) list"

fun add_history :: "histories \<Rightarrow> audit_record \<Rightarrow> histories" where
  "add_history [] r = [(sr_request_id r, [r])]"
| "add_history ((i, h) # hs) r = (if i = sr_request_id r then (i, h @ [r]) # hs else (i, h) # add_history hs r)"

definition is_pending :: "audit_record \<Rightarrow> bool" where
  "is_pending r \<longleftrightarrow> sr_end r = None"

definition stamp_num :: "stamp \<Rightarrow> rat" where
  "stamp_num t = (case t of IntStamp i \<Rightarrow> of_int i | FloatStamp r \<Rightarrow> r)"

text \<open>Equality of the dictionaries: an \<open>int\<close> and a \<open>float\<close> compare by value.\<close>

definition same_record :: "audit_record \<Rightarrow> audit_record \<Rightarrow> bool" where
  "same_record a b \<longleftrightarrow> stamp_num (sr_timestamp a) = stamp_num (sr_timestamp b) \<and> a\<lparr>sr_timestamp := sr_timestamp b\<rparr> = b"

definition check_history :: "audit_record list \<Rightarrow> audit_exc + audit_record list" where
  "check_history h =
     (let ends = filter (\<lambda>i. \<not> is_pending (h ! i)) [0..<length h]; pendings = filter is_pending h in
      if card (set (map record_identity h)) \<noteq> 1 then Inl (AuditError AuditCorrupt)
      else if 1 < length ends \<or> ends \<noteq> [] \<and> hd ends \<noteq> length h - 1 then Inl (AuditError AuditCorrupt)
      else if pendings = [] \<or> \<not> list_all (\<lambda>p. same_record p (hd pendings)) (tl pendings)
      then Inl (AuditError AuditCorrupt)
      else if ends \<noteq> [] then
        (if length h < 2 then Inl (AuditError AuditCorrupt) else Inr [h ! (length h - 2), last h])
      else Inr [last h])"

definition validate_histories :: "audit_record list \<Rightarrow> audit_exc + histories" where
  "validate_histories rs =
     collect (map (\<lambda>(i, h). case check_history h of Inl e \<Rightarrow> Inl e | Inr c \<Rightarrow> Inr (i, c)) (foldl add_history [] rs))"

subsection \<open>Receipts and new records\<close>

record AuditReceipt =
  rc_request_id :: pystr
  rc_agent :: pystr
  rc_outcome :: pystr
  rc_delivery :: pystr
  rc_returncode :: "int option"
  rc_error :: "pystr option"

definition audit_receipt :: "audit_record \<Rightarrow> AuditReceipt" where
  "audit_receipt r =
     (case sr_end r of
        None \<Rightarrow>
          \<lparr>rc_request_id = sr_request_id r, rc_agent = sr_agent r, rc_outcome = py ''request_pending'',
           rc_delivery = py ''unknown'', rc_returncode = None, rc_error = Some (py ''request_pending'')\<rparr>
      | Some e \<Rightarrow>
          \<lparr>rc_request_id = sr_request_id r, rc_agent = sr_agent r, rc_outcome = en_outcome e,
           rc_delivery = en_delivery e, rc_returncode = en_returncode e, rc_error = en_error e\<rparr>)"

text \<open>A namespace is its epoch and its key; \<open>now\<close> is what \<open>time.time()\<close> answers.\<close>

record audit_namespace =
  ns_epoch :: pystr
  ns_key :: bytes

definition base_audit_record ::
  "audit_env \<Rightarrow> audit_namespace \<Rightarrow> rat \<Rightarrow> pystr \<Rightarrow> AuditIdentity \<Rightarrow> pystr \<Rightarrow> audit_exc + pydict" where
  "base_audit_record env ns now request_id i outcome =
     (case identity_tuple env i (ns_key ns) of
        Inl e \<Rightarrow> Inl e
      | Inr (agent, target, request, mode) \<Rightarrow>
          Inr [(pstr ''schema_version'', PInt 1), (pstr ''timestamp'', PFloat (Fin now)),
               (pstr ''request_id'', PStr request_id), (pstr ''namespace_epoch'', PStr (ns_epoch ns)),
               (pstr ''agent'', PStr (ai_agent i)), (pstr ''target_hmac'', PStr target),
               (pstr ''request_hmac'', PStr request), (pstr ''executable_basename'', PStr (ai_executable i)),
               (pstr ''confirmation_mode'', PStr (ai_mode i)), (pstr ''outcome'', PStr outcome)])"

subsection \<open>Validated records\<close>

text \<open>What validation establishes, on the typed record.\<close>

definition record_ok :: "audit_record \<Rightarrow> bool" where
  "record_ok r \<longleftrightarrow> stamp_of (stamp_value (sr_timestamp r)) = Some (sr_timestamp r)
     \<and> validate_request_id (PStr (sr_request_id r)) = Inr (sr_request_id r) \<and> EPOCH_RE (sr_epoch r) \<and> AGENT_RE (sr_agent r)
     \<and> HASH_RE (sr_target r) \<and> HASH_RE (sr_request r) \<and> BASENAME_RE (sr_executable r)
     \<and> (case sr_end r of None \<Rightarrow> True | Some e \<Rightarrow> valid_terminal (end_items (Some e)))"

lemma str_withD: "str_with P v \<Longrightarrow> v = PStr (str_key v) \<and> P (str_key v)"
  by (cases v) (simp_all add: str_with_def str_key_def)

lemma str_key_PStr [simp]: "str_key (PStr s) = s"
  by (simp add: str_key_def)

lemma stamp_ofD: "stamp_of v = Some t \<Longrightarrow> stamp_value t = v"
  by (auto simp: stamp_of_def stamp_value_def split: pyval.splits pyfloat.splits float_conv.splits if_splits)

lemma stamp_of_value: "stamp_of v = Some t \<Longrightarrow> stamp_of (stamp_value t) = Some t"
  using stamp_ofD [of v t] by simp

lemma terminal_values:
  assumes "valid_terminal d"
  shows "dget (end_items (Some (end_of d))) ''outcome'' = dget d ''outcome''"
    "dget (end_items (Some (end_of d))) ''delivery'' = dget d ''delivery''"
    "dget (end_items (Some (end_of d))) ''error'' = dget d ''error''"
    "dget (end_items (Some (end_of d))) ''returncode'' = dget d ''returncode''"
proof -
  have o: "dget d ''outcome'' = PStr (str_key (dget d ''outcome''))" "dget d ''delivery'' = PStr (str_key (dget d ''delivery''))"
    using assms str_withD unfolding valid_terminal_def by blast+
  have e: "opt_value PStr (text_of (dget d ''error'')) = dget d ''error''"
    using assms by (auto simp: valid_terminal_def opt_value_def str_with_def split: pyval.splits)
  have r: "opt_value PInt (strict_int (dget d ''returncode'')) = dget d ''returncode''"
    using assms by (auto simp: valid_terminal_def opt_value_def valid_returncode_def split: pyval.splits)
  show "dget (end_items (Some (end_of d))) ''outcome'' = dget d ''outcome''"
    "dget (end_items (Some (end_of d))) ''delivery'' = dget d ''delivery''"
    "dget (end_items (Some (end_of d))) ''error'' = dget d ''error''"
    "dget (end_items (Some (end_of d))) ''returncode'' = dget d ''returncode''"
    using o e r by (simp_all add: end_items_def end_of_def)
qed

lemma terminal_record_ok: "valid_terminal d \<Longrightarrow> valid_terminal (end_items (Some (end_of d)))"
  using terminal_values [of d] unfolding valid_terminal_def by simp

lemma validated_ok:
  assumes "validate_audit_record v = Inr r"
  shows "record_ok r"
proof -
  obtain d where d: "v = PDict d" "valid_common d" "dget d ''outcome'' = pstr ''pending'' \<or> valid_terminal d" "r = record_of d"
    using assms by (auto simp: validate_audit_record_def Let_def split: pyval.splits if_splits)
  obtain t where t: "stamp_of (dget d ''timestamp'') = Some t"
    using d(2) by (auto simp: valid_common_def)
  have s: "validate_request_id (PStr (str_key (dget d ''request_id''))) = Inr (str_key (dget d ''request_id''))"
    "EPOCH_RE (str_key (dget d ''namespace_epoch''))" "AGENT_RE (str_key (dget d ''agent''))"
    "HASH_RE (str_key (dget d ''target_hmac''))" "HASH_RE (str_key (dget d ''request_hmac''))"
    "BASENAME_RE (str_key (dget d ''executable_basename''))"
    using d(2) str_withD unfolding valid_common_def by blast+
  show ?thesis
    using s d(3) terminal_record_ok t stamp_of_value [OF t]
    by (auto simp: record_ok_def d(4) record_of_def)
qed

lemma record_get:
  "dget (audit_items r) ''schema_version'' = PInt 1" "dget (audit_items r) ''timestamp'' = stamp_value (sr_timestamp r)"
  "dget (audit_items r) ''request_id'' = PStr (sr_request_id r)" "dget (audit_items r) ''namespace_epoch'' = PStr (sr_epoch r)"
  "dget (audit_items r) ''agent'' = PStr (sr_agent r)" "dget (audit_items r) ''target_hmac'' = PStr (sr_target r)"
  "dget (audit_items r) ''request_hmac'' = PStr (sr_request r)"
  "dget (audit_items r) ''executable_basename'' = PStr (sr_executable r)"
  "dget (audit_items r) ''confirmation_mode'' = pstr ''allow_write''"
  "dget (audit_items r) ''outcome'' = dget (end_items (sr_end r)) ''outcome''"
  "dget (audit_items r) ''delivery'' = dget (end_items (sr_end r)) ''delivery''"
  "dget (audit_items r) ''error'' = dget (end_items (sr_end r)) ''error''"
  "dget (audit_items r) ''returncode'' = dget (end_items (sr_end r)) ''returncode''"
  by (simp_all add: audit_items_def)

lemma end_of_items: "end_of (end_items (Some e)) = e"
  by (cases "en_error e"; cases "en_returncode e") (simp_all add: end_of_def end_items_def opt_value_def)

lemma ok_outcome:
  assumes "record_ok r"
  shows "dget (audit_items r) ''outcome'' = pstr ''pending'' \<longleftrightarrow> sr_end r = None"
proof (cases "sr_end r")
  case (Some e)
  then have "en_outcome e \<in> set TERMINAL_OUTCOMES"
    using assms by (simp add: record_ok_def valid_terminal_def end_items_def str_with_def)
  with Some show ?thesis by (auto simp: record_get end_items_def TERMINAL_OUTCOMES_def)
qed (simp add: record_get end_items_def)

lemma record_of_items:
  assumes "record_ok r"
  shows "record_of (audit_items r) = r"
proof -
  have "sr_end r = Some e \<Longrightarrow> end_of (audit_items r) = e" for e
    using end_of_items [of e] by (simp add: end_of_def record_get)
  then have "(if sr_end r = None then None else Some (end_of (audit_items r))) = sr_end r"
    by (cases "sr_end r") auto
  then show ?thesis
    using assms by (simp add: record_of_def ok_outcome [OF assms] record_get(1-9) record_ok_def)
qed

lemma record_keys:
  "map fst (audit_items r) = map PStr (if sr_end r = None then COMMON_KEYS else COMMON_KEYS @ TERMINAL_KEYS)"
  by (cases "sr_end r") (simp_all add: audit_items_def end_items_def COMMON_KEYS_def TERMINAL_KEYS_def)

lemma record_distinct: "distinct (map fst (audit_items r))"
proof -
  have "distinct (COMMON_KEYS @ TERMINAL_KEYS)"
    by (simp add: COMMON_KEYS_def TERMINAL_KEYS_def)
  then have "distinct (if sr_end r = None then COMMON_KEYS else COMMON_KEYS @ TERMINAL_KEYS)"
    by simp
  then show ?thesis
    unfolding record_keys by (simp only: distinct_map) (simp add: inj_on_def)
qed

lemma record_flat: "kv \<in> set (audit_items r) \<Longrightarrow> record_depth 1 (snd kv)"
  by (auto simp: audit_items_def end_items_def stamp_value_def opt_value_def record_depth.simps MAX_AUDIT_RECORD_DEPTH_def
      split: option.splits stamp.splits)

lemma validate_items:
  assumes "record_ok r" and "set d = set (audit_items r)" and "distinct (map fst d)"
  shows "validate_audit_record (PDict d) = Inr r"
proof -
  have "map_of d = map_of (audit_items r)"
    using map_of_inject_set [OF assms(3) record_distinct] assms(2) by blast
  then have g: "dict_get d k = dict_get (audit_items r) k" for k
    by (simp add: dict_get_def)
  have keys: "fst ` set d = PStr ` set (if sr_end r = None then COMMON_KEYS else COMMON_KEYS @ TERMINAL_KEYS)"
    using record_keys [of r] assms(2) by (metis list.set_map)
  have "text_of (fst kv) \<noteq> None \<and> record_depth 1 (snd kv)" if "kv \<in> set d" for kv
  proof -
    have "fst kv \<in> range PStr" using keys that by blast
    with that show ?thesis using record_flat [of kv r] assms(2) by auto
  qed
  then have "record_depth 0 (PDict d)"
    by (simp add: record_depth.simps [of 0] list_all_iff)
  moreover note keys
  moreover have "valid_common (audit_items r)"
    using assms(1) by (simp add: valid_common_def record_get str_with_def record_ok_def)
  then have "valid_common d"
    unfolding valid_common_def g .
  moreover have "sr_end r = None \<or> valid_terminal (audit_items r)"
    using assms(1) by (cases "sr_end r") (simp_all add: record_ok_def valid_terminal_def record_get)
  then have "sr_end r = None \<or> valid_terminal d"
    unfolding valid_terminal_def g .
  moreover have "record_of d = r"
    using record_of_items [OF assms(1)] unfolding record_of_def end_of_def g .
  ultimately show ?thesis
    using ok_outcome [OF assms(1)] by (simp add: validate_audit_record_def g)
qed

subsection \<open>A line reads back\<close>

text \<open>
  What the interpreter is documented to do: its integer limit is off or at least 640 digits, nesting of one is
  within its recursion limit, and \<open>repr\<close> of a float that is not negative is an ASCII literal of such a float.
\<close>

definition sound_audit :: "audit_env \<Rightarrow> bool" where
  "sound_audit env \<longleftrightarrow> (py_int_digits (au_limits env) = 0 \<or> 640 \<le> py_int_digits (au_limits env))
     \<and> 1 \<le> py_recursion (au_limits env)
     \<and> (\<forall>r \<ge> 0. \<exists>q \<ge> 0. list_all printable_char (au_repr env r) \<and> is_float_text (au_repr env r) q)"

lemma audit_faithful: "faithful_hooks L (audit_hooks L)"
  by (simp add: faithful_hooks_def audit_hooks_def unique_object_def)

lemma char_class: "list_all P s \<Longrightarrow> (\<And>c. P c \<Longrightarrow> c < 127) \<Longrightarrow> ascii_text s"
  by (auto simp: ascii_text_def list_all_iff)

lemma alnum_small: "alnum_char c \<Longrightarrow> c < 127"
  by (auto simp: alnum_char_def lower_char_def)

lemma match_ascii:
  assumes "full_match first rest n s" and "\<And>c. first c \<Longrightarrow> c < 127" and "\<And>c. rest c \<Longrightarrow> c < 127"
  shows "ascii_text s"
  using assms by (cases s) (auto simp: full_match_def ascii_text_def list_all_iff)

lemma pattern_ascii:
  "REQUEST_ID_RE s \<Longrightarrow> ascii_text s" "AGENT_RE s \<Longrightarrow> ascii_text s" "BASENAME_RE s \<Longrightarrow> ascii_text s"
  "ERROR_RE s \<Longrightarrow> ascii_text s" "HASH_RE s \<Longrightarrow> ascii_text s" "EPOCH_RE s \<Longrightarrow> ascii_text s"
proof -
  show "REQUEST_ID_RE s \<Longrightarrow> ascii_text s" "AGENT_RE s \<Longrightarrow> ascii_text s" "BASENAME_RE s \<Longrightarrow> ascii_text s"
    "ERROR_RE s \<Longrightarrow> ascii_text s"
    unfolding REQUEST_ID_RE_def AGENT_RE_def BASENAME_RE_def ERROR_RE_def
    by (erule match_ascii; auto simp: lower_char_def is_digit_def dest: alnum_small)+
  show "HASH_RE s \<Longrightarrow> ascii_text s"
    unfolding HASH_RE_def by (elim conjE char_class) (auto simp: is_digit_def)
  show "ascii_text s" if e: "EPOCH_RE s"
  proof -
    have "take 2 s = [101, 95]" using e by (simp add: EPOCH_RE_def starts_with_def py_def numeral_2_eq_2)
    moreover have "ascii_text (drop 2 s)"
      using e unfolding EPOCH_RE_def by (elim conjE char_class) (auto dest: alnum_small)
    ultimately have "ascii_text (take 2 s @ drop 2 s)"
      by (simp add: ascii_text_def)
    then show ?thesis by simp
  qed
qed

lemma request_id_re: "validate_request_id (PStr s) = Inr t \<Longrightarrow> REQUEST_ID_RE s \<and> t = s"
  by (auto simp: validate_request_id_def split: option.splits if_splits)

lemma dump_object_repr:
  assumes "list_all (\<lambda>kv. is_str (fst kv)) l"
  shows "dump_object opts fr l = dump_object opts fr' l"
proof -
  have "map (dump_member opts fr) l' = map (dump_member opts fr') l'" if "set l' \<subseteq> set l" for l'
    using assms that
    by (intro map_cong [OF refl]) (auto simp: list_all_iff is_str_def dump_member_def key_text_def split: pyval.splits)
  moreover have "set l' = set l" if "dump_order opts l = Inr l'" for l'
    using that by (auto simp: dump_order_def split: if_splits)
  ultimately have "map (dump_member opts fr) l' = map (dump_member opts fr') l'" if "dump_order opts l = Inr l'" for l'
    using that by blast
  then show ?thesis
    by (cases "dump_order opts l") (simp_all only: dump_object_def sum.case)
qed

text \<open>The stamp that is read back from the text of a stamp.\<close>

definition stamp_read :: "audit_env \<Rightarrow> stamp \<Rightarrow> stamp \<Rightarrow> bool" where
  "stamp_read env t q =
     (case t of
        IntStamp i \<Rightarrow> q = t
      | FloatStamp x \<Rightarrow> \<exists>y \<ge> 0. q = FloatStamp y \<and> list_all printable_char (au_repr env x) \<and> is_float_text (au_repr env x) y)"

definition reread :: "audit_env \<Rightarrow> audit_record \<Rightarrow> audit_record \<Rightarrow> bool" where
  "reread env r r' \<longleftrightarrow> (\<exists>q. stamp_read env (sr_timestamp r) q \<and> r' = r\<lparr>sr_timestamp := q\<rparr>)"

lemma stamp_readable: "sound_audit env \<Longrightarrow> record_ok r \<Longrightarrow> \<exists>q. stamp_read env (sr_timestamp r) q"
  by (cases "sr_timestamp r") (auto simp: stamp_read_def sound_audit_def record_ok_def stamp_of_def stamp_value_def
      split: if_splits)

lemma reread_ok: "record_ok r \<Longrightarrow> reread env r r' \<Longrightarrow> record_ok r'"
proof -
  assume r: "record_ok r" "reread env r r'"
  then obtain q where q: "stamp_read env (sr_timestamp r) q" "r' = r\<lparr>sr_timestamp := q\<rparr>"
    by (auto simp: reread_def)
  have "stamp_of (stamp_value q) = Some q"
  proof (cases "sr_timestamp r")
    case (IntStamp i)
    with r(1) q show ?thesis by (simp add: stamp_read_def record_ok_def)
  next
    case (FloatStamp x)
    with q show ?thesis by (auto simp: stamp_read_def stamp_of_def stamp_value_def)
  qed
  with r(1) q(2) show ?thesis by (simp add: record_ok_def)
qed

lemma reread_fields:
  assumes "reread env r r'"
  shows "sr_request_id r' = sr_request_id r" "sr_end r' = sr_end r" "record_identity r' = record_identity r" "sr_epoch r' = sr_epoch r"
  using assms by (auto simp: reread_def record_identity_def)

lemma overflow_digits: "overflow_threshold \<le> of_int (10 ^ 309)"
  by (simp add: overflow_threshold_def)

lemma int_stamp:
  assumes "sound_audit env" and "stamp_of (PInt i) = Some t"
  shows "py_int (au_limits env) (int_str i) = Inr i"
proof -
  have i: "0 \<le> i" "of_int i < overflow_threshold"
    using assms(2) by (auto simp: stamp_of_def float_of_int_def float_of_def split: if_splits)
  have "i < 10 ^ 309"
    using less_le_trans [OF i(2) overflow_digits] unfolding of_int_less_iff .
  then have b: "\<bar>i\<bar> < 10 ^ 309"
    unfolding abs_of_nonneg [OF i(1)] .
  have "py_int_digits (au_limits env) = 0 \<or> 309 \<le> py_int_digits (au_limits env)"
    using assms(1) by (auto simp: sound_audit_def)
  then show ?thesis
    using b by (rule short_int) (rule zero_less_numeral)
qed

lemma end_atoms:
  assumes "sound_audit env" and "valid_terminal (end_items (Some e))"
  shows "list_all (\<lambda>kv. atom_ok fr (au_limits env) (snd kv)) (end_items (Some e))"
proof -
  have v: "en_outcome e \<in> set TERMINAL_OUTCOMES" "en_delivery e \<in> set DELIVERY_STATES"
    "opt_value PStr (en_error e) = PNone \<or> str_with ERROR_RE (opt_value PStr (en_error e))"
    "valid_returncode (opt_value PInt (en_returncode e))"
    using assms(2) by (simp_all add: valid_terminal_def end_items_def str_with_def)
  have "list_all ascii_text (TERMINAL_OUTCOMES @ DELIVERY_STATES)"
    by (simp add: TERMINAL_OUTCOMES_def DELIVERY_STATES_def ascii_text_def py_def)
  then have "ascii_text (en_outcome e)" "ascii_text (en_delivery e)"
    using v(1,2) by (auto simp: list_all_iff)
  moreover have "atom_ok fr (au_limits env) (opt_value PStr (en_error e))"
    using v(3) pattern_ascii(4) by (auto simp: opt_value_def str_with_def split: option.splits)
  moreover have "atom_ok fr (au_limits env) (opt_value PInt (en_returncode e))"
  proof (cases "en_returncode e")
    case (Some i)
    then have "\<bar>i\<bar> < 10 ^ 10" using v(4) by (auto simp: opt_value_def valid_returncode_def)
    moreover have "py_int_digits (au_limits env) = 0 \<or> 10 \<le> py_int_digits (au_limits env)"
      using assms(1) by (auto simp: sound_audit_def)
    ultimately have "py_int (au_limits env) (int_str i) = Inr i"
      by (intro short_int [where k = 10]) simp_all
    with Some show ?thesis by (simp add: opt_value_def)
  qed (simp add: opt_value_def)
  ultimately show ?thesis by (simp add: end_items_def)
qed

lemma record_atoms:
  assumes "sound_audit env" and "record_ok r" and "stamp_read env (sr_timestamp r) q"
  shows "\<exists>fr. atom_record fr (au_limits env) (audit_items (r\<lparr>sr_timestamp := q\<rparr>))
    \<and> json_dumps audit_opts (au_repr env) (PDict (audit_items r))
      = json_dumps audit_opts fr (PDict (audit_items (r\<lparr>sr_timestamp := q\<rparr>)))"
proof -
  define fr where "fr = (\<lambda>_ :: rat. case sr_timestamp r of FloatStamp x \<Rightarrow> au_repr env x | IntStamp i \<Rightarrow> [])"
  have stamp: "atom_ok fr (au_limits env) (stamp_value q)"
    "json_dumps audit_opts (au_repr env) (stamp_value (sr_timestamp r)) = json_dumps audit_opts fr (stamp_value q)"
    using assms int_stamp [OF assms(1)]
    by (auto simp: stamp_read_def stamp_value_def fr_def record_ok_def dump_float_def split: stamp.splits)
  have ends: "list_all (\<lambda>kv. atom_ok fr (au_limits env) (snd kv)) (end_items (sr_end r))"
    using end_atoms [OF assms(1)] assms(2)
    by (cases "sr_end r") (simp_all add: record_ok_def end_items_def [of None] ascii_text_def py_def)
  have texts: "ascii_text (sr_request_id r)" "ascii_text (sr_epoch r)" "ascii_text (sr_agent r)" "ascii_text (sr_target r)"
    "ascii_text (sr_request r)" "ascii_text (sr_executable r)"
    using assms(2) pattern_ascii request_id_re by (auto simp: record_ok_def)
  have "py_int (au_limits env) (int_str 1) = Inr 1"
    using short_int [of "au_limits env" 1 1] assms(1) by (auto simp: sound_audit_def)
  then have vals: "list_all (\<lambda>kv. atom_ok fr (au_limits env) (snd kv)) (audit_items (r\<lparr>sr_timestamp := q\<rparr>))"
    using stamp(1) texts ends by (simp add: audit_items_def ascii_text_def py_def)
  have keys: "\<exists>k. fst kv = PStr k \<and> ascii_text k" if "kv \<in> set (audit_items r')" for kv r'
  proof -
    have "fst kv \<in> set (map fst (audit_items r'))" using that by simp
    then have "fst kv \<in> PStr ` set (COMMON_KEYS @ TERMINAL_KEYS)"
      unfolding record_keys by (auto split: if_splits)
    moreover have "list_all ascii_text (COMMON_KEYS @ TERMINAL_KEYS)"
      by (simp add: COMMON_KEYS_def TERMINAL_KEYS_def ascii_text_def py_def)
    ultimately show ?thesis by (auto simp: list_all_iff)
  qed
  have "atom_record fr (au_limits env) (audit_items (r\<lparr>sr_timestamp := q\<rparr>))"
    using vals keys [of _ "r\<lparr>sr_timestamp := q\<rparr>"] by (auto simp: atom_record_def list_all_iff)
  moreover have "json_dumps audit_opts (au_repr env) v = json_dumps audit_opts fr v" if "v \<in> snd ` set (end_items e)" for v e
    using that by (auto simp: end_items_def opt_value_def split: option.splits)
  then have "json_dumps audit_opts (au_repr env) (snd kv) = json_dumps audit_opts fr (snd kv)" if "kv \<in> set (end_items e)" for kv e
    using that by blast
  then have "map (\<lambda>kv. (fst kv, json_dumps audit_opts (au_repr env) (snd kv))) (end_items e) =
      map (\<lambda>kv. (fst kv, json_dumps audit_opts fr (snd kv))) (end_items e)" for e
    by simp
  then have m: "map (\<lambda>kv. (fst kv, json_dumps audit_opts (au_repr env) (snd kv))) (audit_items r) =
      map (\<lambda>kv. (fst kv, json_dumps audit_opts fr (snd kv))) (audit_items (r\<lparr>sr_timestamp := q\<rparr>))"
    using stamp(2) by (simp add: audit_items_def)
  have "list_all (\<lambda>kv. is_str (fst kv)) (map (\<lambda>kv. (fst kv, json_dumps audit_opts fr (snd kv))) (audit_items r'))" for r'
    using keys [of _ r'] by (fastforce simp: list_all_iff is_str_def)
  then have "json_dumps audit_opts (au_repr env) (PDict (audit_items r))
      = json_dumps audit_opts fr (PDict (audit_items (r\<lparr>sr_timestamp := q\<rparr>)))"
    unfolding json_dumps.simps m by (rule dump_object_repr)
  ultimately show ?thesis by blast
qed

text \<open>An encoded record is one line without a carriage return, and is read as the record with its stamp read back.\<close>

lemma line_reads:
  assumes "sound_audit env" and "record_ok r" and "stamp_read env (sr_timestamp r) q" and "encoded_record env r = Inr p"
  shows "\<exists>raw. p = raw @ [NL] \<and> NL \<notin> set raw \<and> 13 \<notin> set raw \<and> raw \<noteq> []
    \<and> parse_audit_line env raw = Inr (r\<lparr>sr_timestamp := q\<rparr>)"
proof -
  let ?r = "r\<lparr>sr_timestamp := q\<rparr>"
  obtain fr where fr: "atom_record fr (au_limits env) (audit_items ?r)"
    "json_dumps audit_opts (au_repr env) (PDict (audit_items r)) = json_dumps audit_opts fr (PDict (audit_items ?r))"
    using record_atoms [OF assms(1-3)] by blast
  have rec: "1 \<le> py_recursion (au_limits env)" using assms(1) by (simp add: sound_audit_def)
  obtain t where t: "json_dumps audit_opts fr (PDict (audit_items ?r)) = Inr t" "list_all printable_char t"
    "json_loads_with (audit_hooks (au_limits env)) (py_recursion (au_limits env)) t
      = Inr (PDict (in_dump_order sorted_opts (audit_items ?r)))"
    using record_loads [OF fr(1) record_distinct audit_faithful rec] by (auto simp: audit_opts_def)
  let ?raw = "map of_nat t :: bytes"
  have ascii: "list_all (\<lambda>c. c < 128) t" using printable_ascii [OF t(2)] .
  have p: "p = ?raw @ [NL]" "length p \<le> MAX_AUDIT_LINE_BYTES"
    using assms(4) t(1) fr(2) ascii by (auto simp: encoded_record_def encode_ascii_def split: if_splits)
  have "t \<noteq> []" using t(3) by (auto simp: json_eval)
  have dec: "decode_strict ?raw = Some t"
  proof -
    have "encode_strict t = Some ?raw" using ascii by (intro encode_strict_ascii) (simp add: list_all_iff)
    then show ?thesis using decode_encode [of t] by (auto simp: encode_strict_def split: if_splits)
  qed
  have "record_ok ?r" using reread_ok [OF assms(2)] assms(3) by (auto simp: reread_def)
  then have "validate_audit_record (PDict (in_dump_order sorted_opts (audit_items ?r))) = Inr ?r"
    by (rule validate_items) (simp_all add: in_dump_order_set in_dump_order_distinct record_distinct)
  then have "parse_audit_line env ?raw = Inr ?r"
    using p t(3) dec \<open>t \<noteq> []\<close> by (simp add: parse_audit_line_def)
  with p printable_no_break [OF t(2)] \<open>t \<noteq> []\<close> show ?thesis by auto
qed

subsection \<open>Files\<close>

lemma collect_append: "collect (xs @ ys) =
    (case collect xs of Inl e \<Rightarrow> Inl e | Inr a \<Rightarrow> (case collect ys of Inl e \<Rightarrow> Inl e | Inr b \<Rightarrow> Inr (a @ b)))"
  by (induction xs rule: collect.induct) (auto split: sum.splits)

lemma one_line: "NL \<notin> set raw \<Longrightarrow> 13 \<notin> set raw \<Longrightarrow> bytes_splitlines (raw @ [NL]) = [raw]"
proof -
  have "split_lines_by (\<lambda>b :: 8 word. b = 10 \<or> b = 13) 13 10 acc (raw @ [NL]) = [rev acc @ raw]"
    if "NL \<notin> set raw" "13 \<notin> set raw" for acc
    using that by (induction raw arbitrary: acc) auto
  then show "NL \<notin> set raw \<Longrightarrow> 13 \<notin> set raw \<Longrightarrow> ?thesis"
    by (simp add: bytes_splitlines_def)
qed

lemma parse_ends: "parse_audit_file env c = Inr rs \<Longrightarrow> c = [] \<or> (\<exists>a. c = a @ [NL])"
  by (cases c rule: rev_cases) (auto simp: parse_audit_file_def split: if_splits)

lemma parse_file_append:
  assumes "parse_audit_file env c = Inr rs" and "NL \<notin> set raw" and "13 \<notin> set raw"
  shows "parse_audit_file env (c @ raw @ [NL]) =
    (case parse_audit_line env raw of Inl e \<Rightarrow> Inl e | Inr r \<Rightarrow> Inr (rs @ [r]))"
proof -
  have one: "parse_audit_file env (raw @ [NL]) = (case parse_audit_line env raw of Inl e \<Rightarrow> Inl e | Inr r \<Rightarrow> Inr [r])"
    using one_line [OF assms(2,3)] by (cases "parse_audit_line env raw") (simp_all add: parse_audit_file_def)
  consider "c = []" | a where "c = a @ [NL]" using parse_ends [OF assms(1)] by blast
  then show ?thesis
  proof cases
    case 1
    then show ?thesis using one assms(1) by (auto simp: parse_audit_file_def [of env "[]"] split: sum.split)
  next
    case 2
    then have "bytes_splitlines (c @ raw @ [NL]) = bytes_splitlines c @ [raw]"
      using bytes_splitlines_append [of a "raw @ [NL]"] one_line [OF assms(2,3)] by simp
    moreover have "collect (map (parse_audit_line env) (bytes_splitlines c)) = Inr rs"
      using assms(1) 2 by (simp add: parse_audit_file_def split: if_splits)
    ultimately show ?thesis
      by (cases "parse_audit_line env raw") (simp_all add: parse_audit_file_def collect_append)
  qed
qed

text \<open>A file that ends within a line is refused.\<close>

lemma parse_torn: "q \<noteq> [] \<Longrightarrow> last q \<noteq> NL \<Longrightarrow> parse_audit_file env (c @ q) = Inl (AuditError AuditCorrupt)"
  by (simp add: parse_audit_file_def)

lemma parsed_ok: "parse_audit_file env c = Inr rs \<Longrightarrow> r \<in> set rs \<Longrightarrow> record_ok r"
proof -
  assume p: "parse_audit_file env c = Inr rs" "r \<in> set rs"
  then have "collect (map (parse_audit_line env) (bytes_splitlines c)) = Inr rs \<or> rs = []"
    by (auto simp: parse_audit_file_def split: if_splits)
  then obtain line where "parse_audit_line env line = Inr r"
    using p(2) collect_mem by fastforce
  then show "record_ok r"
    by (auto simp: parse_audit_line_def dest: validated_ok split: if_splits option.splits sum.splits json_fail.splits
        audit_exc.splits)
qed

text \<open>Appending encoded records appends the records with their stamps read back.\<close>

lemma parse_append_records:
  assumes "sound_audit env" and "collect (map (encoded_record env) rs) = Inr ps" and "list_all record_ok rs"
    and "list_all2 (reread env) rs rs'" and "parse_audit_file env c = Inr before"
  shows "parse_audit_file env (c @ concat ps) = Inr (before @ rs')"
  using assms(2-5)
proof (induction rs arbitrary: ps rs' c before)
  case (Cons r rs)
  obtain p ps' where ps: "encoded_record env r = Inr p" "collect (map (encoded_record env) rs) = Inr ps'" "ps = p # ps'"
    using Cons.prems(1) by (cases "encoded_record env r") (auto split: sum.splits)
  obtain r' rs1 where r': "rs' = r' # rs1" "reread env r r'" "list_all2 (reread env) rs rs1"
    using Cons.prems(3) by (auto simp: list_all2_Cons1)
  obtain q where q: "stamp_read env (sr_timestamp r) q" "r' = r\<lparr>sr_timestamp := q\<rparr>"
    using r'(2) by (auto simp: reread_def)
  obtain raw where raw: "p = raw @ [NL]" "NL \<notin> set raw" "13 \<notin> set raw" "parse_audit_line env raw = Inr r'"
    using line_reads [OF assms(1) _ q(1) ps(1)] Cons.prems(2) q(2) by auto
  have "parse_audit_file env (c @ p) = Inr (before @ [r'])"
    using parse_file_append [OF Cons.prems(4) raw(2,3)] raw(1,4) by simp
  from Cons.IH [OF ps(2) _ r'(3) this] Cons.prems(2) ps(3) r'(1) show ?case by simp
qed simp

lemma reread_exists:
  assumes "sound_audit env" and "list_all record_ok rs"
  shows "\<exists>rs'. list_all2 (reread env) rs rs'"
  using assms(2)
proof (induction rs)
  case (Cons r rs)
  then obtain q rs' where "stamp_read env (sr_timestamp r) q" "list_all2 (reread env) rs rs'"
    using stamp_readable [OF assms(1), of r] by auto
  then have "list_all2 (reread env) (r # rs) (r\<lparr>sr_timestamp := q\<rparr> # rs')"
    by (auto simp: reread_def)
  then show ?case by blast
qed (rule exI [of _ "[]"], simp)

lemma encoded_length: "encoded_record env r = Inr p \<Longrightarrow> length p \<le> MAX_AUDIT_LINE_BYTES"
  by (auto simp: encoded_record_def split: sum.splits option.splits if_splits)

subsection \<open>Looking up a history\<close>

definition of_request :: "pystr \<Rightarrow> audit_record list \<Rightarrow> audit_record list" where
  "of_request i rs = filter (\<lambda>r. sr_request_id r = i) rs"

lemma add_history_lookup:
  "map_of (add_history hs r) i =
    (if i = sr_request_id r then Some ((case map_of hs i of None \<Rightarrow> [] | Some h \<Rightarrow> h) @ [r]) else map_of hs i)"
  by (induction hs r rule: add_history.induct) auto

lemma add_history_keys:
  "map fst (add_history hs r) = (if sr_request_id r \<in> fst ` set hs then map fst hs else map fst hs @ [sr_request_id r])"
  by (induction hs r rule: add_history.induct) auto

lemma grouped:
  "map_of (foldl add_history [] rs) i = (if of_request i rs = [] then None else Some (of_request i rs))"
  by (induction rs rule: rev_induct) (auto simp: of_request_def add_history_lookup)

lemma grouped_distinct: "distinct (map fst (foldl add_history [] rs))"
  by (induction rs rule: rev_induct) (auto simp: add_history_keys)

lemma collect_lookup:
  assumes "collect (map (\<lambda>(i, h). case f h of Inl e \<Rightarrow> Inl e | Inr c \<Rightarrow> Inr (i, c)) hs) = Inr cs"
  shows "map fst cs = map fst hs"
    and "map_of cs i = (case map_of hs i of None \<Rightarrow> None | Some h \<Rightarrow> (case f h of Inl _ \<Rightarrow> None | Inr c \<Rightarrow> Some c))"
    and "map_of hs i = Some h \<Longrightarrow> \<exists>c. f h = Inr c"
  using assms
proof (induction hs arbitrary: cs)
  case (Cons ih hs)
  {
    case 1 then show ?case using Cons(1) by (cases ih) (fastforce split: sum.splits)
  next
    case 2 then show ?case using Cons(2) by (cases ih) (fastforce split: sum.splits)
  next
    case 3 then show ?case using Cons(3) by (cases ih) (fastforce split: sum.splits if_splits)
  }
qed simp_all

lemma check_history_last:
  assumes "check_history h = Inr c"
  shows "c \<noteq> []" and "set c \<subseteq> set h" and "last c = last h"
proof -
  have "h \<noteq> []" using assms by (auto simp: check_history_def Let_def)
  then have "h ! (length h - 2) \<in> set h" "last h \<in> set h" by simp_all
  moreover have "c = [h ! (length h - 2), last h] \<or> c = [last h]"
    using assms by (auto simp: check_history_def Let_def split: if_splits)
  ultimately show "c \<noteq> []" and "set c \<subseteq> set h" and "last c = last h" by auto
qed

lemma histories_distinct: "validate_histories rs = Inr hs \<Longrightarrow> distinct (map fst hs)"
  unfolding validate_histories_def using collect_lookup(1) [of check_history] grouped_distinct by metis

lemma no_history: "validate_histories rs = Inr hs \<Longrightarrow> map_of hs i = None \<longleftrightarrow> of_request i rs = []"
  unfolding validate_histories_def
  using collect_lookup(2) [of check_history _ hs i] collect_lookup(3) [of check_history _ hs i] grouped [of rs i]
  by (fastforce split: if_splits)

lemma some_history:
  assumes "validate_histories rs = Inr hs" and "map_of hs i = Some c"
  shows "check_history (of_request i rs) = Inr c"
  using assms collect_lookup(2) [of check_history _ hs i] grouped [of rs i]
  unfolding validate_histories_def by (fastforce split: if_splits sum.splits option.splits)

lemma history_last:
  assumes "validate_histories rs = Inr hs" and "map_of hs i = Some c"
  shows "c \<noteq> []" and "last c = last (of_request i rs)" and "last c \<in> set rs" and "sr_request_id (last c) = i"
proof -
  have c: "c \<noteq> []" "set c \<subseteq> set (of_request i rs)" "last c = last (of_request i rs)"
    using check_history_last [OF some_history [OF assms]] by simp_all
  then show "c \<noteq> []" "last c = last (of_request i rs)" by simp_all
  have "last c \<in> set (of_request i rs)" using c(2) last_in_set [OF c(1)] by blast
  then show "last c \<in> set rs" "sr_request_id (last c) = i" by (simp_all add: of_request_def)
qed

end
