(* ===== verification/Audit_Store.thy ===== *)
theory Audit_Store
  imports Send_Audit
begin

text \<open>
  The store of the send audit (\<open>SendAuditStore\<close> in \<open>sidecar/send_audit.py\<close>): recovery of an interrupted
  rotation, opening and loading the two logs, appending with rotation, and the two operations \<open>reserve\<close> and
  \<open>append_terminal\<close> under the lock.

  \<^item> The directory holds three files: \<open>audit.jsonl\<close>, \<open>audit.jsonl.1\<close> and \<open>audit.jsonl.next\<close>.
  \<^item> A \<open>step\<close> takes the files and the answers of the operating system and returns a result, the files and the
    remaining answers. Every group of system calls between two changes of a file consumes one answer. A call is
    \<open>Granted\<close>, or \<open>Denied\<close> with the code its failure is translated to; a denied write leaves a part of its
    payload in the file. When the answers run out, everything is granted. A crash is a denied call after which
    all calls are denied.
  \<^item> Owner, mode and link checks of the files and of the namespace, \<open>flock\<close>, \<open>fsync\<close> and the reads that verify a
    write are calls that can be denied. Descriptors are not represented.
\<close>

datatype answer = Granted | Denied audit_code "bytes \<Rightarrow> bytes"

record audit_files =
  af_current :: "bytes option"
  af_rotated :: "bytes option"
  af_next :: "bytes option"

type_synonym world = "audit_files \<times> answer list"

type_synonym 'a step = "world \<Rightarrow> (audit_exc + 'a) \<times> world"

definition give :: "'a \<Rightarrow> 'a step" where
  "give x w = (Inr x, w)"

definition fail :: "audit_exc \<Rightarrow> 'a step" where
  "fail e w = (Inl e, w)"

definition and_then :: "'a step \<Rightarrow> ('a \<Rightarrow> 'b step) \<Rightarrow> 'b step" where
  "and_then m f w = (case m w of (Inl e, w') \<Rightarrow> (Inl e, w') | (Inr x, w') \<Rightarrow> f x w')"

definition on_error :: "'a step \<Rightarrow> (audit_exc \<Rightarrow> 'a step) \<Rightarrow> 'a step" where
  "on_error m f w = (case m w of (Inl e, w') \<Rightarrow> f e w' | (Inr x, w') \<Rightarrow> (Inr x, w'))"

definition lift :: "audit_exc + 'a \<Rightarrow> 'a step" where
  "lift r w = (r, w)"

definition look :: "(audit_files \<Rightarrow> 'a) \<Rightarrow> 'a step" where
  "look f w = (Inr (f (fst w)), w)"

definition next_answer :: "answer list \<Rightarrow> answer \<times> answer list" where
  "next_answer as = (case as of [] \<Rightarrow> (Granted, []) | a # as' \<Rightarrow> (a, as'))"

text \<open>A group of system calls that changes the files by \<open>f\<close> when it is granted.\<close>

definition call :: "(audit_files \<Rightarrow> audit_files) \<Rightarrow> unit step" where
  "call f w =
     (case next_answer (snd w) of
        (Granted, as) \<Rightarrow> (Inr (), (f (fst w), as))
      | (Denied c _, as) \<Rightarrow> (Inl (AuditError c), (fst w, as)))"

definition check :: "unit step" where
  "check = call id"

definition write_with :: "(bytes \<Rightarrow> audit_files \<Rightarrow> audit_files) \<Rightarrow> bytes \<Rightarrow> unit step" where
  "write_with put payload w =
     (case next_answer (snd w) of
        (Granted, as) \<Rightarrow> (Inr (), (put payload (fst w), as))
      | (Denied c torn, as) \<Rightarrow> (Inl (AuditError c), (put (torn payload) (fst w), as)))"

subsection \<open>Recovery and loading\<close>

definition read_audit_file :: "audit_env \<Rightarrow> bytes \<Rightarrow> audit_record list step" where
  "read_audit_file env content =
     and_then check (\<lambda>_.
       if MAX_AUDIT_BYTES < length content then fail (AuditError AuditCorrupt) else lift (parse_audit_file env content))"

text \<open>\<open>os.replace\<close> of the current file over the rotated one, and of the next file over the current one.\<close>

definition retire_current :: "audit_files \<Rightarrow> audit_files" where
  "retire_current fs = fs\<lparr>af_rotated := af_current fs, af_current := None\<rparr>"

definition promote_next :: "audit_files \<Rightarrow> audit_files" where
  "promote_next fs = fs\<lparr>af_current := af_next fs, af_next := None\<rparr>"

definition drop_next :: "audit_files \<Rightarrow> audit_files" where
  "drop_next fs = fs\<lparr>af_next := None\<rparr>"

definition check_next :: "audit_env \<Rightarrow> pystr \<Rightarrow> bytes \<Rightarrow> unit step" where
  "check_next env epoch content =
     and_then (read_audit_file env content) (\<lambda>rs.
       if rs = [] \<or> \<not> list_all (\<lambda>r. sr_epoch r = epoch) rs then fail (AuditError AuditCorrupt)
       else and_then (lift (validate_histories rs)) (\<lambda>_. give ()))"

definition commit_next :: "unit step" where
  "commit_next =
     and_then (look af_current) (\<lambda>current.
       and_then (if current = None then give () else and_then (call retire_current) (\<lambda>_. check)) (\<lambda>_.
         and_then (call promote_next) (\<lambda>_. check)))"

text \<open>The result tells whether the next file is to be committed; one that is refused is removed.\<close>

definition judge_next :: "audit_env \<Rightarrow> pystr \<Rightarrow> bytes \<Rightarrow> bool step" where
  "judge_next env epoch content =
     on_error (and_then (check_next env epoch content) (\<lambda>_. give True)) (\<lambda>e.
       case e of
         AuditValueError \<Rightarrow> fail (AuditError AuditFailed)
       | AuditError c \<Rightarrow>
           and_then (look af_current) (\<lambda>current.
             if current = None then fail e
             else and_then (call drop_next) (\<lambda>_. and_then check (\<lambda>_. give False))))"

definition recover_rotation :: "audit_env \<Rightarrow> pystr \<Rightarrow> unit step" where
  "recover_rotation env epoch =
     and_then check (\<lambda>_.
       and_then (look id) (\<lambda>fs.
         case af_next fs of
           None \<Rightarrow> give ()
         | Some content \<Rightarrow>
             if af_current fs = None \<and> af_rotated fs = None then fail (AuditError AuditCorrupt)
             else and_then (judge_next env epoch content) (\<lambda>valid. if valid then commit_next else give ())))"

definition create_current :: "audit_files \<Rightarrow> audit_files" where
  "create_current fs = (case af_current fs of None \<Rightarrow> fs\<lparr>af_current := Some []\<rparr> | Some _ \<Rightarrow> fs)"

definition open_logs :: "audit_env \<Rightarrow> pystr \<Rightarrow> unit step" where
  "open_logs env epoch =
     and_then (recover_rotation env epoch) (\<lambda>_. and_then (call create_current) (\<lambda>_. check))"

definition content_of :: "bytes option \<Rightarrow> bytes" where
  "content_of f = (case f of None \<Rightarrow> [] | Some c \<Rightarrow> c)"

definition load_logs :: "audit_env \<Rightarrow> pystr \<Rightarrow> histories step" where
  "load_logs env epoch =
     and_then (look id) (\<lambda>fs.
       and_then (if af_rotated fs = None then give [] else read_audit_file env (content_of (af_rotated fs))) (\<lambda>older.
         and_then (read_audit_file env (content_of (af_current fs))) (\<lambda>newer.
           if \<not> list_all (\<lambda>r. sr_epoch r = epoch) (older @ newer) then fail (AuditError AuditCorrupt)
           else lift (validate_histories (older @ newer)))))"

subsection \<open>Appending\<close>

text \<open>The requests whose last record is pending, after \<open>record\<close>.\<close>

definition active_pending :: "histories \<Rightarrow> audit_record \<Rightarrow> audit_record list" where
  "active_pending hs r =
     (let active = filter is_pending (map (last \<circ> snd) (filter (\<lambda>ih. fst ih \<noteq> sr_request_id r) hs))
      in if is_pending r then r # active else active)"

definition encoded_records :: "audit_env \<Rightarrow> audit_record list \<Rightarrow> audit_exc + bytes" where
  "encoded_records env rs = (case collect (map (encoded_record env) rs) of Inl e \<Rightarrow> Inl e | Inr ps \<Rightarrow> Inr (concat ps))"

definition active_pending_payload :: "audit_env \<Rightarrow> histories \<Rightarrow> audit_record \<Rightarrow> audit_exc + bytes" where
  "active_pending_payload env hs r =
     (let active = active_pending hs r in
      if MAX_ACTIVE_PENDING_RECORDS < length active then Inl (AuditError AuditFailed)
      else
        (case encoded_records env (sort_key (\<lambda>a. (stamp_num (sr_timestamp a), sr_request_id a)) active) of
           Inl e \<Rightarrow> Inl e
         | Inr p \<Rightarrow> if MAX_ACTIVE_PENDING_BYTES < length p then Inl (AuditError AuditFailed) else Inr p))"

definition rotation_payload :: "audit_env \<Rightarrow> histories \<Rightarrow> audit_record \<Rightarrow> bytes \<Rightarrow> bytes \<Rightarrow> audit_exc + bytes" where
  "rotation_payload env hs r payload pending =
     (let whole =
        (if is_pending r then Inr pending
         else
           (case map_of hs (sr_request_id r) of
              None \<Rightarrow> Inl (AuditError AuditCorrupt)
            | Some h \<Rightarrow>
                if \<not> is_pending (last h) then Inl (AuditError AuditCorrupt)
                else (case encoded_record env (last h) of Inl e \<Rightarrow> Inl e | Inr p \<Rightarrow> Inr (pending @ p @ payload))))
      in case whole of
           Inl e \<Rightarrow> Inl e
         | Inr b \<Rightarrow> if b = [] \<or> MAX_AUDIT_BYTES < length b then Inl (AuditError AuditFailed) else Inr b)"

definition put_next :: "bytes \<Rightarrow> audit_files \<Rightarrow> audit_files" where
  "put_next b fs = fs\<lparr>af_next := Some (content_of (af_next fs) @ b)\<rparr>"

definition put_current :: "bytes \<Rightarrow> audit_files \<Rightarrow> audit_files" where
  "put_current b fs = fs\<lparr>af_current := Some (content_of (af_current fs) @ b)\<rparr>"

text \<open>Rotation: a new file with what must be kept, then the two renames.\<close>

definition rotate_audit :: "bytes \<Rightarrow> unit step" where
  "rotate_audit b =
     and_then check (\<lambda>_.
       and_then (look af_next) (\<lambda>existing.
         if existing \<noteq> None then fail (AuditError AuditCorrupt)
         else
           and_then (call (put_next [])) (\<lambda>_.
             and_then (write_with put_next b) (\<lambda>_.
               and_then check (\<lambda>_.
                 and_then (call retire_current) (\<lambda>_.
                   and_then check (\<lambda>_.
                     and_then (call promote_next) (\<lambda>_. check))))))))"

definition append_audit :: "audit_env \<Rightarrow> audit_record \<Rightarrow> histories \<Rightarrow> unit step" where
  "append_audit env r hs =
     and_then (lift (encoded_record env r)) (\<lambda>payload.
       and_then (lift (active_pending_payload env hs r)) (\<lambda>pending.
         and_then (look (\<lambda>fs. length (content_of (af_current fs)))) (\<lambda>current_size.
           if MAX_AUDIT_BYTES < current_size + length payload then
             and_then (lift (rotation_payload env hs r payload pending)) rotate_audit
           else
             and_then check (\<lambda>_. and_then (write_with put_current payload) (\<lambda>_. check)))))"

subsection \<open>The operations\<close>

text \<open>\<open>_locked\<close>: the namespace is validated before and after; a foreign exception is translated.\<close>

definition locked :: "'a step \<Rightarrow> 'a step" where
  "locked m =
     on_error (and_then check (\<lambda>_. and_then m (\<lambda>x. and_then check (\<lambda>_. give x)))) (\<lambda>e.
       fail (case e of AuditError c \<Rightarrow> AuditError c | AuditValueError \<Rightarrow> AuditError AuditFailed))"

definition reserve_new :: "audit_env \<Rightarrow> audit_namespace \<Rightarrow> rat \<Rightarrow> pystr \<Rightarrow> AuditIdentity \<Rightarrow> histories \<Rightarrow> unit step" where
  "reserve_new env ns now i ident hs =
     and_then (lift (base_audit_record env ns now i ident (py ''pending''))) (\<lambda>d.
       and_then (lift (validate_audit_record (PDict d))) (\<lambda>r. append_audit env r hs))"

definition reserve ::
  "audit_env \<Rightarrow> audit_namespace \<Rightarrow> rat \<Rightarrow> pyval \<Rightarrow> AuditIdentity \<Rightarrow> AuditReceipt option step" where
  "reserve env ns now request_id ident =
     and_then (lift (validate_request_id request_id)) (\<lambda>i.
       locked (and_then (open_logs env (ns_epoch ns)) (\<lambda>_.
         and_then (load_logs env (ns_epoch ns)) (\<lambda>hs.
           case map_of hs i of
             Some h \<Rightarrow>
               and_then (lift (identity_tuple env ident (ns_key ns))) (\<lambda>t.
                 if record_identity (last h) \<noteq> t then fail (AuditError RequestConflict)
                 else give (Some (audit_receipt (last h))))
           | None \<Rightarrow> and_then (reserve_new env ns now i ident hs) (\<lambda>_. give None)))))"

definition terminal_record ::
  "audit_env \<Rightarrow> audit_namespace \<Rightarrow> rat \<Rightarrow> pystr \<Rightarrow> AuditIdentity \<Rightarrow> audit_end \<Rightarrow> audit_exc + audit_record" where
  "terminal_record env ns now i ident e =
     (case base_audit_record env ns now i ident (en_outcome e) of
        Inl x \<Rightarrow> Inl x
      | Inr d \<Rightarrow> validate_audit_record (PDict (d @
          [(pstr ''delivery'', PStr (en_delivery e)), (pstr ''error'', opt_value PStr (en_error e)),
           (pstr ''returncode'', opt_value PInt (en_returncode e))])))"

definition append_terminal ::
  "audit_env \<Rightarrow> audit_namespace \<Rightarrow> rat \<Rightarrow> pyval \<Rightarrow> AuditIdentity \<Rightarrow> audit_end \<Rightarrow> AuditReceipt step" where
  "append_terminal env ns now request_id ident e =
     and_then (lift (validate_request_id request_id)) (\<lambda>i.
       locked (and_then (open_logs env (ns_epoch ns)) (\<lambda>_.
         and_then (load_logs env (ns_epoch ns)) (\<lambda>hs.
           case map_of hs i of
             None \<Rightarrow> fail (AuditError AuditCorrupt)
           | Some h \<Rightarrow>
               and_then (lift (identity_tuple env ident (ns_key ns))) (\<lambda>t.
                 if record_identity (last h) \<noteq> t then fail (AuditError RequestConflict)
                 else if \<not> is_pending (last h) then fail (AuditError AuditCorrupt)
                 else
                   and_then (lift (terminal_record env ns now i ident e)) (\<lambda>r.
                     and_then (append_audit env r hs) (\<lambda>_. give (audit_receipt r))))))))"

subsection \<open>Reasoning about steps\<close>

text \<open>
  A part of a payload that a failed write leaves and that does not end at the end of a line, unless it is
  all or nothing.
\<close>

definition cut :: "bytes \<Rightarrow> bytes \<Rightarrow> bool" where
  "cut p q \<longleftrightarrow> (\<exists>k. q = take k p) \<and> (q = p \<or> q = [] \<or> last q \<noteq> NL)"

definition ragged :: "answer \<Rightarrow> bool" where
  "ragged a = (case a of Granted \<Rightarrow> True | Denied _ torn \<Rightarrow> (\<forall>p. cut p (torn p)))"

definition holds :: "(audit_files \<Rightarrow> bool) \<Rightarrow> 'a step \<Rightarrow> ('a \<Rightarrow> audit_files \<Rightarrow> bool) \<Rightarrow> (audit_files \<Rightarrow> bool) \<Rightarrow> bool" where
  "holds P m Q E \<longleftrightarrow>
     (\<forall>fs as r fs' as'. m (fs, as) = (r, (fs', as')) \<longrightarrow> P fs \<longrightarrow> list_all ragged as \<longrightarrow>
        list_all ragged as' \<and> (case r of Inl _ \<Rightarrow> E fs' | Inr x \<Rightarrow> Q x fs'))"

named_theorems step_rules \<open>rules for the steps of the store\<close>

lemma holds_give [step_rules]: "(\<And>fs. P fs \<Longrightarrow> Q x fs) \<Longrightarrow> holds P (give x) Q E"
  by (simp add: holds_def give_def)

lemma holds_fail [step_rules]: "(\<And>fs. P fs \<Longrightarrow> E fs) \<Longrightarrow> holds P (fail e) Q E"
  by (simp add: holds_def fail_def)

lemma holds_lift [step_rules]:
  "(\<And>e fs. r = Inl e \<Longrightarrow> P fs \<Longrightarrow> E fs) \<Longrightarrow> (\<And>x fs. r = Inr x \<Longrightarrow> P fs \<Longrightarrow> Q x fs) \<Longrightarrow> holds P (lift r) Q E"
  by (cases r) (simp_all add: holds_def lift_def)

lemma holds_look [step_rules]: "(\<And>fs. P fs \<Longrightarrow> Q (f fs) fs) \<Longrightarrow> holds P (look f) Q E"
  by (simp add: holds_def look_def)

lemma ragged_next: "next_answer as = (a, as') \<Longrightarrow> list_all ragged as \<Longrightarrow> ragged a \<and> list_all ragged as'"
  by (cases as) (auto simp: next_answer_def ragged_def)

lemma holds_call [step_rules]:
  "(\<And>fs. P fs \<Longrightarrow> E fs) \<Longrightarrow> (\<And>fs. P fs \<Longrightarrow> Q () (f fs)) \<Longrightarrow> holds P (call f) Q E"
  by (auto simp: holds_def call_def dest: ragged_next split: prod.splits answer.splits)

lemma holds_check [step_rules]:
  "(\<And>fs. P fs \<Longrightarrow> E fs) \<Longrightarrow> (\<And>fs. P fs \<Longrightarrow> Q () fs) \<Longrightarrow> holds P check Q E"
  unfolding check_def by (rule holds_call) simp_all

lemma holds_write [step_rules]:
  "(\<And>q fs. cut p q \<Longrightarrow> P fs \<Longrightarrow> E (put q fs)) \<Longrightarrow> (\<And>fs. P fs \<Longrightarrow> Q () (put p fs)) \<Longrightarrow> holds P (write_with put p) Q E"
  by (auto simp: holds_def write_with_def ragged_def dest!: ragged_next split: prod.splits answer.splits)

lemma holds_then [step_rules]:
  assumes "holds P m Q E" and "\<And>x. holds (Q x) (f x) R E"
  shows "holds P (and_then m f) R E"
  unfolding holds_def
proof (intro allI impI)
  fix fs as r fs' as'
  assume run: "and_then m f (fs, as) = (r, (fs', as'))" and pre: "P fs" "list_all ragged as"
  obtain r1 fs1 as1 where m: "m (fs, as) = (r1, (fs1, as1))" by (metis prod.exhaust)
  have m': "list_all ragged as1 \<and> (case r1 of Inl _ \<Rightarrow> E fs1 | Inr x \<Rightarrow> Q x fs1)"
    using assms(1) m pre unfolding holds_def by blast
  show "list_all ragged as' \<and> (case r of Inl _ \<Rightarrow> E fs' | Inr x \<Rightarrow> R x fs')"
  proof (cases r1)
    case (Inl e)
    then show ?thesis using run m m' by (auto simp: and_then_def)
  next
    case (Inr x)
    then have "f x (fs1, as1) = (r, (fs', as'))" "Q x fs1" using run m m' by (simp_all add: and_then_def)
    then show ?thesis using assms(2) [of x] m' unfolding holds_def by blast
  qed
qed

lemma holds_error:
  assumes "holds P m Q D" and "\<And>e. holds D (f e) Q E"
  shows "holds P (on_error m f) Q E"
  unfolding holds_def
proof (intro allI impI)
  fix fs as r fs' as'
  assume run: "on_error m f (fs, as) = (r, (fs', as'))" and pre: "P fs" "list_all ragged as"
  obtain r1 fs1 as1 where m: "m (fs, as) = (r1, (fs1, as1))" by (metis prod.exhaust)
  have m': "list_all ragged as1 \<and> (case r1 of Inl _ \<Rightarrow> D fs1 | Inr x \<Rightarrow> Q x fs1)"
    using assms(1) m pre unfolding holds_def by blast
  show "list_all ragged as' \<and> (case r of Inl _ \<Rightarrow> E fs' | Inr x \<Rightarrow> Q x fs')"
  proof (cases r1)
    case (Inr x)
    then show ?thesis using run m m' by (auto simp: on_error_def)
  next
    case (Inl e)
    then have "f e (fs1, as1) = (r, (fs', as'))" "D fs1" using run m m' by (simp_all add: on_error_def)
    then show ?thesis using assms(2) [of e] m' unfolding holds_def by blast
  qed
qed

lemma holds_if [step_rules]:
  "(b \<Longrightarrow> holds P m Q E) \<Longrightarrow> (\<not> b \<Longrightarrow> holds P n Q E) \<Longrightarrow> holds P (if b then m else n) Q E"
  by simp

lemma holds_pre: "holds P' m Q E \<Longrightarrow> (\<And>fs. P fs \<Longrightarrow> P' fs) \<Longrightarrow> holds P m Q E"
  by (fastforce simp: holds_def)

lemma holds_post:
  "holds P m Q' E' \<Longrightarrow> (\<And>x fs. Q' x fs \<Longrightarrow> Q x fs) \<Longrightarrow> (\<And>fs. E' fs \<Longrightarrow> E fs) \<Longrightarrow> holds P m Q E"
  unfolding holds_def by (fastforce split: sum.splits)

lemma holds_assume: "(\<And>fs. P fs \<Longrightarrow> b) \<Longrightarrow> (b \<Longrightarrow> holds P m Q E) \<Longrightarrow> holds P m Q E"
  unfolding holds_def by blast

subsection \<open>A reservation that is held\<close>

definition clear_of_end :: "audit_env \<Rightarrow> pystr \<Rightarrow> bytes \<Rightarrow> bool" where
  "clear_of_end env i b \<longleftrightarrow> (\<forall>rs. parse_audit_file env b = Inr rs \<longrightarrow> list_all is_pending (of_request i rs))"

definition carries :: "audit_env \<Rightarrow> pystr \<Rightarrow> bytes \<Rightarrow> bool" where
  "carries env i b \<longleftrightarrow>
     (\<forall>rs. parse_audit_file env b = Inr rs \<longrightarrow> list_all is_pending (of_request i rs) \<and> of_request i rs \<noteq> [])"

text \<open>
  The request \<open>i\<close> is pending in the current log, or in a next file that is waiting to become it; and no log says that
  it has ended.
\<close>

definition request_held :: "audit_env \<Rightarrow> pystr \<Rightarrow> audit_files \<Rightarrow> bool" where
  "request_held env i fs \<longleftrightarrow> (\<forall>b. af_rotated fs = Some b \<longrightarrow> clear_of_end env i b) \<and> (\<forall>b. af_current fs = Some b \<longrightarrow> carries env i b)
     \<and> (\<forall>b. af_next fs = Some b \<longrightarrow> b = [] \<or> carries env i b) \<and> (af_current fs = None \<longrightarrow> af_next fs \<noteq> None)"

lemma carries_clear: "carries env i b \<Longrightarrow> clear_of_end env i b"
  by (simp add: carries_def clear_of_end_def)

lemma held_retire: "request_held env i fs \<Longrightarrow> af_current fs \<noteq> None \<Longrightarrow> af_next fs \<noteq> None \<Longrightarrow> request_held env i (retire_current fs)"
  by (auto simp: request_held_def retire_current_def carries_clear)

lemma held_promote:
  "request_held env i fs \<Longrightarrow> af_next fs = Some b \<Longrightarrow> b \<noteq> [] \<Longrightarrow> request_held env i (promote_next fs) \<and> af_next (promote_next fs) = None"
  by (auto simp: request_held_def promote_next_def)

lemma held_drop: "request_held env i fs \<Longrightarrow> af_current fs \<noteq> None \<Longrightarrow> request_held env i (drop_next fs)"
  by (auto simp: request_held_def drop_next_def)

lemma read_keeps:
  "holds P (read_audit_file env content) (\<lambda>rs fs. P fs \<and> parse_audit_file env content = Inr rs) P"
  unfolding read_audit_file_def by (rule holds_then [where Q = "\<lambda>_. P"]; intro step_rules; simp)

lemma check_next_keeps:
  "holds P (check_next env epoch content) (\<lambda>_ fs. P fs \<and> content \<noteq> []) P"
  unfolding check_next_def
proof (rule holds_then [OF read_keeps], intro holds_if)
  fix rs :: "audit_record list"
  assume "\<not> (rs = [] \<or> \<not> list_all (\<lambda>r. sr_epoch r = epoch) rs)"
  then show "holds (\<lambda>fs. P fs \<and> parse_audit_file env content = Inr rs)
      (and_then (lift (validate_histories rs)) (\<lambda>_. give ())) (\<lambda>_ fs. P fs \<and> content \<noteq> []) P"
    by (intro holds_then [where Q = "\<lambda>_ fs. P fs \<and> parse_audit_file env content = Inr rs"] step_rules)
      (auto simp: parse_audit_file_def)
qed (rule holds_fail; simp)

lemma judge_keeps:
  "holds (\<lambda>fs. af_next fs = Some content \<and> (c \<longrightarrow> request_held env i fs)) (judge_next env epoch content)
     (\<lambda>v fs. (c \<longrightarrow> request_held env i fs) \<and> (if v then af_next fs = Some content \<and> content \<noteq> [] else af_next fs = None))
     (\<lambda>fs. c \<longrightarrow> request_held env i fs)"
proof -
  let ?P = "\<lambda>fs. af_next fs = Some content \<and> (c \<longrightarrow> request_held env i fs)"
  let ?Q = "\<lambda>v fs. (c \<longrightarrow> request_held env i fs) \<and> (if v then af_next fs = Some content \<and> content \<noteq> [] else af_next fs = None)"
  let ?E = "\<lambda>fs. c \<longrightarrow> request_held env i fs"
  have first: "holds ?P (and_then (check_next env epoch content) (\<lambda>_. give True)) ?Q ?P"
    by (rule holds_then [OF check_next_keeps]) (rule holds_give, simp)
  have drop: "holds ?P
      (and_then (look af_current) (\<lambda>current.
         if current = None then fail e
         else and_then (call drop_next) (\<lambda>_. and_then check (\<lambda>_. give False)))) ?Q ?E" for e
  proof (rule holds_then [where Q = "\<lambda>x fs. x = af_current fs \<and> ?P fs"], rule holds_look, simp, intro holds_if)
    fix x :: "bytes option"
    assume "x \<noteq> None"
    then show "holds (\<lambda>fs. x = af_current fs \<and> ?P fs)
        (and_then (call drop_next) (\<lambda>_. and_then check (\<lambda>_. give False))) ?Q ?E"
      by (intro holds_then [where Q = "\<lambda>_ fs. ?E fs \<and> af_next fs = None"] step_rules)
        (auto dest: held_drop simp: drop_next_def)
  qed (rule holds_fail; simp)
  have handler: "holds ?P
      (case e of
         AuditValueError \<Rightarrow> fail (AuditError AuditFailed)
       | AuditError x \<Rightarrow>
           and_then (look af_current) (\<lambda>current.
             if current = None then fail e
             else and_then (call drop_next) (\<lambda>_. and_then check (\<lambda>_. give False)))) ?Q ?E" for e
  proof (cases e)
    case (AuditError x)
    show ?thesis using drop [of e] unfolding AuditError audit_exc.case .
  next
    case AuditValueError
    show ?thesis unfolding AuditValueError audit_exc.case by (rule holds_fail) simp
  qed
  show ?thesis
    unfolding judge_next_def by (rule holds_error [OF first handler])
qed

lemma commit_keeps:
  "holds (\<lambda>fs. (c \<longrightarrow> request_held env i fs) \<and> af_next fs = Some content \<and> content \<noteq> []) commit_next
     (\<lambda>_ fs. (c \<longrightarrow> request_held env i fs) \<and> af_next fs = None) (\<lambda>fs. c \<longrightarrow> request_held env i fs)"
proof -
  let ?P = "\<lambda>fs. (c \<longrightarrow> request_held env i fs) \<and> af_next fs = Some content \<and> content \<noteq> []"
  let ?E = "\<lambda>fs. c \<longrightarrow> request_held env i fs"
  have retire: "holds (\<lambda>fs. x = af_current fs \<and> ?P fs)
      (if x = None then give () else and_then (call retire_current) (\<lambda>_. check)) (\<lambda>_. ?P) ?E" for x
    by (intro holds_if holds_then [where Q = "\<lambda>_. ?P"] step_rules)
      (auto dest: held_retire simp: retire_current_def)
  have promote: "holds ?P (and_then (call promote_next) (\<lambda>_. check)) (\<lambda>_ fs. ?E fs \<and> af_next fs = None) ?E"
    by (intro holds_then [where Q = "\<lambda>_ fs. ?E fs \<and> af_next fs = None"] step_rules)
      (auto dest: held_promote simp: promote_next_def)
  show ?thesis
    unfolding commit_next_def
    by (rule holds_then [where Q = "\<lambda>x fs. x = af_current fs \<and> ?P fs"], rule holds_look, simp,
        rule holds_then [OF retire promote])
qed

lemma recover_keeps:
  "holds (\<lambda>fs. c \<longrightarrow> request_held env i fs) (recover_rotation env epoch)
     (\<lambda>_ fs. (c \<longrightarrow> request_held env i fs) \<and> af_next fs = None) (\<lambda>fs. c \<longrightarrow> request_held env i fs)"
proof -
  let ?E = "\<lambda>fs. c \<longrightarrow> request_held env i fs"
  have some: "holds (\<lambda>fs. af_next fs = Some content \<and> ?E fs)
      (and_then (judge_next env epoch content) (\<lambda>valid. if valid then commit_next else give ()))
      (\<lambda>_ fs. ?E fs \<and> af_next fs = None) ?E" for content
    by (rule holds_then [OF judge_keeps], rule holds_if)
      (auto intro: holds_pre [OF commit_keeps] holds_give)
  have body: "holds (\<lambda>fs. fs0 = fs \<and> ?E fs)
      (case af_next fs0 of
         None \<Rightarrow> give ()
       | Some content \<Rightarrow>
           if af_current fs0 = None \<and> af_rotated fs0 = None then fail (AuditError AuditCorrupt)
           else and_then (judge_next env epoch content) (\<lambda>valid. if valid then commit_next else give ()))
      (\<lambda>_ fs. ?E fs \<and> af_next fs = None) ?E" for fs0
  proof (cases "af_next fs0")
    case None
    then show ?thesis by (auto intro: holds_give)
  next
    case (Some content)
    then show ?thesis
      by (auto intro: holds_fail holds_pre [OF some])
  qed
  show ?thesis
    unfolding recover_rotation_def
    by (rule holds_then [where Q = "\<lambda>_. ?E"], rule holds_check, simp, simp,
        rule holds_then [where Q = "\<lambda>fs0 fs. fs0 = fs \<and> ?E fs"], rule holds_look, simp, rule body)
qed

lemma open_keeps:
  "holds (\<lambda>fs. c \<longrightarrow> request_held env i fs) (open_logs env epoch)
     (\<lambda>_ fs. (c \<longrightarrow> request_held env i fs) \<and> af_next fs = None \<and> af_current fs \<noteq> None) (\<lambda>fs. c \<longrightarrow> request_held env i fs)"
proof -
  let ?Q = "\<lambda>_ fs. (c \<longrightarrow> request_held env i fs) \<and> af_next fs = None \<and> af_current fs \<noteq> None"
  have "holds (\<lambda>fs. (c \<longrightarrow> request_held env i fs) \<and> af_next fs = None) (and_then (call create_current) (\<lambda>_. check)) ?Q
      (\<lambda>fs. c \<longrightarrow> request_held env i fs)"
    by (intro holds_then [where Q = ?Q] step_rules) (auto simp: create_current_def request_held_def split: option.splits)
  then show ?thesis
    unfolding open_logs_def by (rule holds_then [OF recover_keeps])
qed

text \<open>What the histories are read from.\<close>

definition loaded_from :: "audit_env \<Rightarrow> histories \<Rightarrow> audit_record list \<Rightarrow> audit_record list \<Rightarrow> audit_files \<Rightarrow> bool" where
  "loaded_from env hs older newer fs \<longleftrightarrow>
     (case af_rotated fs of None \<Rightarrow> older = [] | Some b \<Rightarrow> parse_audit_file env b = Inr older)
     \<and> parse_audit_file env (content_of (af_current fs)) = Inr newer \<and> validate_histories (older @ newer) = Inr hs"

lemma load_keeps:
  "holds P (load_logs env epoch) (\<lambda>hs fs. P fs \<and> (\<exists>older newer. loaded_from env hs older newer fs)) P"
proof -
  let ?R = "\<lambda>fs0 older fs. (fs0 = fs \<and> P fs)
    \<and> (case af_rotated fs0 of None \<Rightarrow> older = [] | Some b \<Rightarrow> parse_audit_file env b = Inr older)"
  have older: "holds (\<lambda>fs. fs0 = fs \<and> P fs)
      (if af_rotated fs0 = None then give [] else read_audit_file env (content_of (af_rotated fs0))) (?R fs0) P" for fs0
  proof (cases "af_rotated fs0")
    case (Some b)
    then show ?thesis
      using holds_post [OF read_keeps [of "\<lambda>fs. fs0 = fs \<and> P fs"], of env b "?R fs0" P] by (simp add: content_of_def)
  qed (auto intro: holds_give)
  have newer: "holds (?R fs0 older) (read_audit_file env (content_of (af_current fs0)))
      (\<lambda>newer fs. ?R fs0 older fs \<and> parse_audit_file env (content_of (af_current fs0)) = Inr newer) P" for fs0 older
    by (rule holds_post [OF read_keeps]) auto
  show ?thesis
    unfolding load_logs_def
    by (rule holds_then [where Q = "\<lambda>fs0 fs. fs0 = fs \<and> P fs"], rule holds_look, simp, rule holds_then [OF older],
        rule holds_then [OF newer], rule holds_if; intro step_rules; auto simp: loaded_from_def split: option.splits)
qed

subsection \<open>What an append writes\<close>

lemma of_request_append [simp]: "of_request i (xs @ ys) = of_request i xs @ of_request i ys"
  by (simp add: of_request_def)

lemma of_request_Nil [simp]: "of_request i [] = []"
  by (simp add: of_request_def)

lemma of_request_Cons: "of_request i (x # xs) = (if sr_request_id x = i then x # of_request i xs else of_request i xs)"
  by (simp add: of_request_def)

lemma encoded_parse:
  assumes "sound_audit env" and "list_all record_ok rs" and "encoded_records env rs = Inr b"
    and "parse_audit_file env c = Inr before"
  shows "\<exists>rs'. list_all2 (reread env) rs rs' \<and> parse_audit_file env (c @ b) = Inr (before @ rs')"
proof -
  obtain ps where ps: "collect (map (encoded_record env) rs) = Inr ps" "b = concat ps"
    using assms(3) by (auto simp: encoded_records_def split: sum.splits)
  obtain rs' where "list_all2 (reread env) rs rs'"
    using reread_exists [OF assms(1,2)] by blast
  with parse_append_records [OF assms(1) ps(1) assms(2) this assms(4)] ps(2) show ?thesis by blast
qed

lemma reread_requests:
  assumes "list_all2 (reread env) rs rs'"
  shows "list_all2 (reread env) (of_request i rs) (of_request i rs')"
  using assms by (induction rs rs' rule: list_all2_induct) (auto simp: of_request_Cons reread_fields)

lemma reread_pending: "list_all2 (reread env) rs rs' \<Longrightarrow> list_all is_pending rs \<longleftrightarrow> list_all is_pending rs'"
  by (induction rs rs' rule: list_all2_induct) (auto simp: is_pending_def reread_fields)

lemma parse_Nil [simp]: "parse_audit_file env [] = Inr []"
  by (simp add: parse_audit_file_def)

lemma encoded_carries:
  assumes "sound_audit env" and "list_all record_ok rs" and "encoded_records env rs = Inr b"
    and "parse_audit_file env c = Inr before" and "list_all is_pending (of_request i (before @ rs))"
    and "of_request i (before @ rs) \<noteq> []"
  shows "carries env i (c @ b)"
proof -
  obtain rs' where r: "list_all2 (reread env) rs rs'" "parse_audit_file env (c @ b) = Inr (before @ rs')"
    using encoded_parse [OF assms(1-4)] by blast
  then have "list_all2 (reread env) (of_request i rs) (of_request i rs')"
    by (simp add: reread_requests)
  then have "list_all is_pending (of_request i rs) \<longleftrightarrow> list_all is_pending (of_request i rs')"
    "of_request i rs = [] \<longleftrightarrow> of_request i rs' = []"
    using reread_pending by (blast, auto)
  with assms(5,6) r(2) show ?thesis by (simp add: carries_def)
qed

lemma active_pending_ok:
  assumes "validate_histories rs = Inr hs" and "list_all record_ok rs" and "record_ok r"
  shows "list_all record_ok (active_pending hs r)" and "list_all is_pending (active_pending hs r)"
proof -
  have "record_ok (last h)" if "(j, h) \<in> set hs" for j h
  proof -
    have "map_of hs j = Some h" using that histories_distinct [OF assms(1)] by simp
    then show ?thesis using history_last(3) [OF assms(1)] assms(2) by (auto simp: list_all_iff)
  qed
  then show "list_all record_ok (active_pending hs r)"
    using assms(3) by (auto simp: active_pending_def Let_def list_all_iff)
  show "list_all is_pending (active_pending hs r)"
    by (auto simp: active_pending_def Let_def list_all_iff)
qed

text \<open>The request \<open>i\<close> is to be carried over: it is the new pending record, or an older one that is still pending.\<close>

definition to_carry :: "pystr \<Rightarrow> audit_record \<Rightarrow> audit_record list \<Rightarrow> bool" where
  "to_carry i r rs \<longleftrightarrow> list_all is_pending (of_request i rs)
     \<and> (i = sr_request_id r \<and> is_pending r \<or> i \<noteq> sr_request_id r \<and> of_request i rs \<noteq> [])"

lemma active_pending_has:
  assumes "validate_histories rs = Inr hs" and "to_carry i r rs"
  shows "of_request i (active_pending hs r) \<noteq> []"
proof (cases "i = sr_request_id r")
  case True
  then have "r \<in> set (active_pending hs r)" "sr_request_id r = i"
    using assms(2) by (auto simp: to_carry_def active_pending_def Let_def)
  then show ?thesis by (auto simp: of_request_def filter_empty_conv)
next
  case False
  then obtain h where h: "map_of hs i = Some h"
    using assms no_history by (fastforce simp: to_carry_def)
  have l: "last h = last (of_request i rs)" "sr_request_id (last h) = i"
    using history_last [OF assms(1) h] by simp_all
  moreover have "of_request i rs \<noteq> []" "list_all is_pending (of_request i rs)"
    using assms(2) False by (simp_all add: to_carry_def)
  ultimately have "is_pending (last h)" using last_in_set by (metis list_all_iff)
  then have "last h \<in> set (active_pending hs r)"
    using map_of_SomeD [OF h] False by (force simp: active_pending_def Let_def)
  with l(2) show ?thesis by (auto simp: of_request_def filter_empty_conv)
qed

lemma pending_payload_carries:
  assumes "sound_audit env" and "validate_histories rs = Inr hs" and "list_all record_ok rs" and "record_ok r"
    and "to_carry i r rs" and "active_pending_payload env hs r = Inr p"
  shows "\<exists>as. list_all is_pending (of_request i as) \<and> of_request i as \<noteq> [] \<and> parse_audit_file env p = Inr as"
proof -
  let ?as = "sort_key (\<lambda>a. (stamp_num (sr_timestamp a), sr_request_id a)) (active_pending hs r)"
  have e: "encoded_records env ?as = Inr p"
    using assms(6) by (auto simp: active_pending_payload_def Let_def split: if_splits sum.splits)
  have ok: "list_all record_ok ?as" "list_all is_pending ?as"
    using active_pending_ok [OF assms(2-4)] by (simp_all add: list_all_iff)
  obtain as' where as': "list_all2 (reread env) ?as as'" "parse_audit_file env ([] @ p) = Inr ([] @ as')"
    using encoded_parse [OF assms(1) ok(1) e parse_Nil] by blast
  have "set (of_request i ?as) = set (of_request i (active_pending hs r))"
    by (simp add: of_request_def)
  then have "of_request i ?as \<noteq> []"
    using active_pending_has [OF assms(2,5)] by (metis set_empty)
  then have "of_request i as' \<noteq> []"
    using reread_requests [OF as'(1), of i] by auto
  moreover have "list_all is_pending as'" using reread_pending [OF as'(1)] ok(2) by blast
  then have "list_all is_pending (of_request i as')" by (auto simp: of_request_def list_all_iff)
  ultimately show ?thesis using as'(2) by auto
qed

lemma rotation_carries:
  assumes "sound_audit env" and "validate_histories rs = Inr hs" and "list_all record_ok rs" and "record_ok r"
    and "to_carry i r rs" and "active_pending_payload env hs r = Inr pending" and "encoded_record env r = Inr payload"
    and "rotation_payload env hs r payload pending = Inr b"
  shows "carries env i b \<and> b \<noteq> []"
proof -
  obtain as where as: "list_all is_pending (of_request i as)" "of_request i as \<noteq> []" "parse_audit_file env pending = Inr as"
    using pending_payload_carries [OF assms(1-6)] by blast
  have "b \<noteq> []"
    using assms(8) by (auto simp: rotation_payload_def Let_def split: sum.splits if_splits)
  moreover have "carries env i b"
  proof (cases "is_pending r")
    case True
    then have "b = pending"
      using assms(8) by (auto simp: rotation_payload_def Let_def split: if_splits)
    with as show ?thesis by (simp add: carries_def)
  next
    case False
    then obtain h p where h: "map_of hs (sr_request_id r) = Some h" "is_pending (last h)" "encoded_record env (last h) = Inr p"
      "b = pending @ p @ payload"
      using assms(8) by (auto simp: rotation_payload_def Let_def split: sum.splits if_splits option.splits)
    have ne: "i \<noteq> sr_request_id r" using assms(5) False by (simp add: to_carry_def)
    have "record_ok (last h)" "sr_request_id (last h) = sr_request_id r"
      using history_last(3,4) [OF assms(2) h(1)] assms(3) by (auto simp: list_all_iff)
    moreover have "encoded_records env [last h, r] = Inr (p @ payload)"
      using h(3) assms(7) by (simp add: encoded_records_def)
    ultimately show ?thesis
      using encoded_carries [OF assms(1) _ _ as(3), of "[last h, r]" "p @ payload" i] as(1,2) assms(4) ne
      by (simp add: of_request_Cons h(4))
  qed
  ultimately show ?thesis by blast
qed

lemma held_next:
  assumes "af_current fs \<noteq> None" and "c \<longrightarrow> request_held env i fs" and "b = [] \<or> carries env i b"
  shows "c \<longrightarrow> request_held env i (fs\<lparr>af_next := Some b\<rparr>)"
  using assms by (auto simp: request_held_def)

lemma cut_carries: "cut p q \<Longrightarrow> carries env i p \<Longrightarrow> q = [] \<or> carries env i q"
  using parse_torn [of q env "[]"] by (auto simp: cut_def carries_def)

lemma rotate_audit_keeps:
  assumes "carries env i b" and "b \<noteq> []"
  shows "holds (\<lambda>fs. (c \<longrightarrow> request_held env i fs) \<and> af_next fs = None \<and> (\<exists>cb. af_current fs = Some cb \<and> clear_of_end env i cb))
    (rotate_audit b) (\<lambda>_. request_held env i) (\<lambda>fs. c \<longrightarrow> request_held env i fs)"
proof -
  let ?E = "\<lambda>fs. c \<longrightarrow> request_held env i fs"
  let ?S = "\<lambda>n fs. ?E fs \<and> af_next fs = n \<and> (\<exists>cb. af_current fs = Some cb \<and> clear_of_end env i cb)"
  let ?T = "\<lambda>fs. request_held env i fs \<and> af_next fs = Some b"
  have create: "?S (Some []) (put_next [] fs)" if "?S None fs" for fs
    using that held_next [of fs c env i "[]"] by (auto simp: put_next_def content_of_def)
  have torn: "?E (put_next q fs)" if "cut b q" "?S (Some []) fs" for q fs
    using that held_next [of fs c env i q] cut_carries [OF that(1) assms(1)] by (auto simp: put_next_def content_of_def)
  have whole: "?S (Some b) (put_next b fs)" if "?S (Some []) fs" for fs
    using that held_next [of fs c env i b] assms(1) by (auto simp: put_next_def content_of_def)
  have retire: "?T (retire_current fs)" if "?S (Some b) fs" for fs
    using that assms(1) by (auto simp: request_held_def retire_current_def)
  have promote: "request_held env i (promote_next fs)" if "?T fs" for fs
    using that held_promote assms(2) by blast
  show ?thesis
    unfolding rotate_audit_def
    by (rule holds_then [where Q = "\<lambda>_. ?S None"], rule holds_check, simp, simp,
        rule holds_then [where Q = "\<lambda>x. ?S None"], rule holds_look, simp, rule holds_if, rule holds_fail, simp,
        rule holds_then [where Q = "\<lambda>_. ?S (Some [])"], rule holds_call, simp, rule create, simp,
        rule holds_then [where Q = "\<lambda>_. ?S (Some b)"], rule holds_write, rule torn, simp, simp, rule whole, simp,
        rule holds_then [where Q = "\<lambda>_. ?S (Some b)"], rule holds_check, simp, simp,
        rule holds_then [where Q = "\<lambda>_. ?T"], rule holds_call, simp, rule retire, simp,
        rule holds_then [where Q = "\<lambda>_. ?T"], rule holds_check, simp, simp,
        rule holds_then [where Q = "\<lambda>_. request_held env i"], rule holds_call, simp, rule promote, simp,
        rule holds_check, simp, simp)
qed

lemma loaded_ok:
  assumes "loaded_from env hs older newer fs"
  shows "list_all record_ok (older @ newer)"
  using assms parsed_ok by (auto simp: loaded_from_def list_all_iff split: option.splits)

lemma append_keeps:
  assumes "sound_audit env" and "record_ok r" and "validate_histories rs = Inr hs" and "list_all record_ok rs" and "to_carry i r rs"
  shows "holds (\<lambda>fs. (c \<longrightarrow> request_held env i fs) \<and> af_next fs = None \<and> af_current fs \<noteq> None
      \<and> (\<exists>older newer. loaded_from env hs older newer fs \<and> rs = older @ newer) \<and> (i \<noteq> sr_request_id r \<longrightarrow> c))
    (append_audit env r hs) (\<lambda>_. request_held env i) (\<lambda>fs. c \<longrightarrow> request_held env i fs)"
proof -
  let ?E = "\<lambda>fs. c \<longrightarrow> request_held env i fs"
  let ?P = "\<lambda>fs. ?E fs \<and> af_next fs = None \<and> af_current fs \<noteq> None
      \<and> (\<exists>older newer. loaded_from env hs older newer fs \<and> rs = older @ newer) \<and> (i \<noteq> sr_request_id r \<longrightarrow> c)"
  have current: "\<exists>cb newer. af_current fs = Some cb \<and> parse_audit_file env cb = Inr newer
      \<and> list_all is_pending (of_request i newer) \<and> (\<forall>b. af_rotated fs = Some b \<longrightarrow> clear_of_end env i b)
      \<and> (i = sr_request_id r \<and> is_pending r \<or> of_request i newer \<noteq> []) \<and> clear_of_end env i cb" if P: "?P fs" for fs
  proof -
    obtain cb where cb: "af_current fs = Some cb" using P by auto
    obtain older newer where l: "loaded_from env hs older newer fs" "rs = older @ newer" using P by auto
    then have p: "parse_audit_file env cb = Inr newer" and o: "\<And>b. af_rotated fs = Some b \<Longrightarrow> parse_audit_file env b = Inr older"
      using cb by (auto simp: loaded_from_def content_of_def)
    have pend: "list_all is_pending (of_request i older)" "list_all is_pending (of_request i newer)"
      using assms(5) l(2) by (simp_all add: to_carry_def)
    have "i = sr_request_id r \<and> is_pending r \<or> of_request i newer \<noteq> []"
      using P assms(5) p cb by (auto simp: to_carry_def request_held_def carries_def)
    with cb p o pend show ?thesis by (auto simp: clear_of_end_def)
  qed
  have rotate: "holds ?P (and_then (lift (rotation_payload env hs r payload pending)) rotate_audit) (\<lambda>_. request_held env i) ?E"
    if "encoded_record env r = Inr payload" "active_pending_payload env hs r = Inr pending" for payload pending
  proof -
    have "holds (\<lambda>fs. ?P fs \<and> rotation_payload env hs r payload pending = Inr b) (rotate_audit b) (\<lambda>_. request_held env i) ?E" for b
    proof (rule holds_assume [of _ "carries env i b \<and> b \<noteq> []"])
      show "carries env i b \<and> b \<noteq> []" if "?P fs \<and> rotation_payload env hs r payload pending = Inr b" for fs
        using rotation_carries [OF assms(1,3,4,2,5) \<open>active_pending_payload env hs r = Inr pending\<close> \<open>encoded_record env r = Inr payload\<close>]
          that by blast
      assume "carries env i b \<and> b \<noteq> []"
      then have "carries env i b" "b \<noteq> []" by simp_all
      from rotate_audit_keeps [OF this, of c]
      show "holds (\<lambda>fs. ?P fs \<and> rotation_payload env hs r payload pending = Inr b) (rotate_audit b) (\<lambda>_. request_held env i) ?E"
        using current by (elim holds_pre) blast
    qed
    then show ?thesis
      by (intro holds_then [where Q = "\<lambda>b fs. ?P fs \<and> rotation_payload env hs r payload pending = Inr b"] holds_lift) auto
  qed
  have in_place: "holds ?P (and_then check (\<lambda>_. and_then (write_with put_current payload) (\<lambda>_. check))) (\<lambda>_. request_held env i) ?E"
    if e: "encoded_record env r = Inr payload" for payload
  proof -
    have one: "encoded_records env [r] = Inr payload" using e by (simp add: encoded_records_def)
    have whole: "request_held env i (put_current payload fs)" if "?P fs" for fs
    proof -
      obtain cb newer where cb: "af_current fs = Some cb" "parse_audit_file env cb = Inr newer"
        "list_all is_pending (of_request i newer)" "\<forall>b. af_rotated fs = Some b \<longrightarrow> clear_of_end env i b"
        "i = sr_request_id r \<and> is_pending r \<or> of_request i newer \<noteq> []"
        using current [OF \<open>?P fs\<close>] by blast
      have "list_all is_pending (of_request i (newer @ [r]))"
        using cb(3) assms(5) by (auto simp: of_request_Cons to_carry_def)
      moreover have "of_request i (newer @ [r]) \<noteq> []"
        using cb(5) by (auto simp: of_request_Cons)
      ultimately have "carries env i (cb @ payload)"
        using encoded_carries [OF assms(1) _ one cb(2)] assms(2) by simp
      with cb(1,4) \<open>?P fs\<close> show ?thesis by (auto simp: request_held_def put_current_def content_of_def)
    qed
    have torn: "?E (put_current q fs)" if ct: "cut payload q" and P: "?P fs" for q fs
    proof -
      obtain cb where cb: "af_current fs = Some cb" using P by auto
      consider "q = payload" | "q = []" | "q \<noteq> []" "last q \<noteq> NL" using ct by (auto simp: cut_def)
      then show ?thesis
      proof cases
        case 1
        then show ?thesis using whole P by simp
      next
        case 2
        then show ?thesis using P cb by (auto simp: put_current_def content_of_def request_held_def)
      next
        case 3
        then have "carries env i (cb @ q)" using parse_torn [of q env cb] by (simp add: carries_def)
        with P cb show ?thesis by (auto simp: put_current_def content_of_def request_held_def)
      qed
    qed
    show ?thesis
      by (rule holds_then [where Q = "\<lambda>_. ?P"], rule holds_check, simp, simp,
          rule holds_then [where Q = "\<lambda>_. request_held env i"], rule holds_write, rule torn, assumption, assumption,
          rule whole, assumption, rule holds_check, simp, simp)
  qed
  let ?rest = "\<lambda>payload pending. and_then (look (\<lambda>fs. length (content_of (af_current fs)))) (\<lambda>current_size.
       if MAX_AUDIT_BYTES < current_size + length payload then
         and_then (lift (rotation_payload env hs r payload pending)) rotate_audit
       else and_then check (\<lambda>_. and_then (write_with put_current payload) (\<lambda>_. check)))"
  have rest: "holds (\<lambda>fs. ?P fs \<and> encoded_record env r = Inr payload \<and> active_pending_payload env hs r = Inr pending)
      (?rest payload pending) (\<lambda>_. request_held env i) ?E" for payload pending
  proof (rule holds_assume [of _ "encoded_record env r = Inr payload \<and> active_pending_payload env hs r = Inr pending"], simp)
    assume "encoded_record env r = Inr payload \<and> active_pending_payload env hs r = Inr pending"
    then have e: "encoded_record env r = Inr payload" "active_pending_payload env hs r = Inr pending" by simp_all
    have "holds ?P (?rest payload pending) (\<lambda>_. request_held env i) ?E"
      by (rule holds_then [where Q = "\<lambda>_. ?P"], rule holds_look, blast, rule holds_if, rule rotate [OF e], rule in_place [OF e(1)])
    then show "holds (\<lambda>fs. ?P fs \<and> encoded_record env r = Inr payload \<and> active_pending_payload env hs r = Inr pending)
        (?rest payload pending) (\<lambda>_. request_held env i) ?E"
      by (rule holds_pre) blast
  qed
  have pending: "holds (\<lambda>fs. ?P fs \<and> encoded_record env r = Inr payload)
      (and_then (lift (active_pending_payload env hs r)) (?rest payload)) (\<lambda>_. request_held env i) ?E" for payload
    by (rule holds_then [where Q = "\<lambda>pending fs. ?P fs \<and> encoded_record env r = Inr payload
          \<and> active_pending_payload env hs r = Inr pending"], rule holds_lift, blast, blast, rule rest)
  show ?thesis
    unfolding append_audit_def
    by (rule holds_then [where Q = "\<lambda>payload fs. ?P fs \<and> encoded_record env r = Inr payload"], rule holds_lift, blast, blast,
        rule pending)
qed

subsection \<open>The operations keep a reservation\<close>

lemma holds_locked:
  assumes "holds P m Q E" and "\<And>fs. P fs \<Longrightarrow> E fs" and "\<And>x fs. Q x fs \<Longrightarrow> E fs"
  shows "holds P (locked m) Q E"
  unfolding locked_def
  by (rule holds_error, rule holds_then [where Q = "\<lambda>_. P"], rule holds_check, erule assms(2), simp,
      rule holds_then [OF assms(1)], rename_tac x, rule_tac Q = "\<lambda>_. Q x" in holds_then, rule holds_check,
      erule assms(3), simp, rule holds_give, simp, rule holds_fail, simp)

lemma append_ragged: "holds (\<lambda>_. True) (append_audit env r hs) (\<lambda>_ _. True) (\<lambda>_. True)"
  unfolding append_audit_def rotate_audit_def
  by (intro holds_then [where Q = "\<lambda>_ _. True"] step_rules) simp_all

lemma holds_either: "holds (\<lambda>_. True) m (\<lambda>_ _. True) (\<lambda>_. True) \<Longrightarrow> (c \<Longrightarrow> holds P m (\<lambda>_. R) S)
  \<Longrightarrow> (\<And>fs. \<not> c \<Longrightarrow> R fs \<and> S fs) \<Longrightarrow> holds P m (\<lambda>_. R) S"
  by (cases c; unfold holds_def; fastforce split: sum.splits)

lemma base_record_fields:
  assumes "base_audit_record env ns now j ident outcome = Inr d" and "validate_audit_record (PDict (d @ extra)) = Inr r"
  shows "sr_request_id r = j" and "is_pending r \<longleftrightarrow> outcome = py ''pending''" and "record_ok r"
proof -
  have "r = record_of (d @ extra)"
    using assms(2) by (auto simp: validate_audit_record_def Let_def split: if_splits)
  with assms(1) show "sr_request_id r = j" "is_pending r \<longleftrightarrow> outcome = py ''pending''"
    by (auto simp: base_audit_record_def record_of_def is_pending_def split: sum.splits)
  show "record_ok r" using validated_ok [OF assms(2)] .
qed

lemma held_loaded:
  assumes "request_held env i fs" and "af_current fs \<noteq> None" and "loaded_from env hs older newer fs"
  shows "list_all is_pending (of_request i (older @ newer))" and "of_request i newer \<noteq> []"
proof -
  obtain cb where cb: "af_current fs = Some cb" using assms(2) by blast
  then have "parse_audit_file env cb = Inr newer" using assms(3) by (simp add: loaded_from_def content_of_def)
  with assms(1) cb have n: "list_all is_pending (of_request i newer)" "of_request i newer \<noteq> []"
    by (auto simp: request_held_def carries_def)
  moreover have "list_all is_pending (of_request i older)"
    using assms(1,3) by (cases "af_rotated fs") (auto simp: request_held_def loaded_from_def clear_of_end_def)
  ultimately show "list_all is_pending (of_request i (older @ newer))" "of_request i newer \<noteq> []" by simp_all
qed

lemma held_history:
  assumes "request_held env i fs" and "af_current fs \<noteq> None" and "loaded_from env hs older newer fs" and "map_of hs i = Some h"
  shows "is_pending (last h)" and "sr_request_id (last h) = i"
proof -
  have v: "validate_histories (older @ newer) = Inr hs" using assms(3) by (simp add: loaded_from_def)
  have "last h = last (of_request i (older @ newer))" "of_request i (older @ newer) \<noteq> []"
    using history_last(2) [OF v assms(4)] held_loaded(2) [OF assms(1-3)] by simp_all
  then show "is_pending (last h)"
    using held_loaded(1) [OF assms(1-3)] last_in_set by (metis list_all_iff)
  show "sr_request_id (last h) = i" by (rule history_last(4) [OF v assms(4)])
qed

text \<open>What the logs hold when their histories have been loaded.\<close>

definition ready :: "audit_env \<Rightarrow> bool \<Rightarrow> pystr \<Rightarrow> histories \<Rightarrow> audit_files \<Rightarrow> bool" where
  "ready env c i hs fs \<longleftrightarrow> (c \<longrightarrow> request_held env i fs) \<and> af_next fs = None \<and> af_current fs \<noteq> None
     \<and> (\<exists>older newer. loaded_from env hs older newer fs)"

lemma open_and_load:
  assumes "\<And>hs. holds (ready env c i hs) (f hs) Q (\<lambda>fs. c \<longrightarrow> request_held env i fs)"
  shows "holds (\<lambda>fs. c \<longrightarrow> request_held env i fs) (and_then (open_logs env epoch) (\<lambda>_. and_then (load_logs env epoch) f)) Q
    (\<lambda>fs. c \<longrightarrow> request_held env i fs)"
proof (rule holds_then [OF open_keeps])
  let ?P = "\<lambda>fs. (c \<longrightarrow> request_held env i fs) \<and> af_next fs = None \<and> af_current fs \<noteq> None"
  have "holds (\<lambda>fs. ?P fs \<and> (\<exists>older newer. loaded_from env hs older newer fs)) (f hs) Q (\<lambda>fs. c \<longrightarrow> request_held env i fs)" for hs
    by (rule holds_pre [OF assms]) (auto simp: ready_def)
  then show "holds ?P (and_then (load_logs env epoch) f) Q (\<lambda>fs. c \<longrightarrow> request_held env i fs)"
    by (intro holds_then [where Q = "\<lambda>hs fs. ?P fs \<and> (\<exists>older newer. loaded_from env hs older newer fs)"])
      (auto intro: holds_post [OF load_keeps])
qed

text \<open>Appending a record of another request, or the new pending record of the request itself.\<close>

lemma append_ready:
  assumes "sound_audit env" and "record_ok r" and "i \<noteq> sr_request_id r \<or> is_pending r \<and> \<not> c \<and> map_of hs i = None"
  shows "holds (ready env c i hs) (append_audit env r hs) (\<lambda>_ fs. (i \<noteq> sr_request_id r \<longrightarrow> c) \<longrightarrow> request_held env i fs)
    (\<lambda>fs. c \<longrightarrow> request_held env i fs)"
proof (rule holds_either [where c = "i \<noteq> sr_request_id r \<longrightarrow> c"])
  show "holds (\<lambda>_. True) (append_audit env r hs) (\<lambda>_ _. True) (\<lambda>_. True)" by (rule append_ragged)
  show "((i \<noteq> sr_request_id r \<longrightarrow> c) \<longrightarrow> request_held env i fs) \<and> (c \<longrightarrow> request_held env i fs)"
    if "\<not> (i \<noteq> sr_request_id r \<longrightarrow> c)" for fs using that by blast
  assume carry: "i \<noteq> sr_request_id r \<longrightarrow> c"
  show "holds (ready env c i hs) (append_audit env r hs) (\<lambda>_ fs. (i \<noteq> sr_request_id r \<longrightarrow> c) \<longrightarrow> request_held env i fs)
      (\<lambda>fs. c \<longrightarrow> request_held env i fs)"
    unfolding holds_def
  proof (intro allI impI)
    fix fs as x fs' as'
    assume run: "append_audit env r hs (fs, as) = (x, fs', as')" "ready env c i hs fs" "list_all ragged as"
    obtain older newer where l: "loaded_from env hs older newer fs" using run(2) by (auto simp: ready_def)
    have v: "validate_histories (older @ newer) = Inr hs" using l by (simp add: loaded_from_def)
    have "to_carry i r (older @ newer)"
    proof (cases "i = sr_request_id r")
      case True
      then have "of_request i (older @ newer) = []" "is_pending r" using assms(3) no_history [OF v] by auto
      with True show ?thesis by (simp add: to_carry_def)
    next
      case False
      then have "request_held env i fs" "af_current fs \<noteq> None" using carry run(2) by (simp_all add: ready_def)
      from held_loaded [OF this l] False show ?thesis by (simp add: to_carry_def)
    qed
    from append_keeps [OF assms(1,2) v loaded_ok [OF l] this, of c] run l carry
    show "list_all ragged as' \<and>
        (case x of Inl _ \<Rightarrow> c \<longrightarrow> request_held env i fs' | Inr _ \<Rightarrow> (i \<noteq> sr_request_id r \<longrightarrow> c) \<longrightarrow> request_held env i fs')"
      unfolding holds_def ready_def by (fastforce split: sum.splits)
  qed
qed

lemma reserve_new_ready:
  assumes "sound_audit env" and "j = i \<longrightarrow> \<not> c \<and> map_of hs i = None"
  shows "holds (ready env c i hs) (reserve_new env ns now j ident hs) (\<lambda>_ fs. (i \<noteq> j \<longrightarrow> c) \<longrightarrow> request_held env i fs)
    (\<lambda>fs. c \<longrightarrow> request_held env i fs)"
proof -
  have "holds (\<lambda>fs. ready env c i hs fs \<and> base_audit_record env ns now j ident (py ''pending'') = Inr d
        \<and> validate_audit_record (PDict d) = Inr r)
      (append_audit env r hs) (\<lambda>_ fs. (i \<noteq> j \<longrightarrow> c) \<longrightarrow> request_held env i fs) (\<lambda>fs. c \<longrightarrow> request_held env i fs)" for d r
  proof (rule holds_assume [of _ "base_audit_record env ns now j ident (py ''pending'') = Inr d
        \<and> validate_audit_record (PDict d) = Inr r"], simp)
    assume b: "base_audit_record env ns now j ident (py ''pending'') = Inr d \<and> validate_audit_record (PDict d) = Inr r"
    then have r: "sr_request_id r = j" "is_pending r" "record_ok r"
      using base_record_fields [of env ns now j ident "py ''pending''" d "[]" r] by simp_all
    have "holds (ready env c i hs) (append_audit env r hs) (\<lambda>_ fs. (i \<noteq> j \<longrightarrow> c) \<longrightarrow> request_held env i fs)
        (\<lambda>fs. c \<longrightarrow> request_held env i fs)"
      using append_ready [OF assms(1) r(3), of i c hs] r assms(2) by auto
    then show "holds (\<lambda>fs. ready env c i hs fs \<and> base_audit_record env ns now j ident (py ''pending'') = Inr d
          \<and> validate_audit_record (PDict d) = Inr r)
        (append_audit env r hs) (\<lambda>_ fs. (i \<noteq> j \<longrightarrow> c) \<longrightarrow> request_held env i fs) (\<lambda>fs. c \<longrightarrow> request_held env i fs)"
      by (rule holds_pre) simp
  qed
  then have "holds (\<lambda>fs. ready env c i hs fs \<and> base_audit_record env ns now j ident (py ''pending'') = Inr d)
      (and_then (lift (validate_audit_record (PDict d))) (\<lambda>r. append_audit env r hs))
      (\<lambda>_ fs. (i \<noteq> j \<longrightarrow> c) \<longrightarrow> request_held env i fs) (\<lambda>fs. c \<longrightarrow> request_held env i fs)" for d
    by (intro holds_then [where Q = "\<lambda>r fs. ready env c i hs fs \<and> base_audit_record env ns now j ident (py ''pending'') = Inr d
        \<and> validate_audit_record (PDict d) = Inr r"] holds_lift) (auto simp: ready_def)
  then show ?thesis
    unfolding reserve_new_def
    by (intro holds_then [where Q = "\<lambda>d fs. ready env c i hs fs \<and> base_audit_record env ns now j ident (py ''pending'') = Inr d"]
        holds_lift) (auto simp: ready_def)
qed

text \<open>What \<open>reserve\<close> answers: a new reservation is held; on a request that is held the answer is \<open>request_pending\<close>.\<close>

definition reserve_post :: "audit_env \<Rightarrow> bool \<Rightarrow> pystr \<Rightarrow> pystr \<Rightarrow> AuditReceipt option \<Rightarrow> audit_files \<Rightarrow> bool" where
  "reserve_post env c i j res fs \<longleftrightarrow> (c \<longrightarrow> request_held env i fs) \<and> (j = i \<longrightarrow> res = None \<longrightarrow> request_held env i fs)
     \<and> (c \<longrightarrow> j = i \<longrightarrow> (\<exists>rc. res = Some rc \<and> rc_outcome rc = py ''request_pending'' \<and> rc_request_id rc = i))"

lemma replay_ready:
  assumes "map_of hs j = Some h"
  shows "holds (ready env c i hs)
    (and_then (lift (identity_tuple env ident key)) (\<lambda>t.
       if record_identity (last h) \<noteq> t then fail (AuditError RequestConflict) else give (Some (audit_receipt (last h)))))
    (reserve_post env c i j) (\<lambda>fs. c \<longrightarrow> request_held env i fs)"
proof -
  have post: "reserve_post env c i j (Some (audit_receipt (last h))) fs" if ready: "ready env c i hs fs" for fs
  proof -
    have "is_pending (last h) \<and> sr_request_id (last h) = i" if "c" "j = i"
      using ready that assms held_history [of env i fs hs _ _ h] by (auto simp: ready_def)
    with ready show ?thesis by (auto simp: reserve_post_def ready_def audit_receipt_def is_pending_def)
  qed
  show ?thesis
    by (intro holds_then [where Q = "\<lambda>t. ready env c i hs"] step_rules) (use post in \<open>auto simp: ready_def\<close>)
qed

lemma reserve_keeps:
  assumes "sound_audit env" and "validate_request_id rid = Inr j"
  shows "holds (\<lambda>fs. c \<longrightarrow> request_held env i fs) (reserve env ns now rid ident) (reserve_post env c i j) (\<lambda>fs. c \<longrightarrow> request_held env i fs)"
proof -
  let ?E = "\<lambda>fs. c \<longrightarrow> request_held env i fs"
  let ?f = "\<lambda>hs. case map_of hs j of
      Some h \<Rightarrow> and_then (lift (identity_tuple env ident (ns_key ns))) (\<lambda>t.
          if record_identity (last h) \<noteq> t then fail (AuditError RequestConflict) else give (Some (audit_receipt (last h))))
    | None \<Rightarrow> and_then (reserve_new env ns now j ident hs) (\<lambda>_. give None)"
  have f: "holds (ready env c i hs) (?f hs) (reserve_post env c i j) ?E" for hs
  proof (cases "map_of hs j")
    case (Some h)
    then show ?thesis using replay_ready by simp
  next
    case None
    show ?thesis
    proof (cases "c \<and> j = i")
      case True
      have "\<not> ready env c i hs fs" for fs
      proof
        assume r: "ready env c i hs fs"
        then obtain older newer where l: "loaded_from env hs older newer fs" by (auto simp: ready_def)
        have "of_request i newer \<noteq> []" using held_loaded(2) [OF _ _ l] True r by (simp add: ready_def)
        moreover have "validate_histories (older @ newer) = Inr hs" using l by (simp add: loaded_from_def)
        ultimately show False using no_history [of "older @ newer" hs i] None True by simp
      qed
      then show ?thesis by (simp add: holds_def)
    next
      case False
      then have "j = i \<longrightarrow> \<not> c \<and> map_of hs i = None" using None by auto
      from reserve_new_ready [OF assms(1) this]
      have "holds (ready env c i hs) (and_then (reserve_new env ns now j ident hs) (\<lambda>_. give None)) (reserve_post env c i j) ?E"
        by (rule holds_then) (rule holds_give, use False in \<open>auto simp: reserve_post_def\<close>)
      with None show ?thesis by simp
    qed
  qed
  have "holds ?E (locked (and_then (open_logs env (ns_epoch ns)) (\<lambda>_. and_then (load_logs env (ns_epoch ns)) ?f)))
      (reserve_post env c i j) ?E"
    by (rule holds_locked [OF open_and_load [OF f]]) (auto simp: reserve_post_def)
  then show ?thesis
    unfolding reserve_def assms(2)
    by (intro holds_then [where Q = "\<lambda>x fs. x = j \<and> ?E fs"] holds_lift) (auto intro: holds_assume [of _ "_ = j"] holds_pre)
qed

lemma terminal_fields:
  "terminal_record env ns now j ident e = Inr r \<Longrightarrow> sr_request_id r = j \<and> record_ok r"
  by (auto simp: terminal_record_def dest: base_record_fields split: sum.splits)

lemma terminal_new_ready:
  assumes "sound_audit env" and "j \<noteq> i"
  shows "holds (ready env c i hs)
    (and_then (lift (terminal_record env ns now j ident e)) (\<lambda>r. and_then (append_audit env r hs) (\<lambda>_. give (audit_receipt r))))
    (\<lambda>_ fs. c \<longrightarrow> request_held env i fs) (\<lambda>fs. c \<longrightarrow> request_held env i fs)"
proof -
  let ?E = "\<lambda>fs. c \<longrightarrow> request_held env i fs"
  have "holds (\<lambda>fs. ready env c i hs fs \<and> terminal_record env ns now j ident e = Inr r)
      (and_then (append_audit env r hs) (\<lambda>_. give (audit_receipt r))) (\<lambda>_. ?E) ?E" for r
  proof (rule holds_assume [of _ "terminal_record env ns now j ident e = Inr r"], simp)
    assume t: "terminal_record env ns now j ident e = Inr r"
    have "holds (ready env c i hs) (and_then (append_audit env r hs) (\<lambda>_. give (audit_receipt r))) (\<lambda>_. ?E) ?E"
      by (rule holds_then [OF append_ready [OF assms(1), of r i c hs]])
        (use terminal_fields [OF t] assms(2) in \<open>auto intro: holds_give\<close>)
    then show "holds (\<lambda>fs. ready env c i hs fs \<and> terminal_record env ns now j ident e = Inr r)
        (and_then (append_audit env r hs) (\<lambda>_. give (audit_receipt r))) (\<lambda>_. ?E) ?E"
      by (rule holds_pre) simp
  qed
  then show ?thesis
    by (intro holds_then [where Q = "\<lambda>r fs. ready env c i hs fs \<and> terminal_record env ns now j ident e = Inr r"] holds_lift)
      (auto simp: ready_def)
qed

lemma terminal_keeps:
  assumes "sound_audit env" and "validate_request_id rid = Inr j" and "j \<noteq> i"
  shows "holds (\<lambda>fs. c \<longrightarrow> request_held env i fs) (append_terminal env ns now rid ident e) (\<lambda>_ fs. c \<longrightarrow> request_held env i fs)
    (\<lambda>fs. c \<longrightarrow> request_held env i fs)"
proof -
  let ?E = "\<lambda>fs. c \<longrightarrow> request_held env i fs"
  let ?g = "\<lambda>hs h t. if record_identity (last h) \<noteq> t then fail (AuditError RequestConflict)
       else if \<not> is_pending (last h) then fail (AuditError AuditCorrupt)
       else and_then (lift (terminal_record env ns now j ident e)) (\<lambda>r.
              and_then (append_audit env r hs) (\<lambda>_. give (audit_receipt r)))"
  let ?f = "\<lambda>hs. case map_of hs j of
      None \<Rightarrow> fail (AuditError AuditCorrupt)
    | Some h \<Rightarrow> and_then (lift (identity_tuple env ident (ns_key ns))) (?g hs h)"
  have g: "holds (ready env c i hs) (?g hs h t) (\<lambda>_. ?E) ?E" for hs h t
    by (intro holds_if holds_fail terminal_new_ready [OF assms(1,3)]) (auto simp: ready_def)
  have f: "holds (ready env c i hs) (?f hs) (\<lambda>_. ?E) ?E" for hs
  proof (cases "map_of hs j")
    case None
    then show ?thesis by (auto intro: holds_fail simp: ready_def)
  next
    case (Some h)
    have "holds (ready env c i hs) (and_then (lift (identity_tuple env ident (ns_key ns))) (?g hs h)) (\<lambda>_. ?E) ?E"
      by (rule holds_then [where Q = "\<lambda>_. ready env c i hs"], rule holds_lift, simp add: ready_def, simp, rule g)
    with Some show ?thesis by simp
  qed
  have "holds ?E (locked (and_then (open_logs env (ns_epoch ns)) (\<lambda>_. and_then (load_logs env (ns_epoch ns)) ?f))) (\<lambda>_. ?E) ?E"
    by (rule holds_locked [OF open_and_load [OF f]]) auto
  then show ?thesis
    unfolding append_terminal_def assms(2)
    by (intro holds_then [where Q = "\<lambda>x fs. x = j \<and> ?E fs"] holds_lift) (auto intro: holds_assume [of _ "_ = j"] holds_pre)
qed

subsection \<open>Sequences of calls\<close>

text \<open>
  A call of the store: the request identifier, the operation, the clock and the answers of the operating system. The
  lock makes the calls of all processes a sequence.
\<close>

datatype audit_op = Reserve AuditIdentity | Terminal AuditIdentity audit_end

record audit_call =
  ac_request :: pyval
  ac_op :: audit_op
  ac_now :: rat
  ac_answers :: "answer list"

definition run_call :: "audit_env \<Rightarrow> audit_namespace \<Rightarrow> audit_call \<Rightarrow> audit_files
    \<Rightarrow> (audit_exc + AuditReceipt option) \<times> audit_files" where
  "run_call env ns c fs =
     (case ac_op c of
        Reserve ident \<Rightarrow>
          (case reserve env ns (ac_now c) (ac_request c) ident (fs, ac_answers c) of (r, fs', _) \<Rightarrow> (r, fs'))
      | Terminal ident e \<Rightarrow>
          (case append_terminal env ns (ac_now c) (ac_request c) ident e (fs, ac_answers c) of
             (r, fs', _) \<Rightarrow> (map_sum id Some r, fs')))"

fun run_calls :: "audit_env \<Rightarrow> audit_namespace \<Rightarrow> audit_call list \<Rightarrow> audit_files
    \<Rightarrow> (audit_exc + AuditReceipt option) list \<times> audit_files" where
  "run_calls env ns [] fs = ([], fs)"
| "run_calls env ns (c # cs) fs =
     (case run_call env ns c fs of (r, fs') \<Rightarrow> (case run_calls env ns cs fs' of (rs, fs'') \<Rightarrow> (r # rs, fs'')))"

definition ends_request :: "pystr \<Rightarrow> audit_call \<Rightarrow> bool" where
  "ends_request i c \<longleftrightarrow> validate_request_id (ac_request c) = Inr i \<and> (case ac_op c of Terminal _ _ \<Rightarrow> True | Reserve _ \<Rightarrow> False)"

definition reserves :: "pystr \<Rightarrow> audit_call \<Rightarrow> bool" where
  "reserves i c \<longleftrightarrow> validate_request_id (ac_request c) = Inr i \<and> (case ac_op c of Terminal _ _ \<Rightarrow> False | Reserve _ \<Rightarrow> True)"

lemma invalid_request:
  assumes "validate_request_id rid = Inl e"
  shows "reserve env ns now rid ident w = (Inl e, w)" and "append_terminal env ns now rid ident t w = (Inl e, w)"
  using assms by (simp_all add: reserve_def append_terminal_def and_then_def lift_def)

lemma run_call_held:
  assumes "sound_audit env" and "list_all ragged (ac_answers c)" and "run_call env ns c fs = (res, fs')"
  shows "request_held env i fs \<Longrightarrow> \<not> ends_request i c \<Longrightarrow> request_held env i fs'"
    and "reserves i c \<Longrightarrow> res = Inr None \<Longrightarrow> request_held env i fs'"
    and "request_held env i fs \<Longrightarrow> reserves i c \<Longrightarrow> res = Inr x \<Longrightarrow>
      \<exists>rc. x = Some rc \<and> rc_outcome rc = py ''request_pending'' \<and> rc_request_id rc = i"
proof -
  have "(request_held env i fs \<longrightarrow> \<not> ends_request i c \<longrightarrow> request_held env i fs') \<and> (reserves i c \<longrightarrow> res = Inr None \<longrightarrow> request_held env i fs')
    \<and> (request_held env i fs \<longrightarrow> reserves i c \<longrightarrow> (\<forall>x. res = Inr x \<longrightarrow>
        (\<exists>rc. x = Some rc \<and> rc_outcome rc = py ''request_pending'' \<and> rc_request_id rc = i)))"
  proof (cases "validate_request_id (ac_request c)")
    case (Inl e)
    then have "res = Inl e \<and> fs' = fs"
      using assms(3) invalid_request [OF Inl] by (auto simp: run_call_def split: audit_op.splits)
    with Inl show ?thesis by (simp add: reserves_def)
  next
    case (Inr j)
    show ?thesis
    proof (cases "ac_op c")
      case (Reserve ident)
      obtain as' where r: "reserve env ns (ac_now c) (ac_request c) ident (fs, ac_answers c) = (res, fs', as')"
        using assms(3) Reserve by (auto simp: run_call_def split: prod.splits)
      have k: "(b \<longrightarrow> request_held env i fs) \<Longrightarrow> (case res of Inl _ \<Rightarrow> b \<longrightarrow> request_held env i fs' | Inr x \<Rightarrow> reserve_post env b i j x fs')" for b
        using reserve_keeps [OF assms(1) Inr, of b i ns "ac_now c" ident] r assms(2) unfolding holds_def by blast
      show ?thesis
        using k [of True] k [of False] Inr Reserve
        by (cases res) (auto simp: reserve_post_def reserves_def ends_request_def)
    next
      case (Terminal ident e)
      obtain r as' where r: "append_terminal env ns (ac_now c) (ac_request c) ident e (fs, ac_answers c) = (r, fs', as')"
        using assms(3) Terminal by (auto simp: run_call_def split: prod.splits)
      have "request_held env i fs'" if "request_held env i fs" "j \<noteq> i"
        using terminal_keeps [OF assms(1) Inr that(2), of True ns "ac_now c" ident e] r assms(2) that(1)
        unfolding holds_def by (cases r) fastforce+
      with Inr Terminal show ?thesis by (auto simp: ends_request_def reserves_def)
    qed
  qed
  then show "request_held env i fs \<Longrightarrow> \<not> ends_request i c \<Longrightarrow> request_held env i fs'"
    and "reserves i c \<Longrightarrow> res = Inr None \<Longrightarrow> request_held env i fs'"
    and "request_held env i fs \<Longrightarrow> reserves i c \<Longrightarrow> res = Inr x \<Longrightarrow>
      \<exists>rc. x = Some rc \<and> rc_outcome rc = py ''request_pending'' \<and> rc_request_id rc = i"
    by blast+
qed

lemma run_calls_held:
  assumes "sound_audit env" and "list_all (\<lambda>c. list_all ragged (ac_answers c) \<and> \<not> ends_request i c) cs"
    and "run_calls env ns cs fs = (rs, fs')" and "request_held env i fs"
  shows "request_held env i fs'"
  using assms(2-4)
proof (induction cs arbitrary: fs rs)
  case (Cons c cs)
  obtain r f where r: "run_call env ns c fs = (r, f)" by fastforce
  have "request_held env i f" using run_call_held(1) [OF assms(1) _ r] Cons.prems by simp
  with Cons r show ?case by (auto split: prod.splits)
qed simp

text \<open>
  C3: A request is granted once. When \<open>reserve\<close> has granted a request identifier and no terminal record has been asked
  for it since, no later \<open>reserve\<close> of it is granted, whatever the log files held before, however many calls for
  other requests come in between, and whatever file operations of any of the calls fail (during an append, a rotation or the
  recovery of a rotation): it fails or answers that the request is pending. The condition on the failures is that a
  failing write does not stop exactly at the end of a line.
\<close>

theorem reservation_granted_once:
  assumes "sound_audit env" and "list_all (\<lambda>c. list_all ragged (ac_answers c)) (first # between @ [later])"
    and "reserves i first" and "run_call env ns first fs = (Inr None, fs\<^sub>1)"
    and "run_calls env ns between fs\<^sub>1 = (results, fs\<^sub>2)" and "list_all (\<lambda>c. \<not> ends_request i c) between"
    and "reserves i later" and "run_call env ns later fs\<^sub>2 = (res, fs\<^sub>3)"
  shows "(\<exists>e. res = Inl e) \<or> (\<exists>rc. res = Inr (Some rc) \<and> rc_outcome rc = py ''request_pending'' \<and> rc_request_id rc = i)"
proof -
  have "request_held env i fs\<^sub>1" using run_call_held(2) [OF assms(1) _ assms(4,3)] assms(2) by simp
  then have "request_held env i fs\<^sub>2"
    using run_calls_held [OF assms(1) _ assms(5)] assms(2,6) by (simp add: list_all_iff)
  then show ?thesis
    using run_call_held(3) [OF assms(1) _ assms(8)] assms(2,7) by (cases res) auto
qed

subsection \<open>Instances\<close>

definition ex_audit_env :: audit_env where
  "ex_audit_env = \<lparr>au_limits = \<lparr>py_recursion = 100, py_int_digits = 4300\<rparr>, au_repr = (\<lambda>_. py ''1.0''), au_hex = (\<lambda>_. []),
     au_hmac = (\<lambda>_ _. replicate 64 97)\<rparr>"

definition ex_audit_ns :: audit_namespace where
  "ex_audit_ns = \<lparr>ns_epoch = py ''e_'' @ replicate 32 97, ns_key = []\<rparr>"

definition ex_identity :: AuditIdentity where
  "ex_identity = \<lparr>ai_agent = py ''kimi'', ai_session_id = py ''s'', ai_project = py ''p'', ai_executable = py ''kimi'',
     ai_mode = py ''allow_write'', ai_message = []\<rparr>"

definition ex_reserve :: "string \<Rightarrow> answer list \<Rightarrow> audit_call" where
  "ex_reserve i as = \<lparr>ac_request = pstr i, ac_op = Reserve ex_identity, ac_now = 1, ac_answers = as\<rparr>"

definition ex_no_files :: audit_files where
  "ex_no_files = \<lparr>af_current = None, af_rotated = None, af_next = None\<rparr>"

lemma ex_sound_audit: "sound_audit ex_audit_env"
proof -
  have "list_all printable_char (py ''1.0'')" by (simp add: py_def printable_char_def)
  then show ?thesis
    using float_text_one by (auto simp: sound_audit_def ex_audit_env_def intro!: exI [of _ "1 :: rat"])
qed

definition ex_audit_record :: audit_record where
  "ex_audit_record = \<lparr>sr_timestamp = FloatStamp 1, sr_request_id = py ''r1'', sr_epoch = ns_epoch ex_audit_ns, sr_agent = py ''kimi'',
     sr_target = replicate 64 97, sr_request = replicate 64 97, sr_executable = py ''kimi'', sr_end = None\<rparr>"

lemma ex_chars: "alnum_char 97" "is_digit 97 = False"
  by (simp_all add: alnum_char_def lower_char_def is_digit_def)

lemma ex_request: "validate_request_id (pstr ''r1'') = Inr (py ''r1'')"
  by (simp add: validate_request_id_def encode_ascii_def MAX_REQUEST_ID_BYTES_def REQUEST_ID_RE_def full_match_def
      alnum_char_def lower_char_def py_def)

lemma ex_record_ok: "record_ok ex_audit_record"
  using ex_request
  by (simp add: record_ok_def ex_audit_record_def stamp_of_def stamp_value_def EPOCH_RE_def starts_with_def ex_audit_ns_def
      AGENT_RE_def HASH_RE_def BASENAME_RE_def full_match_def alnum_char_def lower_char_def is_digit_def list_all_iff py_def)

lemma ex_base: "base_audit_record ex_audit_env ex_audit_ns 1 (py ''r1'') ex_identity (py ''pending'') = Inr (audit_items ex_audit_record)"
  by (simp add: base_audit_record_def identity_tuple_def hmac_identity_def hash_stream_def hash_value.simps encode_strict_def
      ex_identity_def ex_audit_env_def ex_audit_record_def audit_items_def end_items_def stamp_value_def is_scalar_def is_surrogate_def py_def)

lemma ex_order: "dump_order audit_opts [(pstr ''schema_version'', a), (pstr ''timestamp'', b),
      (pstr ''request_id'', c), (pstr ''namespace_epoch'', d), (pstr ''agent'', e), (pstr ''target_hmac'', f),
      (pstr ''request_hmac'', g), (pstr ''executable_basename'', h), (pstr ''confirmation_mode'', i), (pstr ''outcome'', j)] =
    Inr [(pstr ''agent'', e), (pstr ''confirmation_mode'', i), (pstr ''executable_basename'', h), (pstr ''namespace_epoch'', d), 
      (pstr ''outcome'', j), (pstr ''request_hmac'', g), (pstr ''request_id'', c), (pstr ''schema_version'', a), (pstr ''target_hmac'', f),
      (pstr ''timestamp'', b)]"
  by (simp add: dump_order_def audit_opts_def is_str_def py_def)

lemma plain_string: "list_all (\<lambda>c. 32 \<le> c \<and> c < 127 \<and> c \<noteq> 34 \<and> c \<noteq> 92) s \<Longrightarrow> dump_string b s = 34 # s @ [34]"
  by (induction s) (auto simp: dump_string_def escape_char_def)

lemma ex_encoded: "\<exists>p. encoded_record ex_audit_env ex_audit_record = Inr p"
proof -
  obtain t where t: "json_dumps audit_opts (au_repr ex_audit_env) (PDict (audit_items ex_audit_record)) = Inr t" "length t \<le> 4000"
    unfolding json_dumps.simps ex_audit_record_def audit_items_def end_items_def dump_object_def
    by (simp only: list.map fst_conv snd_conv append_Cons append_Nil option.case audit_record.simps ex_order sum.case)
      (simp add: stamp_value_def dump_member_def key_text_def plain_string ex_audit_env_def ex_audit_ns_def
       dump_float_def py_def int_str_def digits10.simps list_all_iff)
  then have "list_all printable_char t"
    using record_atoms [OF ex_sound_audit ex_record_ok] record_dumps stamp_readable [OF ex_sound_audit ex_record_ok]
    by (metis audit_opts_def dump_opts.select_convs(2) sum.inject(2))
  then have "encode_ascii t = Some (map of_nat t)"
    using printable_ascii by (simp add: encode_ascii_def)
  with t show ?thesis by (simp add: encoded_record_def MAX_AUDIT_LINE_BYTES_def)
qed
lemma ex_granted: "\<exists>fs. run_call ex_audit_env ex_audit_ns (ex_reserve ''r1'' []) ex_no_files = (Inr None, fs)"
proof -
  obtain p where p: "encoded_record ex_audit_env ex_audit_record = Inr p" using ex_encoded by blast
  have len: "length p \<le> 4096" using encoded_length [OF p] by (simp add: MAX_AUDIT_LINE_BYTES_def)
  have val: "validate_audit_record (PDict (audit_items ex_audit_record)) = Inr ex_audit_record"
    by (rule validate_items [OF ex_record_ok refl record_distinct])
  have act: "active_pending_payload ex_audit_env [] ex_audit_record = Inr p"
    using p len by (simp add: active_pending_payload_def active_pending_def is_pending_def ex_audit_record_def encoded_records_def
        MAX_ACTIVE_PENDING_RECORDS_def MAX_ACTIVE_PENDING_BYTES_def)
  have "\<exists>fs. append_audit ex_audit_env ex_audit_record [] (ex_no_files\<lparr>af_current := Some []\<rparr>, []) = (Inr (), fs, [])"
    using p act len by (simp add: append_audit_def and_then_def lift_def look_def content_of_def MAX_AUDIT_BYTES_def check_def call_def
        next_answer_def write_with_def)
  then obtain fs where fs: "append_audit ex_audit_env ex_audit_record [] (ex_no_files\<lparr>af_current := Some []\<rparr>, []) = (Inr (), fs, [])"
    by blast
  have "open_logs ex_audit_env (ns_epoch ex_audit_ns) (ex_no_files, []) = (Inr (), (ex_no_files\<lparr>af_current := Some []\<rparr>, []))"
    by (simp add: open_logs_def recover_rotation_def and_then_def look_def check_def call_def next_answer_def give_def
        create_current_def ex_no_files_def)
  moreover have "load_logs ex_audit_env (ns_epoch ex_audit_ns) (ex_no_files\<lparr>af_current := Some []\<rparr>, [])
      = (Inr [], (ex_no_files\<lparr>af_current := Some []\<rparr>, []))"
    by (simp add: load_logs_def read_audit_file_def and_then_def look_def check_def call_def next_answer_def give_def lift_def
        ex_no_files_def content_of_def validate_histories_def)
  moreover have "reserve_new ex_audit_env ex_audit_ns 1 (py ''r1'') ex_identity [] (ex_no_files\<lparr>af_current := Some []\<rparr>, []) = (Inr (), fs, [])"
    using ex_base val fs by (simp add: reserve_new_def and_then_def lift_def)
  ultimately show ?thesis
    using ex_request
    by (simp add: run_call_def ex_reserve_def reserve_def locked_def on_error_def and_then_def lift_def
        check_def call_def next_answer_def give_def)
qed
theorem reservation_granted_once_witness:
  "\<exists>fs\<^sub>1 results fs\<^sub>2 res fs\<^sub>3. run_call ex_audit_env ex_audit_ns (ex_reserve ''r1'' []) ex_no_files = (Inr None, fs\<^sub>1)
    \<and> run_calls ex_audit_env ex_audit_ns [ex_reserve ''r2'' [Granted, Granted, Denied UnsafeAudit (\<lambda>_. [])]] fs\<^sub>1 = (results, fs\<^sub>2)
    \<and> run_call ex_audit_env ex_audit_ns (ex_reserve ''r1'' []) fs\<^sub>2 = (res, fs\<^sub>3)
    \<and> ((\<exists>e. res = Inl e) \<or> (\<exists>rc. res = Inr (Some rc) \<and> rc_outcome rc = py ''request_pending''))"
proof -
  let ?between = "[ex_reserve ''r2'' [Granted, Granted, Denied UnsafeAudit (\<lambda>_. [])]]"
  obtain fs\<^sub>1 where f: "run_call ex_audit_env ex_audit_ns (ex_reserve ''r1'' []) ex_no_files = (Inr None, fs\<^sub>1)"
    using ex_granted by blast
  obtain results fs\<^sub>2 where b: "run_calls ex_audit_env ex_audit_ns ?between fs\<^sub>1 = (results, fs\<^sub>2)"
    by (metis surj_pair)
  obtain res fs\<^sub>3 where l: "run_call ex_audit_env ex_audit_ns (ex_reserve ''r1'' []) fs\<^sub>2 = (res, fs\<^sub>3)" by fastforce
  have r: "reserves (py ''r1'') (ex_reserve ''r1'' [])"
    using ex_request by (simp add: reserves_def ex_reserve_def)
  have "(\<exists>e. res = Inl e) \<or> (\<exists>rc. res = Inr (Some rc) \<and> rc_outcome rc = py ''request_pending'' \<and> rc_request_id rc = py ''r1'')"
    by (rule reservation_granted_once [OF ex_sound_audit _ r f b _ r l])
      (simp_all add: ex_reserve_def ragged_def cut_def ends_request_def)
  with f b l show ?thesis by blast
qed

end
