(* ===== verification/Audit_Receipts.thy ===== *)
theory Audit_Receipts
  imports Audit_Store
begin

text \<open>
  What the send audit answers about a request it knows: the receipt of its last record to the same identity,
  \<open>request_conflict\<close> to any other. \<open>firm\<close> steps succeed with the same result when every system call is granted.
\<close>

definition firm :: "'a step \<Rightarrow> bool" where
  "firm m \<longleftrightarrow> (\<forall>fs as x fs' as'. m (fs, as) = (Inr x, (fs', as')) \<longrightarrow> m (fs, []) = (Inr x, (fs', [])))"

named_theorems firm_rules \<open>steps that succeed the same way when everything is granted\<close>

lemma firm_simple [firm_rules]: "firm (give x)" "firm (fail e)" "firm (lift r)" "firm (look f)"
  by (simp_all add: firm_def give_def fail_def lift_def look_def)

lemma firm_call [firm_rules]: "firm (call f)" "firm check" "firm (write_with put p)"
  by (auto simp: firm_def check_def call_def write_with_def next_answer_def split: prod.splits answer.splits)

lemma firm_then [firm_rules]:
  assumes "firm m" and "\<And>x. firm (f x)"
  shows "firm (and_then m f)"
  unfolding firm_def
proof (intro allI impI)
  fix fs as y fs' as'
  assume run: "and_then m f (fs, as) = (Inr y, fs', as')"
  obtain r fs1 as1 where m: "m (fs, as) = (r, fs1, as1)" by (metis prod.exhaust)
  with run obtain x where x: "r = Inr x" "f x (fs1, as1) = (Inr y, fs', as')"
    by (cases r) (auto simp: and_then_def)
  then have "m (fs, []) = (Inr x, fs1, [])" "f x (fs1, []) = (Inr y, fs', [])"
    using m assms unfolding firm_def by blast+
  then show "and_then m f (fs, []) = (Inr y, fs', [])" by (simp add: and_then_def)
qed

lemma firm_if [firm_rules]: "firm m \<Longrightarrow> firm n \<Longrightarrow> firm (if b then m else n)"
  by simp

lemma firm_load: "firm (load_logs env epoch)"
  unfolding load_logs_def read_audit_file_def by (intro firm_rules)

lemma firm_append: "firm (append_audit env r hs)"
  unfolding append_audit_def rotate_audit_def by (intro firm_rules)

lemma firmD: "firm m \<Longrightarrow> m (fs, as) = (Inr x, (fs', as')) \<Longrightarrow> m (fs, []) = (Inr x, (fs', []))"
  unfolding firm_def by blast

lemma and_then_Inr:
  "and_then m f w = (Inr y, w') \<longleftrightarrow> (\<exists>x v. m w = (Inr x, v) \<and> f x v = (Inr y, w'))"
  by (auto simp: and_then_def split: prod.splits sum.splits)

lemma check_Inr: "check (fs, as) = (Inr x, w) \<Longrightarrow> fst w = fs"
  by (auto simp: check_def call_def split: prod.splits answer.splits)

lemma call_Inr: "call f (fs, as) = (Inr x, w) \<Longrightarrow> fst w = f fs"
  by (auto simp: call_def split: prod.splits answer.splits)

lemma check_granted [simp]: "check (fs, []) = (Inr (), (fs, []))"
  by (simp add: check_def call_def next_answer_def)

lemma call_granted [simp]: "call f (fs, []) = (Inr (), (f fs, []))"
  by (simp add: call_def next_answer_def)

lemma write_granted [simp]: "write_with put p (fs, []) = (Inr (), (put p fs, []))"
  by (simp add: write_with_def next_answer_def)

lemma locked_Inr:
  assumes "locked m (fs, as) = (Inr x, (fs', as'))"
  shows "\<exists>as1 as2. m (fs, as1) = (Inr x, (fs', as2))"
proof -
  have "and_then check (\<lambda>_. and_then m (\<lambda>x. and_then check (\<lambda>_. give x))) (fs, as) = (Inr x, (fs', as'))"
    using assms by (auto simp: locked_def on_error_def fail_def split: prod.splits sum.splits)
  then obtain v v' u where v: "check (fs, as) = (Inr (), v)" "m v = (Inr x, v')" "check v' = (Inr u, (fs', as'))"
    by (auto simp: and_then_Inr give_def)
  have "fst v = fs" "fst v' = fs'"
    using check_Inr [OF v(1)] check_Inr [of "fst v'" "snd v'" u "(fs', as')"] v(3) by simp_all
  with v(2) show ?thesis by (metis prod.collapse)
qed

lemma locked_granted: "m (fs, []) = (Inr x, (fs', [])) \<Longrightarrow> locked m (fs, []) = (Inr x, (fs', []))"
  by (simp add: locked_def on_error_def and_then_def give_def)

lemma locked_denied: "m (fs, []) = (Inl (AuditError c), w) \<Longrightarrow> locked m (fs, []) = (Inl (AuditError c), w)"
  by (simp add: locked_def on_error_def and_then_def fail_def)

text \<open>Without a next file, opening the logs at most creates an empty current one.\<close>

lemma open_Inr:
  assumes "af_next fs = None" and "open_logs env epoch (fs, as) = (Inr u, (fs', as'))"
  shows "fs' = create_current fs"
proof -
  have rec: "recover_rotation env epoch (fs, as) = (Inr u', w) \<Longrightarrow> fst w = fs" for u' w
    using assms(1) by (auto simp: recover_rotation_def and_then_Inr look_def give_def dest!: check_Inr)
  obtain u1 v u2 v' where v: "recover_rotation env epoch (fs, as) = (Inr u1, v)" "call create_current v = (Inr u2, v')"
    "check v' = (Inr u, (fs', as'))"
    using assms(2) by (auto simp: open_logs_def and_then_Inr)
  have "call create_current (fst v, snd v) = (Inr u2, v')" "check (fst v', snd v') = (Inr u, (fs', as'))"
    using v by simp_all
  then have "fst v' = create_current (fst v)" "fs' = fst v'"
    using call_Inr check_Inr by (blast, metis fst_conv)
  with rec [OF v(1)] show ?thesis by simp
qed

lemma open_granted:
  assumes "af_next fs = None" and "af_current fs \<noteq> None"
  shows "open_logs env epoch (fs, []) = (Inr (), (fs, []))"
  using assms by (auto simp: open_logs_def recover_rotation_def and_then_def look_def give_def create_current_def split: option.splits)

lemma load_files: "load_logs env epoch (fs, as) = (Inr hs, (fs', as')) \<Longrightarrow> fs' = fs"
proof -
  have read: "read_audit_file env b (fs, as) = (Inr rs, w) \<Longrightarrow> fst w = fs" for b fs as rs w
    by (auto simp: read_audit_file_def and_then_Inr fail_def lift_def dest!: check_Inr split: if_splits)
  assume "load_logs env epoch (fs, as) = (Inr hs, (fs', as'))"
  then obtain older v newer v' where
    "(if af_rotated fs = None then give [] else read_audit_file env (content_of (af_rotated fs))) (fs, as) = (Inr older, v)"
    "read_audit_file env (content_of (af_current fs)) v = (Inr newer, v')" "fst v' = fs'"
    by (auto simp: load_logs_def and_then_Inr look_def lift_def fail_def split: if_splits)
  moreover from this(1) have "fst v = fs" using read by (auto simp: give_def split: if_splits)
  ultimately show "fs' = fs" using read by (metis prod.collapse)
qed

text \<open>The histories that are read when everything is granted, in terms of the contents of the files.\<close>

lemma load_granted:
  "load_logs env epoch (fs, []) = (Inr hs, (fs, [])) \<longleftrightarrow>
    (\<exists>older newer. (if af_rotated fs = None then older = []
        else length (content_of (af_rotated fs)) \<le> MAX_AUDIT_BYTES \<and> parse_audit_file env (content_of (af_rotated fs)) = Inr older)
      \<and> length (content_of (af_current fs)) \<le> MAX_AUDIT_BYTES \<and> parse_audit_file env (content_of (af_current fs)) = Inr newer
      \<and> list_all (\<lambda>r. sr_epoch r = epoch) (older @ newer) \<and> validate_histories (older @ newer) = Inr hs)"
proof -
  have read: "read_audit_file env b (fs, []) = (Inr rs, w) \<longleftrightarrow> length b \<le> MAX_AUDIT_BYTES \<and> parse_audit_file env b = Inr rs \<and> w = (fs, [])"
    for b rs w
    by (auto simp: read_audit_file_def and_then_def fail_def lift_def)
  show ?thesis
    by (auto simp: load_logs_def and_then_Inr look_def lift_def fail_def give_def read split: if_splits)
qed

subsection \<open>One more record\<close>

lemma validate_snoc:
  assumes "validate_histories rs = Inr hs" and "check_history (of_request (sr_request_id r) (rs @ [r])) = Inr c"
  shows "\<exists>hs'. validate_histories (rs @ [r]) = Inr hs' \<and> map_of hs' (sr_request_id r) = Some c"
proof -
  let ?F = "\<lambda>(i, h). case check_history h of Inl e \<Rightarrow> Inl e | Inr c \<Rightarrow> Inr (i, c)"
  have step: "\<exists>cs'. collect (map ?F (add_history g r)) = Inr cs'"
    if "collect (map ?F g) = Inr cs"
      "check_history ((case map_of g (sr_request_id r) of None \<Rightarrow> [] | Some h \<Rightarrow> h) @ [r]) = Inr c" for g cs
    using that
  proof (induction g arbitrary: cs)
    case (Cons ih g)
    obtain i h where ih: "ih = (i, h)" by fastforce
    obtain d cs0 where d: "check_history h = Inr d" "collect (map ?F g) = Inr cs0"
      using Cons.prems(1) ih by (cases "check_history h") (auto split: sum.splits)
    show ?case
    proof (cases "i = sr_request_id r")
      case True
      then show ?thesis using Cons.prems(2) ih d by simp
    next
      case False
      then show ?thesis using Cons.IH [OF d(2)] Cons.prems(2) ih d(1) by fastforce
    qed
  qed simp
  have "(case map_of (foldl add_history [] rs) (sr_request_id r) of None \<Rightarrow> [] | Some h \<Rightarrow> h) = of_request (sr_request_id r) rs"
    by (simp add: grouped)
  then have "\<exists>hs'. validate_histories (rs @ [r]) = Inr hs'"
    using step [of "foldl add_history [] rs" hs] assms by (simp add: validate_histories_def of_request_def)
  then obtain hs' where hs': "validate_histories (rs @ [r]) = Inr hs'" by blast
  have "of_request (sr_request_id r) (rs @ [r]) \<noteq> []" by (simp add: of_request_def)
  then obtain c' where c': "map_of hs' (sr_request_id r) = Some c'"
    using no_history [OF hs', of "sr_request_id r"] by auto
  with some_history [OF hs' c'] assms(2) hs' show ?thesis by auto
qed

lemma check_single: "is_pending r \<Longrightarrow> check_history [r] = Inr [r]"
  by (simp add: check_history_def)

text \<open>A history of pending records that gets its terminal record.\<close>

lemma pending_history:
  assumes "check_history h = Inr c" and "is_pending (last h)"
  shows "list_all is_pending h" and "h \<noteq> []"
proof -
  let ?ends = "filter (\<lambda>i. \<not> is_pending (h ! i)) [0..<length h]"
  show ne: "h \<noteq> []" using assms(1) by (auto simp: check_history_def Let_def)
  have e: "?ends = [] \<or> hd ?ends = length h - 1" "length ?ends \<le> 1"
    using assms(1) by (auto simp: check_history_def Let_def split: if_splits)
  have "?ends = []"
  proof (rule ccontr)
    assume n: "?ends \<noteq> []"
    then have "length h - 1 \<in> set ?ends" using e(1) hd_in_set [OF n] by simp
    then have "\<not> is_pending (h ! (length h - 1))" by simp
    then show False using assms(2) ne by (simp add: last_conv_nth)
  qed
  then have "is_pending (h ! k)" if "k < length h" for k
    using that by (auto simp: filter_empty_conv)
  then show "list_all is_pending h" by (simp add: list_all_length)
qed

lemma check_terminal:
  assumes "check_history h = Inr c" and "is_pending (last h)" and "\<not> is_pending r" and "record_identity r = record_identity (last h)"
  shows "\<exists>c'. check_history (h @ [r]) = Inr c' \<and> last c' = r"
proof -
  have p: "list_all is_pending h" "h \<noteq> []" using pending_history [OF assms(1,2)] by simp_all
  have id: "card (set (map record_identity h)) = 1"
    and same: "list_all (\<lambda>p. same_record p (hd h)) (tl h)"
    using assms(1) p(1) by (auto simp: check_history_def Let_def filter_id_conv [THEN iffD2] list_all_iff split: if_splits)
  have "record_identity (last h) \<in> set (map record_identity h)" using p(2) by simp
  then have "set (map record_identity (h @ [r])) = set (map record_identity h)"
    using assms(4) by (auto simp: insert_absorb)
  then have id': "card (set (map record_identity (h @ [r]))) = 1" using id by (simp only:)
  have "filter (\<lambda>i. \<not> is_pending ((h @ [r]) ! i)) [0..<length h] = []"
    using p(1) by (auto simp: filter_empty_conv nth_append list_all_length)
  then have ends: "filter (\<lambda>i. \<not> is_pending ((h @ [r]) ! i)) [0..<length (h @ [r])] = [length h]"
    using assms(3) by simp
  have pend: "filter is_pending (h @ [r]) = h"
    using p(1) assms(3) by (simp add: filter_id_conv list_all_iff)
  have len: "\<not> length (h @ [r]) < 2" using p(2) by (cases h) auto
  show ?thesis
    unfolding check_history_def Let_def ends pend
    using id' same p(2) len by (simp del: set_append)
qed

lemma base_record_identity:
  assumes "base_audit_record env ns now j ident outcome = Inr d" and "validate_audit_record (PDict (d @ extra)) = Inr r"
  shows "identity_tuple env ident (ns_key ns) = Inr (record_identity r)" and "sr_epoch r = ns_epoch ns"
    and "sr_agent r = ai_agent ident"
proof -
  obtain tg rq where t: "identity_tuple env ident (ns_key ns) = Inr (ai_agent ident, tg, rq, ai_mode ident)"
    using assms(1) by (auto simp: base_audit_record_def identity_tuple_def split: sum.splits)
  have r: "r = record_of (d @ extra)" and m: "dget (d @ extra) ''confirmation_mode'' = pstr ''allow_write''"
    using assms(2) by (auto simp: validate_audit_record_def valid_common_def Let_def split: if_splits)
  have "ai_mode ident = py ''allow_write''"
    using m assms(1) t by (auto simp: base_audit_record_def)
  with t r assms(1) show "identity_tuple env ident (ns_key ns) = Inr (record_identity r)" "sr_epoch r = ns_epoch ns"
    "sr_agent r = ai_agent ident"
    by (auto simp: base_audit_record_def record_of_def record_identity_def)
qed

text \<open>The state in which a request has a last record, and that record answers for it.\<close>

definition answers_with :: "audit_env \<Rightarrow> pystr \<Rightarrow> pystr \<Rightarrow> (pystr \<times> pystr \<times> pystr \<times> pystr) \<Rightarrow> AuditReceipt \<Rightarrow> audit_files \<Rightarrow> bool" where
  "answers_with env epoch i t rc fs \<longleftrightarrow> af_next fs = None \<and> af_current fs \<noteq> None
     \<and> (\<exists>hs h. load_logs env epoch (fs, []) = (Inr hs, (fs, [])) \<and> map_of hs i = Some h \<and> record_identity (last h) = t
          \<and> audit_receipt (last h) = rc)"

lemma append_extends:
  assumes "sound_audit env" and "load_logs env epoch (fs, []) = (Inr hs, (fs, []))" and "af_next fs = None"
    and "af_current fs \<noteq> None" and "length (content_of (af_current fs)) + MAX_AUDIT_LINE_BYTES \<le> MAX_AUDIT_BYTES"
    and "record_ok r" and "sr_epoch r = epoch" and "append_audit env r hs (fs, []) = (Inr u, (fs', []))"
    and "is_pending r \<and> map_of hs (sr_request_id r) = None
      \<or> \<not> is_pending r \<and> (\<exists>h. map_of hs (sr_request_id r) = Some h \<and> is_pending (last h) \<and> record_identity r = record_identity (last h))"
  shows "answers_with env epoch (sr_request_id r) (record_identity r) (audit_receipt r) fs'"
proof -
  let ?i = "sr_request_id r"
  obtain p where p: "encoded_record env r = Inr p" "fs' = put_current p fs"
    using assms(5,8) encoded_length [of env r]
    by (fastforce simp: append_audit_def and_then_Inr lift_def look_def fail_def split: if_splits)
  obtain cb where cb: "af_current fs = Some cb" using assms(4) by blast
  obtain older newer where l: "if af_rotated fs = None then older = []
        else length (content_of (af_rotated fs)) \<le> MAX_AUDIT_BYTES \<and> parse_audit_file env (content_of (af_rotated fs)) = Inr older"
    "length cb \<le> MAX_AUDIT_BYTES" "parse_audit_file env cb = Inr newer"
    "list_all (\<lambda>r. sr_epoch r = epoch) (older @ newer)" "validate_histories (older @ newer) = Inr hs"
    using assms(2) cb unfolding load_granted by (auto simp: content_of_def)
  obtain q where q: "stamp_read env (sr_timestamp r) q" using stamp_readable [OF assms(1,6)] by blast
  let ?r = "r\<lparr>sr_timestamp := q\<rparr>"
  have r': "sr_request_id ?r = ?i" "is_pending ?r = is_pending r" "record_identity ?r = record_identity r" "sr_epoch ?r = epoch"
    "audit_receipt ?r = audit_receipt r"
    using assms(7) by (cases "sr_end r"; simp add: is_pending_def record_identity_def audit_receipt_def)+
  have parse: "parse_audit_file env (cb @ p) = Inr (newer @ [?r])"
    using line_reads [OF assms(1,6) q p(1)] parse_file_append [OF l(3)] by fastforce
  have "\<exists>c. check_history (of_request ?i ((older @ newer) @ [?r])) = Inr c \<and> last c = ?r"
  proof (cases "is_pending r")
    case True
    then have "of_request ?i (older @ newer) = []" using assms(9) no_history [OF l(5)] by auto
    with True r' show ?thesis using check_single [of ?r] by (simp add: of_request_Cons)
  next
    case False
    then obtain h where h: "map_of hs ?i = Some h" "is_pending (last h)" "record_identity r = record_identity (last h)"
      using assms(9) by blast
    have "last h = last (of_request ?i (older @ newer))" by (rule history_last(2) [OF l(5) h(1)])
    then show ?thesis
      using check_terminal [OF some_history [OF l(5) h(1)], of ?r] h(2,3) False r' by (simp add: of_request_Cons)
  qed
  then obtain c where c: "check_history (of_request ?i ((older @ newer) @ [?r])) = Inr c" "last c = ?r" by blast
  obtain hs' where hs': "validate_histories ((older @ newer) @ [?r]) = Inr hs'" "map_of hs' ?i = Some c"
    using validate_snoc [OF l(5), of ?r] c(1) r'(1) by auto
  have "load_logs env epoch (fs', []) = (Inr hs', (fs', []))"
    unfolding load_granted using l(1,4) parse hs'(1) r'(4) p(2) cb encoded_length [OF p(1)] assms(5)
    by (intro exI [of _ older] exI [of _ "newer @ [?r]"]) (auto simp: put_current_def content_of_def)
  with hs'(2) c(2) r' p(2) assms(3) show ?thesis
    by (auto simp: answers_with_def put_current_def)
qed

subsection \<open>Calls leave their answer\<close>

lemma load_Inr:
  assumes "load_logs env epoch (fs, as) = (Inr hs, (fs', as'))"
  shows "fs' = fs" and "load_logs env epoch (fs, []) = (Inr hs, (fs, []))"
  using load_files [OF assms] firmD [OF firm_load assms] by simp_all

lemma opened_Inr:
  assumes "locked (and_then (open_logs env epoch) (\<lambda>_. and_then (load_logs env epoch) f)) (fs, as) = (Inr x, (fs', as'))"
    and "af_next fs = None"
  shows "\<exists>hs as1 as2. load_logs env epoch (create_current fs, []) = (Inr hs, (create_current fs, []))
    \<and> f hs (create_current fs, as1) = (Inr x, (fs', as2))"
proof -
  obtain as1 as2 u w hs w' where run: "open_logs env epoch (fs, as1) = (Inr u, w)" "load_logs env epoch w = (Inr hs, w')"
    "f hs w' = (Inr x, (fs', as2))"
    using locked_Inr [OF assms(1)] by (auto simp: and_then_Inr)
  obtain f1 a1 f2 a2 where w: "w = (f1, a1)" "w' = (f2, a2)" by (metis prod.exhaust)
  have "f1 = create_current fs" using open_Inr [OF assms(2)] run(1) w by blast
  with run load_Inr w show ?thesis by blast
qed

lemma create_current_facts:
  "af_next (create_current fs) = af_next fs" "af_current (create_current fs) \<noteq> None"
  "content_of (af_current (create_current fs)) = content_of (af_current fs)"
  by (cases "af_current fs"; simp add: create_current_def content_of_def)+

text \<open>The receipt that a successful call leaves: its own, or that of a new reservation.\<close>

definition left_receipt :: "pystr \<Rightarrow> AuditIdentity \<Rightarrow> AuditReceipt option \<Rightarrow> AuditReceipt" where
  "left_receipt i ident x =
     (case x of
        Some rc \<Rightarrow> rc
      | None \<Rightarrow> \<lparr>rc_request_id = i, rc_agent = ai_agent ident, rc_outcome = py ''request_pending'', rc_delivery = py ''unknown'',
          rc_returncode = None, rc_error = Some (py ''request_pending'')\<rparr>)"

lemma reserve_leaves:
  assumes "sound_audit env" and "validate_request_id rid = Inr i" and "af_next fs = None"
    and "length (content_of (af_current fs)) + MAX_AUDIT_LINE_BYTES \<le> MAX_AUDIT_BYTES"
    and "reserve env ns now rid ident (fs, as) = (Inr x, (fs', as'))"
  shows "\<exists>t. identity_tuple env ident (ns_key ns) = Inr t \<and> answers_with env (ns_epoch ns) i t (left_receipt i ident x) fs'"
proof -
  let ?fs = "create_current fs"
  obtain hs as1 as2 where l: "load_logs env (ns_epoch ns) (?fs, []) = (Inr hs, (?fs, []))"
    and run: "(case map_of hs i of
          Some h \<Rightarrow> and_then (lift (identity_tuple env ident (ns_key ns))) (\<lambda>t.
              if record_identity (last h) \<noteq> t then fail (AuditError RequestConflict) else give (Some (audit_receipt (last h))))
        | None \<Rightarrow> and_then (reserve_new env ns now i ident hs) (\<lambda>_. give None)) (?fs, as1) = (Inr x, (fs', as2))"
    using assms(5) opened_Inr [OF _ assms(3)] unfolding reserve_def assms(2)
    by (auto simp: and_then_Inr [of "lift _"] lift_def dest!: opened_Inr [OF _ assms(3)])
  show ?thesis
  proof (cases "map_of hs i")
    case (Some h)
    then have "identity_tuple env ident (ns_key ns) = Inr (record_identity (last h))" "x = Some (audit_receipt (last h))"
      "fs' = ?fs"
      using run by (auto simp: and_then_Inr lift_def fail_def give_def split: if_splits)
    moreover from this have "answers_with env (ns_epoch ns) i (record_identity (last h)) (left_receipt i ident x) fs'"
      using l Some assms(3) create_current_facts [of fs] by (simp add: answers_with_def left_receipt_def)
    ultimately show ?thesis by blast
  next
    case None
    then obtain d r u where r: "base_audit_record env ns now i ident (py ''pending'') = Inr d"
      "validate_audit_record (PDict d) = Inr r" "append_audit env r hs (?fs, as1) = (Inr u, (fs', as2))" "x = None"
      using run by (auto simp: and_then_Inr reserve_new_def lift_def give_def)
    have f: "sr_request_id r = i" "is_pending r" "record_ok r"
      "identity_tuple env ident (ns_key ns) = Inr (record_identity r)" "sr_epoch r = ns_epoch ns" "sr_agent r = ai_agent ident"
      using base_record_fields [OF r(1), of "[]" r] base_record_identity [OF r(1), of "[]" r] r(2) by simp_all
    have "answers_with env (ns_epoch ns) (sr_request_id r) (record_identity r) (audit_receipt r) fs'"
      using append_extends [OF assms(1) l _ _ _ f(3,5) firmD [OF firm_append r(3)]] create_current_facts [of fs] assms(3,4)
        f(1,2) None by simp
    moreover have "audit_receipt r = left_receipt i ident x"
      using f(1,2,6) r(4) by (simp add: audit_receipt_def left_receipt_def is_pending_def)
    ultimately show ?thesis using f(1,4) by auto
  qed
qed

lemma terminal_leaves:
  assumes "sound_audit env" and "validate_request_id rid = Inr i" and "af_next fs = None"
    and "length (content_of (af_current fs)) + MAX_AUDIT_LINE_BYTES \<le> MAX_AUDIT_BYTES"
    and "append_terminal env ns now rid ident e (fs, as) = (Inr rc, (fs', as'))"
  shows "\<exists>t. identity_tuple env ident (ns_key ns) = Inr t \<and> answers_with env (ns_epoch ns) i t rc fs'"
proof -
  let ?fs = "create_current fs"
  obtain hs as1 as2 where l: "load_logs env (ns_epoch ns) (?fs, []) = (Inr hs, (?fs, []))"
    and run: "(case map_of hs i of
          None \<Rightarrow> fail (AuditError AuditCorrupt)
        | Some h \<Rightarrow> and_then (lift (identity_tuple env ident (ns_key ns))) (\<lambda>t.
              if record_identity (last h) \<noteq> t then fail (AuditError RequestConflict)
              else if \<not> is_pending (last h) then fail (AuditError AuditCorrupt)
              else and_then (lift (terminal_record env ns now i ident e)) (\<lambda>r.
                     and_then (append_audit env r hs) (\<lambda>_. give (audit_receipt r))))) (?fs, as1) = (Inr rc, (fs', as2))"
    using assms(5) unfolding append_terminal_def assms(2)
    by (auto simp: and_then_Inr [of "lift _"] lift_def dest!: opened_Inr [OF _ assms(3)])
  obtain h where h: "map_of hs i = Some h" using run by (cases "map_of hs i") (auto simp: fail_def)
  then obtain r u where r: "identity_tuple env ident (ns_key ns) = Inr (record_identity (last h))" "is_pending (last h)"
    "terminal_record env ns now i ident e = Inr r" "append_audit env r hs (?fs, as1) = (Inr u, (fs', as2))" "rc = audit_receipt r"
    using run by (auto simp: and_then_Inr lift_def fail_def give_def split: if_splits)
  obtain d extra where d: "base_audit_record env ns now i ident (en_outcome e) = Inr d"
    "validate_audit_record (PDict (d @ extra)) = Inr r" "extra \<noteq> []" "(pstr ''delivery'', PStr (en_delivery e)) \<in> set extra"
    using r(3) by (auto simp: terminal_record_def split: sum.splits)
  have f: "sr_request_id r = i" "record_ok r" "record_identity r = record_identity (last h)" "sr_epoch r = ns_epoch ns"
    using base_record_fields [OF d(1,2)] base_record_identity [OF d(1,2)] r(1) by simp_all
  have "\<not> is_pending r"
  proof
    assume "is_pending r"
    then have o: "en_outcome e = py ''pending''" using base_record_fields(2) [OF d(1,2)] by simp
    have "dget (d @ extra) ''outcome'' = pstr ''pending''"
      using d(1) o by (auto simp: base_audit_record_def split: sum.splits)
    then have "fst ` set (d @ extra) = PStr ` set COMMON_KEYS"
      using d(2) by (auto simp: validate_audit_record_def Let_def split: if_splits)
    moreover have "pstr ''delivery'' \<in> fst ` set (d @ extra)" using d(4) by force
    ultimately show False by (auto simp: COMMON_KEYS_def)
  qed
  then have "answers_with env (ns_epoch ns) (sr_request_id r) (record_identity r) (audit_receipt r) fs'"
    using append_extends [OF assms(1) l _ _ _ f(2,4) firmD [OF firm_append r(4)]] create_current_facts [of fs] assms(3,4)
      f(1,3) h r(2) by simp
  with f(1,3) r(1,5) show ?thesis by auto
qed

definition op_identity :: "audit_op \<Rightarrow> AuditIdentity" where
  "op_identity op = (case op of Reserve ident \<Rightarrow> ident | Terminal ident _ \<Rightarrow> ident)"

lemma flat_hash_error:
  assumes "collect (map (hash_value hx 0) vs) = Inl e" and "\<forall>v \<in> set vs. (\<exists>s. v = HStr s) \<or> (\<exists>b. v = HBytes b)"
  shows "e = AuditError AuditFailed"
proof -
  have "hash_value hx 0 v = Inl e \<Longrightarrow> e = AuditError AuditFailed" if "(\<exists>s. v = HStr s) \<or> (\<exists>b. v = HBytes b)" for v
    using that by (auto simp: hash_value.simps split: option.splits)
  with assms show ?thesis
  proof (induction vs)
    case (Cons v vs)
    then show ?case by (cases "hash_value hx 0 v") (auto split: sum.splits)
  qed simp
qed

lemma hmac_error:
  assumes "hmac_identity env key label vs = Inl e" and "\<forall>v \<in> set vs. (\<exists>s. v = HStr s) \<or> (\<exists>b. v = HBytes b)"
  shows "e = AuditError AuditFailed"
  using assms flat_hash_error [of "au_hex env" "HStr label # vs" e]
  by (auto simp: hmac_identity_def hash_stream_def split: sum.splits)

lemma identity_error: "identity_tuple env ident key = Inl e \<Longrightarrow> e = AuditError AuditFailed"
  using hmac_error [of env key "py ''target''" "[HStr (ai_agent ident), HStr (ai_session_id ident), HStr (ai_project ident)]" e]
    hmac_error [of env key "py ''request''"
      "[HStr (ai_agent ident), HStr (ai_session_id ident), HStr (ai_project ident), HBytes (ai_message ident)]" e]
  by (auto simp: identity_tuple_def split: sum.splits)

lemma answers_reserve:
  assumes "answers_with env (ns_epoch ns) i t rc fs" and "validate_request_id rid = Inr i"
  shows "reserve env ns now rid ident (fs, []) =
      ((case identity_tuple env ident (ns_key ns) of
          Inl e \<Rightarrow> Inl e
        | Inr t' \<Rightarrow> if t' = t then Inr (Some rc) else Inl (AuditError RequestConflict)), (fs, []))"
proof -
  obtain hs h where a: "af_next fs = None" "af_current fs \<noteq> None" "load_logs env (ns_epoch ns) (fs, []) = (Inr hs, (fs, []))"
    "map_of hs i = Some h" "record_identity (last h) = t" "audit_receipt (last h) = rc"
    using assms(1) by (auto simp: answers_with_def)
  let ?m = "and_then (open_logs env (ns_epoch ns)) (\<lambda>_. and_then (load_logs env (ns_epoch ns)) (\<lambda>hs.
      case map_of hs i of Some h \<Rightarrow> and_then (lift (identity_tuple env ident (ns_key ns))) (\<lambda>t.
          if record_identity (last h) \<noteq> t then fail (AuditError RequestConflict) else give (Some (audit_receipt (last h))))
      | None \<Rightarrow> and_then (reserve_new env ns now i ident hs) (\<lambda>_. give None)))"
  have run: "reserve env ns now rid ident (fs, []) = locked ?m (fs, [])"
    by (simp add: reserve_def assms(2) and_then_def [of "lift (Inr i)"] lift_def)
  have m: "?m (fs, []) = and_then (lift (identity_tuple env ident (ns_key ns))) (\<lambda>t'.
      if t \<noteq> t' then fail (AuditError RequestConflict) else give (Some rc)) (fs, [])"
    unfolding a(6) [symmetric] using open_granted [OF a(1,2)] a(3-5) by (simp add: and_then_def)
  show ?thesis
  proof (cases "identity_tuple env ident (ns_key ns)")
    case (Inl e)
    then have "?m (fs, []) = (Inl (AuditError AuditFailed), (fs, []))" "e = AuditError AuditFailed"
      using m identity_error [OF Inl] by (simp_all add: and_then_def lift_def)
    then have "locked ?m (fs, []) = (Inl (AuditError AuditFailed), (fs, []))" by (intro locked_denied)
    with Inl \<open>e = AuditError AuditFailed\<close> show ?thesis by (simp add: run)
  next
    case (Inr t')
    show ?thesis
    proof (cases "t' = t")
      case True
      then have "?m (fs, []) = (Inr (Some rc), (fs, []))" using m Inr by (simp add: and_then_def lift_def give_def)
      then have "locked ?m (fs, []) = (Inr (Some rc), (fs, []))" by (rule locked_granted)
      with Inr True show ?thesis by (simp add: run)
    next
      case False
      then have "?m (fs, []) = (Inl (AuditError RequestConflict), (fs, []))"
        using m Inr by (simp add: and_then_def lift_def fail_def)
      then have "locked ?m (fs, []) = (Inl (AuditError RequestConflict), (fs, []))" by (rule locked_denied)
      with Inr False show ?thesis by (simp add: run)
    qed
  qed
qed

text \<open>
  C12: A call that succeeds leaves its answer behind: when \<open>reserve\<close> or \<open>append_terminal\<close> has returned for a request (with no
  rotation pending or due), a \<open>reserve\<close> of the same request that meets no failure returns the same receipt to an
  identity with the same fingerprint (\<open>request_pending\<close> after a new reservation, the terminal receipt after
  \<open>append_terminal\<close>), \<open>request_conflict\<close> to any other identity, and changes no file.
\<close>

theorem receipt_is_replayed:
  assumes "sound_audit env" and "run_call env ns c fs = (Inr x, fs')" and "validate_request_id (ac_request c) = Inr i"
    and "af_next fs = None" and "length (content_of (af_current fs)) + MAX_AUDIT_LINE_BYTES \<le> MAX_AUDIT_BYTES"
    and "reserves i d" and "ac_answers d = []"
  shows "\<exists>t. identity_tuple env (op_identity (ac_op c)) (ns_key ns) = Inr t
    \<and> run_call env ns d fs' =
      ((case identity_tuple env (op_identity (ac_op d)) (ns_key ns) of
          Inl e \<Rightarrow> Inl e
        | Inr t' \<Rightarrow> if t' = t then Inr (Some (left_receipt i (op_identity (ac_op c)) x)) else Inl (AuditError RequestConflict)), fs')"
proof -
  have left: "\<exists>t. identity_tuple env (op_identity (ac_op c)) (ns_key ns) = Inr t
      \<and> answers_with env (ns_epoch ns) i t (left_receipt i (op_identity (ac_op c)) x) fs'"
  proof (cases "ac_op c")
    case (Reserve ident)
    obtain as' where "reserve env ns (ac_now c) (ac_request c) ident (fs, ac_answers c) = (Inr x, (fs', as'))"
      using assms(2) Reserve by (auto simp: run_call_def split: prod.splits)
    from reserve_leaves [OF assms(1,3,4,5) this] Reserve show ?thesis by (simp add: op_identity_def)
  next
    case (Terminal ident e)
    obtain rc as' where t: "append_terminal env ns (ac_now c) (ac_request c) ident e (fs, ac_answers c) = (Inr rc, (fs', as'))"
      "x = Some rc"
    proof (cases "append_terminal env ns (ac_now c) (ac_request c) ident e (fs, ac_answers c)")
      case (fields r f a)
      then show ?thesis using that assms(2) Terminal by (cases r) (auto simp: run_call_def)
    qed
    from terminal_leaves [OF assms(1,3,4,5) t(1)] Terminal t(2) show ?thesis by (simp add: op_identity_def left_receipt_def)
  qed
  obtain ident where d: "ac_op d = Reserve ident" "validate_request_id (ac_request d) = Inr i"
    using assms(6) by (auto simp: reserves_def split: audit_op.splits)
  obtain t where t: "identity_tuple env (op_identity (ac_op c)) (ns_key ns) = Inr t"
    "answers_with env (ns_epoch ns) i t (left_receipt i (op_identity (ac_op c)) x) fs'"
    using left by blast
  have "run_call env ns d fs' =
      ((case identity_tuple env (op_identity (ac_op d)) (ns_key ns) of
          Inl e \<Rightarrow> Inl e
        | Inr t' \<Rightarrow> if t' = t then Inr (Some (left_receipt i (op_identity (ac_op c)) x)) else Inl (AuditError RequestConflict)), fs')"
    using answers_reserve [OF t(2) d(2)] assms(7) d(1) by (simp add: run_call_def op_identity_def)
  with t(1) show ?thesis by blast
qed

theorem receipt_is_replayed_witness:
  "\<exists>fs t. run_call ex_audit_env ex_audit_ns (ex_reserve ''r1'' []) ex_no_files = (Inr None, fs)
    \<and> identity_tuple ex_audit_env ex_identity (ns_key ex_audit_ns) = Inr t
    \<and> run_call ex_audit_env ex_audit_ns (ex_reserve ''r1'' []) fs = (Inr (Some (left_receipt (py ''r1'') ex_identity None)), fs)"
proof -
  obtain fs where f: "run_call ex_audit_env ex_audit_ns (ex_reserve ''r1'' []) ex_no_files = (Inr None, fs)"
    using ex_granted by blast
  have r: "reserves (py ''r1'') (ex_reserve ''r1'' [])" "validate_request_id (ac_request (ex_reserve ''r1'' [])) = Inr (py ''r1'')"
    "op_identity (ac_op (ex_reserve ''r1'' [])) = ex_identity" "ac_answers (ex_reserve ''r1'' []) = []"
    using ex_request by (simp_all add: reserves_def ex_reserve_def op_identity_def)
  have room: "af_next ex_no_files = None" "length (content_of (af_current ex_no_files)) + MAX_AUDIT_LINE_BYTES \<le> MAX_AUDIT_BYTES"
    by (simp_all add: ex_no_files_def content_of_def MAX_AUDIT_LINE_BYTES_def MAX_AUDIT_BYTES_def)
  show ?thesis
    using receipt_is_replayed [OF ex_sound_audit f r(2) room r(1,4)] f unfolding r(3) by fastforce
qed

end
