(* ===== verification/Audit_Once.thy ===== *)
theory Audit_Once
  imports Audit_Receipts
begin

text \<open>
  While the current log of the send audit has room, no rotation takes place and every request that was ever reserved or
  ended stays on record. \<open>known\<close> is that invariant; it needs no assumption about pending or ended requests.
\<close>

definition known :: "audit_env \<Rightarrow> pystr \<Rightarrow> audit_files \<Rightarrow> bool" where
  "known env i fs \<longleftrightarrow> (\<exists>b. af_current fs = Some b \<and> (\<forall>rs. parse_audit_file env b = Inr rs \<longrightarrow> of_request i rs \<noteq> []))"

text \<open>Room for \<open>n\<close> more lines.\<close>

definition room :: "nat \<Rightarrow> audit_files \<Rightarrow> bool" where
  "room n fs \<longleftrightarrow> af_next fs = None \<and> length (content_of (af_current fs)) + n * MAX_AUDIT_LINE_BYTES \<le> MAX_AUDIT_BYTES"

lemma room_less: "room (Suc n) fs \<Longrightarrow> room n fs"
  by (simp add: room_def)

text \<open>The states before a call, when \<open>i\<close> is known in case \<open>c\<close>.\<close>

definition spare :: "audit_env \<Rightarrow> bool \<Rightarrow> pystr \<Rightarrow> nat \<Rightarrow> audit_files \<Rightarrow> bool" where
  "spare env c i n fs \<longleftrightarrow> room n fs \<and> (c \<longrightarrow> known env i fs)"

lemma spare_less: "spare env c i (Suc n) fs \<Longrightarrow> spare env c i n fs"
  by (simp add: spare_def room_less)

lemma recover_spare:
  "holds (spare env c i n) (recover_rotation env epoch) (\<lambda>_. spare env c i n) (spare env c i n)"
proof -
  have body: "holds (\<lambda>fs. fs0 = fs \<and> spare env c i n fs)
      (case af_next fs0 of
         None \<Rightarrow> give ()
       | Some content \<Rightarrow>
           if af_current fs0 = None \<and> af_rotated fs0 = None then fail (AuditError AuditCorrupt)
           else and_then (judge_next env epoch content) (\<lambda>valid. if valid then commit_next else give ()))
      (\<lambda>_. spare env c i n) (spare env c i n)" for fs0
  proof (cases "af_next fs0")
    case None
    then show ?thesis by (auto intro: holds_give)
  next
    case (Some content)
    then show ?thesis by (auto intro: holds_assume [of _ False] simp: spare_def room_def)
  qed
  show ?thesis
    unfolding recover_rotation_def
    by (rule holds_then [where Q = "\<lambda>_. spare env c i n"], rule holds_check, simp, simp,
        rule holds_then [where Q = "\<lambda>fs0 fs. fs0 = fs \<and> spare env c i n fs"], rule holds_look, simp, rule body)
qed

lemma create_spare: "spare env c i n fs \<Longrightarrow> spare env c i n (create_current fs)"
  using create_current_facts [of fs] by (auto simp: spare_def room_def known_def create_current_def)

lemma open_and_load_spare:
  assumes "\<And>hs. holds (\<lambda>fs. spare env c i n fs \<and> af_current fs \<noteq> None \<and> (\<exists>older newer. loaded_from env hs older newer fs))
      (f hs) Q (spare env c i m)" and "m \<le> n"
  shows "holds (spare env c i n) (and_then (open_logs env epoch) (\<lambda>_. and_then (load_logs env epoch) f)) Q (spare env c i m)"
proof -
  have mono: "spare env c i m fs" if "spare env c i n fs" for fs
    using that order_trans [OF add_left_mono [OF mult_le_mono1 [OF assms(2)]]] unfolding spare_def room_def by blast
  have "holds (spare env c i n) (open_logs env epoch) (\<lambda>_ fs. spare env c i n fs \<and> af_current fs \<noteq> None) (spare env c i n)"
    unfolding open_logs_def
    by (rule holds_then [OF recover_spare], rule holds_then [where Q = "\<lambda>_ fs. spare env c i n fs \<and> af_current fs \<noteq> None"];
        intro step_rules) (auto intro: create_spare simp: create_current_facts)
  then have o: "holds (spare env c i n) (open_logs env epoch) (\<lambda>_ fs. spare env c i n fs \<and> af_current fs \<noteq> None) (spare env c i m)"
    by (rule holds_post) (simp_all add: mono)
  have l: "holds (\<lambda>fs. spare env c i n fs \<and> af_current fs \<noteq> None) (load_logs env epoch)
      (\<lambda>hs fs. spare env c i n fs \<and> af_current fs \<noteq> None \<and> (\<exists>older newer. loaded_from env hs older newer fs)) (spare env c i m)"
    by (rule holds_post [OF load_keeps]) (auto simp: mono)
  show ?thesis
    by (rule holds_then [OF o]) (rule holds_then [OF l assms(1)])
qed

lemma append_spare:
  assumes "sound_audit env" and "record_ok r"
  shows "holds (\<lambda>fs. spare env c i (Suc n) fs \<and> af_current fs \<noteq> None \<and> (\<exists>older newer. loaded_from env hs older newer fs))
    (append_audit env r hs) (\<lambda>_. spare env (c \<or> i = sr_request_id r) i n) (spare env c i n)"
proof -
  let ?P = "\<lambda>fs. spare env c i (Suc n) fs \<and> af_current fs \<noteq> None \<and> (\<exists>older newer. loaded_from env hs older newer fs)"
  let ?Q = "\<lambda>_ :: unit. spare env (c \<or> i = sr_request_id r) i n"
  let ?E = "spare env c i n"
  have weak: "?E fs" if "?P fs" for fs using that spare_less by blast
  have put: "room n (put_current q fs)" if "?P fs" "length q \<le> MAX_AUDIT_LINE_BYTES" for q fs
    using that by (auto simp: spare_def room_def put_current_def content_of_def)
  have parsed: "\<exists>cb newer. af_current fs = Some cb \<and> parse_audit_file env cb = Inr newer \<and> (c \<longrightarrow> of_request i newer \<noteq> [])"
    if "?P fs" for fs
    using that by (auto simp: loaded_from_def content_of_def spare_def known_def)
  have whole: "?Q () (put_current payload fs)" if p: "encoded_record env r = Inr payload" and P: "?P fs" for payload fs
  proof -
    obtain cb newer where cb: "af_current fs = Some cb" "parse_audit_file env cb = Inr newer" "c \<longrightarrow> of_request i newer \<noteq> []"
      using parsed [OF P] by blast
    have "encoded_records env [r] = Inr payload" using p by (simp add: encoded_records_def)
    from encoded_parse [OF assms(1) _ this cb(2)] obtain rs' where rs': "list_all2 (reread env) [r] rs'"
      "parse_audit_file env (cb @ payload) = Inr (newer @ rs')"
      using assms(2) by auto
    have "of_request i rs' \<noteq> []" if "i = sr_request_id r"
      using reread_requests [OF rs'(1), of i] that by (auto simp: of_request_Cons)
    with cb rs'(2) put [OF P encoded_length [OF p]] show ?thesis
      by (auto simp: spare_def known_def put_current_def content_of_def)
  qed
  have torn: "?E (put_current q fs)" if p: "encoded_record env r = Inr payload" and q: "cut payload q" and P: "?P fs" for payload q fs
  proof -
    have len: "length q \<le> MAX_AUDIT_LINE_BYTES"
      using q encoded_length [OF p] by (auto simp: cut_def)
    obtain cb newer where cb: "af_current fs = Some cb" "parse_audit_file env cb = Inr newer" "c \<longrightarrow> of_request i newer \<noteq> []"
      using parsed [OF P] by blast
    consider "q = payload" | "q = []" | "q \<noteq> []" "last q \<noteq> NL" using q by (auto simp: cut_def)
    then show ?thesis
    proof cases
      case 1
      then show ?thesis using whole [OF p P] by (auto simp: spare_def)
    next
      case 2
      then show ?thesis using put [OF P, of "[]"] cb by (auto simp: spare_def known_def put_current_def content_of_def)
    next
      case 3
      then show ?thesis using put [OF P len] parse_torn [of q env cb] cb(1)
        by (auto simp: spare_def known_def put_current_def content_of_def)
    qed
  qed
  have in_place: "holds (\<lambda>fs. ?P fs \<and> encoded_record env r = Inr payload)
      (and_then check (\<lambda>_. and_then (write_with put_current payload) (\<lambda>_. check))) ?Q ?E" for payload
  proof (rule holds_then [where Q = "\<lambda>_ fs. ?P fs \<and> encoded_record env r = Inr payload"], intro holds_check)
    show "holds (\<lambda>fs. ?P fs \<and> encoded_record env r = Inr payload) (and_then (write_with put_current payload) (\<lambda>_. check)) ?Q ?E"
    proof (rule holds_then [where Q = ?Q], rule holds_write)
      show "?E (put_current q fs)" if "cut payload q" "?P fs \<and> encoded_record env r = Inr payload" for q fs
        using torn that by blast
      show "?Q () (put_current payload fs)" if "?P fs \<and> encoded_record env r = Inr payload" for fs
        using whole that by blast
    qed (rule holds_check, auto simp: spare_def)
  qed (use weak in auto)
  have sized: "holds (\<lambda>fs. ?P fs \<and> encoded_record env r = Inr payload)
      (and_then (look (\<lambda>fs. length (content_of (af_current fs)))) (\<lambda>current_size.
         if MAX_AUDIT_BYTES < current_size + length payload then
           and_then (lift (rotation_payload env hs r payload pending)) rotate_audit
         else and_then check (\<lambda>_. and_then (write_with put_current payload) (\<lambda>_. check)))) ?Q ?E" for payload pending
  proof (rule holds_then [where Q = "\<lambda>s fs. s = length (content_of (af_current fs)) \<and> ?P fs \<and> encoded_record env r = Inr payload"],
      rule holds_look, simp, rule holds_if)
    fix s :: nat
    assume big: "MAX_AUDIT_BYTES < s + length payload"
    show "holds (\<lambda>fs. s = length (content_of (af_current fs)) \<and> ?P fs \<and> encoded_record env r = Inr payload)
        (and_then (lift (rotation_payload env hs r payload pending)) rotate_audit) ?Q ?E"
    proof (rule holds_assume [of _ False])
      fix fs
      assume "s = length (content_of (af_current fs)) \<and> ?P fs \<and> encoded_record env r = Inr payload"
      then show False using big encoded_length [of env r payload] by (auto simp: spare_def room_def)
    qed simp
  next
    fix s :: nat
    show "holds (\<lambda>fs. s = length (content_of (af_current fs)) \<and> ?P fs \<and> encoded_record env r = Inr payload)
        (and_then check (\<lambda>_. and_then (write_with put_current payload) (\<lambda>_. check))) ?Q ?E"
      by (rule holds_pre [OF in_place]) blast
  qed
  have pending: "holds (\<lambda>fs. ?P fs \<and> encoded_record env r = Inr payload)
      (and_then (lift (active_pending_payload env hs r)) (\<lambda>pending.
         and_then (look (\<lambda>fs. length (content_of (af_current fs)))) (\<lambda>current_size.
           if MAX_AUDIT_BYTES < current_size + length payload then
             and_then (lift (rotation_payload env hs r payload pending)) rotate_audit
           else and_then check (\<lambda>_. and_then (write_with put_current payload) (\<lambda>_. check))))) ?Q ?E" for payload
    by (rule holds_then [where Q = "\<lambda>_ fs. ?P fs \<and> encoded_record env r = Inr payload"], rule holds_lift)
      (use weak in blast, blast, rule sized)
  show ?thesis
    unfolding append_audit_def
    by (rule holds_then [where Q = "\<lambda>payload fs. ?P fs \<and> encoded_record env r = Inr payload"], rule holds_lift)
      (use weak in blast, blast, rule pending)
qed

subsection \<open>The operations\<close>

definition once_post :: "audit_env \<Rightarrow> bool \<Rightarrow> pystr \<Rightarrow> pystr \<Rightarrow> nat \<Rightarrow> AuditReceipt option \<Rightarrow> audit_files \<Rightarrow> bool" where
  "once_post env c i j n res fs \<longleftrightarrow> spare env c i n fs \<and> (j = i \<longrightarrow> res = None \<longrightarrow> known env i fs) \<and> (c \<longrightarrow> j = i \<longrightarrow> res \<noteq> None)"

lemma known_history:
  assumes "known env i fs" and "loaded_from env hs older newer fs"
  shows "map_of hs i \<noteq> None"
proof -
  obtain b where b: "af_current fs = Some b" "\<And>rs. parse_audit_file env b = Inr rs \<Longrightarrow> of_request i rs \<noteq> []"
    using assms(1) by (auto simp: known_def)
  then have "of_request i newer \<noteq> []" using assms(2) by (simp add: loaded_from_def content_of_def)
  moreover have "validate_histories (older @ newer) = Inr hs" using assms(2) by (simp add: loaded_from_def)
  ultimately show ?thesis using no_history [of "older @ newer" hs i] by simp
qed

lemma reserve_new_spare:
  assumes "sound_audit env"
  shows "holds (\<lambda>fs. spare env c i (Suc n) fs \<and> af_current fs \<noteq> None \<and> (\<exists>older newer. loaded_from env hs older newer fs))
    (reserve_new env ns now j ident hs) (\<lambda>_. spare env (c \<or> i = j) i n) (spare env c i n)"
proof -
  let ?P = "\<lambda>fs. spare env c i (Suc n) fs \<and> af_current fs \<noteq> None \<and> (\<exists>older newer. loaded_from env hs older newer fs)"
  have app: "holds (\<lambda>fs. ?P fs \<and> base_audit_record env ns now j ident (py ''pending'') = Inr d \<and> validate_audit_record (PDict d) = Inr r)
      (append_audit env r hs) (\<lambda>_. spare env (c \<or> i = j) i n) (spare env c i n)" for d r
  proof (rule holds_assume [of _ "base_audit_record env ns now j ident (py ''pending'') = Inr d \<and> validate_audit_record (PDict d) = Inr r"],
      simp)
    assume "base_audit_record env ns now j ident (py ''pending'') = Inr d \<and> validate_audit_record (PDict d) = Inr r"
    then have r: "sr_request_id r = j" "record_ok r"
      using base_record_fields [of env ns now j ident "py ''pending''" d "[]" r] by simp_all
    show "holds (\<lambda>fs. ?P fs \<and> base_audit_record env ns now j ident (py ''pending'') = Inr d \<and> validate_audit_record (PDict d) = Inr r)
        (append_audit env r hs) (\<lambda>_. spare env (c \<or> i = j) i n) (spare env c i n)"
      using append_spare [OF assms r(2), of c i n hs] unfolding r(1) by (rule holds_pre) blast
  qed
  have val: "holds (\<lambda>fs. ?P fs \<and> base_audit_record env ns now j ident (py ''pending'') = Inr d)
      (and_then (lift (validate_audit_record (PDict d))) (\<lambda>r. append_audit env r hs)) (\<lambda>_. spare env (c \<or> i = j) i n) (spare env c i n)"
    for d
    by (rule holds_then [where Q = "\<lambda>r fs. ?P fs \<and> base_audit_record env ns now j ident (py ''pending'') = Inr d
        \<and> validate_audit_record (PDict d) = Inr r"], rule holds_lift) (use spare_less in blast, blast, rule app)
  show ?thesis
    unfolding reserve_new_def
    by (rule holds_then [where Q = "\<lambda>d fs. ?P fs \<and> base_audit_record env ns now j ident (py ''pending'') = Inr d"], rule holds_lift)
      (use spare_less in blast, blast, rule val)
qed

lemma reserve_spare:
  assumes "sound_audit env" and "validate_request_id rid = Inr j"
  shows "holds (spare env c i (Suc n)) (reserve env ns now rid ident) (once_post env c i j n) (spare env c i n)"
proof -
  let ?P = "\<lambda>hs fs. spare env c i (Suc n) fs \<and> af_current fs \<noteq> None \<and> (\<exists>older newer. loaded_from env hs older newer fs)"
  let ?f = "\<lambda>hs. case map_of hs j of
      Some h \<Rightarrow> and_then (lift (identity_tuple env ident (ns_key ns))) (\<lambda>t.
          if record_identity (last h) \<noteq> t then fail (AuditError RequestConflict) else give (Some (audit_receipt (last h))))
    | None \<Rightarrow> and_then (reserve_new env ns now j ident hs) (\<lambda>_. give None)"
  have f: "holds (?P hs) (?f hs) (once_post env c i j n) (spare env c i n)" for hs
  proof (cases "map_of hs j")
    case (Some h)
    have "holds (?P hs) (and_then (lift (identity_tuple env ident (ns_key ns))) (\<lambda>t.
        if record_identity (last h) \<noteq> t then fail (AuditError RequestConflict) else give (Some (audit_receipt (last h)))))
        (once_post env c i j n) (spare env c i n)"
      by (intro holds_then [where Q = "\<lambda>_. ?P hs"] step_rules) (auto simp: once_post_def intro: spare_less)
    with Some show ?thesis by simp
  next
    case None
    have new: "holds (?P hs) (and_then (reserve_new env ns now j ident hs) (\<lambda>_. give None)) (once_post env c i j n) (spare env c i n)"
    proof (rule holds_assume [of _ "\<not> (c \<and> j = i)"])
      show "\<not> (c \<and> j = i)" if "?P hs fs" for fs
        using that known_history [of env i fs hs] None by (auto simp: spare_def)
      assume "\<not> (c \<and> j = i)"
      then show "holds (?P hs) (and_then (reserve_new env ns now j ident hs) (\<lambda>_. give None)) (once_post env c i j n) (spare env c i n)"
        by (intro holds_then [OF reserve_new_spare [OF assms(1)]] holds_give) (auto simp: once_post_def spare_def)
    qed
    with None show ?thesis by simp
  qed
  have "holds (spare env c i (Suc n)) (locked (and_then (open_logs env (ns_epoch ns)) (\<lambda>_. and_then (load_logs env (ns_epoch ns)) ?f)))
      (once_post env c i j n) (spare env c i n)"
    by (rule holds_locked [OF open_and_load_spare [OF f]]) (auto simp: once_post_def intro: spare_less)
  then show ?thesis
    unfolding reserve_def assms(2)
    by (intro holds_then [where Q = "\<lambda>x fs. x = j \<and> spare env c i (Suc n) fs"] holds_lift)
      (auto intro: holds_assume [of _ "_ = j"] holds_pre spare_less)
qed

lemma terminal_spare:
  assumes "sound_audit env" and "validate_request_id rid = Inr j"
  shows "holds (spare env c i (Suc n)) (append_terminal env ns now rid ident e) (\<lambda>_. spare env c i n) (spare env c i n)"
proof -
  let ?P = "\<lambda>hs fs. spare env c i (Suc n) fs \<and> af_current fs \<noteq> None \<and> (\<exists>older newer. loaded_from env hs older newer fs)"
  let ?E = "spare env c i n"
  let ?g = "\<lambda>hs h t. if record_identity (last h) \<noteq> t then fail (AuditError RequestConflict)
       else if \<not> is_pending (last h) then fail (AuditError AuditCorrupt)
       else and_then (lift (terminal_record env ns now j ident e)) (\<lambda>r.
              and_then (append_audit env r hs) (\<lambda>_. give (audit_receipt r)))"
  have app: "holds (\<lambda>fs. ?P hs fs \<and> terminal_record env ns now j ident e = Inr r)
      (and_then (append_audit env r hs) (\<lambda>_. give (audit_receipt r))) (\<lambda>_. ?E) ?E" for hs r
  proof (rule holds_assume [of _ "terminal_record env ns now j ident e = Inr r"], simp)
    assume t: "terminal_record env ns now j ident e = Inr r"
    then have "record_ok r" using terminal_fields by blast
    from append_spare [OF assms(1) this, of c i n hs]
    have "holds (?P hs) (and_then (append_audit env r hs) (\<lambda>_. give (audit_receipt r))) (\<lambda>_. ?E) ?E"
      by (rule holds_then) (rule holds_give, auto simp: spare_def)
    then show "holds (\<lambda>fs. ?P hs fs \<and> terminal_record env ns now j ident e = Inr r)
        (and_then (append_audit env r hs) (\<lambda>_. give (audit_receipt r))) (\<lambda>_. ?E) ?E"
      by (rule holds_pre) blast
  qed
  have rec: "holds (?P hs) (and_then (lift (terminal_record env ns now j ident e)) (\<lambda>r.
      and_then (append_audit env r hs) (\<lambda>_. give (audit_receipt r)))) (\<lambda>_. ?E) ?E" for hs
    by (rule holds_then [where Q = "\<lambda>r fs. ?P hs fs \<and> terminal_record env ns now j ident e = Inr r"], rule holds_lift)
      (use spare_less in blast, blast, rule app)
  have g: "holds (?P hs) (?g hs h t) (\<lambda>_. ?E) ?E" for hs h t
    by (intro holds_if holds_fail rec) (auto intro: spare_less)
  have f: "holds (?P hs) (case map_of hs j of None \<Rightarrow> fail (AuditError AuditCorrupt)
      | Some h \<Rightarrow> and_then (lift (identity_tuple env ident (ns_key ns))) (?g hs h)) (\<lambda>_. ?E) ?E" for hs
  proof (cases "map_of hs j")
    case None
    then show ?thesis by (auto intro: holds_fail spare_less)
  next
    case (Some h)
    have "holds (?P hs) (and_then (lift (identity_tuple env ident (ns_key ns))) (?g hs h)) (\<lambda>_. ?E) ?E"
      by (rule holds_then [where Q = "\<lambda>_. ?P hs"], rule holds_lift) (use spare_less in blast, blast, rule g)
    with Some show ?thesis by simp
  qed
  have "holds (spare env c i (Suc n)) (locked (and_then (open_logs env (ns_epoch ns)) (\<lambda>_. and_then (load_logs env (ns_epoch ns)) (\<lambda>hs.
      case map_of hs j of None \<Rightarrow> fail (AuditError AuditCorrupt)
      | Some h \<Rightarrow> and_then (lift (identity_tuple env ident (ns_key ns))) (?g hs h))))) (\<lambda>_. ?E) ?E"
    by (rule holds_locked [OF open_and_load_spare [OF f]]) (auto intro: spare_less)
  then show ?thesis
    unfolding append_terminal_def assms(2)
    by (intro holds_then [where Q = "\<lambda>x fs. x = j \<and> spare env c i (Suc n) fs"] holds_lift)
      (auto intro: holds_assume [of _ "_ = j"] holds_pre spare_less)
qed

lemma run_call_spare:
  assumes "sound_audit env" and "list_all ragged (ac_answers c)" and "run_call env ns c fs = (res, fs')" and "room (Suc n) fs"
  shows "room n fs'" and "known env i fs \<Longrightarrow> known env i fs'"
    and "reserves i c \<Longrightarrow> res = Inr None \<Longrightarrow> known env i fs' \<and> \<not> known env i fs"
proof -
  have step: "spare env b i n fs' \<and> (reserves i c \<longrightarrow> res = Inr None \<longrightarrow> known env i fs' \<and> \<not> b)" if b: "spare env b i (Suc n) fs" for b
  proof (cases "validate_request_id (ac_request c)")
    case (Inl e)
    then have "res = Inl e \<and> fs' = fs"
      using assms(3) invalid_request [OF Inl] by (auto simp: run_call_def split: audit_op.splits)
    with spare_less [OF b] show ?thesis by simp
  next
    case (Inr j)
    show ?thesis
    proof (cases "ac_op c")
      case (Reserve ident)
      obtain as' where r: "reserve env ns (ac_now c) (ac_request c) ident (fs, ac_answers c) = (res, fs', as')"
        using assms(3) Reserve by (auto simp: run_call_def split: prod.splits)
      have "case res of Inl _ \<Rightarrow> spare env b i n fs' | Inr x \<Rightarrow> once_post env b i j n x fs'"
        using reserve_spare [OF assms(1) Inr, of b i n ns "ac_now c" ident] r assms(2) b unfolding holds_def by blast
      with Inr Reserve show ?thesis
        by (cases res) (auto simp: once_post_def reserves_def)
    next
      case (Terminal ident e)
      obtain r as' where r: "append_terminal env ns (ac_now c) (ac_request c) ident e (fs, ac_answers c) = (r, fs', as')"
        using assms(3) Terminal by (auto simp: run_call_def split: prod.splits)
      have "case r of Inl _ \<Rightarrow> spare env b i n fs' | Inr _ \<Rightarrow> spare env b i n fs'"
        using terminal_spare [OF assms(1) Inr, of b i n ns "ac_now c" ident e] r assms(2) b unfolding holds_def by blast
      with Inr Terminal show ?thesis by (cases r) (auto simp: reserves_def)
    qed
  qed
  show "room n fs'" using step [of False] assms(4) by (simp add: spare_def)
  show "known env i fs \<Longrightarrow> known env i fs'" using step [of True] assms(4) by (simp add: spare_def)
  show "reserves i c \<Longrightarrow> res = Inr None \<Longrightarrow> known env i fs' \<and> \<not> known env i fs"
    using step [of "known env i fs"] assms(4) by (simp add: spare_def)
qed

text \<open>The calls that granted the request \<open>i\<close>.\<close>

definition grants :: "pystr \<Rightarrow> audit_call list \<Rightarrow> (audit_exc + AuditReceipt option) list \<Rightarrow> audit_call list" where
  "grants i cs rs = map fst (filter (\<lambda>(c, r). reserves i c \<and> r = Inr None) (zip cs rs))"

lemma grants_bounded:
  assumes "sound_audit env" and "list_all (\<lambda>c. list_all ragged (ac_answers c)) cs" and "room (length cs) fs"
    and "run_calls env ns cs fs = (rs, fs')"
  shows "length (grants i cs rs) \<le> (if known env i fs then 0 else 1)"
  using assms(2-4)
proof (induction cs arbitrary: fs rs)
  case Nil
  then show ?case by (simp add: grants_def)
next
  case (Cons c cs)
  obtain r f where r: "run_call env ns c fs = (r, f)" by fastforce
  obtain rs1 where rs: "run_calls env ns cs f = (rs1, fs')" "rs = r # rs1"
    using Cons.prems(3) r by (auto split: prod.splits)
  have room: "room (Suc (length cs)) fs" and answers: "list_all ragged (ac_answers c)" using Cons.prems by simp_all
  note step = run_call_spare [OF assms(1) answers r room]
  have IH: "length (grants i cs rs1) \<le> (if known env i f then 0 else 1)"
    using Cons.IH [OF _ step(1) rs(1)] Cons.prems(1) by simp
  show ?case
  proof (cases "reserves i c \<and> r = Inr None")
    case True
    then have "known env i f \<and> \<not> known env i fs" using step(3) [of i] by blast
    with IH True rs(2) show ?thesis by (simp add: grants_def)
  next
    case False
    then show ?thesis using IH step(2) [of i] rs(2) by (auto simp: grants_def split: if_splits)
  qed
qed

text \<open>
  C4: Whatever any number of processes do with the audit (reserving and ending requests in any order, with the same or
  different identities, each of their file operations failing or not), a request identifier is granted at most once
  while the current log has room for their records; ending a request does not make it available again.
\<close>

theorem granted_at_most_once:
  assumes "sound_audit env" and "list_all (\<lambda>c. list_all ragged (ac_answers c)) cs" and "room (length cs) fs"
    and "run_calls env ns cs fs = (rs, fs')"
  shows "length (grants i cs rs) \<le> 1"
  using grants_bounded [OF assms, of i] by (auto split: if_splits)

theorem granted_at_most_once_witness:
  "\<exists>rs fs'. run_calls ex_audit_env ex_audit_ns [ex_reserve ''r1'' [], ex_reserve ''r1'' []] ex_no_files = (rs, fs')
    \<and> hd rs = Inr None \<and> length (grants (py ''r1'') [ex_reserve ''r1'' [], ex_reserve ''r1'' []] rs) \<le> 1"
proof -
  obtain rs fs' where r: "run_calls ex_audit_env ex_audit_ns [ex_reserve ''r1'' [], ex_reserve ''r1'' []] ex_no_files = (rs, fs')"
    by fastforce
  have "length (grants (py ''r1'') [ex_reserve ''r1'' [], ex_reserve ''r1'' []] rs) \<le> 1"
    by (rule granted_at_most_once [OF ex_sound_audit _ _ r])
      (simp_all add: ex_reserve_def room_def ex_no_files_def content_of_def MAX_AUDIT_LINE_BYTES_def MAX_AUDIT_BYTES_def)
  moreover have "hd rs = Inr None" using ex_granted r by (auto split: prod.splits)
  ultimately show ?thesis using r by blast
qed

end
