(* ===== verification/Audit_Hash.thy ===== *)
theory Audit_Hash
  imports Send_Audit
begin

text \<open>
  The byte stream of a request identity (\<open>_hash_value\<close> and \<open>_hmac_identity\<close> in \<open>sidecar/send_audit.py\<close>) determines
  the values it was made from, so that two requests share a fingerprint only if they are the same request or HMAC-SHA256
  collides.
\<close>

text \<open>Values without floats, whose text \<open>float.hex\<close> is a parameter.\<close>

fun plain_value :: "hashed \<Rightarrow> bool" where
  "plain_value (HFloat f) = False"
| "plain_value (HSeq vs) = list_all plain_value vs"
| "plain_value v = True"

lemma bs_chars: "bs ''n;'' = [110, 59]" "bs ''b1;'' = [98, 49, 59]" "bs ''b0;'' = [98, 48, 59]" "bs ''i'' = [105]" "bs '';'' = [59]"
  "bs ''f'' = [102]" "bs ''s'' = [115]" "bs '':'' = [58]" "bs ''y'' = [121]" "bs ''['' = [91]" "bs ''];'' = [93, 59]"
  by (simp_all add: bs_def)

lemma int_chars: "list_all (\<lambda>c. is_digit c \<or> c = 45) (int_str i)"
  using digits10_digits by (auto simp: int_str_def list_all_iff)

lemma decimal_bytes: "b \<in> set (decimal i) \<Longrightarrow> b \<noteq> 58 \<and> b \<noteq> 59"
proof -
  assume "b \<in> set (decimal i)"
  then obtain c where c: "b = of_nat c" "is_digit c \<or> c = 45"
    using int_chars [of i] by (auto simp: decimal_def list_all_iff)
  then have "unat b = c" "c \<noteq> 58" "c \<noteq> 59" by (auto simp: is_digit_def)
  then show ?thesis by auto
qed

lemma decimal_inj: "decimal i = decimal j \<Longrightarrow> i = j"
proof -
  have chars: "map unat (decimal i) = int_str i" for i
  proof -
    have "unat (of_nat c :: 8 word) = c" if "c \<in> set (int_str i)" for c
      using int_chars [of i] that by (auto simp: list_all_iff is_digit_def)
    then show ?thesis by (simp add: decimal_def map_idI)
  qed
  assume "decimal i = decimal j"
  then have "int_str i = int_str j" using chars by metis
  then show "i = j" using int_value_str by metis
qed

lemma until_separator:
  assumes "x \<notin> set a" and "x \<notin> set b" and "a @ x # r = b @ x # r'"
  shows "a = b \<and> r = r'"
  using assms by (induction a arbitrary: b) (case_tac b; auto)+

lemma decimal_prefix:
  assumes "decimal i @ x # r = decimal j @ x # r'" and "x = 58 \<or> x = 59"
  shows "i = j \<and> r = r'"
proof -
  have "x \<notin> set (decimal i)" "x \<notin> set (decimal j)" using decimal_bytes assms(2) by blast+
  from until_separator [OF this assms(1)] decimal_inj show ?thesis by blast
qed

lemma encode_strict_inj: "encode_strict s = Some b \<Longrightarrow> encode_strict t = Some b \<Longrightarrow> s = t"
  using decode_encode by (auto simp: encode_strict_def split: if_splits) (metis option.inject)

lemma sized_prefix:
  assumes "decimal (int (length a)) @ 58 # a @ 59 # r = decimal (int (length b)) @ 58 # b @ 59 # r'"
  shows "a = b \<and> r = r'"
proof -
  have "int (length a) = int (length b) \<and> a @ 59 # r = b @ 59 # r'"
    using decimal_prefix [OF assms] by simp
  then show ?thesis using append_eq_append_conv [of a b "59 # r" "59 # r'"] by simp
qed

text \<open>The rest after a list of values: the end of the stream or a closing bracket.\<close>

definition closes :: "bytes \<Rightarrow> bool" where
  "closes r \<longleftrightarrow> r = [] \<or> hd r = 93"

lemma hash_starts: "hash_value hx d v = Inr a \<Longrightarrow> a \<noteq> [] \<and> hd a \<noteq> 93"
  by (cases v) (auto simp: hash_value.simps [of hx d] bs_chars split: if_splits option.splits sum.splits)

definition decodable :: "hashed \<Rightarrow> bool" where
  "decodable v \<longleftrightarrow> (\<forall>hx d hx' d' v' a b r r'. plain_value v \<longrightarrow> plain_value v' \<longrightarrow> hash_value hx d v = Inr a \<longrightarrow>
     hash_value hx' d' v' = Inr b \<longrightarrow> a @ r = b @ r' \<longrightarrow> v = v' \<and> r = r')"

lemma decodable_list:
  assumes "list_all decodable vs" and "list_all plain_value vs" and "list_all plain_value vs'"
    and "collect (map (hash_value hx d) vs) = Inr ps" and "collect (map (hash_value hx' d') vs') = Inr ps'"
    and "concat ps @ r = concat ps' @ r'" and "closes r" and "closes r'"
  shows "vs = vs' \<and> r = r'"
  using assms
proof (induction vs arbitrary: vs' ps ps')
  case Nil
  show ?case
  proof (cases vs')
    case Nil
    with Nil.prems show ?thesis by simp
  next
    case (Cons v vs)
    then obtain p q where p: "hash_value hx' d' v = Inr p" "ps' = p # q"
      using Nil.prems(5) by (cases "hash_value hx' d' v") (auto split: sum.splits)
    with Nil.prems(4,6,7) hash_starts [OF p(1)] show ?thesis by (cases p) (auto simp: closes_def)
  qed
next
  case (Cons v vs)
  then obtain p q where p: "hash_value hx d v = Inr p" "ps = p # q" "collect (map (hash_value hx d) vs) = Inr q"
    by (cases "hash_value hx d v") (auto split: sum.splits)
  show ?case
  proof (cases vs')
    case Nil
    with Cons.prems(5,6,8) p hash_starts [OF p(1)] show ?thesis by (cases p) (auto simp: closes_def)
  next
    case (Cons w ws)
    then obtain p' q' where p': "hash_value hx' d' w = Inr p'" "ps' = p' # q'" "collect (map (hash_value hx' d') ws) = Inr q'"
      using Cons.prems(5) by (cases "hash_value hx' d' w") (auto split: sum.splits)
    have "p @ concat q @ r = p' @ concat q' @ r'" using Cons.prems(6) p(2) p'(2) by simp
    then have "v = w \<and> concat q @ r = concat q' @ r'"
      using Cons.prems(1-3) p(1) p'(1) Cons unfolding decodable_def by (simp, blast)
    with Cons.IH [of ws q q'] Cons.prems(1-3,7,8) p(3) p'(3) Cons show ?thesis by simp
  qed
qed

lemma all_decodable: "decodable v"
proof (induction v)
  case (HSeq vs)
  show ?case
    unfolding decodable_def
  proof (intro allI impI)
    fix hx d hx' d' w a b r r'
    assume h: "plain_value (HSeq vs)" "plain_value w" "hash_value hx d (HSeq vs) = Inr a" "hash_value hx' d' w = Inr b"
      "a @ r = b @ r'"
    obtain ps where ps: "collect (map (hash_value hx (Suc d)) vs) = Inr ps" "a = 91 # concat ps @ [93, 59]"
      using h(3) by (auto simp: hash_value.simps [of hx d] bs_chars split: if_splits sum.splits)
    have "hd b = 91" using h(5) ps(2) hash_starts [OF h(4)] by (cases b) auto
    then obtain ws where ws: "w = HSeq ws"
      using h(4) by (cases w) (auto simp: hash_value.simps [of hx' d'] bs_chars split: if_splits option.splits)
    then obtain qs where qs: "collect (map (hash_value hx' (Suc d')) ws) = Inr qs" "b = 91 # concat qs @ [93, 59]"
      using h(4) by (auto simp: hash_value.simps [of hx' d'] bs_chars split: if_splits sum.splits)
    have "concat ps @ 93 # 59 # r = concat qs @ 93 # 59 # r'" using h(5) ps(2) qs(2) by simp
    then have "vs = ws \<and> 93 # 59 # r = 93 # 59 # r'"
      by (intro decodable_list [OF _ _ _ ps(1) qs(1)]) (use HSeq h(1,2) ws in \<open>auto simp: list_all_iff closes_def\<close>)
    with ws show "HSeq vs = w \<and> r = r'" by simp
  qed
next
  case (HInt i)
  show ?case
    unfolding decodable_def
    by (intro allI impI, case_tac v')
      (auto simp: hash_value.simps bs_chars dest: decimal_prefix split: if_splits option.splits sum.splits)
next
  case (HStr s)
  show ?case
    unfolding decodable_def
    by (intro allI impI, case_tac v')
      (auto simp: hash_value.simps bs_chars dest!: sized_prefix dest: encode_strict_inj split: if_splits option.splits sum.splits)
next
  case (HBytes s)
  show ?case
    unfolding decodable_def
    by (intro allI impI, case_tac v')
      (auto simp: hash_value.simps bs_chars dest!: sized_prefix split: if_splits option.splits sum.splits)
next
  case (HBool x)
  show ?case
    unfolding decodable_def
    by (intro allI impI, case_tac v')
      (auto simp: hash_value.simps bs_chars split: if_splits option.splits sum.splits)
next
  case HNone
  show ?case
    unfolding decodable_def
    by (intro allI impI, case_tac v')
      (auto simp: hash_value.simps bs_chars split: if_splits option.splits sum.splits)
next
  case HOther
  show ?case by (simp add: decodable_def hash_value.simps)
next
  case (HFloat x)
  show ?case by (simp add: decodable_def)
qed

text \<open>
  C40: The stream that is hashed for a request determines the request: two streams made from a label and values without
  floats (as the agent, session, project and message of an identity are) are equal only if the labels and all the values
  are, so that no text can imitate the boundaries of another.
\<close>

theorem identity_stream_injective:
  assumes "hash_stream hx label vs = Inr b" and "hash_stream hx' label' vs' = Inr b"
    and "list_all plain_value vs" and "list_all plain_value vs'"
  shows "label = label' \<and> vs = vs'"
proof -
  obtain ps where ps: "collect (map (hash_value hx 0) (HStr label # vs)) = Inr ps" "b = concat ps"
    using assms(1) by (auto simp: hash_stream_def split: sum.splits)
  obtain qs where qs: "collect (map (hash_value hx' 0) (HStr label' # vs')) = Inr qs" "b = concat qs"
    using assms(2) by (auto simp: hash_stream_def split: sum.splits)
  have "HStr label # vs = HStr label' # vs' \<and> ([] :: bytes) = []"
    by (rule decodable_list [OF _ _ _ ps(1) qs(1)])
      (use assms(3,4) all_decodable ps(2) qs(2) in \<open>auto simp: list_all_iff closes_def\<close>)
  then show ?thesis by simp
qed

theorem identity_stream_injective_witness:
  "\<exists>b. hash_stream (\<lambda>_. []) (py ''target'') [HStr (py ''kimi''), HBytes [1]] = Inr b
    \<and> (\<forall>label vs. list_all plain_value vs \<longrightarrow> hash_stream (\<lambda>_. []) label vs = Inr b \<longrightarrow> label = py ''target'')"
proof -
  have "\<exists>b. hash_stream (\<lambda>_. []) (py ''target'') [HStr (py ''kimi''), HBytes [1]] = Inr b"
    by (simp add: hash_stream_def hash_value.simps encode_strict_def is_scalar_def is_surrogate_def py_def)
  then obtain b where b: "hash_stream (\<lambda>_. []) (py ''target'') [HStr (py ''kimi''), HBytes [1]] = Inr b" by blast
  have plain: "list_all plain_value [HStr (py ''kimi''), HBytes [1]]" by simp
  have "label = py ''target''" if "list_all plain_value vs" "hash_stream (\<lambda>_. []) label vs = Inr b" for label vs
    using identity_stream_injective [OF b that(2) plain that(1)] by simp
  with b show ?thesis by blast
qed

end
