(* ===== verification/Spec2Isabelle.thy ===== *)
theory Spec2Isabelle
  imports Bus Replay Scan Pool_Resume Json_Limits Archive Text_Utils Cluster Fleet_Buffer Daemon_Log
    Claude Copilot Kimi Registry Audit_Once Audit_Hash
begin

text \<open>
  \<^bold>\<open>Agent Sidecar: a verification library for its observation core.\<close>

  The sidecar watches the transcripts that coding agents leave on disk. Adapters discover sessions;
  the scanner (\<open>sidecar/scan.py\<close>) asks every adapter, gives each session a status through the state
  engine (\<open>sidecar/state.py\<close>) and keeps the latest session per key; the index (\<open>sidecar/index.py\<close>) tells
  which sessions changed; the tailer pool (\<open>sidecar/tailer_pool.py\<close>) owns one tailer
  (\<open>sidecar/tail.py\<close>) per recent session, reads new records and publishes normalized events on the bus
  (\<open>sidecar/bus.py\<close>); history is paged by \<open>sidecar/adapters/replay.py\<close>. Around this core stand a
  registry of archived sessions, clustering of snapshots, a buffer for remote watches, text redaction,
  the daemon's own log, and the audit that grants every message to an agent at most once. The adapters
  (\<open>sidecar/adapters\<close>) know the formats of the vendors.

  \<^bold>\<open>Theories and what they model\<close>

  \<^item> \<open>Prelude\<close>, \<open>PyValue\<close>, \<open>Py_Text\<close>, \<open>Py_Float\<close>, \<open>Utf8\<close>, \<open>Json\<close>, \<open>Json_Dump\<close>: the Python values, texts,
    numbers, UTF-8 and \<open>json\<close> functions the sources use, with the laws the components need.
    \<open>Json_Roundtrip\<close> proves that \<open>json.loads\<close> reads what \<open>json.dumps\<close> writes, under any hooks that keep the
    values; \<open>Json_Ascii\<close> specializes it to the flat records of the logs. \<open>Lines\<close> is the reference reading of a
    byte stream as bounded JSONL lines.
  \<^item> \<open>Model\<close>: sessions, events and their JSON form (\<open>sidecar/model.py\<close>).
  \<^item> \<open>Bus\<close>: subscriptions and the event bus; \<open>bus_step\<close> cuts the operations where the code releases a lock.
  \<^item> \<open>Tail\<close>, \<open>Session_Tailer\<close>: the JSONL follower and the session tailer of \<open>sidecar/tail.py\<close>.
  \<^item> \<open>Replay\<close>: \<open>replay_jsonl_events\<close> with its budgets.
  \<^item> \<open>Index\<close>: the incremental index.
  \<^item> \<open>Readers\<close>, \<open>Content\<close>: the helpers of \<open>sidecar/adapters/base.py\<close>; \<open>Content\<close> holds the text, content-block
    and file-walking helpers the adapters share.
  \<^item> \<open>Claude\<close>, \<open>Copilot\<close>, \<open>Kimi\<close>: the adapters of three vendors: discovery of sessions (Claude with its cache,
    Copilot with its YAML scalars), normalization of records to events, and the deduplication of Kimi's
    mirrored records. \<open>Registry\<close>: the table of adapters (\<open>sidecar/adapters/__init__.py\<close>).
  \<^item> \<open>State\<close>, \<open>Scan\<close>: status inference and the scanner.
  \<^item> \<open>Tailer_Pool\<close>, \<open>Pool_Resume\<close>: the pool over any tailer, and on the tailers of \<open>Session_Tailer\<close>.
  \<^item> \<open>Json_Limits\<close>: bounded strict JSON (\<open>sidecar/json_limits.py\<close>).
  \<^item> \<open>Archive\<close>: the archive registry (\<open>sidecar/archive.py\<close>): thresholds, targets, selection, the registry
    file, and the operations \<open>archive\<close>, \<open>unarchive\<close>, \<open>unarchive_all\<close> and \<open>partition\<close>.
  \<^item> \<open>Text_Utils\<close>: scalar normalization, message redaction and Cursor titles (\<open>sidecar/text_utils.py\<close>).
  \<^item> \<open>Cluster\<close>: clustering and merging of snapshots (\<open>sidecar/cluster.py\<close>).
  \<^item> \<open>Fleet_Buffer\<close>: the buffer of a remote watch (\<open>_FleetBuffer\<close> in \<open>sidecar/remote_watch.py\<close>);
    \<open>fleet_step\<close> interleaves the host threads, the reader and a cancellation.
  \<^item> \<open>Daemon_Log\<close>: records, validation, repair, rotation and appending of \<open>sidecar/daemon_log.py\<close>.

  \<^item> \<open>Send_Audit\<close>, \<open>Audit_Store\<close>, \<open>Audit_Receipts\<close>, \<open>Audit_Once\<close>, \<open>Audit_Hash\<close>: the send audit
    (\<open>sidecar/send_audit.py\<close>): its records, their encoding and histories; the two logs with recovery, rotation,
    \<open>reserve\<close> and \<open>append_terminal\<close>; what a call leaves for the next; what stays on record without a rotation; the byte stream of an identity. An operation of the store
    is a \<open>step\<close> over the files and the answers of the operating system; \<open>holds\<close> is a triple over steps.

  Each source class is a \<open>record\<close>, each method a definition of the same name (without its leading
  underscore, with a suffix where HOL has the name), local loops are recursive functions over the same
  variables. A \<open>raise\<close> is the left side of a sum; a state-changing call returns the changed state also when it
  raises, where the code leaves changes behind.

  \<^bold>\<open>Interfaces\<close>

  \<^item> \<open>keeps_newest\<close> (a bounded sequence that drops its oldest entries): bus queues, tailer diagnostics.
  \<^item> \<open>invariant_of\<close> (a step relation with an inductive invariant): the bus, the pool, the fleet buffer.
  \<^item> \<open>chunk_reader\<close> (a reader of chunks is the byte-wise reference machine): the follower, the replay.
  \<^item> \<open>latest_by\<close> (the latest entry per key wins): the index and the scanner.
  \<^item> \<open>session_normalizer\<close> and its extension \<open>one_line_normalizer\<close> (what the tailer asks of an adapter's
    \<open>normalize\<close>): the normalizers of Claude, Copilot and Kimi.
  \<^item> \<open>resumable\<close> (a checkpoint restores the cursor it was taken at): what the pool relies on, met by the
    session tailer.

  \<^bold>\<open>What the theorems show\<close>

  \<^item> Reading: the follower delivers exactly the complete bounded lines of a growing file, however its reads cut
    them, catches up in finitely many polls, and a checkpoint continues at the same place; pages of a replay
    are complete and without repetition; DSH records are delivered once and pages drained.
  \<^item> State and scan: the number of open tools, the monotone calming-down of a quiet session, the terminal scan
    against its specification; a scan reports the latest version of each session, and a broken adapter costs
    its own sessions only.
  \<^item> Ownership: in every reachable state the pool's tables agree and each tailer is closed once or owned; a
    refresh reconciles pool and snapshot; a session that comes back resumes where it stopped.
  \<^item> Queues: bus and fleet queues stay within their bounds under every interleaving; per host nothing is lost or
    reordered, waiting puts make progress, and draining is fair.
  \<^item> Persistence: the archive is durable, a snapshot is split exactly by it; every line of the daemon log passes
    its own validation, and whatever I/O failures happen the log can be opened again.
  \<^item> Sending: a request identifier is granted once, whatever calls come in between and whatever file operations
    fail, unless a failing write stops exactly at a line end; every successful call leaves the receipt that a later call
    for the same identity gets; as long as the current log has room, no sequence of calls grants a request twice, ended
    or not; identities are hashed injectively.
  \<^item> Text and JSON: bounded JSON accepts exactly the values within the bounds and agrees with \<open>json.loads\<close>;
    redaction leaves no form of the message; sanitized text is inert; titles are the first query.
  \<^item> Adapters: a cached discovery reports what a fresh one would, when equal file signatures mean equal contents;
    discovered sessions are sound and never their own parent; a tailer that uses an adapter delivers that
    adapter's events of the complete lines; quoted YAML scalars read back; deduplication drops only records
    that mirror one already delivered.
  \<^item> Grouping: clusters are exactly the groups of their rows, and merging adds their counts.

  \<^bold>\<open>Bounds, fuel and abstractions\<close>

  \<^item> The JSON scanner runs on fuel; \<open>json_enough_fuel\<close> shows that twice the length of the input and two more are enough, which
    is what \<open>json_loads\<close> gives it. The traversal of \<open>validate_json\<close> is a terminating function. All other loops
    are total.
  \<^item> A finite float is an exact rational number: rounding is not modelled. Times are rationals.
  \<^item> What is outside the sources is an argument: the file system, the clock, SHA-256, \<open>float\<close> and date parsing on
    texts, the Unicode tables outside ASCII, the iteration order of sets, adapters, and what the operating system
    answers to each file operation. Theorems that need them to behave name that as hypotheses
    (\<open>sound_env\<close>, \<open>sound_now\<close>, \<open>storable\<close>, \<open>recordable\<close>, \<open>aligned\<close>, \<open>stable\<close>, \<open>sound_audit\<close>, \<open>ragged\<close>), and each has an
    instance.
  \<^item> In \<open>Daemon_Log\<close> the owner, mode, link-count and identity checks of directory entries are one answer
    \<open>li_safe\<close>; in \<open>Archive\<close> the atomic replacement of the file succeeds or fails as a whole.

  \<^bold>\<open>Not modelled\<close>

  The Codex, Cursor and DSH adapters and Kimi's discovery: they read SQLite databases or large vendor-specific
  trees; the scanner and the tailers take an adapter as an argument. Of the send audit the namespace (anchors, marker
  and key) and the commands that reset and rebind it; message injection around it (\<open>sidecar/inject.py\<close>) and the remote
  transport; process execution, sockets, HTTP,
  service managers, the command line and the terminal interface, which are calls of the operating system and
  rendering; \<open>sidecar/semantic.py\<close>, which is regular expressions around an external model. Of
  \<open>sidecar/remote_watch.py\<close> the session that starts threads and SSH streams is left out.
\<close>

end
